(* ===== verification/Prelude.thy ===== *)
theory Prelude
  imports Main "HOL-Library.Word" "HOL-Library.Monad_Syntax" "HOL-Library.Multiset"
    "HOL-Library.Sublist" "HOL-Library.Char_ord" "HOL-Library.List_Lexorder"
begin

text \<open>
  Shared vocabulary of the development: the machine integer types of the C sources, the
  byte order conversions that both the ext2 reader and the xv6 file systems rely on, C string
  comparison, and the generic facts on words, lists and options that the components use.

  Conventions used throughout.  A C \<^verbatim>\<open>uint8_t/uint16_t/uint32_t/uint64_t\<close> is a word of that
  width, so that \<open>+\<close>, \<open>-\<close> and \<open>*\<close> wrap as in C.  A function that can fail returns \<open>option\<close>
  or a sum; in the kernel components \<open>None\<close> stands for a call of \<^verbatim>\<open>panic\<close>, which does not return.
\<close>

unbundle bit_operations_syntax

type_synonym u8 = "8 word"
type_synonym u16 = "16 word"
type_synonym u32 = "32 word"
type_synonym u64 = "64 word"

named_theorems word_nat \<open>rules that read word arithmetic as arithmetic on nat\<close>
named_theorems bounds \<open>range facts of the components\<close>
named_theorems frame \<open>what an operation leaves unchanged\<close>

subsection \<open>Words read as naturals\<close>

lemma unat_add_nowrap:
  "unat a + unat b < 2 ^ LENGTH('a) \<Longrightarrow> unat (a + b) = unat a + unat (b :: 'a::len word)"
  by (simp add: unat_word_ariths)

lemma unat_mult_nowrap:
  "unat a * unat b < 2 ^ LENGTH('a) \<Longrightarrow> unat (a * b) = unat a * unat (b :: 'a::len word)"
  by (simp add: unat_word_ariths)

lemma unat_sub_le: "b \<le> a \<Longrightarrow> unat (a - b) = unat a - unat (b :: 'a::len word)"
  by (metis unat_sub)

lemma unat_lt_word [word_nat]: "a < b \<longleftrightarrow> unat a < unat (b :: 'a::len word)"
  by (rule word_less_nat_alt)

lemma unat_le_word [word_nat]: "a \<le> b \<longleftrightarrow> unat a \<le> unat (b :: 'a::len word)"
  by (rule word_le_nat_alt)

lemma unat_div_word [word_nat]: "unat (a div b) = unat a div unat (b :: 'a::len word)"
  by (rule unat_div)

lemma unat_mod_word [word_nat]: "unat (a mod b) = unat a mod unat (b :: 'a::len word)"
  by (rule unat_mod)

lemma unat_eq_zero_iff [word_nat]: "(a :: 'a::len word) = 0 \<longleftrightarrow> unat a = 0"
  by (simp add: unat_eq_0)

lemma unat_and_mask:
  "unat (w AND mask n :: 'a::len word) = unat w mod 2 ^ n"
proof -
  have "w AND mask n = take_bit n w" by (simp add: take_bit_eq_mask)
  moreover have "unat (take_bit n w) = take_bit n (unat w)"
    by (simp add: unsigned_take_bit_eq)
  ultimately show ?thesis by (simp add: take_bit_eq_mod)
qed

lemma unat_drop_bit_div: "unat (drop_bit n (w :: 'a::len word)) = unat w div 2 ^ n"
  using unat_drop_bit_eq [of n w] by (simp add: drop_bit_eq_div [where 'a = nat])

lemma unat_ucast_up:
  "LENGTH('a) \<le> LENGTH('b) \<Longrightarrow> unat (ucast (w :: 'a::len word) :: 'b::len word) = unat w"
  by (simp add: unsigned_ucast_eq take_bit_nat_eq_self
      order.strict_trans2 [OF unsigned_less])

lemma word_of_unat: "unat w = k \<Longrightarrow> word_of_nat k = (w :: 'a::len word)"
  by auto

lemma unat_of_nat_lt: "n < 2 ^ LENGTH('a) \<Longrightarrow> unat (word_of_nat n :: 'a::len word) = n"
  by (simp add: unat_of_nat take_bit_nat_eq_self)

lemma sint_below: "(n :: u32) < 0x80000000 \<Longrightarrow> sint n = uint n"
proof -
  assume "n < 0x80000000"
  then have "uint n + 2147483648 < 4294967296" by (simp add: word_less_def)
  moreover have "sint n = (uint n + 2147483648) mod 4294967296 - 2147483648"
    by (simp add: sint_uint signed_take_bit_eq_take_bit_shift take_bit_eq_mod)
  ultimately show ?thesis by (simp add: mod_pos_pos_trivial)
qed

subsection \<open>Little-endian bytes\<close>

text \<open>The four bytes of a 32-bit value, least significant first, and the value they spell.\<close>

definition le16_bytes :: "u16 \<Rightarrow> u8 list" where
  "le16_bytes w = [ucast w, ucast (drop_bit 8 w)]"

definition le32_bytes :: "u32 \<Rightarrow> u8 list" where
  "le32_bytes w = [ucast w, ucast (drop_bit 8 w), ucast (drop_bit 16 w), ucast (drop_bit 24 w)]"

definition of_le16 :: "u8 \<Rightarrow> u8 \<Rightarrow> u16" where
  "of_le16 b0 b1 = ucast b0 OR push_bit 8 (ucast b1)"

definition of_le32 :: "u8 \<Rightarrow> u8 \<Rightarrow> u8 \<Rightarrow> u8 \<Rightarrow> u32" where
  "of_le32 b0 b1 b2 b3 =
     ucast b0 OR push_bit 8 (ucast b1) OR push_bit 16 (ucast b2) OR push_bit 24 (ucast b3)"

lemma length_le_bytes [simp]: "length (le16_bytes h) = 2" "length (le32_bytes w) = 4"
  by (simp_all add: le16_bytes_def le32_bytes_def)

lemma of_le32_bytes [simp]:
  "of_le32 (ucast w) (ucast (drop_bit 8 w)) (ucast (drop_bit 16 w)) (ucast (drop_bit 24 w)) = w"
  by (rule bit_word_eqI)
    (auto simp: of_le32_def bit_simps less_diff_conv intro: ccontr)

lemma of_le16_bytes [simp]: "of_le16 (ucast w) (ucast (drop_bit 8 w)) = w"
  by (rule bit_word_eqI) (auto simp: of_le16_def bit_simps intro: ccontr)

lemma of_le32_zero [simp]: "of_le32 0 0 0 0 = 0"
  by (simp add: of_le32_def)

subsection \<open>C strings\<close>

text \<open>
  A NUL-terminated string is the list of its bytes without the terminator.  \<^verbatim>\<open>strcmp\<close> compares
  the bytes as unsigned values; a proper prefix is smaller.
\<close>

fun strcmp_le :: "u8 list \<Rightarrow> u8 list \<Rightarrow> bool" where
  "strcmp_le [] _ = True"
| "strcmp_le (_ # _) [] = False"
| "strcmp_le (x # xs) (y # ys) = (x < y \<or> (x = y \<and> strcmp_le xs ys))"

lemma strcmp_le_refl [simp]: "strcmp_le s s"
  by (induction s) auto

lemma strcmp_le_total: "strcmp_le s t \<or> strcmp_le t s"
  by (induction s t rule: strcmp_le.induct) auto

lemma strcmp_le_trans: "strcmp_le s t \<Longrightarrow> strcmp_le t u \<Longrightarrow> strcmp_le s u"
proof (induction s u arbitrary: t rule: strcmp_le.induct)
  case (3 x xs y ys)
  then show ?case by (cases t) auto
next
  case (2 x xs)
  then show ?case by (cases t) auto
qed auto

lemma strcmp_le_Nil [simp]: "strcmp_le s [] \<longleftrightarrow> s = []"
  by (cases s) auto

lemma strcmp_le_antisym: "strcmp_le s t \<Longrightarrow> strcmp_le t s \<Longrightarrow> s = t"
  by (induction s t rule: strcmp_le.induct) auto

definition bytes_of :: "string \<Rightarrow> u8 list" where
  "bytes_of s = map (\<lambda>c. word_of_nat (of_char c)) s"

subsection \<open>Lists and options\<close>

lemma bind_Some_iff: "(Option.bind m f = Some y) = (\<exists>x. m = Some x \<and> f x = Some y)"
  by (cases m) auto

lemma sorted_wrt_insert_middle:
  assumes "sorted_wrt R (xs @ ys)" "\<And>x. x \<in> set xs \<Longrightarrow> R x a" "\<And>y. y \<in> set ys \<Longrightarrow> R a y"
  shows "sorted_wrt R (xs @ a # ys)"
  using assms by (auto simp: sorted_wrt_append)

lemma take_length_take [simp]: "take (length (take m xs)) xs = take m xs"
  by (simp add: min_def)

lemma take_map_upt: "n \<le> m \<Longrightarrow> take n (map f [0..<m]) = map f [0..<n]"
  by (simp add: take_map)

lemma concat_map_take_length:
  "(\<And>x. x \<in> set xs \<Longrightarrow> length (f x) = k) \<Longrightarrow> length (concat (map f xs)) = k * length xs"
  by (induction xs) auto

subsection \<open>The interface of a bit table\<close>

text \<open>
  A table of bits stored in bytes: the tree printer's visited map and the file systems' free block
  maps are used through these operations only.  \<open>ok m i\<close> says that bit \<open>i\<close> lies inside the table.
\<close>

locale bit_table =
  fixes test :: "'m \<Rightarrow> 'i \<Rightarrow> bool" and mark :: "'m \<Rightarrow> 'i \<Rightarrow> 'm" and ok :: "'m \<Rightarrow> 'i \<Rightarrow> bool"
  assumes test_mark: "ok m i \<Longrightarrow> ok m j \<Longrightarrow> test (mark m i) j \<longleftrightarrow> i = j \<or> test m j"
    and ok_mark: "ok m i \<Longrightarrow> ok (mark m i) j \<longleftrightarrow> ok m j"
begin

lemma mark_mono: "ok m i \<Longrightarrow> ok m j \<Longrightarrow> test m j \<Longrightarrow> test (mark m i) j"
  by (simp add: test_mark)

lemma mark_all:
  "(\<And>i. i \<in> set is \<Longrightarrow> ok m i) \<Longrightarrow> ok m j \<Longrightarrow> test (fold (\<lambda>i m. mark m i) is m) j \<longleftrightarrow> j \<in> set is \<or> test m j"
  by (induction "is" arbitrary: m) (auto simp: test_mark ok_mark)

end

lemma bit_index_eq:
  "(i div 8 = j div 8 \<and> i mod 8 = j mod (8 :: nat)) \<longleftrightarrow> i = j"
  by (metis div_mult_mod_eq)

lemma and_bit_test: "(w AND push_bit k 1 \<noteq> (0 :: 'a::len word)) \<longleftrightarrow> bit w k"
proof (cases "bit w k")
  case True
  then have "bit (w AND push_bit k 1) k" by (auto simp: bit_simps dest: bit_imp_le_length)
  then have "w AND push_bit k 1 \<noteq> 0" by (metis bit_0_eq bot_apply bot_bool_def)
  with True show ?thesis by simp
next
  case False
  then have "w AND push_bit k 1 = 0" by (intro bit_word_eqI) (auto simp: bit_simps)
  with False show ?thesis by simp
qed

end
