(* ===== verification/Ext2_Image.thy ===== *)
theory Ext2_Image
  imports Prelude
begin

text \<open>
  The on-disk layer of \<^verbatim>\<open>ssu_ext2/ssu_ext2.c\<close>: bounded reads of the image file, the superblock and
  group descriptor checks of \<^verbatim>\<open>ext2_open\<close>, inode decoding, and the translation of a logical file
  block through direct, single, double and triple indirection.

  The open image file is the list \<open>img\<close> of its bytes; \<open>can_alloc\<close> says for which sizes the C
  allocator succeeds, so that the out-of-memory branches are part of the model, and \<open>preads\<close> what the
  operating system answers to the calls of \<^verbatim>\<open>pread\<close> that a read of a range makes: short counts,
  interruptions, errors.  A C function that returns 0 on failure is \<open>None\<close>.
\<close>

subsection \<open>Data\<close>

record Ext2Inode =
  mode :: u16
  size_low :: u32
  size_high :: u32
  iblocks :: "u32 list"

datatype pread_result = Eintr | IoError | Amount nat

record Ext2Fs =
  img :: "u8 list"
  can_alloc :: "u64 \<Rightarrow> bool"
  preads :: "u64 \<Rightarrow> nat \<Rightarrow> pread_result list"
  image_size :: u64
  inodes_count :: u32
  blocks_count :: u32
  first_data_block :: u32
  block_size :: u32
  blocks_per_group :: u32
  inodes_per_group :: u32
  inode_size :: u16
  groups_count :: u32
  inode_tables :: "u32 list"

datatype host_file = Missing | NotRegular | Regular "u8 list"

datatype open_error =
    CannotOpen | NotRegularImage | TooSmall | NotExt2 | BadBlockSizeExponent u32
  | BadGeometry | UnsupportedFeatures u32 | GeometryExceedsImage | BadGroupCount
  | OutOfMemory | CannotReadDescriptor u32 | InvalidInodeTable u32

abbreviation "EXT2_SUPER_OFFSET \<equiv> (1024 :: nat)"
abbreviation "EXT2_SUPER_SIZE \<equiv> (1024 :: nat)"
abbreviation "EXT2_SUPER_MAGIC \<equiv> (0xEF53 :: u16)"
abbreviation "EXT2_ROOT_INODE \<equiv> (2 :: u32)"
abbreviation "EXT2_GOOD_OLD_INODE_SIZE \<equiv> (128 :: nat)"
abbreviation "EXT2_GROUP_DESC_SIZE \<equiv> (32 :: nat)"
abbreviation "EXT2_NDIR_BLOCKS \<equiv> (12 :: u64)"
abbreviation "EXT2_N_BLOCKS \<equiv> (15 :: nat)"
abbreviation "EXT2_S_IFMT \<equiv> (0xF000 :: u16)"
abbreviation "EXT2_S_IFREG \<equiv> (0x8000 :: u16)"
abbreviation "EXT2_S_IFDIR \<equiv> (0x4000 :: u16)"

subsection \<open>Bytes\<close>

definition read_le16 :: "u8 list \<Rightarrow> u16" where
  "read_le16 bytes = of_le16 (bytes ! 0) (bytes ! 1)"

definition read_le32 :: "u8 list \<Rightarrow> u32" where
  "read_le32 bytes = of_le32 (bytes ! 0) (bytes ! 1) (bytes ! 2) (bytes ! 3)"

text \<open>
  The transfer loop of \<^verbatim>\<open>image_read\<close>, with one answer of the operating system per call of \<^verbatim>\<open>pread\<close>:
  interrupted, failed, or at most so many bytes, fewer when the file ends and none at its end.
  After the answers given, \<^verbatim>\<open>pread\<close> delivers all that is left of the range in the file.
\<close>

fun image_read_loop :: "u8 list \<Rightarrow> nat \<Rightarrow> nat \<Rightarrow> u8 list \<Rightarrow> pread_result list \<Rightarrow> u8 list option" where
  "image_read_loop file offset sz buffer script =
     (if length buffer < sz then
        (case script of
           [] \<Rightarrow>
             let bytes = buffer @ take (sz - length buffer) (drop (offset + length buffer) file)
             in if length bytes = sz then Some bytes else None
         | Eintr # rest \<Rightarrow> image_read_loop file offset sz buffer rest
         | IoError # rest \<Rightarrow> None
         | Amount k # rest \<Rightarrow>
             let got = take (min k (sz - length buffer)) (drop (offset + length buffer) file)
             in if got = [] then None
                else image_read_loop file offset sz (buffer @ got) rest)
      else Some buffer)"

definition image_read :: "Ext2Fs \<Rightarrow> u64 \<Rightarrow> nat \<Rightarrow> u8 list option" where
  "image_read fs offset sz =
     (if offset > image_size fs \<or> sz > unat (image_size fs - offset) \<or> offset > 0x7FFFFFFFFFFFFFFF
      then None
      else image_read_loop (img fs) (unat offset) sz [] (preads fs offset sz))"

declare image_read_loop.simps [simp del]

definition ceil_div_u32 :: "u32 \<Rightarrow> u32 \<Rightarrow> u32" where
  "ceil_div_u32 value divisor = value div divisor + (if value mod divisor \<noteq> 0 then 1 else 0)"

subsection \<open>Opening an image\<close>

text \<open>The loop over the group descriptors: \<open>n\<close> groups are left, the next one is \<open>grp\<close>.\<close>

fun load_inode_tables :: "Ext2Fs \<Rightarrow> u64 \<Rightarrow> u32 \<Rightarrow> nat \<Rightarrow> open_error + u32 list" where
  "load_inode_tables fs descriptor_offset grp 0 = Inr []"
| "load_inode_tables fs descriptor_offset grp (Suc n) =
     (case image_read fs (descriptor_offset + ucast grp * 32) EXT2_GROUP_DESC_SIZE of
        None \<Rightarrow> Inl (CannotReadDescriptor grp)
      | Some descriptor \<Rightarrow>
          let table = read_le32 (drop 8 descriptor)
          in if table = 0 \<or> table \<ge> blocks_count fs then Inl (InvalidInodeTable grp)
             else (case load_inode_tables fs descriptor_offset (grp + 1) n of
                     Inl e \<Rightarrow> Inl e
                   | Inr tables \<Rightarrow> Inr (table # tables)))"

text \<open>
  The geometry fields read from the superblock; \<open>fs_zero\<close> is the cleared structure with only the
  file behind it, \<open>fs_of_super\<close> has the fields the superblock gives.
\<close>

definition fs_zero :: "(u64 \<Rightarrow> bool) \<Rightarrow> (u64 \<Rightarrow> nat \<Rightarrow> pread_result list) \<Rightarrow> u8 list \<Rightarrow> Ext2Fs" where
  "fs_zero alloc os file =
     \<lparr>img = file, can_alloc = alloc, preads = os, image_size = word_of_nat (length file),
      inodes_count = 0, blocks_count = 0, first_data_block = 0, block_size = 0,
      blocks_per_group = 0, inodes_per_group = 0, inode_size = 0, groups_count = 0,
      inode_tables = []\<rparr>"

definition fs_of_super :: "Ext2Fs \<Rightarrow> u8 list \<Rightarrow> Ext2Fs" where
  "fs_of_super fs super =
     (let revision = read_le32 (drop 76 super);
          isz = (if revision = 0 then 128 else read_le16 (drop 88 super))
      in fs\<lparr>inodes_count := read_le32 (drop 0 super),
            blocks_count := read_le32 (drop 4 super),
            first_data_block := read_le32 (drop 20 super),
            block_size := push_bit (unat (read_le32 (drop 24 super))) 1024,
            blocks_per_group := read_le32 (drop 32 super),
            inodes_per_group := read_le32 (drop 40 super),
            inode_size := (if isz = 0 then 128 else isz)\<rparr>)"

definition bad_geometry :: "Ext2Fs \<Rightarrow> bool" where
  "bad_geometry fs \<longleftrightarrow>
     inodes_count fs < EXT2_ROOT_INODE \<or> blocks_count fs = 0 \<or>
     blocks_per_group fs = 0 \<or> inodes_per_group fs = 0 \<or>
     first_data_block fs \<ge> blocks_count fs \<or>
     inode_size fs < 128 \<or> ucast (inode_size fs) > block_size fs \<or>
     inode_size fs mod 4 \<noteq> 0"

definition exceeds_image :: "Ext2Fs \<Rightarrow> bool" where
  "exceeds_image fs \<longleftrightarrow>
     (ucast (blocks_count fs) :: u64) * ucast (block_size fs) > image_size fs \<or>
     (ucast (inodes_count fs) :: u64) > image_size fs div 128 + 1"

definition count_groups :: "Ext2Fs \<Rightarrow> u32" where
  "count_groups fs =
     (let block_groups = ceil_div_u32 (blocks_count fs - first_data_block fs) (blocks_per_group fs);
          inode_groups = ceil_div_u32 (inodes_count fs) (inodes_per_group fs)
      in if block_groups > inode_groups then block_groups else inode_groups)"

definition ext2_open :: "(u64 \<Rightarrow> bool) \<Rightarrow> (u64 \<Rightarrow> nat \<Rightarrow> pread_result list) \<Rightarrow> host_file \<Rightarrow> open_error + Ext2Fs" where
  "ext2_open alloc os f =
     (case f of
        Missing \<Rightarrow> Inl CannotOpen
      | NotRegular \<Rightarrow> Inl NotRegularImage
      | Regular file \<Rightarrow>
          let fs = fs_zero alloc os file in
          if sint (image_size fs) < int (EXT2_SUPER_OFFSET + EXT2_SUPER_SIZE) then Inl TooSmall else
          (case image_read fs (word_of_nat EXT2_SUPER_OFFSET) EXT2_SUPER_SIZE of
            None \<Rightarrow> Inl TooSmall
          | Some super \<Rightarrow>
              if read_le16 (drop 56 super) \<noteq> EXT2_SUPER_MAGIC then Inl NotExt2 else
              let fs = fs_of_super fs super;
                  log_block_size = read_le32 (drop 24 super);
                  feature_incompat = read_le32 (drop 96 super)
              in
              if log_block_size > 6 then Inl (BadBlockSizeExponent log_block_size) else
              if bad_geometry fs then Inl BadGeometry else
              if feature_incompat AND NOT 2 \<noteq> 0
              then Inl (UnsupportedFeatures (feature_incompat AND NOT 2)) else
              if exceeds_image fs then Inl GeometryExceedsImage else
              let fs = fs\<lparr>groups_count := count_groups fs\<rparr> in
              if groups_count fs = 0 then Inl BadGroupCount else
              if \<not> alloc (ucast (groups_count fs) * 4) then Inl OutOfMemory else
              (case load_inode_tables fs
                      (ucast (first_data_block fs + 1) * ucast (block_size fs)) 0
                      (unat (groups_count fs)) of
                 Inl e \<Rightarrow> Inl e
               | Inr tables \<Rightarrow> Inr (fs\<lparr>inode_tables := tables\<rparr>))))"

subsection \<open>Inodes and block addressing\<close>

definition decode_inode :: "u8 list \<Rightarrow> Ext2Inode" where
  "decode_inode raw =
     \<lparr>mode = read_le16 raw,
      size_low = read_le32 (drop 4 raw),
      size_high = read_le32 (drop 108 raw),
      iblocks = map (\<lambda>i. read_le32 (drop (40 + i * 4) raw)) [0..<EXT2_N_BLOCKS]\<rparr>"

definition ext2_read_inode :: "Ext2Fs \<Rightarrow> u32 \<Rightarrow> Ext2Inode option" where
  "ext2_read_inode fs inode_number =
     (if inode_number = 0 \<or> inode_number > inodes_count fs then None else
      let grp = (inode_number - 1) div inodes_per_group fs;
          index = (inode_number - 1) mod inodes_per_group fs
      in
      if grp \<ge> groups_count fs then None else
      let offset = ucast (inode_tables fs ! unat grp) * ucast (block_size fs) +
                   ucast index * ucast (inode_size fs)
      in do {
        raw \<leftarrow> image_read fs offset EXT2_GOOD_OLD_INODE_SIZE;
        Some (decode_inode raw)
      })"

definition ext2_inode_size :: "Ext2Inode \<Rightarrow> u64" where
  "ext2_inode_size inode =
     (if mode inode AND EXT2_S_IFMT = EXT2_S_IFREG
      then ucast (size_low inode) OR push_bit 32 (ucast (size_high inode))
      else ucast (size_low inode))"

definition ext2_read_pointer :: "Ext2Fs \<Rightarrow> u32 \<Rightarrow> u64 \<Rightarrow> u32 option" where
  "ext2_read_pointer fs pointer_block index =
     (if pointer_block = 0 then Some 0 else
      if pointer_block \<ge> blocks_count fs \<or> index \<ge> ucast (block_size fs div 4) then None else
      do {
        raw \<leftarrow> image_read fs (ucast pointer_block * ucast (block_size fs) + index * 4) 4;
        (let value = read_le32 raw in if value \<ge> blocks_count fs then None else Some value)
      })"

definition ext2_data_block :: "Ext2Fs \<Rightarrow> Ext2Inode \<Rightarrow> u64 \<Rightarrow> u32 option" where
  "ext2_data_block fs inode logical_block =
     (let per_block = ucast (block_size fs div 4) :: u64;
          double_count = per_block * per_block
      in
      if logical_block < EXT2_NDIR_BLOCKS then
        (let physical = iblocks inode ! unat logical_block
         in if physical < blocks_count fs then Some physical else None)
      else let logical_block = logical_block - EXT2_NDIR_BLOCKS in
      if logical_block < per_block then
        ext2_read_pointer fs (iblocks inode ! 12) logical_block
      else let logical_block = logical_block - per_block in
      if logical_block < double_count then do {
        first \<leftarrow> ext2_read_pointer fs (iblocks inode ! 13) (logical_block div per_block);
        ext2_read_pointer fs first (logical_block mod per_block)
      }
      else let logical_block = logical_block - double_count in
      if per_block > 0xFFFFFFFFFFFFFFFF div double_count then None else
      if logical_block \<ge> per_block * double_count then None else do {
        first \<leftarrow> ext2_read_pointer fs (iblocks inode ! 14) (logical_block div double_count);
        let logical_block = logical_block mod double_count;
        second \<leftarrow> ext2_read_pointer fs first (logical_block div per_block);
        ext2_read_pointer fs second (logical_block mod per_block)
      })"

subsection \<open>Reference definitions and the invariant of an open image\<close>

text \<open>
  What \<^verbatim>\<open>ext2_open\<close> establishes: a power-of-two block size, a block range inside the file, one
  inode table in range for each group, and enough groups for every inode number.
\<close>

definition ext2_wf :: "Ext2Fs \<Rightarrow> bool" where
  "ext2_wf fs \<longleftrightarrow>
     (\<exists>k\<le>6. unat (block_size fs) = 1024 * 2 ^ k) \<and>
     unat (image_size fs) = length (img fs) \<and> length (img fs) < 2 ^ 63 \<and>
     0 < blocks_count fs \<and>
     unat (blocks_count fs) * unat (block_size fs) \<le> length (img fs) \<and>
     EXT2_ROOT_INODE \<le> inodes_count fs \<and> 0 < inodes_per_group fs \<and>
     unat (inodes_count fs) \<le> unat (groups_count fs) * unat (inodes_per_group fs) \<and>
     128 \<le> unat (inode_size fs) \<and> unat (inode_size fs) \<le> unat (block_size fs) \<and>
     length (inode_tables fs) = unat (groups_count fs) \<and>
     (\<forall>t \<in> set (inode_tables fs). 0 < t \<and> t < blocks_count fs)"

text \<open>
  When a read of \<open>sz\<close> bytes fails: an answer that is an error or no bytes comes before the counts add up.
\<close>

fun amount_of :: "pread_result \<Rightarrow> nat" where
  "amount_of (Amount k) = k"
| "amount_of _ = 0"

definition pread_fails :: "nat \<Rightarrow> pread_result list \<Rightarrow> bool" where
  "pread_fails sz script \<longleftrightarrow>
     (\<exists>i < length script. script ! i \<in> {IoError, Amount 0} \<and> sum_list (map amount_of (take i script)) < sz)"

abbreviation io_error :: "Ext2Fs \<Rightarrow> u64 \<Rightarrow> nat \<Rightarrow> bool" where
  "io_error fs offset sz \<equiv> pread_fails sz (preads fs offset sz)"

text \<open>
  The position of a logical block in the inode's pointer tree, as plain arithmetic on naturals:
  \<open>per\<close> pointers fit in one block.
\<close>

datatype tree_path = Direct nat | Single nat | Double nat nat | Triple nat nat nat

definition logical_path :: "nat \<Rightarrow> nat \<Rightarrow> tree_path option" where
  "logical_path per n =
     (if n < 12 then Some (Direct n)
      else if n < 12 + per then Some (Single (n - 12))
      else if n < 12 + per + per ^ 2 then
        Some (Double ((n - 12 - per) div per) ((n - 12 - per) mod per))
      else if n < 12 + per + per ^ 2 + per ^ 3 then
        (let m = n - 12 - per - per ^ 2
         in Some (Triple (m div per ^ 2) (m mod per ^ 2 div per) (m mod per)))
      else None)"

fun path_in_range :: "nat \<Rightarrow> tree_path \<Rightarrow> bool" where
  "path_in_range per (Direct i) = (i < 12)"
| "path_in_range per (Single i) = (i < per)"
| "path_in_range per (Double i j) = (i < per \<and> j < per)"
| "path_in_range per (Triple i j k) = (i < per \<and> j < per \<and> k < per)"

fun path_index :: "nat \<Rightarrow> tree_path \<Rightarrow> nat" where
  "path_index per (Direct i) = i"
| "path_index per (Single i) = 12 + i"
| "path_index per (Double i j) = 12 + per + i * per + j"
| "path_index per (Triple i j k) = 12 + per + per ^ 2 + (i * per ^ 2 + j * per + k)"

fun walk_path :: "Ext2Fs \<Rightarrow> Ext2Inode \<Rightarrow> tree_path \<Rightarrow> u32 option" where
  "walk_path fs inode (Direct i) =
     (if iblocks inode ! i < blocks_count fs then Some (iblocks inode ! i) else None)"
| "walk_path fs inode (Single i) = ext2_read_pointer fs (iblocks inode ! 12) (word_of_nat i)"
| "walk_path fs inode (Double i j) = do {
     b \<leftarrow> ext2_read_pointer fs (iblocks inode ! 13) (word_of_nat i);
     ext2_read_pointer fs b (word_of_nat j) }"
| "walk_path fs inode (Triple i j k) = do {
     b \<leftarrow> ext2_read_pointer fs (iblocks inode ! 14) (word_of_nat i);
     c \<leftarrow> ext2_read_pointer fs b (word_of_nat j);
     ext2_read_pointer fs c (word_of_nat k) }"

text \<open>
  A complete image of six 1 KiB blocks, for the witnesses: a root directory in block 4 with the
  entries \<^verbatim>\<open>b\<close> and \<^verbatim>\<open>a\<close>, and a six byte file in block 5.
\<close>


definition sample_super :: "u8 list" where
  "sample_super = le32_bytes 8 @ le32_bytes 6 @ replicate 12 0 @ le32_bytes 1 @ le32_bytes 0 @
     replicate 4 0 @ le32_bytes 8192 @ replicate 4 0 @ le32_bytes 8 @ replicate 12 0 @
     le16_bytes 0xEF53 @ replicate 966 0"

definition sample_desc :: "u8 list" where
  "sample_desc = replicate 8 0 @ le32_bytes 3 @ replicate 1012 0"

definition sample_inode :: "u16 \<Rightarrow> u32 \<Rightarrow> u32 \<Rightarrow> u8 list" where
  "sample_inode md sz blk = le16_bytes md @ replicate 2 0 @ le32_bytes sz @ replicate 32 0 @
     le32_bytes blk @ replicate 84 0"

definition sample_dirent :: "u32 \<Rightarrow> u16 \<Rightarrow> u8 \<Rightarrow> u8 \<Rightarrow> u8 list \<Rightarrow> u8 list" where
  "sample_dirent ino rec_len name_len ft bytes = le32_bytes ino @ le16_bytes rec_len @ [name_len, ft] @ bytes"

definition sample_dir :: "u8 list" where
  "sample_dir = sample_dirent 2 12 1 2 [46, 0, 0, 0] @ sample_dirent 2 12 2 2 [46, 46, 0, 0] @
     sample_dirent 3 12 1 1 [98, 0, 0, 0] @ sample_dirent 4 988 1 1 [97] @ replicate 979 0"

definition sample_image :: "u8 list" where
  "sample_image = replicate 1024 0 @ sample_super @ sample_desc @
     (replicate 128 0 @ sample_inode 0x41ED 1024 4 @ sample_inode 0x81A4 6 5 @ replicate 640 0) @
     sample_dir @ ([104, 105, 10, 121, 111, 10] @ replicate 1018 0)"

definition sample_fs :: Ext2Fs where
  "sample_fs = \<lparr>img = sample_image, can_alloc = (\<lambda>_. True), preads = (\<lambda>_ _. []), image_size = 6144, inodes_count = 8,
     blocks_count = 6, first_data_block = 1, block_size = 1024, blocks_per_group = 8192,
     inodes_per_group = 8, inode_size = 128, groups_count = 1, inode_tables = [3]\<rparr>"

subsection \<open>Reading the image\<close>

lemma pread_fails_Nil [simp]: "\<not> pread_fails sz []"
  by (simp add: pread_fails_def)

lemma pread_fails_Cons:
  "pread_fails sz (r # script) \<longleftrightarrow> 0 < sz \<and> (r \<in> {IoError, Amount 0} \<or> pread_fails (sz - amount_of r) script)"
proof (cases "0 < sz")
  case True
  have "pread_fails sz (r # script) \<longleftrightarrow> r \<in> {IoError, Amount 0} \<or>
    (\<exists>i < length script. script ! i \<in> {IoError, Amount 0} \<and> amount_of r + sum_list (map amount_of (take i script)) < sz)"
    using True by (simp add: pread_fails_def Ex_less_Suc2)
  with True show ?thesis by (auto simp: pread_fails_def less_diff_conv add.commute)
qed (auto simp: pread_fails_def)

lemma image_read_loop_step:
  "length buf < sz \<Longrightarrow> image_read_loop fl off sz buf (Eintr # sc) = image_read_loop fl off sz buf sc"
  "length buf < sz \<Longrightarrow> image_read_loop fl off sz buf (IoError # sc) = None"
  "length buf < sz \<Longrightarrow> image_read_loop fl off sz buf (Amount k # sc) =
     (let got = take (min k (sz - length buf)) (drop (off + length buf) fl)
      in if got = [] then None else image_read_loop fl off sz (buf @ got) sc)"
  "length buf < sz \<Longrightarrow> image_read_loop fl off sz buf [] =
     (let bytes = buf @ take (sz - length buf) (drop (off + length buf) fl) in if length bytes = sz then Some bytes else None)"
  "\<not> length buf < sz \<Longrightarrow> image_read_loop fl off sz buf sc = Some buf"
  by (subst image_read_loop.simps, simp)+

text \<open>With the first \<open>n\<close> bytes of a range inside the file in the buffer, the loop gives the whole range or fails.\<close>

lemma image_read_loop_exact:
  assumes "off + sz \<le> length fl" "n \<le> sz"
  shows "image_read_loop fl off sz (take n (drop off fl)) sc =
    (if pread_fails (sz - n) sc then None else Some (take sz (drop off fl)))"
  using assms(2)
proof (induction sc arbitrary: n)
  case Nil
  let ?buf = "take n (drop off fl)"
  have len: "length ?buf = n" using assms(1) Nil by simp
  show ?case
  proof (cases "n < sz")
    case True
    have "?buf @ take (sz - n) (drop (off + n) fl) = take sz (drop off fl)"
      using Nil take_add [of n "sz - n" "drop off fl"] by (simp add: add.commute)
    then show ?thesis using True assms(1) len by (simp add: image_read_loop_step Let_def)
  qed (use Nil len in \<open>simp add: image_read_loop_step\<close>)
next
  case (Cons r sc)
  let ?buf = "take n (drop off fl)"
  have len: "length ?buf = n" using assms(1) Cons.prems by simp
  show ?case
  proof (cases "n < sz")
    case False
    then show ?thesis using Cons.prems len by (simp add: image_read_loop_step pread_fails_Cons)
  next
    case True
    show ?thesis
    proof (cases r)
      case (Amount k)
      let ?m = "min k (sz - n)"
      have "?buf @ take ?m (drop (off + n) fl) = take (n + ?m) (drop off fl)"
        using take_add [of n ?m "drop off fl"] by (simp add: add.commute)
      moreover have "take ?m (drop (off + n) fl) = [] \<longleftrightarrow> k = 0" using True assms(1) by auto
      moreover have "sz - (n + ?m) = sz - n - k" by auto
      ultimately show ?thesis
        using Cons.IH [of "n + ?m"] True len Amount by (simp add: image_read_loop_step pread_fails_Cons Let_def)
    qed (use True len Cons in \<open>simp_all add: image_read_loop_step pread_fails_Cons\<close>)
  qed
qed

lemma image_read_iff:
  assumes "unat (image_size fs) = length (img fs)" "length (img fs) < 2 ^ 63"
  shows "image_read fs offset sz =
    (if unat offset + sz \<le> length (img fs) \<and> \<not> io_error fs offset sz
     then Some (take sz (drop (unat offset) (img fs))) else None)"
proof (cases "unat offset + sz \<le> length (img fs)")
  case True
  have le: "offset \<le> image_size fs" using assms True by (simp add: word_nat)
  have "\<not> offset > 0x7FFFFFFFFFFFFFFF" using assms True by (simp add: word_nat)
  moreover have "\<not> sz > unat (image_size fs - offset)" using assms True le by (simp add: unat_sub_le)
  ultimately show ?thesis
    using le True image_read_loop_exact [OF True, of 0 "preads fs offset sz"] by (auto simp: image_read_def not_less)
next
  case False
  then have "offset > image_size fs \<or> sz > unat (image_size fs - offset)"
    using assms(1) unat_sub_le [of offset "image_size fs"] by (cases "offset \<le> image_size fs") (auto simp: word_nat)
  then show ?thesis using False by (auto simp: image_read_def)
qed

text \<open>
  C25: reading a range of the image.  Whatever \<^verbatim>\<open>pread\<close> answers, \<^verbatim>\<open>image_read\<close> either gives exactly the
  bytes asked for or fails, never a part of them and never others; it fails exactly when the range
  is not inside the image or an answer that is an error or no bytes comes before the counts delivered add
  up to the size.  Short counts and interruptions are invisible.
\<close>

theorem image_read_exact:
  assumes "unat (image_size fs) = length (img fs)" "length (img fs) < 2 ^ 63"
  shows "image_read fs offset sz =
    (if unat offset + sz \<le> length (img fs) \<and> \<not> pread_fails sz (preads fs offset sz)
     then Some (take sz (drop (unat offset) (img fs))) else None)"
  using assms by (rule image_read_iff)

definition tiny_fs :: "pread_result list \<Rightarrow> Ext2Fs" where
  "tiny_fs script = fs_zero (\<lambda>_. True) (\<lambda>_ _. script) [10, 20, 30, 40]"

theorem image_read_exact_witness:
  "image_read (tiny_fs [Eintr, Amount 1, Eintr, Amount 9, IoError]) 1 2 = Some [20, 30] \<and>
   image_read (tiny_fs [Amount 1, IoError]) 1 2 = None \<and> image_read (tiny_fs []) 3 2 = None"
  using image_read_exact [of "tiny_fs [Eintr, Amount 1, Eintr, Amount 9, IoError]" 1 2]
    image_read_exact [of "tiny_fs [Amount 1, IoError]" 1 2] image_read_exact [of "tiny_fs []" 3 2]
  by (simp add: tiny_fs_def fs_zero_def pread_fails_Cons)

subsection \<open>Opening an image\<close>

lemma load_inode_tables_ok:
  assumes "load_inode_tables fs off g n = Inr ts"
  shows "length ts = n \<and> (\<forall>t \<in> set ts. 0 < t \<and> t < blocks_count fs)"
  using assms
proof (induction n arbitrary: g ts)
  case (Suc n)
  then show ?case
    by (auto simp: Let_def not_le word_neq_0_conv split: option.splits if_splits sum.splits)
qed simp

lemma unat_ceil_div_u32:
  assumes "0 < d"
  shows "unat (ceil_div_u32 v d) = unat v div unat d + (if unat v mod unat d = 0 then 0 else 1)"
proof (cases "unat v mod unat d = 0")
  case True
  then show ?thesis by (simp add: ceil_div_u32_def word_nat)
next
  case False
  have "unat v div unat d + 1 < 2 ^ 32"
  proof (cases "unat d = 1")
    case False
    with assms have "unat v div unat d \<le> unat v div 2"
      by (intro div_le_mono2) (auto simp: word_nat)
    with unsigned_less [of v, where ?'a = nat] show ?thesis by simp
  qed (use False in simp)
  then have "unat (v div d + 1) = unat v div unat d + 1"
    by (subst unat_add_nowrap) (simp_all add: word_nat)
  with False show ?thesis by (simp add: ceil_div_u32_def word_nat)
qed

lemma ceil_div_u32_covers:
  assumes "0 < d"
  shows "unat v \<le> unat (ceil_div_u32 v d) * unat d"
proof -
  have "0 < unat d" using assms by (simp add: word_nat)
  then have "unat v < unat d + unat v div unat d * unat d" by (rule dividend_less_div_times)
  then show ?thesis
    unfolding unat_ceil_div_u32 [OF assms] distrib_right by (auto split: if_splits)
qed

lemma block_size_of_super:
  "read_le32 (drop 24 super) \<le> 6 \<Longrightarrow>
   \<exists>k\<le>6. unat (block_size (fs_of_super fs super)) = 1024 * 2 ^ k"
proof -
  assume "read_le32 (drop 24 super) \<le> 6"
  then have k: "unat (read_le32 (drop 24 super)) \<le> 6" by (simp add: word_nat)
  have "unat (push_bit k (1024 :: u32)) = 1024 * 2 ^ k" if "k \<le> 6" for k
  proof -
    have "k \<in> {0, 1, 2, 3, 4, 5, 6}" using that by auto
    then show ?thesis by auto
  qed
  with k show ?thesis by (auto simp: fs_of_super_def Let_def)
qed

text \<open>
  C26: an image that \<^verbatim>\<open>ext2_open\<close> accepts is well formed: its block size is a power of two between
  1 KiB and 64 KiB, every block number below \<^verbatim>\<open>blocks_count\<close> lies inside the file, every group has
  an inode table in range, and the groups cover every inode number.
\<close>

theorem ext2_open_wf:
  assumes "ext2_open alloc os (Regular file) = Inr fs" and "length file < 2 ^ 63"
  shows "ext2_wf fs"
proof -
  obtain super tables where
    ok: "\<not> bad_geometry (fs_of_super (fs_zero alloc os file) super)"
      "\<not> exceeds_image (fs_of_super (fs_zero alloc os file) super)"
      "read_le32 (drop 24 super) \<le> 6" and
    fs: "fs = (fs_of_super (fs_zero alloc os file) super)
      \<lparr>groups_count := count_groups (fs_of_super (fs_zero alloc os file) super),
       inode_tables := tables\<rparr>" and
    tb: "load_inode_tables ((fs_of_super (fs_zero alloc os file) super)
      \<lparr>groups_count := count_groups (fs_of_super (fs_zero alloc os file) super)\<rparr>)
      (ucast (first_data_block fs + 1) * ucast (block_size fs)) 0 (unat (groups_count fs)) = Inr tables"
    using assms(1)
    by (auto simp: ext2_open_def Let_def not_less split: if_splits option.splits sum.splits)
  let ?g = "fs_of_super (fs_zero alloc os file) super"
  obtain k where k: "k \<le> 6" "unat (block_size ?g) = 1024 * 2 ^ k"
    using block_size_of_super [OF ok(3)] by blast
  have img: "img ?g = file" "unat (image_size ?g) = length file"
    using assms(2) by (simp_all add: fs_of_super_def fs_zero_def Let_def unat_of_nat)
  have geo: "0 < blocks_count ?g" "EXT2_ROOT_INODE \<le> inodes_count ?g" "0 < inodes_per_group ?g"
    "0 < blocks_per_group ?g"
    "128 \<le> unat (inode_size ?g)" "unat (inode_size ?g) \<le> unat (block_size ?g)"
    using ok(1) by (auto simp: bad_geometry_def word_nat unat_ucast_up)
  have "unat ((ucast (blocks_count ?g) :: u64) * ucast (block_size ?g)) =
    unat (blocks_count ?g) * unat (block_size ?g)"
  proof (subst unat_mult_nowrap)
    have "unat (block_size ?g) \<le> 65536" using k power_increasing [of k 6 "2::nat"] by simp
    then have "unat (blocks_count ?g) * unat (block_size ?g) \<le> 2 ^ 32 * 65536"
      by (intro mult_le_mono) (use unsigned_less [of "blocks_count ?g", where ?'a = nat] in auto)
    then show "unat (ucast (blocks_count ?g) :: u64) * unat (ucast (block_size ?g) :: u64) < 2 ^ LENGTH(64)"
      by (simp add: unat_ucast_up)
  qed (simp add: unat_ucast_up)
  then have fit: "unat (blocks_count ?g) * unat (block_size ?g) \<le> length file"
    using ok(2) img by (simp add: exceeds_image_def word_nat)
  have "unat (inodes_count ?g) \<le> unat (ceil_div_u32 (inodes_count ?g) (inodes_per_group ?g)) * unat (inodes_per_group ?g)"
    by (rule ceil_div_u32_covers [OF geo(3)])
  also have "\<dots> \<le> unat (count_groups ?g) * unat (inodes_per_group ?g)"
    by (simp add: count_groups_def Let_def word_nat)
  finally have cover: "unat (inodes_count ?g) \<le> unat (count_groups ?g) * unat (inodes_per_group ?g)" .
  show ?thesis
    using load_inode_tables_ok [OF tb] k img geo fit cover assms(2)
    unfolding ext2_wf_def fs by auto
qed

subsection \<open>The sample image\<close>
lemma sample_lengths [simp]: "length sample_super = 1024" "length sample_desc = 1024" "length (sample_inode a b c) = 128" "length sample_dir = 1024"
 "length sample_image = 6144"
  by (simp_all add: sample_super_def sample_desc_def sample_inode_def sample_dir_def sample_dirent_def sample_image_def)

lemma sample_read_super: "image_read (fs_zero f (\<lambda>_ _. []) sample_image) 1024 1024 = Some sample_super"
  by (subst image_read_iff) (simp_all add: fs_zero_def sample_lengths, simp add: sample_image_def sample_lengths)


lemma read_le32_append [simp]: "read_le32 (le32_bytes w @ xs) = w"
  by (simp add: read_le32_def le32_bytes_def)
lemma read_le16_append [simp]: "read_le16 (le16_bytes w @ xs) = w"
  by (simp add: read_le16_def le16_bytes_def)
lemma read_le32_replicate [simp]: "4 \<le> n \<Longrightarrow> read_le32 (replicate n 0 @ xs) = 0"
  by (simp add: read_le32_def nth_append)
lemma read_le32_replicate' [simp]: "4 \<le> n \<Longrightarrow> read_le32 (replicate n 0) = 0"
  by (simp add: read_le32_def)

lemma sample_super_fields: "read_le16 (drop 56 sample_super) = 0xEF53" "read_le32 sample_super = 8" "read_le32 (drop 4 sample_super) = 6"
  "read_le32 (drop 20 sample_super) = 1" "read_le32 (drop 24 sample_super) = 0" "read_le32 (drop 32 sample_super) = 8192"
  "read_le32 (drop 40 sample_super) = 8" "read_le32 (drop 76 sample_super) = 0" "read_le32 (drop 96 sample_super) = 0"
  by (simp_all add: sample_super_def)


lemma sample_super_fs:
  "fs_of_super (fs_zero (\<lambda>_. True) (\<lambda>_ _. []) sample_image) sample_super = sample_fs\<lparr>groups_count := 0, inode_tables := []\<rparr>"
  by (simp add: fs_of_super_def fs_zero_def sample_super_fields sample_fs_def sample_lengths)

lemma sample_tables:
  "load_inode_tables (sample_fs\<lparr>inode_tables := [], groups_count := 1\<rparr>) 2048 0 (Suc 0) = Inr [3]"
proof -
  have "image_read (sample_fs\<lparr>inode_tables := [], groups_count := 1\<rparr>) 2048 32 = Some (take 32 sample_desc)"
    by (subst image_read_iff) (simp_all add: sample_fs_def sample_lengths, simp add: sample_image_def sample_lengths)
  then show ?thesis by (simp add: sample_fs_def) (simp add: sample_desc_def)
qed

lemma sample_open: "ext2_open (\<lambda>_. True) (\<lambda>_ _. []) (Regular sample_image) = Inr sample_fs"
proof -
  have "sint (image_size (fs_zero (\<lambda>_. True) (\<lambda>_ _. []) sample_image)) = 6144" by (simp add: fs_zero_def sample_lengths)
  moreover have "\<not> bad_geometry (sample_fs\<lparr>groups_count := 0, inode_tables := []\<rparr>)"
    "\<not> exceeds_image (sample_fs\<lparr>groups_count := 0, inode_tables := []\<rparr>)"
    "count_groups (sample_fs\<lparr>groups_count := 0, inode_tables := []\<rparr>) = 1"
    by (simp_all add: bad_geometry_def exceeds_image_def count_groups_def ceil_div_u32_def sample_fs_def word_nat)
  moreover have "first_data_block sample_fs = 1" "block_size sample_fs = 1024"
    "sample_fs\<lparr>groups_count := 1, inode_tables := [3]\<rparr> = sample_fs"
    by (simp_all add: sample_fs_def)
  ultimately show ?thesis using sample_tables
    by (simp add: ext2_open_def Let_def sample_read_super sample_super_fields sample_super_fs del: load_inode_tables.simps)
qed

theorem ext2_open_wf_witness: "ext2_wf sample_fs"
  by (rule ext2_open_wf [OF sample_open]) simp

subsection \<open>Block addressing\<close>

lemma ext2_wf_per:
  assumes "ext2_wf fs"
  shows "256 \<le> unat (block_size fs) div 4" "unat (block_size fs) div 4 \<le> 16384"
    "unat (block_size fs) = 4 * (unat (block_size fs) div 4)"
proof -
  obtain k where k: "k \<le> 6" "unat (block_size fs) = 1024 * 2 ^ k"
    using assms by (auto simp: ext2_wf_def)
  then have "k \<in> {0, 1, 2, 3, 4, 5, 6}" by auto
  with k(2) show "256 \<le> unat (block_size fs) div 4" "unat (block_size fs) div 4 \<le> 16384"
    "unat (block_size fs) = 4 * (unat (block_size fs) div 4)" by auto
qed

lemma unat_per_block: "unat (ucast (block_size fs div 4) :: u64) = unat (block_size fs) div 4"
  by (simp add: unat_ucast_up word_nat)

lemma ext2_data_block_path:
  assumes wf: "ext2_wf fs"
  shows "ext2_data_block fs inode n =
    Option.bind (logical_path (unat (block_size fs) div 4) (unat n)) (walk_path fs inode)"
proof -
  define p :: u64 where "p = ucast (block_size fs div 4)"
  define P where "P = unat (block_size fs) div 4"
  have P: "unat p = P" "0 < P" "P \<le> 16384"
    using ext2_wf_per [OF wf] by (simp_all add: p_def P_def unat_per_block)
  have "P * P \<le> 16384 * 16384" "P * (P * P) \<le> 16384 * (16384 * 16384)"
    using P(3) by (intro mult_le_mono; simp)+
  then have sq: "unat (p * p) = P * P" and cb: "unat (p * (p * p)) = P * (P * P)"
    using P(1) by (simp_all add: unat_mult_nowrap)
  have ovf: "\<not> p > 0xFFFFFFFFFFFFFFFF div (p * p)"
  proof -
    have "P * P \<le> 0xFFFFFFFFFFFFFFFF div 16384"
      using \<open>P * P \<le> 16384 * 16384\<close> by simp
    then have "16384 * (P * P) \<le> 0xFFFFFFFFFFFFFFFF" by simp
    then have "16384 \<le> 0xFFFFFFFFFFFFFFFF div (P * P)"
      using P(2) by (simp add: less_eq_div_iff_mult_less_eq)
    with P(1,3) sq show ?thesis by (simp add: word_nat)
  qed
  note defs = ext2_data_block_def p_def [symmetric] P_def [symmetric] logical_path_def
    power2_eq_square power3_eq_cube mult.assoc
  define n1 where "n1 = n - 12"
  define n2 where "n2 = n1 - p"
  define n3 where "n3 = n2 - p * p"
  have n1: "unat n1 = unat n - 12" if "12 \<le> unat n"
    unfolding n1_def using that by (subst unat_sub_le) (simp_all add: word_nat)
  have n2: "unat n2 = unat n - 12 - P" if "12 + P \<le> unat n"
    unfolding n2_def using that n1 P by (subst unat_sub_le) (simp_all add: word_nat)
  have n3: "unat n3 = unat n - 12 - P - P * P" if "12 + P + P * P \<le> unat n"
    unfolding n3_def using that n2 sq by (subst unat_sub_le) (simp_all add: word_nat)
  consider (dir) "unat n < 12" | (sgl) "12 \<le> unat n" "unat n < 12 + P"
    | (dbl) "12 + P \<le> unat n" "unat n < 12 + P + P * P"
    | (tpl) "12 + P + P * P \<le> unat n" "unat n < 12 + P + P * P + P * (P * P)"
    | (out) "12 + P + P * P + P * (P * P) \<le> unat n"
    by linarith
  then show ?thesis
  proof cases
    case dir
    then show ?thesis by (simp add: defs word_nat)
  next
    case sgl
    then have "unat n1 = unat n - 12" by (intro n1)
    then have "\<not> n < 12" "n1 < p" using sgl P by (auto simp: word_nat)
    moreover have "word_of_nat (unat n - 12) = n1"
      using \<open>unat n1 = unat n - 12\<close> by (rule word_of_unat)
    ultimately show ?thesis using sgl
      by (simp add: defs Let_def flip: n1_def)
  next
    case dbl
    then have "\<not> n < 12" "\<not> n1 < p" "n2 < p * p" using n1 n2 P sq by (simp_all add: word_nat)
    moreover have "word_of_nat ((unat n - 12 - P) div P) = n2 div p"
      "word_of_nat ((unat n - 12 - P) mod P) = n2 mod p"
      using n2 dbl P by (intro word_of_unat; simp add: word_nat)+
    ultimately show ?thesis using dbl
      by (simp add: defs Let_def flip: n1_def n2_def)
  next
    case tpl
    then have "\<not> n < 12" "\<not> n1 < p" "\<not> n2 < p * p" "\<not> n3 \<ge> p * (p * p)"
      using n1 n2 n3 P sq cb by (simp_all add: word_nat)
    moreover have "word_of_nat ((unat n - 12 - P - P * P) div (P * P)) = n3 div (p * p)"
      "word_of_nat ((unat n - 12 - P - P * P) mod (P * P) div P) = n3 mod (p * p) div p"
      "word_of_nat ((unat n - 12 - P - P * P) mod P) = n3 mod (p * p) mod p"
      using n3 tpl P sq by (intro word_of_unat; simp add: word_nat mod_mod_cancel)+
    ultimately show ?thesis using tpl ovf
      by (simp add: defs Let_def flip: n1_def n2_def n3_def)
  next
    case out
    then have "\<not> n < 12" "\<not> n1 < p" "\<not> n2 < p * p" "n3 \<ge> p * (p * p)"
      using n1 n2 n3 P sq cb by (simp_all add: word_nat)
    then show ?thesis using out ovf
      by (simp add: defs Let_def flip: n1_def n2_def n3_def)
  qed
qed


lemma sample_wf: "ext2_wf sample_fs"
  by (simp add: ext2_wf_def sample_fs_def word_nat)

lemma mod_square_split: "m mod (p * p) div p * p + m mod p = m mod (p * (p :: nat))"
  by (metis dvd_triv_left div_mult_mod_eq mod_mod_cancel)

lemma logical_path_index:
  assumes "0 < per" "logical_path per n = Some p"
  shows "path_in_range per p \<and> path_index per p = n"
proof -
  consider (dir) "n < 12" | (sgl) "12 \<le> n" "n < 12 + per"
    | (dbl) "12 + per \<le> n" "n < 12 + per + per * per"
    | (tpl) "12 + per + per * per \<le> n" "n < 12 + per + per * per + per * (per * per)"
    | (out) "12 + per + per * per + per * (per * per) \<le> n"
    by linarith
  then show ?thesis
  proof cases
    case dbl
    then have "(n - 12 - per) div per < per" by (intro less_mult_imp_div_less) simp
    with dbl assms show ?thesis
      by (auto simp: logical_path_def power2_eq_square)
  next
    case tpl
    let ?m = "n - 12 - per - per * per"
    have "?m div (per * per) < per" using tpl by (intro less_mult_imp_div_less) (simp add: mult.assoc)
    moreover have "?m mod (per * per) div per < per"
      using assms(1) by (intro less_mult_imp_div_less) simp
    moreover have "?m div (per * per) * (per * per) + (?m mod (per * per) div per * per + ?m mod per) = ?m"
      unfolding mod_square_split by (rule div_mult_mod_eq)
    ultimately show ?thesis
      using tpl assms by (auto simp: logical_path_def power2_eq_square power3_eq_cube Let_def)
  qed (use assms in \<open>auto simp: logical_path_def power2_eq_square power3_eq_cube mult.assoc\<close>)
qed

text \<open>
  C13: block addressing refines the pointer tree.  On a well-formed image \<^verbatim>\<open>ext2_data_block\<close>, with
  its 64-bit arithmetic and overflow test, follows exactly the path that plain arithmetic on
  naturals gives, and fails beyond \<open>12 + p + p\<^sup>2 + p\<^sup>3\<close> blocks.  The path's indices stay inside
  their blocks and determine the logical block, so no two file blocks share a pointer slot.
\<close>

theorem ext2_data_block_refines:
  assumes "ext2_wf fs"
  shows "case logical_path (unat (block_size fs) div 4) (unat n) of
      None \<Rightarrow> ext2_data_block fs inode n = None
    | Some p \<Rightarrow> ext2_data_block fs inode n = walk_path fs inode p \<and>
        path_in_range (unat (block_size fs) div 4) p \<and>
        path_index (unat (block_size fs) div 4) p = unat n"
  using ext2_data_block_path [OF assms, of inode n] ext2_wf_per(1) [OF assms]
    logical_path_index [of "unat (block_size fs) div 4" "unat n"]
  by (auto split: option.splits)

abbreviation sample_file_inode :: Ext2Inode where
  "sample_file_inode \<equiv> \<lparr>mode = 0x81A4, size_low = 6, size_high = 0, iblocks = [5, 0, 0, 0, 0, 0, 0, 0, 0, 0, 0, 0, 0, 0, 0]\<rparr>"

theorem ext2_data_block_refines_witness:
  "ext2_data_block sample_fs sample_file_inode 0 = Some 5"
proof -
  have "ext2_data_block sample_fs sample_file_inode 0 = walk_path sample_fs sample_file_inode (Direct 0)"
    using ext2_data_block_refines [OF sample_wf, where n = 0 and inode = sample_file_inode]
    by (simp add: logical_path_def)
  then show ?thesis by (simp add: sample_fs_def word_nat)
qed

subsection \<open>What is read lies inside the image\<close>

lemma ext2_read_pointer_range [bounds]:
  "ext2_read_pointer fs b i = Some v \<Longrightarrow> 0 < blocks_count fs \<Longrightarrow> v < blocks_count fs"
  by (auto simp: ext2_read_pointer_def Let_def bind_Some_iff not_le split: if_splits)

lemma ext2_data_block_range [bounds]:
  "ext2_data_block fs inode n = Some b \<Longrightarrow> 0 < blocks_count fs \<Longrightarrow> b < blocks_count fs"
  by (auto simp: ext2_data_block_def Let_def bind_Some_iff dest: ext2_read_pointer_range split: if_splits)

lemma unat_block_offset:
  assumes "ext2_wf fs" "b < blocks_count fs"
  shows "unat (ucast b * ucast (block_size fs) :: u64) = unat b * unat (block_size fs)"
    and "unat b * unat (block_size fs) + unat (block_size fs) \<le> length (img fs)"
proof -
  have "Suc (unat b) * unat (block_size fs) \<le> unat (blocks_count fs) * unat (block_size fs)"
    using assms(2) by (intro mult_le_mono1) (simp add: word_nat)
  also have "\<dots> \<le> length (img fs)" using assms(1) by (simp add: ext2_wf_def)
  finally show fit: "unat b * unat (block_size fs) + unat (block_size fs) \<le> length (img fs)" by simp
  moreover have "length (img fs) < 2 ^ 63" using assms(1) by (simp add: ext2_wf_def)
  ultimately show "unat (ucast b * ucast (block_size fs) :: u64) = unat b * unat (block_size fs)"
    by (subst unat_mult_nowrap) (simp_all add: unat_ucast_up)
qed

lemma block_read:
  assumes "ext2_wf fs" "b < blocks_count fs" "k \<le> unat (block_size fs)"
  shows "image_read fs (ucast b * ucast (block_size fs)) k =
    (if io_error fs (ucast b * ucast (block_size fs)) k then None
     else Some (take k (drop (unat b * unat (block_size fs)) (img fs))))"
  using assms unat_block_offset [OF assms(1,2)]
  by (subst image_read_iff) (auto simp: ext2_wf_def)

text \<open>
  C27: a block number that \<^verbatim>\<open>ext2_data_block\<close> returns is always below \<^verbatim>\<open>blocks_count\<close>, its byte
  offset does not wrap, and the callers' later \<^verbatim>\<open>image_read\<close> of that block, or of any prefix of it, lies
  inside the image and gives its bytes unless \<^verbatim>\<open>pread\<close> itself fails.
\<close>

theorem ext2_data_block_readable:
  assumes "ext2_wf fs" "ext2_data_block fs inode n = Some b" "k \<le> unat (block_size fs)"
  shows "b < blocks_count fs \<and>
    image_read fs (ucast b * ucast (block_size fs)) k =
      (if pread_fails k (preads fs (ucast b * ucast (block_size fs)) k) then None
       else Some (take k (drop (unat b * unat (block_size fs)) (img fs)))) \<and>
    unat b * unat (block_size fs) + k \<le> length (img fs)"
proof -
  have b: "b < blocks_count fs"
    using assms(1) by (intro ext2_data_block_range [OF assms(2)]) (simp add: ext2_wf_def)
  with block_read [OF assms(1) b assms(3)] unat_block_offset(2) [OF assms(1) b] assms(3)
  show ?thesis by simp
qed

theorem ext2_data_block_readable_witness:
  "image_read sample_fs (ucast (5 :: u32) * ucast (block_size sample_fs)) 6 =
     Some [104, 105, 10, 121, 111, 10]"
proof -
  have "ext2_data_block sample_fs sample_file_inode 0 = Some 5"
    by (simp add: ext2_data_block_def) (simp add: sample_fs_def word_nat)
  then show ?thesis
    using ext2_data_block_readable [OF sample_wf, of sample_file_inode 0 5 6]
    by (simp add: sample_fs_def) (simp add: sample_image_def)
qed

text \<open>
  Inode lookup.  Every inode number from 1 to \<^verbatim>\<open>inodes_count\<close> of a well-formed image falls in
  an existing group, the byte offset \<^verbatim>\<open>table * block_size + index * inode_size\<close> does not wrap in
  64 bits, and the inode is decoded from exactly the 128 bytes there, or the lookup fails when the
  image ends before them or \<^verbatim>\<open>pread\<close> fails; inode 0 and larger numbers are refused.
\<close>

theorem ext2_read_inode_exact:
  assumes wf: "ext2_wf fs"
  defines "ipg \<equiv> unat (inodes_per_group fs)"
  defines "off \<equiv> \<lambda>i. unat (inode_tables fs ! ((unat i - 1) div ipg)) * unat (block_size fs) +
    (unat i - 1) mod ipg * unat (inode_size fs)"
  shows "ext2_read_inode fs i =
    (if i = 0 \<or> i > inodes_count fs then None
     else if off i + 128 \<le> length (img fs) \<and> \<not> io_error fs (word_of_nat (off i)) 128
       then Some (decode_inode (take 128 (drop (off i) (img fs)))) else None) \<and>
    (0 < i \<and> i \<le> inodes_count fs \<longrightarrow> (unat i - 1) div ipg < length (inode_tables fs))"
proof (cases "i = 0 \<or> i > inodes_count fs")
  case False
  let ?g = "(i - 1) div inodes_per_group fs" and ?x = "(i - 1) mod inodes_per_group fs"
  have ipg: "0 < ipg" using wf by (simp add: ext2_wf_def ipg_def word_nat)
  have i1: "unat (i - 1) = unat i - 1" using False by (simp add: unat_sub_le word_nat)
  have g: "unat ?g = (unat i - 1) div ipg" and x: "unat ?x = (unat i - 1) mod ipg"
    using i1 by (simp_all add: word_nat ipg_def)
  have "unat i - 1 < unat (groups_count fs) * ipg"
    using False wf by (auto simp: ext2_wf_def ipg_def word_nat)
  then have gl: "(unat i - 1) div ipg < unat (groups_count fs)" by (rule less_mult_imp_div_less)
  then have tb: "inode_tables fs ! unat ?g < blocks_count fs"
    using wf g by (auto simp: ext2_wf_def)
  have "unat ?x * unat (inode_size fs) \<le> 2 ^ 32 * 2 ^ 16"
    using unsigned_less [of ?x, where ?'a = nat] unsigned_less [of "inode_size fs", where ?'a = nat]
    by (intro mult_le_mono) auto
  moreover have "unat (inode_tables fs ! unat ?g) * unat (block_size fs) < 2 ^ 63"
    using unat_block_offset(2) [OF wf tb] wf by (simp add: ext2_wf_def)
  ultimately have off: "unat (ucast (inode_tables fs ! unat ?g) * ucast (block_size fs) +
      ucast ?x * ucast (inode_size fs) :: u64) = off i"
    using unat_block_offset(1) [OF wf tb] g x
    by (simp add: unat_add_nowrap unat_mult_nowrap unat_ucast_up off_def)
  have "unat (image_size fs) = length (img fs)" "length (img fs) < 2 ^ 63"
    "length (inode_tables fs) = unat (groups_count fs)"
    using wf by (auto simp: ext2_wf_def)
  then show ?thesis
    using False gl g off word_of_unat [OF off] image_read_iff [of fs _ 128]
    by (simp add: ext2_read_inode_def Let_def word_nat)
qed (auto simp: ext2_read_inode_def word_nat)

theorem ext2_read_inode_exact_witness:
  "ext2_read_inode sample_fs 3 = Some sample_file_inode"
proof -
  have "decode_inode (take 128 (drop 3328 sample_image)) = sample_file_inode"
    by (simp add: sample_image_def decode_inode_def sample_inode_def upt_rec)
  then show ?thesis
    using ext2_read_inode_exact [OF sample_wf, of 3] by (simp add: sample_fs_def word_nat)
qed

end
