(* ===== verification/Ext2_Directory.thy ===== *)
theory Ext2_Directory
  imports Ext2_Image
begin

text \<open>
  The directory layer of \<^verbatim>\<open>ssu_ext2/ssu_ext2.c\<close>: the sorted linked list of live entries, the parser
  of directory data blocks and the resolution of paths from the root inode.
\<close>

subsection \<open>The entry list\<close>

record EntryNode =
  e_inode :: u32
  file_type :: u8
  e_name :: "u8 list"

record EntryList =
  entries :: "EntryNode list"
  entry_count :: nat

definition entry_list_empty :: EntryList where
  "entry_list_empty = \<lparr>entries = [], entry_count = 0\<rparr>"

text \<open>The insertion point: after every node whose name is not greater.\<close>

fun insert_sorted :: "EntryNode \<Rightarrow> EntryNode list \<Rightarrow> EntryNode list" where
  "insert_sorted node [] = [node]"
| "insert_sorted node (n # ns) =
     (if strcmp_le (e_name n) (e_name node) then n # insert_sorted node ns else node # n # ns)"

text \<open>\<^verbatim>\<open>sizeof(EntryNode)\<close> is 272 bytes on the 64-bit hosts the program is built for.\<close>

definition entry_list_insert :: "Ext2Fs \<Rightarrow> EntryList \<Rightarrow> u32 \<Rightarrow> u8 \<Rightarrow> u8 list \<Rightarrow> EntryList option" where
  "entry_list_insert fs list inode ft name =
     (if \<not> can_alloc fs 272 then None
      else Some \<lparr>entries = insert_sorted \<lparr>e_inode = inode, file_type = ft, e_name = name\<rparr> (entries list),
                 entry_count = entry_count list + 1\<rparr>)"

subsection \<open>Directory data blocks\<close>

text \<open>The C string that \<^verbatim>\<open>memcpy\<close> of \<^verbatim>\<open>name_length\<close> bytes and a terminator leave in \<^verbatim>\<open>name\<close>.\<close>

definition c_string :: "u8 list \<Rightarrow> u8 list" where
  "c_string bytes = takeWhile (\<lambda>c. c \<noteq> 0) bytes"

definition dot :: "u8 list" where "dot = [46]"
definition dotdot :: "u8 list" where "dotdot = [46, 46]"
definition lost_found :: "u8 list" where
  "lost_found = [108, 111, 115, 116, 43, 102, 111, 117, 110, 100]"

definition listed :: "bool \<Rightarrow> u8 list \<Rightarrow> bool" where
  "listed hide_lost_found name \<longleftrightarrow>
     name \<noteq> dot \<and> name \<noteq> dotdot \<and> (\<not> hide_lost_found \<or> name \<noteq> lost_found)"

text \<open>One directory record: what is done with a live entry.\<close>

definition add_child :: "Ext2Fs \<Rightarrow> bool \<Rightarrow> u32 \<Rightarrow> u8 \<Rightarrow> u8 list \<Rightarrow> EntryList \<Rightarrow> EntryList option" where
  "add_child fs hide_lost_found child_inode ft name list =
     (if child_inode = 0 then Some list
      else if child_inode > inodes_count fs then None
      else if listed hide_lost_found name
        then entry_list_insert fs list child_inode ft name
      else Some list)"

function parse_block :: "Ext2Fs \<Rightarrow> bool \<Rightarrow> u8 list \<Rightarrow> nat \<Rightarrow> nat \<Rightarrow> EntryList \<Rightarrow> EntryList option" where
  "parse_block fs hide_lost_found block valid offset list =
     (if \<not> offset < valid then Some list
      else if valid - offset < 8 then None
      else
        let child_inode = read_le32 (drop offset block);
            record_length = unat (read_le16 (drop (offset + 4) block));
            name_length = unat (block ! (offset + 6));
            ft = block ! (offset + 7)
        in
        if record_length < 8 \<or> record_length mod 4 \<noteq> 0 \<or> record_length > valid - offset \<or>
           name_length > record_length - 8 \<or> name_length > 255 then None
        else
          (case add_child fs hide_lost_found child_inode ft
                  (c_string (take name_length (drop (offset + 8) block))) list of
             None \<Rightarrow> None
           | Some list' \<Rightarrow>
               parse_block fs hide_lost_found block valid (offset + record_length) list'))"
  by pat_completeness auto
termination
  by (relation "measure (\<lambda>(fs, hide, block, valid, offset, list). valid - offset)") auto

declare parse_block.simps [simp del]

text \<open>The loop over the logical blocks of the directory: \<open>n\<close> are left, the next is \<open>logical\<close>.\<close>

fun read_dir_blocks ::
  "Ext2Fs \<Rightarrow> Ext2Inode \<Rightarrow> bool \<Rightarrow> u64 \<Rightarrow> u64 \<Rightarrow> nat \<Rightarrow> EntryList \<Rightarrow> EntryList option" where
  "read_dir_blocks fs inode hide directory_size logical 0 list = Some list"
| "read_dir_blocks fs inode hide directory_size logical (Suc n) list =
     (let consumed = logical * ucast (block_size fs);
          valid = (if directory_size - consumed > ucast (block_size fs)
                   then unat (block_size fs) else unat (directory_size - consumed))
      in case ext2_data_block fs inode logical of
           None \<Rightarrow> None
         | Some physical \<Rightarrow>
             if physical = 0 then read_dir_blocks fs inode hide directory_size (logical + 1) n list
             else (case image_read fs (ucast physical * ucast (block_size fs)) (unat (block_size fs)) of
                     None \<Rightarrow> None
                   | Some block \<Rightarrow>
                       (case parse_block fs hide block valid 0 list of
                          None \<Rightarrow> None
                        | Some list' \<Rightarrow>
                            read_dir_blocks fs inode hide directory_size (logical + 1) n list')))"

definition block_total :: "Ext2Fs \<Rightarrow> u64 \<Rightarrow> u64" where
  "block_total fs sz = sz div ucast (block_size fs) +
     (if sz mod ucast (block_size fs) \<noteq> 0 then 1 else 0)"

definition is_directory :: "Ext2Inode \<Rightarrow> bool" where
  "is_directory inode \<longleftrightarrow> mode inode AND EXT2_S_IFMT = EXT2_S_IFDIR"

definition ext2_read_directory :: "Ext2Fs \<Rightarrow> u32 \<Rightarrow> bool \<Rightarrow> EntryList option" where
  "ext2_read_directory fs inode_number hide_lost_found =
     (case ext2_read_inode fs inode_number of
        None \<Rightarrow> None
      | Some inode \<Rightarrow>
          if \<not> is_directory inode then None else
          let directory_size = ext2_inode_size inode in
          if \<not> can_alloc fs (ucast (block_size fs)) then None else
          read_dir_blocks fs inode hide_lost_found directory_size 0
            (unat (block_total fs directory_size)) entry_list_empty)"

subsection \<open>Paths\<close>

abbreviation "PATH_MAX \<equiv> (4096 :: nat)"
abbreviation slash :: u8 where "slash \<equiv> 47"

text \<open>The successive results of \<^verbatim>\<open>strtok_r\<close> with delimiter \<^verbatim>\<open>/\<close>: the non-empty runs between slashes.\<close>

fun split_slash :: "u8 list \<Rightarrow> u8 list \<Rightarrow> u8 list list" where
  "split_slash acc [] = [acc]"
| "split_slash acc (c # cs) = (if c = slash then acc # split_slash [] cs else split_slash (acc @ [c]) cs)"

definition strtok_components :: "u8 list \<Rightarrow> u8 list list" where
  "strtok_components path = filter (\<lambda>c. c \<noteq> []) (split_slash [] path)"

definition find_entry :: "u8 list \<Rightarrow> EntryNode list \<Rightarrow> u32 option" where
  "find_entry component ns = map_option e_inode (find (\<lambda>n. e_name n = component) ns)"

fun resolve_components :: "Ext2Fs \<Rightarrow> u32 \<Rightarrow> u8 list list \<Rightarrow> u32 option" where
  "resolve_components fs current [] = Some current"
| "resolve_components fs current (component # rest) =
     (if component = dot then resolve_components fs current rest
      else if component = dotdot then None
      else do {
        list \<leftarrow> ext2_read_directory fs current False;
        next \<leftarrow> find_entry component (entries list);
        resolve_components fs next rest
      })"

definition ext2_resolve_path :: "Ext2Fs \<Rightarrow> u8 list \<Rightarrow> u32 option" where
  "ext2_resolve_path fs path =
     (if path = [] \<or> hd path = slash \<or> length path > PATH_MAX then None
      else resolve_components fs EXT2_ROOT_INODE (strtok_components path))"

subsection \<open>Reference: how ext2 stores a directory\<close>

text \<open>The on-disk record of an entry, padded to a multiple of four bytes, as mke2fs writes it.\<close>

definition rec_len :: "u8 list \<Rightarrow> nat" where
  "rec_len name = 8 + (length name + 3) div 4 * 4"

definition encode_record :: "nat \<Rightarrow> EntryNode \<Rightarrow> u8 list" where
  "encode_record rl e = le32_bytes (e_inode e) @ le16_bytes (word_of_nat rl) @
     [word_of_nat (length (e_name e)), file_type e] @ e_name e @
     replicate (rl - 8 - length (e_name e)) 0"

definition encode_dirent :: "EntryNode \<Rightarrow> u8 list" where
  "encode_dirent e = encode_record (rec_len (e_name e)) e"

definition good_entry :: "Ext2Fs \<Rightarrow> EntryNode \<Rightarrow> bool" where
  "good_entry fs e \<longleftrightarrow> 0 < e_inode e \<and> e_inode e \<le> inodes_count fs \<and>
     length (e_name e) \<le> 255 \<and> 0 \<notin> set (e_name e)"

text \<open>Adding the entries one after the other, in the order they are stored.\<close>

fun insert_all :: "bool \<Rightarrow> EntryNode list \<Rightarrow> EntryNode list \<Rightarrow> EntryNode list" where
  "insert_all hide [] ns = ns"
| "insert_all hide (e # es) ns =
     insert_all hide es (if listed hide (e_name e) then insert_sorted e ns else ns)"

subsection \<open>The entry list is sorted\<close>

text \<open>The order of the list: by name, in the order of \<^verbatim>\<open>strcmp\<close>.\<close>

definition name_le :: "EntryNode \<Rightarrow> EntryNode \<Rightarrow> bool" where
  "name_le a b \<longleftrightarrow> strcmp_le (e_name a) (e_name b)"

lemma mset_insert_sorted [simp]: "mset (insert_sorted x xs) = add_mset x (mset xs)"
  by (induction xs) auto

lemma set_insert_sorted [simp]: "set (insert_sorted x xs) = insert x (set xs)"
  by (induction xs) auto

lemma length_insert_sorted [simp]: "length (insert_sorted x xs) = Suc (length xs)"
  by (induction xs) auto

lemma sorted_insert_sorted: "sorted_wrt name_le xs \<Longrightarrow> sorted_wrt name_le (insert_sorted x xs)"
proof (induction xs)
  case (Cons y ys)
  show ?case
  proof (cases "strcmp_le (e_name y) (e_name x)")
    case True
    with Cons show ?thesis by (auto simp: name_le_def)
  next
    case False
    then have "strcmp_le (e_name x) (e_name y)" using strcmp_le_total by blast
    with False Cons.prems show ?thesis by (auto simp: name_le_def intro: strcmp_le_trans)
  qed
qed simp

text \<open>What every list built by the directory reader satisfies.\<close>

definition list_ok :: "Ext2Fs \<Rightarrow> bool \<Rightarrow> EntryList \<Rightarrow> bool" where
  "list_ok fs hide list \<longleftrightarrow>
     sorted_wrt name_le (entries list) \<and>
     entry_count list = length (entries list) \<and>
     (\<forall>n \<in> set (entries list). 0 < e_inode n \<and> e_inode n \<le> inodes_count fs \<and>
        listed hide (e_name n) \<and> length (e_name n) \<le> 255 \<and> 0 \<notin> set (e_name n))"

lemma list_ok_empty [simp]: "list_ok fs hide entry_list_empty"
  by (simp add: list_ok_def entry_list_empty_def)

lemma c_string_clean [simp]: "0 \<notin> set (c_string bs)" "length (c_string bs) \<le> length bs"
  by (auto simp: c_string_def length_takeWhile_le dest: set_takeWhileD)

lemma add_child_ok:
  assumes "add_child fs hide ino ft name list = Some list'" "list_ok fs hide list"
    and "length name \<le> 255" "0 \<notin> set name"
  shows "list_ok fs hide list'"
  using assms
  by (auto simp: add_child_def entry_list_insert_def list_ok_def not_less word_neq_0_conv
      intro: sorted_insert_sorted split: if_splits)

lemma parse_block_ok:
  "parse_block fs hide block valid off list = Some list' \<Longrightarrow> list_ok fs hide list \<Longrightarrow> list_ok fs hide list'"
proof (induction fs hide block valid off list rule: parse_block.induct)
  case (1 fs hide block valid off list)
  let ?rl = "unat (read_le16 (drop (off + 4) block))" and ?nl = "unat (block ! (off + 6))"
  let ?name = "c_string (take ?nl (drop (off + 8) block))"
  show ?case
  proof (cases "off < valid")
    case True
    then obtain list1 where step: "\<not> valid - off < 8"
        "\<not> (?rl < 8 \<or> ?rl mod 4 \<noteq> 0 \<or> ?rl > valid - off \<or> ?nl > ?rl - 8 \<or> ?nl > 255)"
        "add_child fs hide (read_le32 (drop off block)) (block ! (off + 7)) ?name list = Some list1"
        "parse_block fs hide block valid (off + ?rl) list1 = Some list'"
      using "1.prems"(1)
      by (subst (asm) parse_block.simps) (auto simp: Let_def split: if_splits option.splits)
    have "length ?name \<le> 255" using step(2) by (auto intro: order.trans [OF c_string_clean(2)])
    with step(3) "1.prems"(2) have "list_ok fs hide list1" by (auto intro: add_child_ok)
    with "1.IH" step True show ?thesis by (simp add: Let_def)
  next
    case False
    with "1.prems" show ?thesis by (subst (asm) parse_block.simps) simp
  qed
qed

lemma read_dir_blocks_ok:
  "read_dir_blocks fs inode hide dsz logical n list = Some list' \<Longrightarrow> list_ok fs hide list \<Longrightarrow>
   list_ok fs hide list'"
  by (induction n arbitrary: logical list)
    (auto simp: Let_def dest: parse_block_ok split: option.splits if_splits)

subsection \<open>Stored records are read back\<close>

lemma length_encode_record [simp]:
  "8 + length (e_name e) \<le> rl \<Longrightarrow> length (encode_record rl e) = rl"
  by (simp add: encode_record_def)

lemma rec_len_bounds:
  "8 + length name \<le> rec_len name" "rec_len name mod 4 = 0" "rec_len name \<le> length name + 11"
  by (simp_all add: rec_len_def)

lemma read_record_fields:
  assumes "8 + length (e_name e) \<le> rl"
  shows "read_le32 (drop (length pre) (pre @ encode_record rl e @ post)) = e_inode e"
    "read_le16 (drop (length pre + 4) (pre @ encode_record rl e @ post)) = word_of_nat rl"
    "(pre @ encode_record rl e @ post) ! (length pre + 6) = word_of_nat (length (e_name e))"
    "(pre @ encode_record rl e @ post) ! (length pre + 7) = file_type e"
    "take (length (e_name e)) (drop (length pre + 8) (pre @ encode_record rl e @ post)) = e_name e"
  by (simp_all add: encode_record_def le32_bytes_def le16_bytes_def read_le32_def read_le16_def
      nth_append)

lemma c_string_id: "0 \<notin> set name \<Longrightarrow> c_string name = name"
  by (auto simp: c_string_def takeWhile_eq_all_conv)

lemma parse_block_record:
  assumes rl: "8 + length (e_name e) \<le> rl" "rl mod 4 = 0" "rl < 65536"
    and nm: "length (e_name e) \<le> 255" "0 \<notin> set (e_name e)"
    and valid: "length pre + rl \<le> valid"
  shows "parse_block fs hide (pre @ encode_record rl e @ post) valid (length pre) list =
    Option.bind (add_child fs hide (e_inode e) (file_type e) (e_name e) list)
      (parse_block fs hide (pre @ encode_record rl e @ post) valid (length pre + rl))"
proof -
  let ?blk = "pre @ encode_record rl e @ post"
  have "unat (word_of_nat rl :: u16) = rl" using rl(3) by (simp add: unat_of_nat)
  moreover have "unat (word_of_nat (length (e_name e)) :: u8) = length (e_name e)"
    using nm(1) by (simp add: unat_of_nat)
  ultimately show ?thesis
    using assms read_record_fields [OF rl(1), of pre post]
    by (subst parse_block.simps) (auto simp: Let_def c_string_id split: option.split)
qed

lemma read_directory_list_ok:
  "ext2_read_directory fs inode_number hide = Some list \<Longrightarrow> list_ok fs hide list"
  by (auto simp: ext2_read_directory_def Let_def intro: read_dir_blocks_ok [OF _ list_ok_empty]
      split: option.splits if_splits)

text \<open>
  C14: a directory listing is sorted by \<^verbatim>\<open>strcmp\<close>, counts its nodes correctly, never contains
  \<^verbatim>\<open>.\<close> or \<^verbatim>\<open>..\<close> (nor \<^verbatim>\<open>lost+found\<close> when it is hidden), and every node carries an inode number between 1
  and \<^verbatim>\<open>inodes_count\<close> and a name that fits the 256-byte buffer.
\<close>

theorem ext2_read_directory_ok:
  assumes "ext2_read_directory fs inode_number hide = Some list"
  shows "list_ok fs hide list"
  using assms by (rule read_directory_list_ok)

lemma sample_root:
  "ext2_read_inode sample_fs 2 = Some \<lparr>mode = 0x41ED, size_low = 1024, size_high = 0,
     iblocks = [4, 0, 0, 0, 0, 0, 0, 0, 0, 0, 0, 0, 0, 0, 0]\<rparr>"
proof -
  have "image_read sample_fs 3200 128 = Some (sample_inode 0x41ED 1024 4)"
    by (subst image_read_iff) (simp_all add: sample_fs_def, simp add: sample_image_def)
  moreover have "ext2_read_inode sample_fs 2 = map_option decode_inode (image_read sample_fs 3200 128)"
    by (simp add: ext2_read_inode_def sample_fs_def word_nat map_option_case split: option.split)
  ultimately show ?thesis
    by (simp add: decode_inode_def sample_inode_def upt_rec)
qed

lemma sample_read_dir_block:
  "image_read sample_fs 4096 1024 = Some sample_dir"
  by (subst image_read_iff) (simp_all add: sample_fs_def, simp add: sample_image_def)

abbreviation sample_entries :: "EntryNode list" where
  "sample_entries \<equiv> [\<lparr>e_inode = 4, file_type = 1, e_name = [97]\<rparr>, \<lparr>e_inode = 3, file_type = 1, e_name = [98]\<rparr>]"

lemma sample_dir_records:
  "sample_dir =
     encode_record 12 \<lparr>e_inode = 2, file_type = 2, e_name = dot\<rparr> @
     encode_record 12 \<lparr>e_inode = 2, file_type = 2, e_name = dotdot\<rparr> @
     encode_record 12 \<lparr>e_inode = 3, file_type = 1, e_name = [98]\<rparr> @
     encode_record 988 \<lparr>e_inode = 4, file_type = 1, e_name = [97]\<rparr>"
  by (simp add: sample_dir_def sample_dirent_def encode_record_def dot_def dotdot_def numeral_eq_Suc)

lemma sample_parse:
  "parse_block sample_fs False sample_dir 1024 0 entry_list_empty =
     Some \<lparr>entries = sample_entries, entry_count = 2\<rparr>"
proof -
  let ?d = "encode_record 12 \<lparr>e_inode = 2, file_type = 2, e_name = dot\<rparr>"
  let ?dd = "encode_record 12 \<lparr>e_inode = 2, file_type = 2, e_name = dotdot\<rparr>"
  let ?b = "encode_record 12 \<lparr>e_inode = 3, file_type = 1, e_name = [98]\<rparr>"
  let ?a = "encode_record 988 \<lparr>e_inode = 4, file_type = 1, e_name = [97]\<rparr>"
  have len: "length ?d = 12" "length ?dd = 12" "length ?b = 12" "length ?a = 988"
    by (simp_all add: dot_def dotdot_def)
  have ino: "inodes_count sample_fs = 8" "can_alloc sample_fs 272"
    by (simp_all add: sample_fs_def)
  note step = parse_block_record [where fs = sample_fs and hide = False and valid = 1024]
  have "parse_block sample_fs False sample_dir 1024 0 l = parse_block sample_fs False sample_dir 1024 12 l" for l
    using step [of "\<lparr>e_inode = 2, file_type = 2, e_name = dot\<rparr>" 12 "[]" "?dd @ ?b @ ?a" l]
    by (simp add: sample_dir_records dot_def add_child_def listed_def ino word_nat)
  moreover have "parse_block sample_fs False sample_dir 1024 12 l = parse_block sample_fs False sample_dir 1024 24 l" for l
    using step [of "\<lparr>e_inode = 2, file_type = 2, e_name = dotdot\<rparr>" 12 ?d "?b @ ?a" l] len
    by (simp add: sample_dir_records dotdot_def add_child_def listed_def ino word_nat)
  moreover have "parse_block sample_fs False sample_dir 1024 24 entry_list_empty =
      parse_block sample_fs False sample_dir 1024 36 \<lparr>entries = [\<lparr>e_inode = 3, file_type = 1, e_name = [98]\<rparr>], entry_count = 1\<rparr>"
    using step [of "\<lparr>e_inode = 3, file_type = 1, e_name = [98]\<rparr>" 12 "?d @ ?dd" ?a entry_list_empty] len
    by (simp add: sample_dir_records dot_def dotdot_def add_child_def listed_def ino word_nat
        entry_list_insert_def entry_list_empty_def)
  moreover have "parse_block sample_fs False sample_dir 1024 36 \<lparr>entries = [\<lparr>e_inode = 3, file_type = 1, e_name = [98]\<rparr>], entry_count = 1\<rparr> =
     parse_block sample_fs False sample_dir 1024 1024 \<lparr>entries = sample_entries, entry_count = Suc (Suc 0)\<rparr>"
    using step [of "\<lparr>e_inode = 4, file_type = 1, e_name = [97]\<rparr>" 988 "?d @ ?dd @ ?b" "[]"
        "\<lparr>entries = [\<lparr>e_inode = 3, file_type = 1, e_name = [98]\<rparr>], entry_count = 1\<rparr>"] len
    by (simp add: sample_dir_records dot_def dotdot_def add_child_def listed_def ino word_nat
        entry_list_insert_def entry_list_empty_def)
  ultimately show ?thesis by (simp add: parse_block.simps [of _ _ _ 1024 1024] numeral_2_eq_2)
qed

lemma sample_directory:
  "ext2_read_directory sample_fs 2 False = Some \<lparr>entries = sample_entries, entry_count = 2\<rparr>"
proof -
  have "ext2_data_block sample_fs \<lparr>mode = 0x41ED, size_low = 1024, size_high = 0,
     iblocks = [4, 0, 0, 0, 0, 0, 0, 0, 0, 0, 0, 0, 0, 0, 0]\<rparr> 0 = Some 4"
    by (simp add: ext2_data_block_def) (simp add: sample_fs_def word_nat)
  moreover have "block_size sample_fs = 1024" "can_alloc sample_fs 1024"
    by (simp_all add: sample_fs_def)
  ultimately show ?thesis
    using sample_parse sample_read_dir_block
    by (simp add: ext2_read_directory_def sample_root is_directory_def ext2_inode_size_def
        block_total_def)
qed

theorem ext2_read_directory_ok_witness:
  "list_ok sample_fs False \<lparr>entries = sample_entries, entry_count = 2\<rparr>"
  by (rule ext2_read_directory_ok [OF sample_directory])

lemma parse_block_encoded:
  assumes "\<And>e. e \<in> set es \<Longrightarrow> good_entry fs e" "can_alloc fs 272"
    and "valid = length pre + length (concat (map encode_dirent es))"
  shows "parse_block fs hide (pre @ concat (map encode_dirent es)) valid (length pre) list =
    Some \<lparr>entries = insert_all hide es (entries list),
          entry_count = entry_count list + length (filter (\<lambda>e. listed hide (e_name e)) es)\<rparr>"
  using assms
proof (induction es arbitrary: pre list)
  case Nil
  then show ?case by (simp add: parse_block.simps)
next
  case (Cons e es)
  let ?rl = "rec_len (e_name e)"
  have good: "good_entry fs e" using Cons.prems(1) by simp
  have len: "length (encode_dirent e) = ?rl"
    using rec_len_bounds(1) by (simp add: encode_dirent_def)
  define list' where "list' = (if listed hide (e_name e)
       then \<lparr>entries = insert_sorted e (entries list), entry_count = entry_count list + 1\<rparr> else list)"
  have add: "add_child fs hide (e_inode e) (file_type e) (e_name e) list = Some list'"
    using good Cons.prems(2)
    by (cases e) (simp add: add_child_def good_entry_def entry_list_insert_def list'_def word_nat)
  have "parse_block fs hide (pre @ concat (map encode_dirent (e # es))) valid (length pre) list =
     parse_block fs hide ((pre @ encode_dirent e) @ concat (map encode_dirent es)) valid
       (length (pre @ encode_dirent e)) list'"
    using good Cons.prems(3) rec_len_bounds [of "e_name e"] add len
      parse_block_record [of e ?rl pre valid fs hide "concat (map encode_dirent es)" list]
    by (simp add: good_entry_def encode_dirent_def)
  also have "\<dots> = Some \<lparr>entries = insert_all hide es (entries list'),
          entry_count = entry_count list' + length (filter (\<lambda>e. listed hide (e_name e)) es)\<rparr>"
    using Cons.prems by (intro Cons.IH) auto
  finally show ?case by (simp add: list'_def)
qed

lemma mset_insert_all:
  "mset (insert_all hide es ns) = mset (filter (\<lambda>e. listed hide (e_name e)) es) + mset ns"
  by (induction es arbitrary: ns) auto

lemma sorted_insert_all: "sorted_wrt name_le ns \<Longrightarrow> sorted_wrt name_le (insert_all hide es ns)"
  by (induction es arbitrary: ns) (auto simp: sorted_insert_sorted)

text \<open>
  C28: a directory block is read back.  Parsing the records of any valid entries, stored one after
  the other in any order, succeeds and yields exactly those entries whose names are listed, each as
  often as stored, in sorted order.
\<close>

theorem parse_block_roundtrip:
  assumes "\<And>e. e \<in> set es \<Longrightarrow> good_entry fs e" "can_alloc fs 272"
  shows "\<exists>list. parse_block fs hide (concat (map encode_dirent es))
      (length (concat (map encode_dirent es))) 0 entry_list_empty = Some list \<and>
    mset (entries list) = mset (filter (\<lambda>e. listed hide (e_name e)) es) \<and>
    sorted_wrt name_le (entries list)"
  using parse_block_encoded [of es fs _ "[]" hide entry_list_empty] assms
  by (simp add: mset_insert_all sorted_insert_all entry_list_empty_def)

theorem parse_block_roundtrip_witness:
  "\<exists>list. parse_block sample_fs False (concat (map encode_dirent (rev sample_entries)))
      (length (concat (map encode_dirent (rev sample_entries)))) 0 entry_list_empty = Some list \<and>
    mset (entries list) = mset (rev sample_entries) \<and> sorted_wrt name_le (entries list)"
proof -
  have "\<And>e. e \<in> set (rev sample_entries) \<Longrightarrow> good_entry sample_fs e" "can_alloc sample_fs 272"
    by (auto simp: good_entry_def sample_fs_def word_nat)
  then show ?thesis
    using parse_block_roundtrip [of "rev sample_entries" sample_fs False]
    by (simp add: listed_def dot_def dotdot_def)
qed

subsection \<open>Path resolution\<close>

lemma split_slash_append:
  "split_slash acc (p @ slash # q) = split_slash acc p @ split_slash [] q"
  by (induction p arbitrary: acc) auto

lemma split_slash_plain: "slash \<notin> set c \<Longrightarrow> split_slash acc c = [acc @ c]"
  by (induction c arbitrary: acc) auto

lemma resolve_components_append:
  "resolve_components fs i (xs @ ys) = Option.bind (resolve_components fs i xs) (\<lambda>j. resolve_components fs j ys)"
  by (induction fs i xs rule: resolve_components.induct) (auto split: Option.bind_splits)

text \<open>
  Resolving \<^verbatim>\<open>p/c\<close> is resolving \<^verbatim>\<open>p\<close>, reading the directory there and taking the first entry
  named \<^verbatim>\<open>c\<close>: a path names what its components name, one directory after the other.
\<close>

theorem ext2_resolve_path_step:
  assumes "p \<noteq> []" "hd p \<noteq> slash" "length p + length c < PATH_MAX"
    and "c \<noteq> []" "slash \<notin> set c" "c \<noteq> dot" "c \<noteq> dotdot"
  shows "ext2_resolve_path fs (p @ slash # c) = do {
      d \<leftarrow> ext2_resolve_path fs p;
      list \<leftarrow> ext2_read_directory fs d False;
      find_entry c (entries list) }"
proof -
  have "strtok_components (p @ slash # c) = strtok_components p @ [c]"
    using assms(4,5) by (simp add: strtok_components_def split_slash_append split_slash_plain)
  then show ?thesis
    using assms by (simp add: ext2_resolve_path_def resolve_components_append split: Option.bind_splits)
qed

theorem ext2_resolve_path_step_witness: "ext2_resolve_path sample_fs [46, 47, 98] = Some 3"
proof -
  have "ext2_resolve_path sample_fs [46] = Some 2"
    by (simp add: ext2_resolve_path_def strtok_components_def dot_def)
  then show ?thesis
    using ext2_resolve_path_step [of "[46]" "[98]" sample_fs]
    by (simp add: sample_directory find_entry_def dot_def dotdot_def)
qed

text \<open>
  Absolute paths, the empty path, over-long paths and any path with a \<^verbatim>\<open>..\<close> component are refused;
  \<^verbatim>\<open>.\<close> components are transparent.
\<close>

lemma ext2_resolve_path_refusals:
  "ext2_resolve_path fs [] = None"
  "ext2_resolve_path fs (slash # p) = None"
  "length p > PATH_MAX \<Longrightarrow> ext2_resolve_path fs p = None"
  "dotdot \<in> set (strtok_components p) \<Longrightarrow> ext2_resolve_path fs p = None"
  "ext2_resolve_path fs p = Some i \<Longrightarrow>
     resolve_components fs EXT2_ROOT_INODE (filter (\<lambda>c. c \<noteq> dot) (strtok_components p)) = Some i"
proof -
  have dd: "dotdot \<in> set cs \<Longrightarrow> resolve_components fs j cs = None" for cs j
  proof (induction cs arbitrary: j)
    case (Cons c cs)
    then show ?case by (cases "c = dotdot") (auto simp: dot_def dotdot_def split: Option.bind_splits)
  qed simp
  have dot: "resolve_components fs j (filter (\<lambda>c. c \<noteq> dot) cs) = resolve_components fs j cs" for cs j
    by (induction cs arbitrary: j) (auto split: Option.bind_splits)
  show "ext2_resolve_path fs [] = None" "ext2_resolve_path fs (slash # p) = None"
    "length p > PATH_MAX \<Longrightarrow> ext2_resolve_path fs p = None"
    by (auto simp: ext2_resolve_path_def)
  show "dotdot \<in> set (strtok_components p) \<Longrightarrow> ext2_resolve_path fs p = None"
    by (simp add: ext2_resolve_path_def dd)
  show "ext2_resolve_path fs p = Some i \<Longrightarrow>
     resolve_components fs EXT2_ROOT_INODE (filter (\<lambda>c. c \<noteq> dot) (strtok_components p)) = Some i"
    by (auto simp: ext2_resolve_path_def dot split: if_splits)
qed

end
