(* ===== verification/Ext2_Commands.thy ===== *)
theory Ext2_Commands
  imports Ext2_Directory
begin

text \<open>
  The command layer of \<^verbatim>\<open>ssu_ext2/ssu_ext2.c\<close>: labels and permission strings, the recursive tree
  printer with its visited bitmap, file output with a line limit, the in-place tokenizer, command
  dispatch and the prompt loop.  Standard output is the list of bytes written; writing to it is
  assumed to succeed.  A command's result is the pair of its status and its output.
\<close>

subsection \<open>Labels\<close>

definition ext2_type_character :: "u16 \<Rightarrow> u8" where
  "ext2_type_character md =
     (let t = md AND EXT2_S_IFMT in
      if t = 0x4000 then 100 else if t = 0x8000 then 45 else if t = 0xA000 then 108
      else if t = 0x2000 then 99 else if t = 0x6000 then 98 else if t = 0x1000 then 112
      else if t = 0xC000 then 115 else 63)"

definition permission_bits :: "(u16 \<times> u8) list" where
  "permission_bits = [(0x100, 114), (0x80, 119), (0x40, 120), (0x20, 114), (0x10, 119), (0x8, 120),
     (0x4, 114), (0x2, 119), (0x1, 120)]"

definition ext2_permission_string :: "u16 \<Rightarrow> u8 list" where
  "ext2_permission_string md =
     (let output = ext2_type_character md #
            map (\<lambda>(b, letter). if md AND b \<noteq> 0 then letter else 45) permission_bits;
          output = (if md AND 0x800 \<noteq> 0 then output[3 := if md AND 0x40 \<noteq> 0 then 115 else 83] else output);
          output = (if md AND 0x400 \<noteq> 0 then output[6 := if md AND 0x8 \<noteq> 0 then 115 else 83] else output);
          output = (if md AND 0x200 \<noteq> 0 then output[9 := if md AND 0x1 \<noteq> 0 then 116 else 84] else output)
      in output)"

text \<open>Decimal output of \<^verbatim>\<open>PRIu64\<close>.\<close>

fun dec_digits :: "nat \<Rightarrow> u8 list" where
  "dec_digits n = (if n < 10 then [48 + word_of_nat n] else dec_digits (n div 10) @ [48 + word_of_nat (n mod 10)])"

declare dec_digits.simps [simp del]

definition print_entry_label :: "u8 list \<Rightarrow> Ext2Inode \<Rightarrow> bool \<Rightarrow> bool \<Rightarrow> u8 list" where
  "print_entry_label name inode show_size show_permissions =
     (let sz = dec_digits (unat (ext2_inode_size inode)) in
      if show_permissions then
        (if show_size then [91] @ ext2_permission_string (mode inode) @ [32] @ sz @ [93, 32] @ name
         else [91] @ ext2_permission_string (mode inode) @ [93, 32] @ name)
      else if show_size then [91] @ sz @ [93, 32] @ name
      else name)"

subsection \<open>The tree printer\<close>

definition visited_test :: "u8 list \<Rightarrow> u32 \<Rightarrow> bool" where
  "visited_test visited inode = ((visited ! unat (inode div 8)) AND push_bit (unat (inode mod 8)) 1 \<noteq> 0)"

definition visited_set :: "u8 list \<Rightarrow> u32 \<Rightarrow> u8 list" where
  "visited_set visited inode =
     visited[unat (inode div 8) := (visited ! unat (inode div 8)) OR push_bit (unat (inode mod 8)) 1]"

text \<open>
  The state the recursion threads: the visited bitmap, the two counters, the bytes printed, and
  whether some \<^verbatim>\<open>strcpy\<close> of a prefix wrote past the end of its allocation.
\<close>

record tree_state =
  visited :: "u8 list"
  directories :: u64
  files :: u64
  out :: "u8 list"
  heap_overrun :: bool

record tree_flags =
  recursive :: bool
  show_size :: bool
  show_permissions :: bool

abbreviation "MAX_TREE_DEPTH \<equiv> (4096 :: nat)"

definition branch_last :: "u8 list" where "branch_last = [226, 148, 148, 226, 148, 128, 226, 148, 128]"
definition branch_mid :: "u8 list" where "branch_mid = [226, 148, 156, 226, 148, 128, 226, 148, 128]"
definition indent_last :: "u8 list" where "indent_last = [32, 32, 32, 32]"
definition indent_mid :: "u8 list" where "indent_mid = [226, 148, 130, 32, 32, 32]"

definition next_prefix :: "u8 list \<Rightarrow> bool \<Rightarrow> u8 list" where
  "next_prefix pfx is_last = pfx @ (if is_last then indent_last else indent_mid)"

text \<open>The buffer for the new prefix has \<^verbatim>\<open>length + 5\<close> bytes; the string stored needs its terminator.\<close>

definition prefix_overrun :: "u8 list \<Rightarrow> bool \<Rightarrow> bool" where
  "prefix_overrun pfx is_last \<longleftrightarrow> length (next_prefix pfx is_last) + 1 > length pfx + 5"

definition emit_entry :: "u8 list \<Rightarrow> bool \<Rightarrow> tree_flags \<Rightarrow> EntryNode \<Rightarrow> Ext2Inode \<Rightarrow> tree_state \<Rightarrow> tree_state" where
  "emit_entry pfx is_last flags entry child st =
     st\<lparr>directories := directories st + (if is_directory child then 1 else 0),
        files := files st + (if is_directory child then 0 else 1),
        out := out st @ pfx @ (if is_last then branch_last else branch_mid) @ [32] @
               print_entry_label (e_name entry) child (show_size flags) (show_permissions flags) @ [10]\<rparr>"

function print_tree_children :: "Ext2Fs \<Rightarrow> u32 \<Rightarrow> u8 list \<Rightarrow> tree_flags \<Rightarrow> nat \<Rightarrow> tree_state \<Rightarrow> bool \<times> tree_state"
  and print_entries :: "Ext2Fs \<Rightarrow> EntryNode list \<Rightarrow> u8 list \<Rightarrow> tree_flags \<Rightarrow> nat \<Rightarrow> tree_state \<Rightarrow> bool \<times> tree_state"
where
  "print_tree_children fs directory_inode pfx flags depth st =
     (case ext2_read_directory fs directory_inode True of
        None \<Rightarrow> (False, st)
      | Some list \<Rightarrow> print_entries fs (entries list) pfx flags depth st)"
| "print_entries fs [] pfx flags depth st = (True, st)"
| "print_entries fs (entry # rest) pfx flags depth st =
     (case ext2_read_inode fs (e_inode entry) of
        None \<Rightarrow> (False, st)
      | Some child \<Rightarrow>
          let is_last = (rest = []);
              st = emit_entry pfx is_last flags entry child st
          in
          if recursive flags \<and> is_directory child \<and> depth < MAX_TREE_DEPTH \<and>
             \<not> visited_test (visited st) (e_inode entry) then
            if \<not> can_alloc fs (word_of_nat (length pfx + 5)) then (False, st) else
            let st = st\<lparr>visited := visited_set (visited st) (e_inode entry),
                        heap_overrun := (heap_overrun st \<or> prefix_overrun pfx is_last)\<rparr> in
            (case print_tree_children fs (e_inode entry) (next_prefix pfx is_last) flags (depth + 1) st of
               (ok, st') \<Rightarrow> if \<not> ok then (False, st')
                            else print_entries fs rest pfx flags depth st')
          else print_entries fs rest pfx flags depth st)"
  by pat_completeness auto
termination
  by (relation "measures [\<lambda>a. case a of Inl (fs, i, p, f, d, s) \<Rightarrow> MAX_TREE_DEPTH - d
                                     | Inr (fs, es, p, f, d, s) \<Rightarrow> MAX_TREE_DEPTH - d,
                         \<lambda>a. case a of Inl _ \<Rightarrow> 1 | Inr _ \<Rightarrow> 0,
                         \<lambda>a. case a of Inl _ \<Rightarrow> 0 | Inr (fs, es, p, f, d, s) \<Rightarrow> length es]") auto

declare print_tree_children.simps [simp del]

definition strip_slashes :: "u8 list \<Rightarrow> u8 list" where
  "strip_slashes path =
     (let stripped = rev (dropWhile (\<lambda>c. c = slash) (rev path))
      in if stripped = [] then take 1 path else stripped)"

definition path_display_name :: "u8 list \<Rightarrow> u8 list" where
  "path_display_name path =
     (let output = strip_slashes path in
      if output = dot \<or> output = [46, 47] then dot
      else if slash \<in> set output then rev (takeWhile (\<lambda>c. c \<noteq> slash) (rev output))
      else output)"

definition print_tree_usage :: "u8 list" where
  "print_tree_usage = bytes_of ''Usage : tree <PATH> [OPTION]...'' @ [10]"

definition print_file_usage :: "u8 list" where
  "print_file_usage = bytes_of ''Usage : print <PATH> [OPTION]...'' @ [10]"

text \<open>The option scan: every option word is a minus sign and one or more of \<^verbatim>\<open>r\<close>, \<^verbatim>\<open>s\<close>, \<^verbatim>\<open>p\<close>.\<close>

fun scan_flags :: "u8 list \<Rightarrow> tree_flags \<Rightarrow> tree_flags option" where
  "scan_flags [] flags = Some flags"
| "scan_flags (c # cs) flags =
     (if c = 114 then scan_flags cs (flags\<lparr>recursive := True\<rparr>)
      else if c = 115 then scan_flags cs (flags\<lparr>show_size := True\<rparr>)
      else if c = 112 then scan_flags cs (flags\<lparr>show_permissions := True\<rparr>)
      else None)"

fun tree_options :: "u8 list list \<Rightarrow> tree_flags \<Rightarrow> tree_flags option" where
  "tree_options [] flags = Some flags"
| "tree_options (t # ts) flags =
     (if t = [] \<or> hd t \<noteq> 45 \<or> tl t = [] then None
      else (case scan_flags (tl t) flags of None \<Rightarrow> None | Some flags' \<Rightarrow> tree_options ts flags'))"

definition no_flags :: tree_flags where
  "no_flags = \<lparr>recursive = False, show_size = False, show_permissions = False\<rparr>"

definition err :: "string \<Rightarrow> u8 list \<Rightarrow> string \<Rightarrow> u8 list" where
  "err before path after = bytes_of before @ [39] @ path @ [39] @ bytes_of after @ [10]"

definition command_tree :: "Ext2Fs \<Rightarrow> u8 list list \<Rightarrow> u8 list" where
  "command_tree fs tokens =
     (if length tokens < 2 then print_tree_usage else
      let path = tokens ! 1 in
      case tree_options (drop 2 tokens) no_flags of
        None \<Rightarrow> print_tree_usage
      | Some flags \<Rightarrow>
         (case ext2_resolve_path fs path of
            None \<Rightarrow> print_tree_usage
          | Some inode_number \<Rightarrow>
             (case ext2_read_inode fs inode_number of
                None \<Rightarrow> err ''Error: cannot read inode for '' path []
              | Some inode \<Rightarrow>
                  if \<not> is_directory inode then err ''Error: '' path '' is not directory'' else
                  let label = print_entry_label (path_display_name path) inode
                                (show_size flags) (show_permissions flags) @ [10];
                      visited_size = unat (inodes_count fs) div 8 + 1
                  in
                  if \<not> can_alloc fs (word_of_nat visited_size)
                  then label @ bytes_of ''Error: out of memory while building directory tree'' @ [10]
                  else
                    let st = \<lparr>visited = visited_set (replicate visited_size 0) inode_number,
                              directories = 1, files = 0, out = label, heap_overrun = False\<rparr>
                    in (case print_tree_children fs inode_number [] flags 0 st of
                          (False, st') \<Rightarrow> out st' @ bytes_of ''Error: malformed directory data in image'' @ [10]
                        | (True, st') \<Rightarrow> out st' @ [10] @ dec_digits (unat (directories st')) @
                            bytes_of '' directories, '' @ dec_digits (unat (files st')) @
                            bytes_of '' files'' @ [10, 10]))))"

subsection \<open>Printing a file\<close>

text \<open>The C locale's \<^verbatim>\<open>isspace\<close>, and \<^verbatim>\<open>strtoumax\<close> in base 10: value, range error, unread rest.\<close>

definition isspace :: "u8 \<Rightarrow> bool" where
  "isspace c \<longleftrightarrow> c = 32 \<or> (9 \<le> c \<and> c \<le> 13)"

definition isdigit :: "u8 \<Rightarrow> bool" where
  "isdigit c \<longleftrightarrow> 48 \<le> c \<and> c \<le> 57"

fun digits_value :: "nat \<Rightarrow> u8 list \<Rightarrow> nat" where
  "digits_value acc [] = acc"
| "digits_value acc (c # cs) = digits_value (10 * acc + (unat c - 48)) cs"

definition strtoumax :: "u8 list \<Rightarrow> u64 \<times> bool \<times> u8 list" where
  "strtoumax text =
     (let body = dropWhile isspace text;
          negative = (body \<noteq> [] \<and> hd body = 45);
          unsigned_part = (if body \<noteq> [] \<and> (hd body = 45 \<or> hd body = 43) then tl body else body);
          ds = takeWhile isdigit unsigned_part;
          v = digits_value 0 ds
      in if ds = [] then (0, False, text)
         else if v \<ge> 2 ^ 64 then (- 1, True, dropWhile isdigit unsigned_part)
         else ((if negative then - word_of_nat v else word_of_nat v), False,
               dropWhile isdigit unsigned_part))"

definition parse_positive_line_count :: "u8 list \<Rightarrow> u64 option" where
  "parse_positive_line_count text =
     (if text = [] \<or> hd text = 45 then None
      else case strtoumax text of
        (parsed, erange, rest) \<Rightarrow>
          if erange \<or> rest \<noteq> [] \<or> parsed = 0 then None else Some parsed)"

text \<open>The scan for the last wanted newline: its index, or the lines counted so far.\<close>

fun scan_newlines :: "u8 list \<Rightarrow> u64 \<Rightarrow> u64 \<Rightarrow> nat + u64" where
  "scan_newlines [] lines limit = Inr lines"
| "scan_newlines (c # cs) lines limit =
     (if c = 10
      then if lines + 1 = limit then Inl 0 else map_sum Suc id (scan_newlines cs (lines + 1) limit)
      else map_sum Suc id (scan_newlines cs lines limit))"

fun print_blocks :: "Ext2Fs \<Rightarrow> Ext2Inode \<Rightarrow> bool \<Rightarrow> u64 \<Rightarrow> u64 \<Rightarrow> u64 \<Rightarrow> nat \<Rightarrow> u64 \<Rightarrow> u8 list \<Rightarrow> bool \<times> u8 list" where
  "print_blocks fs inode limited limit sz logical 0 lines output = (True, output)"
| "print_blocks fs inode limited limit sz logical (Suc n) lines output =
     (let consumed = logical * ucast (block_size fs);
          amount = (if sz - consumed > ucast (block_size fs)
                    then unat (block_size fs) else unat (sz - consumed))
      in case ext2_data_block fs inode logical of
           None \<Rightarrow> (False, output)
         | Some physical \<Rightarrow>
            (case (if physical = 0 then Some (replicate amount 0)
                   else image_read fs (ucast physical * ucast (block_size fs)) amount) of
               None \<Rightarrow> (False, output)
             | Some buffer \<Rightarrow>
                 if limited then
                   (case scan_newlines buffer lines limit of
                      Inl i \<Rightarrow> (True, output @ take (i + 1) buffer)
                    | Inr lines' \<Rightarrow>
                        print_blocks fs inode limited limit sz (logical + 1) n lines' (output @ buffer))
                 else print_blocks fs inode limited limit sz (logical + 1) n lines (output @ buffer)))"

definition print_inode_data :: "Ext2Fs \<Rightarrow> Ext2Inode \<Rightarrow> bool \<Rightarrow> u64 \<Rightarrow> bool \<times> u8 list" where
  "print_inode_data fs inode limited line_limit =
     (let sz = ext2_inode_size inode in
      if \<not> can_alloc fs (ucast (block_size fs)) then (False, [])
      else print_blocks fs inode limited line_limit sz 0 (unat (block_total fs sz)) 0 [])"

definition command_print :: "Ext2Fs \<Rightarrow> u8 list list \<Rightarrow> u8 list" where
  "command_print fs tokens =
     (let run = \<lambda>limited line_limit. let path = tokens ! 1 in
        (case ext2_resolve_path fs path of
           None \<Rightarrow> print_file_usage
         | Some inode_number \<Rightarrow>
            (case ext2_read_inode fs inode_number of
               None \<Rightarrow> err ''Error: cannot read inode for '' path []
             | Some inode \<Rightarrow>
                 if mode inode AND EXT2_S_IFMT \<noteq> EXT2_S_IFREG
                 then err ''Error: '' path '' is not file''
                 else (case print_inode_data fs inode limited line_limit of
                         (True, output) \<Rightarrow> output
                       | (False, output) \<Rightarrow>
                           output @ [10] @ err ''Error: cannot read file data for '' path [])))
      in
      if length tokens < 2 then print_file_usage
      else if length tokens > 2 then
        (if tokens ! 2 \<noteq> bytes_of ''-n'' then print_file_usage
         else if length tokens = 3
           then bytes_of ''print: option requires an argument -- '' @ [39, 110, 39, 10]
         else if length tokens \<noteq> 4 then print_file_usage
         else (case parse_positive_line_count (tokens ! 3) of
                 None \<Rightarrow> print_file_usage
               | Some line_limit \<Rightarrow> run True line_limit))
      else run False 0)"

subsection \<open>Help\<close>

definition line_of :: "string \<Rightarrow> u8 list" where
  "line_of s = bytes_of s @ [10]"

definition print_tree_help :: "u8 list" where
  "print_tree_help =
     line_of ''Usage : tree <PATH> [OPTION]... : display the directory structure if <PATH> is a directory'' @
     line_of ''  -r : display the directory structure recursively'' @
     line_of ''  -s : include the size of each directory and file'' @
     line_of ''  -p : include the permissions of each directory and file''"

definition print_print_help :: "u8 list" where
  "print_print_help =
     line_of ''Usage : print <PATH> [OPTION]... : print file contents on standard output'' @
     line_of ''  -n <line_number> : print only the first <line_number> lines''"

definition print_all_help :: "u8 list" where
  "print_all_help =
     line_of ''Usage:'' @
     line_of ''  > tree <PATH> [OPTION]... : display the directory structure if <PATH> is a directory'' @
     line_of ''    -r : display the directory structure recursively'' @
     line_of ''    -s : include the size of each directory and file'' @
     line_of ''    -p : include the permissions of each directory and file'' @
     line_of ''  > print <PATH> [OPTION]... : print file contents on standard output'' @
     line_of ''    -n <line_number> : print only the first <line_number> lines'' @
     line_of ''  > help [COMMAND] : show commands for program'' @
     line_of ''  > exit : exit program''"

definition command_help :: "u8 list list \<Rightarrow> u8 list" where
  "command_help tokens =
     (if length tokens = 1 then print_all_help
      else if length tokens = 2 \<and> tokens ! 1 = bytes_of ''tree'' then print_tree_help
      else if length tokens = 2 \<and> tokens ! 1 = bytes_of ''print'' then print_print_help
      else if length tokens = 2 \<and> tokens ! 1 = bytes_of ''help''
        then line_of ''Usage : help [COMMAND] : show commands for program''
      else if length tokens = 2 \<and> tokens ! 1 = bytes_of ''exit'' then line_of ''Usage : exit : exit program''
      else (if length tokens = 2 then bytes_of ''invalid command -- '' @ [39] @ tokens ! 1 @ [39, 10]
            else line_of ''Usage : help [COMMAND]'') @ print_all_help)"

subsection \<open>The tokenizer, in place\<close>

text \<open>
  The line buffer is \<open>mem\<close>, terminated by a zero byte; \<open>r\<close> and \<open>w\<close> are the positions of \<^verbatim>\<open>readp\<close> and
  \<^verbatim>\<open>writep\<close>.  The inner loop copies one token, the outer loop collects the token positions.
  Running past the buffer, which the terminator excludes, ends the loops.
\<close>

definition at_end :: "u8 list \<Rightarrow> nat \<Rightarrow> bool" where
  "at_end mem r \<longleftrightarrow> r \<ge> length mem \<or> mem ! r = 0"

function copy_word :: "u8 list \<Rightarrow> nat \<Rightarrow> nat \<Rightarrow> u8 \<Rightarrow> u8 list \<times> nat \<times> nat \<times> u8" where
  "copy_word mem r w quote =
     (if at_end mem r then (mem, r, w, quote)
      else if quote \<noteq> 0 \<and> mem ! r = quote then copy_word mem (r + 1) w 0
      else if quote = 0 \<and> (mem ! r = 39 \<or> mem ! r = 34) then copy_word mem (r + 1) w (mem ! r)
      else if quote = 0 \<and> isspace (mem ! r) then (mem, r + 1, w, quote)
      else if mem ! r = 92 \<and> \<not> at_end mem (r + 1)
        then copy_word (mem[w := mem ! (r + 1)]) (r + 2) (w + 1) quote
      else copy_word (mem[w := mem ! r]) (r + 1) (w + 1) quote)"
  by pat_completeness auto
termination
  by (relation "measure (\<lambda>(mem, r, w, quote). length mem - r)") (auto simp: at_end_def)

declare copy_word.simps [simp del]

function skip_spaces :: "u8 list \<Rightarrow> nat \<Rightarrow> nat" where
  "skip_spaces mem r = (if \<not> at_end mem r \<and> isspace (mem ! r) then skip_spaces mem (r + 1) else r)"
  by pat_completeness auto
termination
  by (relation "measure (\<lambda>(mem, r). length mem - r)") (auto simp: at_end_def)

declare skip_spaces.simps [simp del]

datatype token_error = TooManyTokens | UnclosedQuote

lemma skip_spaces_le: "r \<le> skip_spaces mem r"
  by (induction mem r rule: skip_spaces.induct) (subst skip_spaces.simps, auto)

lemma copy_word_progress:
  "case copy_word mem r w quote of (mem', r', w', q) \<Rightarrow>
     length mem' = length mem \<and> r \<le> r' \<and> (\<not> at_end mem r \<longrightarrow> r < r')"
proof (induction mem r w quote rule: copy_word.induct)
  case (1 mem r w quote)
  show ?case
    by (subst copy_word.simps) (use 1 in \<open>auto split: prod.splits\<close>)
qed

function tokenize_from :: "nat \<Rightarrow> u8 list \<Rightarrow> nat \<Rightarrow> nat \<Rightarrow> nat list \<Rightarrow> token_error + u8 list \<times> nat list" where
  "tokenize_from maximum mem r w tokens =
     (if at_end mem r then Inr (mem, tokens)
      else let r = skip_spaces mem r in
        if at_end mem r then Inr (mem, tokens)
        else if length tokens = maximum then Inl TooManyTokens
        else case copy_word mem r w 0 of
          (mem', r', w', quote) \<Rightarrow>
            if quote \<noteq> 0 then Inl UnclosedQuote
            else tokenize_from maximum (mem'[w' := 0]) r' (w' + 1) (tokens @ [w]))"
  by pat_completeness auto
termination
proof (relation "measure (\<lambda>(maximum, mem, r, w, tokens). length mem - r)", goal_cases)
  case (2 maximum mem r w tokens x ab y ad ae bb)
  then show ?case
    using copy_word_progress [of mem x w 0] skip_spaces_le [of r mem]
    by (auto simp: at_end_def)
qed simp

declare tokenize_from.simps [simp del]

definition string_at :: "u8 list \<Rightarrow> nat \<Rightarrow> u8 list" where
  "string_at mem p = c_string (drop p mem)"

definition tokenize :: "nat \<Rightarrow> u8 list \<Rightarrow> token_error + u8 list list" where
  "tokenize maximum line =
     (case tokenize_from maximum (line @ [0]) 0 0 [] of
        Inl e \<Rightarrow> Inl e
      | Inr (mem, tokens) \<Rightarrow> Inr (map (string_at mem) tokens))"

subsection \<open>Dispatch and the prompt\<close>

abbreviation "MAX_TOKENS \<equiv> (256 :: nat)"
abbreviation "COMMAND_MAX \<equiv> (4096 :: nat)"

definition execute_command :: "Ext2Fs \<Rightarrow> u8 list \<Rightarrow> bool \<times> u8 list" where
  "execute_command fs line =
     (case tokenize MAX_TOKENS line of
        Inl _ \<Rightarrow> (True, print_all_help)
      | Inr tokens \<Rightarrow>
          if tokens = [] then (True, [])
          else if tokens ! 0 = bytes_of ''tree'' then (True, command_tree fs tokens)
          else if tokens ! 0 = bytes_of ''print'' then (True, command_print fs tokens)
          else if tokens ! 0 = bytes_of ''help'' then (True, command_help tokens)
          else if tokens ! 0 = bytes_of ''exit'' then
            (if length tokens = 1 then (False, []) else (True, line_of ''Usage : exit''))
          else (True, print_all_help))"

text \<open>\<^verbatim>\<open>fgets\<close> with a buffer of \<^verbatim>\<open>n\<close> bytes: the bytes stored, the input left, and the end-of-file flag.\<close>

definition fgets :: "nat \<Rightarrow> u8 list \<Rightarrow> (u8 list \<times> u8 list \<times> bool) option" where
  "fgets n input =
     (if input = [] then None
      else let chunk = take (n - 1) input;
               upto_nl = takeWhile (\<lambda>c. c \<noteq> 10) chunk
           in if 10 \<in> set chunk then Some (upto_nl @ [10], drop (length upto_nl + 1) input, False)
              else Some (chunk, drop (n - 1) input, length input < n - 1))"

function prompt_loop :: "Ext2Fs \<Rightarrow> u8 list \<Rightarrow> u8 list" where
  "prompt_loop fs input = bytes_of ''20211426> '' @
     (case fgets (COMMAND_MAX + 2) input of
        None \<Rightarrow> []
      | Some (command, rest, eof) \<Rightarrow>
          let s = c_string command in
          if s \<noteq> [] \<and> last s \<noteq> 10 \<and> \<not> eof
          then print_all_help @ prompt_loop fs (drop 1 (dropWhile (\<lambda>c. c \<noteq> 10) rest))
          else (case execute_command fs (takeWhile (\<lambda>c. c \<noteq> 10) s) of
                  (running, output) \<Rightarrow> output @ (if running then prompt_loop fs rest else [])))"
  by pat_completeness auto
termination
proof (relation "measure (\<lambda>(fs, input). length input)", goal_cases)
  case (2 fs input a command y rest eof s)
  then have "length rest < length input"
    by (auto simp: fgets_def Let_def split: if_splits)
  moreover have "length (drop 1 (dropWhile (\<lambda>c. c \<noteq> 10) rest)) \<le> length rest"
    using length_dropWhile_le [of "\<lambda>c. c \<noteq> 10" rest] by simp
  ultimately show ?case by simp
next
  case (3 fs input a command y rest eof s running outp)
  then show ?case by (auto simp: fgets_def Let_def split: if_splits)
qed simp

declare prompt_loop.simps [simp del]

definition main :: "(u64 \<Rightarrow> bool) \<Rightarrow> (u64 \<Rightarrow> nat \<Rightarrow> pread_result list) \<Rightarrow> host_file list \<Rightarrow> u8 list \<Rightarrow> bool \<times> u8 list" where
  "main alloc os args input =
     (case args of
        [f] \<Rightarrow> (case ext2_open alloc os f of
                 Inl _ \<Rightarrow> (False, [])
               | Inr fs \<Rightarrow> (True, prompt_loop fs input))
      | _ \<Rightarrow> (False, []))"

subsection \<open>Reference definitions\<close>

text \<open>Tokenizing as a pure function on the line, with no buffer: one word, then all words.\<close>


fun pure_word :: "u8 \<Rightarrow> u8 list \<Rightarrow> u8 list \<times> u8 list \<times> u8" where
  "pure_word q [] = ([], [], q)"
| "pure_word q [c] =
     (if q \<noteq> 0 \<and> c = q then ([], [], 0)
      else if q = 0 \<and> (c = 39 \<or> c = 34) then ([], [], c)
      else if q = 0 \<and> isspace c then ([], [], q)
      else ([c], [], q))"
| "pure_word q (c # d # cs) =
     (if q \<noteq> 0 \<and> c = q then pure_word 0 (d # cs)
      else if q = 0 \<and> (c = 39 \<or> c = 34) then pure_word c (d # cs)
      else if q = 0 \<and> isspace c then ([], d # cs, q)
      else if c = 92 then (case pure_word q cs of (t, rest, q') \<Rightarrow> (d # t, rest, q'))
      else (case pure_word q (d # cs) of (t, rest, q') \<Rightarrow> (c # t, rest, q')))"

fun pure_tokens :: "nat \<Rightarrow> u8 list \<Rightarrow> token_error + u8 list list" where
  "pure_tokens n line =
     (let s = dropWhile isspace line in
      if s = [] then Inr []
      else case n of
        0 \<Rightarrow> Inl TooManyTokens
      | Suc m \<Rightarrow>
        (case pure_word 0 s of
           (t, rest, q) \<Rightarrow>
             if q \<noteq> 0 then Inl UnclosedQuote
             else (case pure_tokens m rest of Inl e \<Rightarrow> Inl e | Inr ts \<Rightarrow> Inr (t # ts))))"
declare pure_tokens.simps [simp del]

definition escape :: "u8 list \<Rightarrow> u8 list" where
  "escape t = concat (map (\<lambda>c. [92, c]) t)"

fun command_line :: "u8 list list \<Rightarrow> u8 list" where
  "command_line [] = []"
| "command_line (t # ts) = escape t @ [32] @ command_line ts"

text \<open>The first \<open>n\<close> lines of a text, newlines included.\<close>

fun take_lines :: "nat \<Rightarrow> u8 list \<Rightarrow> u8 list" where
  "take_lines n [] = []"
| "take_lines n (c # cs) =
     (if c = 10 then c # (if n = 1 then [] else take_lines (n - 1) cs) else c # take_lines n cs)"

text \<open>The bytes of a file as the inode describes them; a hole reads as zeros.\<close>

definition block_bytes :: "Ext2Fs \<Rightarrow> Ext2Inode \<Rightarrow> u64 \<Rightarrow> nat \<Rightarrow> u8 list" where
  "block_bytes fs inode logical amount =
     (case ext2_data_block fs inode logical of
        Some b \<Rightarrow> if b = 0 then replicate amount 0
                  else take amount (drop (unat b * unat (block_size fs)) (img fs))
      | None \<Rightarrow> [])"

text \<open>A block can be read when it resolves and is a hole or \<^verbatim>\<open>pread\<close> does not fail on it.\<close>

definition block_reads :: "Ext2Fs \<Rightarrow> Ext2Inode \<Rightarrow> u64 \<Rightarrow> nat \<Rightarrow> bool" where
  "block_reads fs inode logical amount =
     (case ext2_data_block fs inode logical of
        None \<Rightarrow> False
      | Some b \<Rightarrow> b = 0 \<or> \<not> pread_fails amount (preads fs (ucast b * ucast (block_size fs)) amount))"

fun file_bytes :: "Ext2Fs \<Rightarrow> Ext2Inode \<Rightarrow> nat \<Rightarrow> nat \<Rightarrow> nat \<Rightarrow> u8 list" where
  "file_bytes fs inode sz logical 0 = []"
| "file_bytes fs inode sz logical (Suc n) =
     block_bytes fs inode (word_of_nat logical)
       (min (unat (block_size fs)) (sz - logical * unat (block_size fs))) @
     file_bytes fs inode sz (Suc logical) n"

subsection \<open>The tokenizer\<close>

lemma at_end_append [simp]: "0 \<notin> set inp \<Longrightarrow> at_end (pre @ inp @ [0]) (length pre) \<longleftrightarrow> inp = []"
  by (cases inp) (auto simp: at_end_def nth_append)

lemma pure_word_clean: "pure_word q s = (t, rest, q') \<Longrightarrow> 0 \<notin> set s \<Longrightarrow> 0 \<notin> set t \<and> 0 \<notin> set rest"
  by (induction q s arbitrary: t rest q' rule: pure_word.induct)
    (auto split: if_splits prod.splits)

lemma skip_spaces_append:
  "0 \<notin> set inp \<Longrightarrow> \<exists>pre'. pre @ inp = pre' @ dropWhile isspace inp \<and>
     skip_spaces (pre @ inp @ [0]) (length pre) = length pre'"
proof (induction inp arbitrary: pre)
  case Nil
  then show ?case by (subst skip_spaces.simps) (simp add: at_end_def nth_append)
next
  case (Cons c cs)
  show ?case
  proof (cases "isspace c")
    case True
    from Cons.IH [of "pre @ [c]"] Cons.prems obtain pre' where
      "pre @ c # cs = pre' @ dropWhile isspace cs"
      "skip_spaces ((pre @ [c]) @ cs @ [0]) (length (pre @ [c])) = length pre'" by auto
    moreover have "skip_spaces (pre @ (c # cs) @ [0]) (length pre) =
        skip_spaces ((pre @ [c]) @ cs @ [0]) (length (pre @ [c]))"
      using True Cons.prems by (subst skip_spaces.simps) (simp add: at_end_def nth_append)
    ultimately show ?thesis using True by auto
  next
    case False
    then show ?thesis by (subst skip_spaces.simps) (auto simp: nth_append)
  qed
qed

lemma take_Suc_update: "w < length p \<Longrightarrow> take (Suc w) (p[w := v]) = take w p @ [v]"
  by (simp add: take_Suc_conv_app_nth)

lemma copy_word_end: "copy_word (pre @ [0]) (length pre) w q = (pre @ [0], length pre, w, q)"
  by (subst copy_word.simps) (simp add: at_end_def nth_append)

lemma copy_word_step:
  assumes "c \<noteq> 0" "0 \<notin> set cs" "w \<le> length pre"
  shows "q \<noteq> 0 \<and> c = q \<Longrightarrow>
      copy_word (pre @ (c # cs) @ [0]) (length pre) w q = copy_word ((pre @ [c]) @ cs @ [0]) (length (pre @ [c])) w 0"
    "q = 0 \<and> (c = 39 \<or> c = 34) \<Longrightarrow>
      copy_word (pre @ (c # cs) @ [0]) (length pre) w q = copy_word ((pre @ [c]) @ cs @ [0]) (length (pre @ [c])) w c"
    "q = 0 \<and> isspace c \<Longrightarrow> \<not> (c = 39 \<or> c = 34) \<Longrightarrow>
      copy_word (pre @ (c # cs) @ [0]) (length pre) w q = ((pre @ [c]) @ cs @ [0], length (pre @ [c]), w, q)"
    "\<not> (q \<noteq> 0 \<and> c = q) \<Longrightarrow> \<not> (q = 0 \<and> (c = 39 \<or> c = 34)) \<Longrightarrow> \<not> (q = 0 \<and> isspace c) \<Longrightarrow>
      c = 92 \<Longrightarrow> cs = d # ds \<Longrightarrow>
      copy_word (pre @ (c # cs) @ [0]) (length pre) w q =
        copy_word ((pre @ [c, d])[w := d] @ ds @ [0]) (length ((pre @ [c, d])[w := d])) (w + 1) q"
    "\<not> (q \<noteq> 0 \<and> c = q) \<Longrightarrow> \<not> (q = 0 \<and> (c = 39 \<or> c = 34)) \<Longrightarrow> \<not> (q = 0 \<and> isspace c) \<Longrightarrow>
      c \<noteq> 92 \<or> cs = [] \<Longrightarrow>
      copy_word (pre @ (c # cs) @ [0]) (length pre) w q =
        copy_word ((pre @ [c])[w := c] @ cs @ [0]) (length ((pre @ [c])[w := c])) (w + 1) q"
proof -
  have ne: "\<not> at_end (pre @ (c # cs) @ [0]) (length pre)" and c: "(pre @ (c # cs) @ [0]) ! length pre = c"
    using assms by (auto simp: at_end_def nth_append)
  note unfold = copy_word.simps [of "pre @ (c # cs) @ [0]" "length pre" w q]
  have nx: "at_end (pre @ (c # cs) @ [0]) (length pre + 1) \<longleftrightarrow> cs = []"
    using assms(2) at_end_append [of cs "pre @ [c]"] by simp
  have upd: "(pre @ (c # cs) @ [0])[w := v] = (pre @ [c])[w := v] @ cs @ [0]" for v
    using assms(3) list_update_append1 [of w "pre @ [c]" "cs @ [0]" v] by simp
  show "q \<noteq> 0 \<and> c = q \<Longrightarrow>
      copy_word (pre @ (c # cs) @ [0]) (length pre) w q = copy_word ((pre @ [c]) @ cs @ [0]) (length (pre @ [c])) w 0"
    by (subst unfold) (use ne c in simp)
  show "q = 0 \<and> (c = 39 \<or> c = 34) \<Longrightarrow>
      copy_word (pre @ (c # cs) @ [0]) (length pre) w q = copy_word ((pre @ [c]) @ cs @ [0]) (length (pre @ [c])) w c"
    by (subst unfold) (use ne c in auto)
  show "q = 0 \<and> isspace c \<Longrightarrow> \<not> (c = 39 \<or> c = 34) \<Longrightarrow>
      copy_word (pre @ (c # cs) @ [0]) (length pre) w q = ((pre @ [c]) @ cs @ [0], length (pre @ [c]), w, q)"
    by (subst unfold) (use ne c in simp)
  show "\<not> (q \<noteq> 0 \<and> c = q) \<Longrightarrow> \<not> (q = 0 \<and> (c = 39 \<or> c = 34)) \<Longrightarrow> \<not> (q = 0 \<and> isspace c) \<Longrightarrow>
      c \<noteq> 92 \<or> cs = [] \<Longrightarrow>
      copy_word (pre @ (c # cs) @ [0]) (length pre) w q =
        copy_word ((pre @ [c])[w := c] @ cs @ [0]) (length ((pre @ [c])[w := c])) (w + 1) q"
    by (subst unfold) (use ne c nx upd in auto)
  show "\<not> (q \<noteq> 0 \<and> c = q) \<Longrightarrow> \<not> (q = 0 \<and> (c = 39 \<or> c = 34)) \<Longrightarrow> \<not> (q = 0 \<and> isspace c) \<Longrightarrow>
      c = 92 \<Longrightarrow> cs = d # ds \<Longrightarrow>
      copy_word (pre @ (c # cs) @ [0]) (length pre) w q =
        copy_word ((pre @ [c, d])[w := d] @ ds @ [0]) (length ((pre @ [c, d])[w := d])) (w + 1) q"
    using assms(3) list_update_append1 [of w "pre @ [c, d]" "ds @ [0]" d]
    by (subst unfold) (use ne c nx in \<open>auto simp: nth_append\<close>)
qed

lemma copy_word_pure:
  assumes "pure_word q inp = (t, rest, q')" "0 \<notin> set inp" "w \<le> length pre"
  shows "\<exists>pre'. copy_word (pre @ inp @ [0]) (length pre) w q =
      (pre' @ rest @ [0], length pre', w + length t, q') \<and>
    length pre' + length rest = length pre + length inp \<and>
    w + length t \<le> length pre' \<and> (rest \<noteq> [] \<longrightarrow> w + length t < length pre') \<and>
    take (w + length t) pre' = take w pre @ t"
  using assms
proof (induction q inp arbitrary: pre w t rest q' rule: pure_word.induct)
  case (1 q)
  then show ?case by (simp add: copy_word_end)
next
  case (2 q c)
  then have c: "c \<noteq> 0" "0 \<notin> set []" "w \<le> length pre" by auto
  note step = copy_word_step [OF c, of q]
  show ?case
  proof (cases "q \<noteq> 0 \<and> c = q")
    case True
    then show ?thesis using 2 step(1) copy_word_end [of "pre @ [c]"]
      by (auto intro!: exI [of _ "pre @ [c]"])
  next
    case nq: False
    show ?thesis
    proof (cases "q = 0 \<and> (c = 39 \<or> c = 34)")
      case True
      then show ?thesis using 2 step(2) copy_word_end [of "pre @ [c]"] nq
        by (auto intro!: exI [of _ "pre @ [c]"])
    next
      case nd: False
      show ?thesis
      proof (cases "q = 0 \<and> isspace c")
        case True
        then show ?thesis using 2 step(3) nq nd by (auto intro!: exI [of _ "pre @ [c]"])
      next
        case False
        then show ?thesis
          using 2 step(5) [OF nq nd False] copy_word_end [of "(pre @ [c])[w := c]" "w + 1"] nq nd
            take_Suc_update [of w "pre @ [c]" c]
          by (auto intro!: exI [of _ "(pre @ [c])[w := c]"])
      qed
    qed
  qed
next
  case (3 q c d cs)
  then have c: "c \<noteq> 0" "0 \<notin> set (d # cs)" "w \<le> length pre" by auto
  note step = copy_word_step [OF c, of q]
  show ?case
  proof (cases "q \<noteq> 0 \<and> c = q")
    case True
    then have "pure_word 0 (d # cs) = (t, rest, q')" using "3.prems"(1) by simp
    from "3.IH"(1) [OF True this, of w "pre @ [c]"] c step(1) [OF True] show ?thesis by auto
  next
    case nq: False
    show ?thesis
    proof (cases "q = 0 \<and> (c = 39 \<or> c = 34)")
      case True
      then have "pure_word c (d # cs) = (t, rest, q')" using "3.prems"(1) nq by simp
      from "3.IH"(2) [OF nq True this, of w "pre @ [c]"] c step(2) [OF True] show ?thesis by auto
    next
      case nd: False
      show ?thesis
      proof (cases "q = 0 \<and> isspace c")
        case True
        then show ?thesis using 3 step(3) nq nd by (auto intro!: exI [of _ "pre @ [c]"])
      next
        case ns: False
        show ?thesis
        proof (cases "c = 92")
          case True
          then obtain t1 where "pure_word q cs = (t1, rest, q')" "t = d # t1"
            using "3.prems"(1) nq nd ns by (auto split: prod.splits)
          then show ?thesis
            using "3.IH"(3) [OF nq nd ns True, of t1 rest q' "w + 1" "(pre @ [c, d])[w := d]"] c
              step(4) [OF nq nd ns True refl] take_Suc_update [of w "pre @ [c, d]" d]
            by auto
        next
          case False
          then obtain t1 where "pure_word q (d # cs) = (t1, rest, q')" "t = c # t1"
            using "3.prems"(1) nq nd ns by (auto split: prod.splits)
          then show ?thesis
            using "3.IH"(4) [OF nq nd ns False, of t1 rest q' "w + 1" "(pre @ [c])[w := c]"] c
              step(5) [OF nq nd ns] False take_Suc_update [of w "pre @ [c]" c]
            by auto
        qed
      qed
    qed
  qed
qed


lemma pure_tokens_unfold:
  "dropWhile isspace inp = [] \<Longrightarrow> pure_tokens n inp = Inr []"
  "dropWhile isspace inp \<noteq> [] \<Longrightarrow> pure_tokens 0 inp = Inl TooManyTokens"
  "dropWhile isspace inp \<noteq> [] \<Longrightarrow> pure_word 0 (dropWhile isspace inp) = (t, rest, q) \<Longrightarrow>
     pure_tokens (Suc m) inp =
       (if q \<noteq> 0 then Inl UnclosedQuote
        else (case pure_tokens m rest of Inl e \<Rightarrow> Inl e | Inr ts \<Rightarrow> Inr (t # ts)))"
  by (simp_all only: pure_tokens.simps [of n inp] pure_tokens.simps [of 0 inp]
      pure_tokens.simps [of "Suc m" inp] Let_def if_True if_False nat.case prod.case simp_thms)

lemma tokenize_from_unfold:
  assumes "0 \<notin> set inp"
  shows "\<exists>pre'. pre @ inp = pre' @ dropWhile isspace inp \<and>
    tokenize_from maximum (pre @ inp @ [0]) (length pre) w tokens =
       (if dropWhile isspace inp = [] then Inr (pre @ inp @ [0], tokens)
        else if length tokens = maximum then Inl TooManyTokens
        else case copy_word (pre' @ dropWhile isspace inp @ [0]) (length pre') w 0 of
          (mem', r', w', quote) \<Rightarrow>
            if quote \<noteq> 0 then Inl UnclosedQuote
            else tokenize_from maximum (mem'[w' := 0]) r' (w' + 1) (tokens @ [w]))"
proof -
  define A where "A = pre @ inp @ [0]"
  define S where "S = dropWhile isspace inp"
  obtain pre' where pre': "pre @ inp = pre' @ S" "skip_spaces A (length pre) = length pre'"
    using skip_spaces_append [OF assms, of pre] by (auto simp: A_def S_def)
  have mem: "A = pre' @ S @ [0]" using pre'(1) by (simp add: A_def)
  have clean: "0 \<notin> set S" using assms by (auto simp: S_def dest: set_dropWhileD)
  have "at_end A (length pre') \<longleftrightarrow> S = []" unfolding mem using clean by (rule at_end_append)
  moreover have "at_end A (length pre) \<Longrightarrow> S = []"
    unfolding A_def S_def using assms by simp
  ultimately have "tokenize_from maximum A (length pre) w tokens =
       (if S = [] then Inr (A, tokens)
        else if length tokens = maximum then Inl TooManyTokens
        else case copy_word (pre' @ S @ [0]) (length pre') w 0 of
          (mem', r', w', quote) \<Rightarrow>
            if quote \<noteq> 0 then Inl UnclosedQuote
            else tokenize_from maximum (mem'[w' := 0]) r' (w' + 1) (tokens @ [w]))"
    unfolding tokenize_from.simps [of maximum A "length pre"] pre'(2) Let_def mem [symmetric] by auto
  with pre'(1) show ?thesis unfolding A_def S_def by blast
qed

lemma string_at_token:
  assumes "0 \<notin> set t" "take (length a + length t + 1) mem = a @ t @ [0]"
  shows "string_at mem (length a) = t"
proof -
  have "mem = (a @ t @ [0]) @ drop (length a + length t + 1) mem"
    using assms(2) by (metis append_take_drop_id)
  then have "drop (length a) mem = t @ [0] @ drop (length a + length t + 1) mem"
    by (metis append.assoc append_eq_conv_conj)
  then show ?thesis
    using assms(1) by (auto simp: string_at_def c_string_def takeWhile_append)
qed

lemma tokenize_from_pure:
  assumes "0 \<notin> set inp" "w \<le> length pre \<or> inp = []" "maximum = length tokens + n"
  shows "case pure_tokens n inp of
      Inl e \<Rightarrow> tokenize_from maximum (pre @ inp @ [0]) (length pre) w tokens = Inl e
    | Inr ts \<Rightarrow> \<exists>mem' starts. tokenize_from maximum (pre @ inp @ [0]) (length pre) w tokens = Inr (mem', tokens @ starts) \<and>
        take w mem' = take w (pre @ inp @ [0]) \<and> map (string_at mem') starts = ts"
  using assms
proof (induction n arbitrary: inp w pre tokens)
  case 0
  then show ?case using tokenize_from_unfold [OF "0.prems"(1), of pre maximum w tokens]
    by (cases "dropWhile isspace inp = []") (auto simp: pure_tokens_unfold)
next
  case (Suc n)
  obtain pre1 where pre1: "pre @ inp = pre1 @ dropWhile isspace inp"
    and unf: "tokenize_from maximum (pre @ inp @ [0]) (length pre) w tokens =
       (if dropWhile isspace inp = [] then Inr (pre @ inp @ [0], tokens)
        else if length tokens = maximum then Inl TooManyTokens
        else case copy_word (pre1 @ dropWhile isspace inp @ [0]) (length pre1) w 0 of
          (mem', r', w', quote) \<Rightarrow>
            if quote \<noteq> 0 then Inl UnclosedQuote
            else tokenize_from maximum (mem'[w' := 0]) r' (w' + 1) (tokens @ [w]))"
    using tokenize_from_unfold [OF Suc.prems(1)] by blast
  show ?case
  proof (cases "dropWhile isspace inp = []")
    case True
    with Suc.prems unf show ?thesis by (auto simp: pure_tokens_unfold)
  next
    case ne: False
    obtain t rest q where pw: "pure_word 0 (dropWhile isspace inp) = (t, rest, q)"
      by (metis prod_cases3)
    have clean: "0 \<notin> set (dropWhile isspace inp)" using Suc.prems(1) by (auto dest: set_dropWhileD)
    have w0: "w \<le> length pre" using Suc.prems(2) ne by auto
    have "length (dropWhile isspace inp) \<le> length inp" by (rule length_dropWhile_le)
    then have w1: "w \<le> length pre1" and tk: "take w pre1 = take w pre"
      using w0 arg_cong [OF pre1, of length] arg_cong [OF pre1, of "take w"] by auto
    obtain pre2 where cw: "copy_word (pre1 @ dropWhile isspace inp @ [0]) (length pre1) w 0 =
        (pre2 @ rest @ [0], length pre2, w + length t, q)"
      and p2: "w + length t \<le> length pre2" "rest \<noteq> [] \<longrightarrow> w + length t < length pre2"
        "take (w + length t) pre2 = take w pre1 @ t"
      using copy_word_pure [OF pw clean w1] by blast
    have rc: "0 \<notin> set t" "0 \<notin> set rest" using pure_word_clean [OF pw clean] by auto
    show ?thesis
    proof (cases "q = 0")
      case False
      with unf cw pw ne Suc.prems(3) show ?thesis by (simp add: pure_tokens_unfold)
    next
      case True
      define pre3 where "pre3 = take (length pre2) ((pre2 @ rest @ [0])[w + length t := 0])"
      have m3: "(pre2 @ rest @ [0])[w + length t := 0] = pre3 @ rest @ [0]"
        using p2 by (cases "w + length t < length pre2") (auto simp: pre3_def list_update_append)
      have l3: "length pre3 = length pre2" by (simp add: pre3_def)
      have t3: "take (w + length t + 1) (pre3 @ rest @ [0]) = take w pre @ t @ [0]"
        using take_Suc_update [of "w + length t" "pre2 @ rest @ [0]" 0] p2(1,3) tk
        unfolding m3 by simp
      have "w + length t + 1 \<le> length pre3 \<or> rest = []" using p2 l3 by auto
      moreover have "maximum = length (tokens @ [w]) + n" using Suc.prems(3) by simp
      ultimately have IH: "case pure_tokens n rest of
          Inl e \<Rightarrow> tokenize_from maximum (pre3 @ rest @ [0]) (length pre3) (w + length t + 1) (tokens @ [w]) = Inl e
        | Inr ts \<Rightarrow> \<exists>mem' starts. tokenize_from maximum (pre3 @ rest @ [0]) (length pre3) (w + length t + 1) (tokens @ [w]) =
              Inr (mem', (tokens @ [w]) @ starts) \<and>
            take (w + length t + 1) mem' = take (w + length t + 1) (pre3 @ rest @ [0]) \<and>
            map (string_at mem') starts = ts"
        using rc(2) by (rule Suc.IH [rotated])
      have go: "tokenize_from maximum (pre @ inp @ [0]) (length pre) w tokens =
          tokenize_from maximum (pre3 @ rest @ [0]) (length pre3) (w + length t + 1) (tokens @ [w])"
        using unf ne cw True Suc.prems(3) m3 l3 by (simp del: dropWhile_eq_Nil_conv)
      have tok: "string_at mem w = t \<and> take w mem = take w pre"
        if "take (w + length t + 1) mem = take w pre @ t @ [0]" for mem
      proof -
        have "take w (take (w + length t + 1) mem) = take w mem" by (simp add: min_def)
        then have "take w mem = take w pre" unfolding that using w0 by simp
        then show ?thesis
          using string_at_token [of t "take w pre" mem] rc(1) w0 that by simp
      qed
      show ?thesis
      proof (cases "pure_tokens n rest")
        case (Inl e)
        then show ?thesis using IH by (simp add: go pure_tokens_unfold(3) [OF ne pw] True)
      next
        case (Inr ts)
        then obtain mem' starts where fin: "tokenize_from maximum (pre3 @ rest @ [0]) (length pre3)
            (w + length t + 1) (tokens @ [w]) = Inr (mem', (tokens @ [w]) @ starts)"
          "take (w + length t + 1) mem' = take w pre @ t @ [0]" "map (string_at mem') starts = ts"
          using IH t3 by auto
        show ?thesis
          using fin(1,3) tok [OF fin(2)] w0
          by (simp add: go pure_tokens_unfold(3) [OF ne pw] True Inr)
      qed
    qed
  qed
qed


lemma pure_word_escape: "pure_word 0 (escape t @ 32 # rest) = (t, rest, 0)"
proof (induction t)
  case Nil
  then show ?case by (cases rest) (simp_all add: escape_def isspace_def)
next
  case (Cons c t)
  have "escape t @ 32 # rest \<noteq> []" by simp
  then show ?case using Cons by (simp add: escape_def isspace_def)
qed

lemma pure_tokens_escape:
  "[] \<notin> set ts \<Longrightarrow> length ts \<le> n \<Longrightarrow> pure_tokens n (command_line ts) = Inr ts"
proof (induction ts arbitrary: n)
  case Nil
  then show ?case by (simp add: pure_tokens.simps)
next
  case (Cons t ts)
  then obtain m c cs where m: "n = Suc m" and t: "t = c # cs" by (cases n; cases t) auto
  have drop: "dropWhile isspace (command_line (t # ts)) = escape t @ 32 # command_line ts"
    by (simp add: t escape_def isspace_def)
  then have "dropWhile isspace (command_line (t # ts)) \<noteq> []" by simp
  then show ?case
    using Cons m pure_tokens_unfold(3) [of "command_line (t # ts)" t "command_line ts" 0 m]
    by (simp add: drop pure_word_escape del: dropWhile_eq_Nil_conv command_line.simps)
qed
text \<open>
  C24: the in-place tokenizer is right.  Although tokens are written over the line they are read
  from, the write position never overtakes the read position: the result (tokens or error) is that
  of the pure tokenizer, for every line and every token limit.
\<close>

theorem tokenize_inplace:
  assumes "0 \<notin> set line"
  shows "tokenize maximum line = pure_tokens maximum line"
  using tokenize_from_pure [OF assms, of 0 "[]" maximum "[]" maximum]
  by (auto simp: tokenize_def split: sum.splits)

theorem tokenize_inplace_witness: "tokenize 256 [97, 32, 34, 98, 32, 99, 34] = Inr [[97], [98, 32, 99]]"
  using tokenize_inplace [of "[97, 32, 34, 98, 32, 99, 34]" 256]
  by (simp add: pure_tokens.simps isspace_def word_nat)

text \<open>
  C29: every argument can be entered.  Writing each token with a backslash before every character
  and a space after it, the tokenizer returns exactly those tokens, as long as none is empty or
  contains a zero byte and there are at most as many as the limit.
\<close>

theorem tokenize_roundtrip:
  assumes "[] \<notin> set ts" "\<And>t. t \<in> set ts \<Longrightarrow> 0 \<notin> set t" "length ts \<le> maximum"
  shows "tokenize maximum (command_line ts) = Inr ts"
proof -
  have "0 \<notin> set (command_line us)" if "\<And>t. t \<in> set us \<Longrightarrow> 0 \<notin> set t" for us
    using that by (induction us) (auto simp: escape_def)
  then have "0 \<notin> set (command_line ts)" using assms(2) by blast
  then show ?thesis
    using tokenize_from_pure [of "command_line ts" 0 "[]" maximum "[]" maximum]
      pure_tokens_escape [OF assms(1,3)]
    by (auto simp: tokenize_def)
qed

theorem tokenize_roundtrip_witness:
  "tokenize 2 (command_line [[39, 32], [92]]) = Inr [[39, 32], [92]]"
  by (rule tokenize_roundtrip) auto

end
