(* ===== verification/Ext2_Output.thy ===== *)
theory Ext2_Output
  imports Ext2_Commands
begin

text \<open>
  What the commands of \<^verbatim>\<open>ssu_ext2\<close> print: the tree printer's visited bitmap as an instance of the
  bit table interface, its memory safety and progress, the bytes \<^verbatim>\<open>print\<close> writes with and without a
  line limit, and the parser of the line limit.
\<close>

subsection \<open>The visited bitmap is a bit table\<close>

lemma byte_bit_index:
  "unat (i div 8) = unat i div 8" "unat (i mod 8) = unat i mod 8" for i :: u32
  by (simp_all add: word_nat)

interpretation visited: bit_table visited_test visited_set "\<lambda>v (i :: u32). unat (i div 8) < length v"
proof
  fix v :: "u8 list" and i j :: u32
  assume "unat (i div 8) < length v" "unat (j div 8) < length v"
  then have "visited_test (visited_set v i) j \<longleftrightarrow>
      (unat i div 8 = unat j div 8 \<and> unat i mod 8 = unat j mod 8) \<or> visited_test v j"
    unfolding visited_test_def visited_set_def and_bit_test byte_bit_index
    by (auto simp: bit_or_iff bit_exp_iff possible_bit_word nth_list_update)
  then show "visited_test (visited_set v i) j \<longleftrightarrow> i = j \<or> visited_test v j"
    unfolding bit_index_eq by (metis word_unat_eq_iff)
qed (simp add: visited_set_def)

lemma length_visited_set [simp]: "length (visited_set v i) = length v"
  by (simp add: visited_set_def)

subsection \<open>The tree printer\<close>

text \<open>What a call may do to the state: the bitmap keeps its length and its bits, output only grows.\<close>

definition tree_extends :: "Ext2Fs \<Rightarrow> tree_flags \<Rightarrow> tree_state \<Rightarrow> tree_state \<Rightarrow> bool" where
  "tree_extends fs flags st st' \<longleftrightarrow>
     length (visited st') = length (visited st) \<and>
     (\<forall>j\<le>inodes_count fs. visited_test (visited st) j \<longrightarrow> visited_test (visited st') j) \<and>
     prefix (out st) (out st') \<and>
     (\<not> recursive flags \<longrightarrow> visited st' = visited st \<and> heap_overrun st' = heap_overrun st)"

lemma tree_extends_refl [simp]: "tree_extends fs flags st st"
  by (simp add: tree_extends_def)

lemma tree_extends_trans:
  "tree_extends fs flags st st1 \<Longrightarrow> tree_extends fs flags st1 st2 \<Longrightarrow> tree_extends fs flags st st2"
  by (auto simp: tree_extends_def)

lemma tree_extends_emit [simp]: "tree_extends fs flags st (emit_entry pfx l flags e c st)"
  by (simp add: tree_extends_def emit_entry_def)

lemma tree_extends_mark:
  assumes "length (visited st) = unat (inodes_count fs) div 8 + 1" "i \<le> inodes_count fs" "recursive flags"
  shows "tree_extends fs flags st (st\<lparr>visited := visited_set (visited st) i, heap_overrun := b\<rparr>)"
proof -
  have "unat (j div 8) < length (visited st)" if "j \<le> inodes_count fs" for j
  proof -
    have "unat j \<le> unat (inodes_count fs)" using that by (simp add: word_nat)
    then show ?thesis unfolding assms(1) byte_bit_index by (simp add: div_le_mono less_Suc_eq_le)
  qed
  then show ?thesis using assms by (auto simp: tree_extends_def visited.mark_mono)
qed

lemma print_tree_extends:
  "length (visited st) = unat (inodes_count fs) div 8 + 1 \<Longrightarrow>
     tree_extends fs flags st (snd (print_tree_children fs i pfx flags depth st))"
  "length (visited st) = unat (inodes_count fs) div 8 + 1 \<Longrightarrow>
     (\<forall>e\<in>set es. e_inode e \<le> inodes_count fs) \<Longrightarrow>
     tree_extends fs flags st (snd (print_entries fs es pfx flags depth st))"
proof (induction fs i pfx flags depth st and fs es pfx flags depth st
    rule: print_tree_children_print_entries.induct)
  case (1 fs i pfx flags depth st)
  then show ?case
    using read_directory_list_ok [of fs i True]
    by (subst print_tree_children.simps) (auto simp: list_ok_def split: option.split)
next
  case (3 fs e rest pfx flags depth st)
  show ?case
  proof (cases "ext2_read_inode fs (e_inode e)")
    case (Some child)
    define st1 where "st1 = emit_entry pfx (rest = []) flags e child st"
    define st2 where "st2 = st1\<lparr>visited := visited_set (visited st1) (e_inode e),
                        heap_overrun := (heap_overrun st1 \<or> prefix_overrun pfx (rest = []))\<rparr>"
    have len: "length (visited st1) = unat (inodes_count fs) div 8 + 1" "length (visited st2) = unat (inodes_count fs) div 8 + 1"
      using 3 by (simp_all add: st1_def st2_def emit_entry_def)
    have e1: "tree_extends fs flags st st1" by (simp add: st1_def)
    show ?thesis
    proof (cases "recursive flags \<and> is_directory child \<and> depth < MAX_TREE_DEPTH \<and>
             \<not> visited_test (visited st1) (e_inode e)")
      case rec: True
      have e2: "tree_extends fs flags st1 st2"
        unfolding st2_def using tree_extends_mark len rec 3 by simp
      obtain ok st3 where p: "print_tree_children fs (e_inode e) (next_prefix pfx (rest = [])) flags (depth + 1) st2 = (ok, st3)"
        by (metis surj_pair)
      have e3: "tree_extends fs flags st2 st3" if "can_alloc fs (word_of_nat (length pfx + 5))"
        using "3.IH"(1) [OF Some refl st1_def rec _ st2_def] that len(2) p by simp
      then have l3: "length (visited st3) = unat (inodes_count fs) div 8 + 1" if "can_alloc fs (word_of_nat (length pfx + 5))"
        using that len(2) by (simp add: tree_extends_def)
      have e4: "tree_extends fs flags st3 (snd (print_entries fs rest pfx flags depth st3))"
        if "can_alloc fs (word_of_nat (length pfx + 5))" ok
        using "3.IH"(2) [OF Some refl st1_def rec _ st2_def p [symmetric]] that l3 "3.prems"(2) by simp
      show ?thesis
        using Some rec p tree_extends_trans [OF e1 e2] tree_extends_trans [OF _ e3] tree_extends_trans [OF _ e4] e1
        by (simp add: Let_def st1_def [symmetric] st2_def [symmetric])
    next
      case False
      then show ?thesis
        using Some "3.IH"(3) [OF Some refl st1_def False len(1)] "3.prems"(2)
        by (auto simp: Let_def st1_def [symmetric] intro: tree_extends_trans [OF e1])
    qed
  qed simp
qed simp

text \<open>
  The tree printer is safe on the visited bitmap.  Whatever the image contains, a call keeps the
  length of the bitmap (allocated with \<^verbatim>\<open>inodes_count / 8 + 1\<close> bytes), never clears a bit, so no directory is
  expanded twice, only appends to the output, and without \<^verbatim>\<open>-r\<close> marks nothing.
\<close>

theorem print_tree_children_safe:
  assumes "length (visited st) = unat (inodes_count fs) div 8 + 1"
    and "print_tree_children fs directory_inode pfx flags depth st = (ok, st')"
  shows "length (visited st') = length (visited st) \<and>
    (\<forall>j\<le>inodes_count fs. visited_test (visited st) j \<longrightarrow> visited_test (visited st') j) \<and>
    prefix (out st) (out st') \<and>
    (\<not> recursive flags \<longrightarrow> visited st' = visited st \<and> heap_overrun st' = heap_overrun st)"
  using print_tree_extends(1) [OF assms(1), of flags directory_inode pfx depth] assms(2)
  by (simp add: tree_extends_def)

theorem print_tree_children_safe_witness:
  "case print_tree_children sample_fs 2 [] no_flags 0
     \<lparr>visited = [4, 0], directories = 1, files = 0, out = [], heap_overrun = False\<rparr> of
   (ok, st') \<Rightarrow> visited st' = [4, 0]"
proof -
  obtain ok st' where "print_tree_children sample_fs 2 [] no_flags 0
     \<lparr>visited = [4, 0], directories = 1, files = 0, out = [], heap_overrun = False\<rparr> = (ok, st')"
    by (metis surj_pair)
  then show ?thesis
    using print_tree_children_safe [of "\<lparr>visited = [4, 0], directories = 1, files = 0, out = [], heap_overrun = False\<rparr>" sample_fs]
    by (simp add: sample_fs_def no_flags_def)
qed

text \<open>
  The buffer for the next prefix, of \<^verbatim>\<open>length + 5\<close> bytes, is big enough exactly for the last entry
  of a directory; for every other entry the UTF-8 connector and its terminator overrun it by two
  bytes.
\<close>

theorem prefix_overrun_iff:
  "(prefix_overrun pfx is_last \<longleftrightarrow> \<not> is_last) \<and>
   length (next_prefix pfx False) + 1 = (length pfx + 5) + 2"
  by (simp add: prefix_overrun_def next_prefix_def indent_last_def indent_mid_def)

subsection \<open>Printing a file\<close>

lemma scan_newlines_take:
  assumes "unat lines < unat limit"
  shows "case scan_newlines buf lines limit of
      Inl i \<Rightarrow> i < length buf \<and> take_lines (unat limit - unat lines) (buf @ rest) = take (i + 1) buf
    | Inr l' \<Rightarrow> unat l' < unat limit \<and>
        take_lines (unat limit - unat lines) (buf @ rest) = buf @ take_lines (unat limit - unat l') rest"
  using assms
proof (induction buf arbitrary: lines)
  case (Cons c cs)
  show ?case
  proof (cases "c = 10")
    case True
    have l1: "unat (lines + 1) = unat lines + 1"
      using Cons.prems unsigned_less [of limit, where ?'a = nat] unat_add_nowrap [of lines 1] by simp
    show ?thesis
    proof (cases "lines + 1 = limit")
      case True
      then have "unat limit - unat lines = 1" using l1 by auto
      with True \<open>c = 10\<close> show ?thesis by simp
    next
      case False
      then have lt: "unat (lines + 1) < unat limit" "unat limit - unat lines \<noteq> 1"
        "unat limit - unat lines - 1 = unat limit - unat (lines + 1)"
        using l1 Cons.prems by (auto simp: word_unat_eq_iff)
      then show ?thesis using Cons.IH [OF lt(1)] \<open>c = 10\<close> False
        by (auto split: sum.splits)
    qed
  next
    case False
    with Cons.IH [OF Cons.prems] show ?thesis by (auto split: sum.splits)
  qed
qed simp


lemma block_buffer:
  assumes "ext2_wf fs" "ext2_data_block fs inode logical = Some b" "k \<le> unat (block_size fs)"
  shows "(if b = 0 then Some (replicate k 0) else image_read fs (ucast b * ucast (block_size fs)) k) =
    (if block_reads fs inode logical k then Some (block_bytes fs inode logical k) else None)"
proof -
  have "b < blocks_count fs"
    using assms(1) by (intro ext2_data_block_range [OF assms(2)]) (simp add: ext2_wf_def)
  then show ?thesis using block_read [OF assms(1) _ assms(3)] assms(2) by (simp add: block_bytes_def block_reads_def)
qed

lemma block_amount:
  assumes "ext2_wf fs" "unat logical * unat (block_size fs) \<le> unat (sz :: u64)"
  shows "(if sz - logical * ucast (block_size fs) > ucast (block_size fs)
          then unat (block_size fs) else unat (sz - logical * ucast (block_size fs))) =
    min (unat (block_size fs)) (unat sz - unat logical * unat (block_size fs))"
proof -
  have "unat (logical * ucast (block_size fs)) = unat logical * unat (block_size fs)"
    using assms(2) unsigned_less [of sz, where ?'a = nat]
    by (subst unat_mult_nowrap) (simp_all add: unat_ucast_up)
  moreover from this have "unat (sz - logical * ucast (block_size fs)) =
      unat sz - unat logical * unat (block_size fs)"
    using assms(2) by (subst unat_sub_le) (simp_all add: word_nat)
  ultimately show ?thesis by (auto simp: word_nat unat_ucast_up)
qed

text \<open>One step of the loop, with the block's bytes in place of the buffer.\<close>

lemma print_blocks_step:
  assumes "ext2_wf fs" "unat logical * unat (block_size fs) \<le> unat sz"
  defines "amount \<equiv> min (unat (block_size fs)) (unat sz - unat logical * unat (block_size fs))"
  shows "print_blocks fs inode limited limit sz logical (Suc n) lines outp =
    (if \<not> block_reads fs inode logical amount then (False, outp)
     else
        let buffer = block_bytes fs inode logical amount in
        if limited then
          (case scan_newlines buffer lines limit of
             Inl i \<Rightarrow> (True, outp @ take (i + 1) buffer)
           | Inr lines' \<Rightarrow> print_blocks fs inode limited limit sz (logical + 1) n lines' (outp @ buffer))
        else print_blocks fs inode limited limit sz (logical + 1) n lines (outp @ buffer))"
proof (cases "ext2_data_block fs inode logical")
  case (Some b)
  have "amount \<le> unat (block_size fs)" by (simp add: amount_def)
  from block_buffer [OF assms(1) Some this] Some show ?thesis
    unfolding print_blocks.simps Let_def block_amount [OF assms(1,2)] amount_def by simp
qed (simp add: block_reads_def)


lemma print_blocks_mapped:
  assumes "ext2_wf fs"
    and "(unat logical + n - 1) * unat (block_size fs) \<le> unat sz" "unat logical + n < 2 ^ 64"
    and "\<And>k. k < n \<Longrightarrow> block_reads fs inode (logical + word_of_nat k)
      (min (unat (block_size fs)) (unat sz - (unat logical + k) * unat (block_size fs)))"
    and "limited \<longrightarrow> unat lines < unat limit"
  shows "print_blocks fs inode limited limit sz logical n lines outp =
    (True, outp @ (if limited
       then take_lines (unat limit - unat lines) (file_bytes fs inode (unat sz) (unat logical) n)
       else file_bytes fs inode (unat sz) (unat logical) n))"
  using assms(2-)
proof (induction n arbitrary: logical lines outp)
  case (Suc n)
  have b: "block_reads fs inode logical (min (unat (block_size fs)) (unat sz - unat logical * unat (block_size fs)))"
    using Suc.prems(3) [of 0] by simp
  have l1: "unat (logical + 1) = unat logical + 1"
    using Suc.prems(2) unat_add_nowrap [of logical 1] by simp
  have "unat logical * unat (block_size fs) \<le> (unat logical + Suc n - 1) * unat (block_size fs)" by simp
  with Suc.prems(1) have le: "unat logical * unat (block_size fs) \<le> unat sz" by (rule le_trans [rotated])
  have nx: "block_reads fs inode (logical + 1 + word_of_nat k)
      (min (unat (block_size fs)) (unat sz - (unat (logical + 1) + k) * unat (block_size fs)))" if "k < n" for k
    using Suc.prems(3) [of "Suc k"] that by (simp add: l1 add.assoc)
  have IH: "print_blocks fs inode limited limit sz (logical + 1) n lines' outp' =
      (True, outp' @ (if limited
       then take_lines (unat limit - unat lines') (file_bytes fs inode (unat sz) (Suc (unat logical)) n)
       else file_bytes fs inode (unat sz) (Suc (unat logical)) n))"
    if "limited \<longrightarrow> unat lines' < unat limit" for lines' outp'
    using Suc.IH [of "logical + 1" lines' outp'] Suc.prems(1,2) nx that by (simp add: l1)
  show ?case
    unfolding print_blocks_step [OF assms(1) le]
    using scan_newlines_take [of lines limit
        "block_bytes fs inode logical (min (unat (block_size fs)) (unat sz - unat logical * unat (block_size fs)))"
        "file_bytes fs inode (unat sz) (Suc (unat logical)) n"] Suc.prems(4) IH
    by (cases limited) (auto simp: b Let_def split: sum.splits)
qed simp


lemma unat_block_total:
  assumes "ext2_wf fs"
  defines "bs \<equiv> unat (block_size fs)"
  shows "unat (block_total fs sz) = (unat sz + bs - 1) div bs"
    and "(unat (block_total fs sz) - 1) * bs \<le> unat sz"
    and "unat (block_total fs sz) < 2 ^ 64"
    and "unat sz \<le> unat (block_total fs sz) * bs"
proof -
  let ?q = "unat sz div bs" and ?r = "unat sz mod bs"
  have bs: "1024 \<le> bs" using assms(1) by (auto simp: ext2_wf_def bs_def)
  have qr: "unat sz = ?q * bs + ?r" by simp
  have "?q \<le> unat sz div 1024" using bs by (intro div_le_mono2) simp_all
  then have "?q + 1 < 2 ^ 64" using unsigned_less [of sz, where ?'a = nat] by simp
  then have total: "unat (block_total fs sz) = ?q + (if ?r = 0 then 0 else 1)"
    by (simp add: block_total_def unat_add_nowrap word_nat unat_ucast_up bs_def)
  show "unat (block_total fs sz) < 2 ^ 64" using \<open>?q + 1 < 2 ^ 64\<close> total by simp
  show "(unat (block_total fs sz) - 1) * bs \<le> unat sz"
    using total qr by (cases "?r = 0") (simp_all add: diff_mult_distrib)
  show "unat sz \<le> unat (block_total fs sz) * bs"
  proof -
    have "?r \<le> (if ?r = 0 then 0 else 1) * bs" using mod_less_divisor [of bs "unat sz"] bs by simp
    then have "?q * bs + ?r \<le> (?q + (if ?r = 0 then 0 else 1)) * bs" by (simp only: add_mult_distrib)
    then show ?thesis unfolding total using qr by simp
  qed
  have "unat sz + bs - 1 = ?q * bs + (?r + bs - 1)" using qr bs by linarith
  then have "(unat sz + bs - 1) div bs = ?q + (?r + bs - 1) div bs"
    using bs by (metis div_mult_self3 not_numeral_le_zero)
  moreover have "(?r + bs - 1) div bs = (if ?r = 0 then 0 else 1)"
  proof (cases "?r = 0")
    case False
    then have "?r + bs - 1 = (?r - 1) + bs" "?r - 1 < bs"
      using mod_less_divisor [of bs "unat sz"] bs by linarith+
    then show ?thesis using False bs by (simp only: div_add_self2) simp
  qed (use bs in simp)
  ultimately show "unat (block_total fs sz) = (unat sz + bs - 1) div bs" using total by simp
qed



text \<open>
  \<^verbatim>\<open>print -n\<close> writes the first lines.  When every block of the file can be read, printing with a
  positive limit writes exactly the first \<open>limit\<close> lines of the file, also when a line spans a block
  boundary and when the file has fewer lines.
\<close>

theorem print_inode_data_limited:
  fixes inode :: Ext2Inode
  assumes "ext2_wf fs" "can_alloc fs (ucast (block_size fs))" "0 < limit"
  defines "blocks \<equiv> unat (block_total fs (ext2_inode_size inode))"
  assumes "\<And>k. k < blocks \<Longrightarrow> block_reads fs inode (word_of_nat k)
    (min (unat (block_size fs)) (unat (ext2_inode_size inode) - k * unat (block_size fs)))"
  shows "print_inode_data fs inode True limit =
    (True, take_lines (unat limit) (file_bytes fs inode (unat (ext2_inode_size inode)) 0 blocks))"
  using print_blocks_mapped [OF assms(1), of 0 blocks "ext2_inode_size inode" inode True 0 limit "[]"]
    unat_block_total [OF assms(1), of "ext2_inode_size inode", folded blocks_def] assms(2,3,5)
  by (simp add: print_inode_data_def Let_def blocks_def word_nat)

lemma sample_file_blocks:
  "unat (block_total sample_fs (ext2_inode_size sample_file_inode)) = 1"
  "unat (ext2_inode_size sample_file_inode) = 6"
  "ext2_data_block sample_fs sample_file_inode 0 = Some 5"
  "file_bytes sample_fs sample_file_inode 6 0 1 = [104, 105, 10, 121, 111, 10]"
proof -
  show d: "ext2_data_block sample_fs sample_file_inode 0 = Some 5"
    by (simp add: ext2_data_block_def) (simp add: sample_fs_def word_nat)
  show "unat (ext2_inode_size sample_file_inode) = 6"
    by (simp add: ext2_inode_size_def)
  show "unat (block_total sample_fs (ext2_inode_size sample_file_inode)) = 1"
    by (simp add: ext2_inode_size_def block_total_def sample_fs_def)
  show "file_bytes sample_fs sample_file_inode 6 0 1 = [104, 105, 10, 121, 111, 10]"
    by (simp add: block_bytes_def d) (simp add: sample_fs_def sample_image_def)
qed


theorem print_inode_data_limited_witness:
  "print_inode_data sample_fs sample_file_inode True 1 = (True, [104, 105, 10])"
  using print_inode_data_limited [OF sample_wf, of 1 sample_file_inode] sample_file_blocks
  by (simp add: block_reads_def) (simp add: sample_fs_def)

subsection \<open>The line limit\<close>

lemma digit_value: "k < 10 \<Longrightarrow> unat (48 + word_of_nat k :: u8) = 48 + k"
  by (simp add: unat_word_ariths unat_of_nat)

lemma digits_value_append: "digits_value a (xs @ ys) = digits_value (digits_value a xs) ys"
  by (induction xs arbitrary: a) auto

lemma dec_digits_isdigit: "c \<in> set (dec_digits n) \<Longrightarrow> isdigit c"
proof (induction n rule: dec_digits.induct)
  case (1 n)
  then show ?case
    by (subst (asm) dec_digits.simps) (auto simp: isdigit_def word_nat digit_value split: if_splits)
qed

lemma dec_digits_nonempty [simp]: "dec_digits n \<noteq> []"
  by (subst dec_digits.simps) simp

lemma digits_value_dec_digits: "digits_value 0 (dec_digits n) = n"
proof (induction n rule: dec_digits.induct)
  case (1 n)
  show ?case
  proof (cases "n < 10")
    case True
    then show ?thesis by (subst dec_digits.simps) (simp add: digit_value)
  next
    case False
    then show ?thesis using 1 by (subst dec_digits.simps) (simp add: digit_value digits_value_append)
  qed
qed

lemma isdigit_plain: "isdigit c \<Longrightarrow> \<not> isspace c \<and> c \<noteq> 45 \<and> c \<noteq> 43"
  by (auto simp: isdigit_def isspace_def word_nat)

lemma strtoumax_digits:
  assumes "ds \<noteq> []" "\<And>c. c \<in> set ds \<Longrightarrow> isdigit c"
  shows "strtoumax ds = (if digits_value 0 ds \<ge> 2 ^ 64 then (- 1, True, [])
    else (word_of_nat (digits_value 0 ds), False, []))"
proof -
  have "dropWhile isspace ds = ds" "hd ds \<noteq> 45" "hd ds \<noteq> 43"
    using assms isdigit_plain by (cases ds; auto)+
  moreover have "takeWhile isdigit ds = ds" "dropWhile isdigit ds = []"
    using assms(2) by (auto simp: takeWhile_eq_all_conv)
  ultimately show ?thesis
    using assms(1) by (simp add: strtoumax_def Let_def del: takeWhile_eq_all_conv dropWhile_eq_Nil_conv)
qed

lemma parse_digits:
  assumes "ds \<noteq> []" "\<And>c. c \<in> set ds \<Longrightarrow> isdigit c"
  shows "parse_positive_line_count ds = (let v = digits_value 0 ds in
    if 0 < v \<and> v < 2 ^ 64 then Some (word_of_nat v) else None)"
proof -
  have "hd ds \<noteq> 45" using assms isdigit_plain by (cases ds) auto
  moreover have "(word_of_nat v = (0 :: u64)) \<longleftrightarrow> v = 0" if "v < 2 ^ 64" for v
    using that by (simp add: word_of_nat_eq_0_iff dvd_imp_le) (metis dvd_0_right dvd_imp_le not_less gr_zeroI)
  ultimately show ?thesis
    using assms by (auto simp: parse_positive_line_count_def strtoumax_digits Let_def)
qed

text \<open>
  The argument of \<^verbatim>\<open>print -n\<close>.  A decimal numeral is accepted exactly when it denotes a positive
  number below \<open>2 ^ 64\<close>, with that value; but a minus sign is refused only as the first character: after
  a blank it is read by \<^verbatim>\<open>strtoumax\<close>, which negates modulo \<open>2 ^ 64\<close>.
\<close>

theorem parse_positive_line_count_decimal:
  "parse_positive_line_count (dec_digits n) =
     (if 0 < n \<and> n < 2 ^ 64 then Some (word_of_nat n) else None) \<and>
   parse_positive_line_count (45 # dec_digits n) = None \<and>
   (0 < n \<and> n < 2 ^ 64 \<longrightarrow> parse_positive_line_count (32 # 45 # dec_digits n) = Some (- word_of_nat n))"
proof -
  have "takeWhile isdigit (dec_digits n) = dec_digits n" "dropWhile isdigit (dec_digits n) = []"
    using dec_digits_isdigit by (auto simp: takeWhile_eq_all_conv)
  then have "strtoumax (32 # 45 # dec_digits n) = (- word_of_nat n, False, [])" if "n < 2 ^ 64"
    using that by (simp add: strtoumax_def Let_def isspace_def word_nat digits_value_dec_digits
        del: takeWhile_eq_all_conv dropWhile_eq_Nil_conv)
  moreover have "- word_of_nat n \<noteq> (0 :: u64)" if "0 < n" "n < 2 ^ 64"
    using that by (simp add: word_of_nat_eq_0_iff) (metis dvd_imp_le not_less)
  ultimately show ?thesis
    using parse_digits [OF dec_digits_nonempty dec_digits_isdigit]
    by (simp add: digits_value_dec_digits Let_def parse_positive_line_count_def)
qed

theorem parse_positive_line_count_decimal_witness:
  "parse_positive_line_count [49, 50] = Some 12 \<and>
   parse_positive_line_count [32, 45, 53] = Some 18446744073709551611"
  using parse_positive_line_count_decimal [of 12] parse_positive_line_count_decimal [of 5]
  by (simp add: dec_digits.simps)

end
