(* ===== verification/Xv6_Log.thy ===== *)
theory Xv6_Log
  imports Prelude
begin

text \<open>
  The block device as the xv6 kernels see it and the redo log of \<^verbatim>\<open>log.c\<close> (the same file in both
  kernels).  A state holds the platter, the buffer cache (what \<^verbatim>\<open>bread\<close> returns), the sequence of
  sector writes the driver has issued, and the \<^verbatim>\<open>struct log\<close>.  \<open>None\<close> is a call of \<^verbatim>\<open>panic\<close>.  One file
  system block is one 512-byte sector, so a crash happens between two writes of the sequence.

  Shown here: a crash at any point of a commit, followed by recovery, leaves either the old or the
  new contents; recovery may itself be interrupted; and the log never overflows as long as every
  system call stays within its reservation and the log region has room for the header.
\<close>

subsection \<open>Blocks\<close>

type_synonym blk = "u8 list"

abbreviation "BSIZE \<equiv> (512 :: nat)"
abbreviation "LOGSIZE \<equiv> (30 :: nat)"
abbreviation "MAXOPBLOCKS \<equiv> (10 :: nat)"

record log =
  start :: u32
  log_size :: int
  outstanding :: int
  committing :: bool
  lh :: "u32 list"

record kdev =
  fssize :: u32
  platter :: "u32 \<Rightarrow> blk"
  cache :: "u32 \<Rightarrow> blk"
  trace :: "(u32 \<times> blk) list"
  log :: log

text \<open>The driver panics on a block number beyond the device (\<^verbatim>\<open>incorrect blockno\<close>).\<close>

definition bread :: "'a kdev_scheme \<Rightarrow> u32 \<Rightarrow> blk option" where
  "bread st b = (if b \<ge> fssize st then None else Some (cache st b))"

definition set_buf :: "'a kdev_scheme \<Rightarrow> u32 \<Rightarrow> blk \<Rightarrow> 'a kdev_scheme" where
  "set_buf st b d = st\<lparr>cache := (cache st)(b := d)\<rparr>"

definition bwrite :: "'a kdev_scheme \<Rightarrow> u32 \<Rightarrow> 'a kdev_scheme" where
  "bwrite st b = st\<lparr>platter := (platter st)(b := cache st b), trace := trace st @ [(b, cache st b)]\<rparr>"

definition patch :: "nat \<Rightarrow> u8 list \<Rightarrow> u8 list \<Rightarrow> u8 list" where
  "patch off bs data = take off data @ bs @ drop (off + length bs) data"

definition get32 :: "blk \<Rightarrow> nat \<Rightarrow> u32" where
  "get32 d off = of_le32 (d ! off) (d ! (off + 1)) (d ! (off + 2)) (d ! (off + 3))"

subsection \<open>The log\<close>

definition head_bytes :: "u32 list \<Rightarrow> u8 list" where
  "head_bytes bs = concat (map le32_bytes (word_of_nat (length bs) # bs))"

fun install_blocks :: "'a kdev_scheme \<Rightarrow> nat \<Rightarrow> u32 list \<Rightarrow> 'a kdev_scheme option" where
  "install_blocks st tail [] = Some st"
| "install_blocks st tail (b # bs) = do {
     lbuf \<leftarrow> bread st (start (log st) + word_of_nat tail + 1);
     dbuf \<leftarrow> bread st b;
     install_blocks (bwrite (set_buf st b lbuf) b) (tail + 1) bs
   }"

definition install_trans :: "'a kdev_scheme \<Rightarrow> 'a kdev_scheme option" where
  "install_trans st = install_blocks st 0 (lh (log st))"

definition read_head :: "'a kdev_scheme \<Rightarrow> 'a kdev_scheme option" where
  "read_head st = do {
     buf \<leftarrow> bread st (start (log st));
     Some (st\<lparr>log := (log st)\<lparr>lh := map (\<lambda>i. get32 buf (4 + 4 * i)) [0..<nat (sint (get32 buf 0))]\<rparr>\<rparr>)
   }"

definition write_head :: "'a kdev_scheme \<Rightarrow> 'a kdev_scheme option" where
  "write_head st = do {
     buf \<leftarrow> bread st (start (log st));
     Some (bwrite (set_buf st (start (log st)) (patch 0 (head_bytes (lh (log st))) buf)) (start (log st)))
   }"

definition clear_lh :: "'a kdev_scheme \<Rightarrow> 'a kdev_scheme" where
  "clear_lh st = st\<lparr>log := (log st)\<lparr>lh := []\<rparr>\<rparr>"

definition recover_from_log :: "'a kdev_scheme \<Rightarrow> 'a kdev_scheme option" where
  "recover_from_log st = do {
     st \<leftarrow> read_head st;
     st \<leftarrow> install_trans st;
     write_head (clear_lh st)
   }"

definition initlog :: "'a kdev_scheme \<Rightarrow> 'a kdev_scheme option" where
  "initlog st = do {
     sb \<leftarrow> bread st 1;
     recover_from_log (st\<lparr>log := (log st)\<lparr>start := get32 sb 16, log_size := sint (get32 sb 12)\<rparr>\<rparr>)
   }"

datatype 'a wait = Sleeps | Goes 'a

definition begin_op :: "'a kdev_scheme \<Rightarrow> 'a kdev_scheme wait" where
  "begin_op st =
     (if committing (log st) then Sleeps
      else if int (length (lh (log st))) + (outstanding (log st) + 1) * int MAXOPBLOCKS > int LOGSIZE then Sleeps
      else Goes (st\<lparr>log := (log st)\<lparr>outstanding := outstanding (log st) + 1\<rparr>\<rparr>))"

fun write_log_blocks :: "'a kdev_scheme \<Rightarrow> nat \<Rightarrow> u32 list \<Rightarrow> 'a kdev_scheme option" where
  "write_log_blocks st tail [] = Some st"
| "write_log_blocks st tail (b # bs) = do {
     to \<leftarrow> bread st (start (log st) + word_of_nat tail + 1);
     from \<leftarrow> bread st b;
     write_log_blocks (bwrite (set_buf st (start (log st) + word_of_nat tail + 1) from)
                              (start (log st) + word_of_nat tail + 1)) (tail + 1) bs
   }"

definition write_log :: "'a kdev_scheme \<Rightarrow> 'a kdev_scheme option" where
  "write_log st = write_log_blocks st 0 (lh (log st))"

definition commit :: "'a kdev_scheme \<Rightarrow> 'a kdev_scheme option" where
  "commit st =
     (if lh (log st) \<noteq> [] then do {
        st \<leftarrow> write_log st;
        st \<leftarrow> write_head st;
        st \<leftarrow> install_trans st;
        write_head (clear_lh st)
      } else Some st)"

definition end_op :: "'a kdev_scheme \<Rightarrow> 'a kdev_scheme option" where
  "end_op st =
     (let st = st\<lparr>log := (log st)\<lparr>outstanding := outstanding (log st) - 1\<rparr>\<rparr> in
      if committing (log st) then None
      else if outstanding (log st) = 0 then do {
        st \<leftarrow> commit (st\<lparr>log := (log st)\<lparr>committing := True\<rparr>\<rparr>);
        Some (st\<lparr>log := (log st)\<lparr>committing := False\<rparr>\<rparr>)
      } else Some st)"

definition log_write :: "'a kdev_scheme \<Rightarrow> u32 \<Rightarrow> 'a kdev_scheme option" where
  "log_write st b =
     (if length (lh (log st)) \<ge> LOGSIZE \<or> int (length (lh (log st))) \<ge> log_size (log st) - 1 then None
      else if outstanding (log st) < 1 then None
      else Some (if b \<in> set (lh (log st)) then st
                 else st\<lparr>log := (log st)\<lparr>lh := lh (log st) @ [b]\<rparr>\<rparr>))"

subsection \<open>Crashes\<close>

text \<open>
  The platter after a sequence of writes, and a machine that starts again on a given platter: the
  cache is empty, so every block reads as it is on the platter.
\<close>

definition apply_writes :: "(u32 \<Rightarrow> blk) \<Rightarrow> (u32 \<times> blk) list \<Rightarrow> u32 \<Rightarrow> blk" where
  "apply_writes d ws = foldl (\<lambda>d (b, v). d(b := v)) d ws"

definition reboot :: "'a kdev_scheme \<Rightarrow> (u32 \<Rightarrow> blk) \<Rightarrow> 'a kdev_scheme" where
  "reboot st d = st\<lparr>platter := d, cache := d, trace := [], log := (log st)\<lparr>lh := [], outstanding := 0, committing := False\<rparr>\<rparr>"

text \<open>The writes a step of the kernel issues.\<close>

definition issued :: "'a kdev_scheme \<Rightarrow> 'a kdev_scheme \<Rightarrow> (u32 \<times> blk) list" where
  "issued st st' = drop (length (trace st)) (trace st')"

text \<open>The contents that a committed transaction gives to the blocks outside the log.\<close>

definition committed :: "'a kdev_scheme \<Rightarrow> u32 \<Rightarrow> blk" where
  "committed st b = (if b \<in> set (lh (log st)) then cache st b else platter st b)"

text \<open>
  The log region, the header found on a platter, what recovery makes of a platter, and the
  invariants: of a platter from which the kernel can recover, and of a running transaction.
\<close>

definition log_region :: "'a kdev_scheme \<Rightarrow> u32 set" where
  "log_region st = {b. unat (start (log st)) \<le> unat b \<and> unat b < unat (start (log st)) + nat (log_size (log st))}"

definition laddr :: "'a kdev_scheme \<Rightarrow> nat \<Rightarrow> u32" where
  "laddr st i = start (log st) + word_of_nat i + 1"

definition head_of :: "blk \<Rightarrow> u32 list" where
  "head_of buf = map (\<lambda>i. get32 buf (4 + 4 * i)) [0..<nat (sint (get32 buf 0))]"

definition entries_ok :: "'a kdev_scheme \<Rightarrow> u32 list \<Rightarrow> bool" where
  "entries_ok st bs \<longleftrightarrow> length bs \<le> LOGSIZE \<and> int (length bs) < log_size (log st) \<and> distinct bs \<and>
     (\<forall>b \<in> set bs. b < fssize st \<and> b \<notin> log_region st)"

definition region_ok :: "'a kdev_scheme \<Rightarrow> bool" where
  "region_ok st \<longleftrightarrow> 0 < log_size (log st) \<and>
     unat (start (log st)) + nat (log_size (log st)) \<le> unat (fssize st)"

definition recoverable :: "'a kdev_scheme \<Rightarrow> (u32 \<Rightarrow> blk) \<Rightarrow> bool" where
  "recoverable st d \<longleftrightarrow> length (d (start (log st))) = BSIZE \<and> entries_ok st (head_of (d (start (log st))))"

definition recovered :: "'a kdev_scheme \<Rightarrow> (u32 \<Rightarrow> blk) \<Rightarrow> u32 \<Rightarrow> blk" where
  "recovered st d =
     (let bs = head_of (d (start (log st)))
      in apply_writes d (zip bs (map (\<lambda>i. d (laddr st i)) [0..<length bs])))"

definition log_wf :: "'a kdev_scheme \<Rightarrow> bool" where
  "log_wf st \<longleftrightarrow> region_ok st \<and> entries_ok st (lh (log st)) \<and>
     length (platter st (start (log st))) = BSIZE \<and> head_of (platter st (start (log st))) = [] \<and>
     cache st (start (log st)) = platter st (start (log st))"

subsection \<open>Sequences of writes\<close>

lemma apply_writes_simps [simp]:
  "apply_writes d [] = d"
  "apply_writes d (w # ws) = apply_writes (d(fst w := snd w)) ws"
  "apply_writes d (vs @ ws) = apply_writes (apply_writes d vs) ws"
  by (simp_all add: apply_writes_def split_beta)

lemma apply_writes_frame: "b \<notin> fst ` set ws \<Longrightarrow> apply_writes d ws b = d b"
  by (induction ws arbitrary: d) auto

lemma apply_writes_zip_frame: "b \<notin> set bs \<Longrightarrow> apply_writes d (zip bs vs) b = d b"
  by (rule apply_writes_frame) (auto dest: set_zip_leftD)

lemma apply_writes_zip:
  "distinct bs \<Longrightarrow> length vs = length bs \<Longrightarrow> i < length bs \<Longrightarrow> apply_writes d (zip bs vs) (bs ! i) = vs ! i"
proof (induction bs arbitrary: d vs i)
  case (Cons b bs)
  then obtain v vs' where "vs = v # vs'" by (cases vs) auto
  with Cons show ?case
    by (cases i) (auto simp: apply_writes_zip_frame)
qed simp

text \<open>Writing a modified buffer through to the platter, for a whole sequence.\<close>

definition do_writes :: "'a kdev_scheme \<Rightarrow> (u32 \<times> blk) list \<Rightarrow> 'a kdev_scheme" where
  "do_writes st ws = st\<lparr>platter := apply_writes (platter st) ws, cache := apply_writes (cache st) ws,
     trace := trace st @ ws\<rparr>"

lemma do_writes_simps [simp]:
  "do_writes st [] = st"
  "do_writes (do_writes st vs) ws = do_writes st (vs @ ws)"
  "log (do_writes st ws) = log st" "fssize (do_writes st ws) = fssize st"
  "cache (do_writes st ws) = apply_writes (cache st) ws"
  "platter (do_writes st ws) = apply_writes (platter st) ws"
  "trace (do_writes st ws) = trace st @ ws"
  "laddr (do_writes st ws) = laddr st"
  by (simp_all add: do_writes_def laddr_def fun_eq_iff)

lemma bread_ok: "b < fssize st \<Longrightarrow> bread st b = Some (cache st b)"
  by (simp add: bread_def)

lemma bwrite_set_buf: "bwrite (set_buf st b d) b = do_writes st [(b, d)]"
  by (simp add: bwrite_def set_buf_def do_writes_def)

lemma write_log_blocks_writes:
  assumes "\<And>b. b \<in> set bs \<Longrightarrow> b < fssize st" "\<And>i. t \<le> i \<Longrightarrow> i < t + length bs \<Longrightarrow> laddr st i < fssize st"
    and "\<And>i. t \<le> i \<Longrightarrow> i < t + length bs \<Longrightarrow> laddr st i \<notin> set bs"
  shows "write_log_blocks st t bs =
    Some (do_writes st (zip (map (laddr st) [t..<t + length bs]) (map (cache st) bs)))"
  using assms
proof (induction bs arbitrary: st t)
  case (Cons b bs)
  let ?st = "do_writes st [(laddr st t, cache st b)]"
  have "write_log_blocks st t (b # bs) = write_log_blocks ?st (t + 1) bs"
    using Cons.prems(1) [of b] Cons.prems(2) [of t]
    by (simp add: bread_ok bwrite_set_buf laddr_def)
  also have "\<dots> = Some (do_writes ?st (zip (map (laddr ?st) [t + 1..<t + 1 + length bs]) (map (cache ?st) bs)))"
    using Cons.prems by (intro Cons.IH) auto
  also have "map (cache ?st) bs = map (cache st) bs"
    using Cons.prems(3) [of t] by auto
  finally show ?case by (simp add: upt_conv_Cons del: upt_Suc)
qed simp

lemma install_blocks_writes:
  assumes "\<And>b. b \<in> set bs \<Longrightarrow> b < fssize st" "\<And>i. t \<le> i \<Longrightarrow> i < t + length bs \<Longrightarrow> laddr st i < fssize st"
    and "\<And>i. t \<le> i \<Longrightarrow> i < t + length bs \<Longrightarrow> laddr st i \<notin> set bs"
  shows "install_blocks st t bs =
    Some (do_writes st (zip bs (map (\<lambda>i. cache st (laddr st i)) [t..<t + length bs])))"
  using assms
proof (induction bs arbitrary: st t)
  case (Cons b bs)
  let ?st = "do_writes st [(b, cache st (laddr st t))]"
  have "install_blocks st t (b # bs) = install_blocks ?st (t + 1) bs"
    using Cons.prems(1) [of b] Cons.prems(2) [of t]
    by (simp add: bread_ok bwrite_set_buf laddr_def)
  also have "\<dots> = Some (do_writes ?st (zip bs (map (\<lambda>i. cache ?st (laddr ?st i)) [t + 1..<t + 1 + length bs])))"
    using Cons.prems by (intro Cons.IH) auto
  also have "map (\<lambda>i. cache ?st (laddr ?st i)) [t + 1..<t + 1 + length bs] =
      map (\<lambda>i. cache st (laddr st i)) [t + 1..<t + 1 + length bs]"
  proof (rule map_cong [OF refl])
    fix i assume "i \<in> set [t + 1..<t + 1 + length bs]"
    then have "t \<le> i" "i < t + length (b # bs)" by auto
    from Cons.prems(3) [OF this] show "cache ?st (laddr ?st i) = cache st (laddr st i)" by simp
  qed
  finally show ?case by (simp add: upt_conv_Cons del: upt_Suc)
qed simp

subsection \<open>The header block\<close>

lemma get32_le32 [simp]:
  "get32 (le32_bytes w @ xs) 0 = w" "get32 (le32_bytes w @ xs) (4 + k) = get32 xs k"
  by (simp_all add: get32_def le32_bytes_def add.commute)

lemma get32_words:
  "i < length ws \<Longrightarrow> get32 (concat (map le32_bytes ws) @ rest) (4 * i) = ws ! i"
proof (induction ws arbitrary: i)
  case (Cons w ws)
  then show ?case
    using get32_le32 [of w "concat (map le32_bytes ws) @ rest"] by (cases i) simp_all
qed simp

lemma length_head_bytes [simp]: "length (head_bytes bs) = 4 + 4 * length bs"
  by (induction bs) (simp_all add: head_bytes_def)

lemma head_of_patch:
  assumes "length bs \<le> LOGSIZE"
  shows "head_of (patch 0 (head_bytes bs) buf) = bs"
proof -
  let ?ws = "word_of_nat (length bs) # bs"
  have g: "get32 (patch 0 (head_bytes bs) buf) (4 * i) = ?ws ! i" if "i < length ?ws" for i
    using get32_words [OF that] by (simp add: patch_def head_bytes_def)
  have "sint (word_of_nat (length bs) :: u32) = int (length bs)"
    using assms by (simp add: signed_of_nat signed_take_bit_int_eq_self)
  then show ?thesis using g [of 0] g [of "Suc _"] unfolding head_of_def
    by (auto intro!: nth_equalityI)
qed

subsection \<open>Recovery\<close>

lemma laddr_facts:
  assumes "region_ok st" "int i + 1 < log_size (log st)"
  shows "unat (laddr st i) = unat (start (log st)) + i + 1" "laddr st i < fssize st"
    "laddr st i \<in> log_region st" "laddr st i \<noteq> start (log st)"
proof -
  have "i + 1 < nat (log_size (log st))" using assms(2) by linarith
  then have "unat (start (log st)) + i + 1 < unat (fssize st)" using assms(1) by (simp add: region_ok_def)
  moreover have "unat (fssize st) < 2 ^ 32" using unsigned_less [of "fssize st", where ?'a = nat] by simp
  ultimately have lt: "unat (start (log st)) + i + 1 < 2 ^ 32" by linarith
  then have "unat (start (log st) + word_of_nat i) = unat (start (log st)) + i"
    by (subst unat_add_nowrap) (simp_all add: unat_of_nat take_bit_nat_eq_self)
  with lt show u: "unat (laddr st i) = unat (start (log st)) + i + 1"
    by (simp add: laddr_def unat_add_nowrap)
  show "laddr st i < fssize st"
    using \<open>unat (start (log st)) + i + 1 < unat (fssize st)\<close> u by (simp add: word_nat)
  show "laddr st i \<in> log_region st" using u assms by (simp add: log_region_def)
  show "laddr st i \<noteq> start (log st)" using u by auto
qed

lemma start_facts: "region_ok st \<Longrightarrow> start (log st) < fssize st \<and> start (log st) \<in> log_region st"
  by (auto simp: region_ok_def log_region_def word_nat)

lemma region_disjoint:
  assumes "region_ok st" "entries_ok st bs" "i < length bs"
  shows "laddr st i < fssize st" "laddr st i \<notin> set bs" "laddr st i \<noteq> start (log st)"
proof -
  have "int i + 1 < log_size (log st)" using assms(2,3) by (simp add: entries_ok_def)
  from laddr_facts [OF assms(1) this] show "laddr st i < fssize st" "laddr st i \<notin> set bs" "laddr st i \<noteq> start (log st)"
    using assms(2) by (auto simp: entries_ok_def)
qed

lemma install_trans_writes:
  assumes "region_ok st" "entries_ok st (lh (log st))"
  shows "install_trans st = Some (do_writes st
    (zip (lh (log st)) (map (\<lambda>i. cache st (laddr st i)) [0..<length (lh (log st))])))"
  unfolding install_trans_def
  by (subst install_blocks_writes) (use assms region_disjoint [OF assms] in \<open>auto simp: entries_ok_def\<close>)

lemma write_log_writes:
  assumes "region_ok st" "entries_ok st (lh (log st))"
  shows "write_log st = Some (do_writes st
    (zip (map (laddr st) [0..<length (lh (log st))]) (map (cache st) (lh (log st)))))"
  unfolding write_log_def
  by (subst write_log_blocks_writes) (use assms region_disjoint [OF assms] in \<open>auto simp: entries_ok_def\<close>)

lemma write_head_writes:
  "region_ok st \<Longrightarrow> write_head st = Some (do_writes st
     [(start (log st), patch 0 (head_bytes (lh (log st))) (cache st (start (log st))))])"
  by (simp add: write_head_def bread_ok start_facts bwrite_set_buf)

lemma reboot_simps [simp]:
  "fssize (reboot st d) = fssize st" "platter (reboot st d) = d" "cache (reboot st d) = d"
  "trace (reboot st d) = []" "start (log (reboot st d)) = start (log st)"
  "log_size (log (reboot st d)) = log_size (log st)"
  by (simp_all add: reboot_def)

text \<open>The writes of a recovery, and that it always completes from a recoverable platter.\<close>

definition recovery_writes :: "'a kdev_scheme \<Rightarrow> (u32 \<Rightarrow> blk) \<Rightarrow> (u32 \<times> blk) list" where
  "recovery_writes st d =
     (let bs = head_of (d (start (log st)))
      in zip bs (map (\<lambda>i. d (laddr st i)) [0..<length bs]) @
         [(start (log st), patch 0 (head_bytes []) (d (start (log st))))])"

lemma recover_writes:
  assumes "region_ok st" "recoverable st d"
  shows "\<exists>r. recover_from_log (reboot st d) = Some r \<and> platter r = apply_writes d (recovery_writes st d) \<and>
    trace r = recovery_writes st d"
proof -
  define bs where "bs = head_of (d (start (log st)))"
  define st1 where "st1 = (reboot st d)\<lparr>log := (log (reboot st d))\<lparr>lh := bs\<rparr>\<rparr>"
  have simps: "start (log st1) = start (log st)" "cache st1 = d" "platter st1 = d" "trace st1 = []"
    "lh (log st1) = bs" "laddr st1 = laddr st"
    by (simp_all add: st1_def laddr_def fun_eq_iff)
  have ok: "region_ok st1" "entries_ok st1 bs" "region_ok (reboot st d)"
    using assms by (simp_all add: st1_def region_ok_def entries_ok_def recoverable_def bs_def log_region_def)
  let ?ws = "zip bs (map (\<lambda>i. d (laddr st i)) [0..<length bs])"
  have rd: "read_head (reboot st d) = Some st1"
    using start_facts [OF assms(1)]
    by (simp add: read_head_def bread_ok st1_def bs_def head_of_def)
  have ins: "install_trans st1 = Some (do_writes st1 ?ws)"
    using install_trans_writes [OF ok(1)] ok(2) simps by simp
  have st: "apply_writes d ?ws (start (log st)) = d (start (log st))"
    using ok(2) start_facts [OF ok(1)] simps
    by (intro apply_writes_zip_frame) (auto simp: entries_ok_def)
  have ok2: "region_ok (clear_lh (do_writes st1 ?ws))"
    using ok(1) by (simp add: region_ok_def clear_lh_def)
  have "recover_from_log (reboot st d) = Some (do_writes (clear_lh (do_writes st1 ?ws))
      [(start (log st), patch 0 (head_bytes []) (d (start (log st))))])"
    using rd ins write_head_writes [OF ok2] st simps
    by (simp add: recover_from_log_def) (simp add: clear_lh_def)
  then show ?thesis using simps by (simp add: clear_lh_def recovery_writes_def bs_def Let_def)
qed

lemma recovery_writes_prefix:
  fixes k :: nat
  assumes "region_ok st" "recoverable st d"
  defines "d' \<equiv> apply_writes d (take k (recovery_writes st d))"
  shows "recoverable st d'" "b \<notin> log_region st \<Longrightarrow> recovered st d' b = recovered st d b"
proof -
  let ?s = "start (log st)"
  define bs where "bs = head_of (d ?s)"
  let ?ws = "zip bs (map (\<lambda>i. d (laddr st i)) [0..<length bs])"
  let ?clear = "(?s, patch 0 (head_bytes []) (d ?s))"
  have bs: "entries_ok st bs" "length (d ?s) = BSIZE" using assms(2) by (simp_all add: recoverable_def bs_def)
  have s: "?s \<notin> set bs" using bs(1) start_facts [OF assms(1)] by (auto simp: entries_ok_def)
  have k: "take k (recovery_writes st d) = take k ?ws \<or> take k (recovery_writes st d) = ?ws @ [?clear]"
    by (cases "k \<le> length bs") (simp_all add: recovery_writes_def bs_def Let_def)
  have in_bs: "fst ` set (take j ?ws) \<subseteq> set bs" for j
    by (auto dest!: in_set_takeD dest: set_zip_leftD)
  have "recoverable st d' \<and> (b \<notin> log_region st \<longrightarrow> recovered st d' b = recovered st d b)"
    using k
  proof
    assume "take k (recovery_writes st d) = take k ?ws"
    then have d': "d' = apply_writes d (take k ?ws)" by (simp add: d'_def)
    have same: "d' ?s = d ?s" "\<And>i. i < length bs \<Longrightarrow> d' (laddr st i) = d (laddr st i)"
      "\<And>b. b \<notin> set bs \<Longrightarrow> d' b = d b"
      using s in_bs region_disjoint [OF assms(1) bs(1)] by (auto simp: d' intro!: apply_writes_frame)
    have "map (\<lambda>i. d' (laddr st i)) [0..<length bs] = map (\<lambda>i. d (laddr st i)) [0..<length bs]"
      using same(2) by simp
    then have "recovered st d' b = apply_writes d' ?ws b"
      unfolding recovered_def same(1) Let_def bs_def [symmetric] by (simp only:)
    also have "\<dots> = apply_writes d ?ws b"
    proof (cases "b \<in> set bs")
      case True
      then obtain i where "i < length bs" "b = bs ! i" by (metis in_set_conv_nth)
      then show ?thesis using bs(1) by (simp add: apply_writes_zip entries_ok_def)
    next
      case False
      then show ?thesis using same(3) by (simp add: apply_writes_zip_frame)
    qed
    also have "\<dots> = recovered st d b" by (simp add: recovered_def bs_def Let_def)
    finally show ?thesis using bs same(1) by (simp add: recoverable_def bs_def)
  next
    assume "take k (recovery_writes st d) = ?ws @ [?clear]"
    then have d': "d' = (apply_writes d ?ws)(?s := patch 0 (head_bytes []) (d ?s))" by (simp add: d'_def)
    have "head_of (d' ?s) = []" by (simp add: d' head_of_patch)
    moreover have "length (d' ?s) = BSIZE" using bs(2) by (simp add: d' patch_def)
    moreover have "entries_ok st []" using assms(1) by (simp add: entries_ok_def region_ok_def)
    moreover have "b \<noteq> ?s" if "b \<notin> log_region st" using that start_facts [OF assms(1)] by auto
    ultimately show ?thesis by (auto simp: recovered_def recoverable_def bs_def [symmetric] d')
  qed
  then show "recoverable st d'" "b \<notin> log_region st \<Longrightarrow> recovered st d' b = recovered st d b" by auto
qed

lemma recover_result:
  assumes "region_ok st" "recoverable st d"
  shows "\<exists>r. recover_from_log (reboot st d) = Some r \<and> trace r = recovery_writes st d \<and>
    head_of (platter r (start (log st))) = [] \<and>
    (\<forall>b. b \<notin> log_region st \<longrightarrow> platter r b = recovered st d b)"
proof -
  obtain r where r: "recover_from_log (reboot st d) = Some r" "platter r = apply_writes d (recovery_writes st d)"
    "trace r = recovery_writes st d"
    using recover_writes [OF assms] by blast
  have "b \<noteq> start (log st)" if "b \<notin> log_region st" for b using that start_facts [OF assms(1)] by auto
  with r show ?thesis by (auto simp: recovery_writes_def recovered_def Let_def head_of_patch)
qed

text \<open>
  C12: recovery can be interrupted.  From every platter with a valid header, \<^verbatim>\<open>recover_from_log\<close>
  completes, and a crash after any number of its writes, followed by another recovery, gives the same
  contents outside the log region.
\<close>

theorem recovery_restartable:
  assumes "region_ok st" "recoverable st d"
  shows "\<exists>r. recover_from_log (reboot st d) = Some r \<and>
    (\<forall>k. \<exists>r'. recover_from_log (reboot st (apply_writes d (take k (trace r)))) = Some r' \<and>
      (\<forall>b. b \<notin> log_region st \<longrightarrow> platter r' b = platter r b))"
proof -
  obtain r where r: "recover_from_log (reboot st d) = Some r" "trace r = recovery_writes st d"
    "\<forall>b. b \<notin> log_region st \<longrightarrow> platter r b = recovered st d b"
    using recover_result [OF assms] by blast
  have "\<exists>r'. recover_from_log (reboot st (apply_writes d (take k (trace r)))) = Some r' \<and>
      (\<forall>b. b \<notin> log_region st \<longrightarrow> platter r' b = platter r b)" for k
    using recover_result [OF assms(1) recovery_writes_prefix(1) [OF assms, of k]]
      recovery_writes_prefix(2) [OF assms, of _ k] r(2,3) by auto
  with r(1) show ?thesis by blast
qed

subsection \<open>Commit\<close>

text \<open>The writes of a commit: log blocks, header, home blocks, cleared header.\<close>

definition log_block_writes :: "'a kdev_scheme \<Rightarrow> (u32 \<times> blk) list" where
  "log_block_writes st = zip (map (laddr st) [0..<length (lh (log st))]) (map (cache st) (lh (log st)))"

definition head_write :: "'a kdev_scheme \<Rightarrow> u32 list \<Rightarrow> u32 \<times> blk" where
  "head_write st bs = (start (log st), patch 0 (head_bytes bs) (cache st (start (log st))))"

definition home_writes :: "'a kdev_scheme \<Rightarrow> (u32 \<times> blk) list" where
  "home_writes st = zip (lh (log st)) (map (cache st) (lh (log st)))"

lemma patch_twice: "length bs \<le> length cs \<Longrightarrow> length cs \<le> length d \<Longrightarrow>
    patch 0 bs (patch 0 cs d) = bs @ drop (length bs) cs @ drop (length cs) d"
  by (simp add: patch_def)

lemma laddr_distinct:
  assumes "region_ok st" "int n < log_size (log st)"
  shows "distinct (map (laddr st) [0..<n])"
proof -
  have "inj_on (laddr st) {0..<n}"
  proof
    fix i j assume "i \<in> {0..<n}" "j \<in> {0..<n}" "laddr st i = laddr st j"
    moreover from this have "int i + 1 < log_size (log st)" "int j + 1 < log_size (log st)"
      using assms(2) by auto
    ultimately show "i = j" using laddr_facts(1) [OF assms(1)] by (metis add_right_cancel add_left_cancel)
  qed
  then show ?thesis by (simp add: distinct_map)
qed

lemma log_block_writes_facts:
  assumes "log_wf st"
  shows "i < length (lh (log st)) \<Longrightarrow> apply_writes d (log_block_writes st) (laddr st i) = cache st (lh (log st) ! i)"
    "b \<notin> log_region st \<or> b = start (log st) \<Longrightarrow> b \<notin> fst ` set (take k (log_block_writes st))"
proof -
  let ?n = "length (lh (log st))"
  have wf: "region_ok st" "int ?n < log_size (log st)" using assms by (simp_all add: log_wf_def entries_ok_def)
  show "apply_writes d (log_block_writes st) (laddr st i) = cache st (lh (log st) ! i)" if "i < ?n"
    using apply_writes_zip [OF laddr_distinct [OF wf], of "map (cache st) (lh (log st))" i d] that
    by (simp add: log_block_writes_def)
  have "fst ` set (log_block_writes st) \<subseteq> laddr st ` {0..<?n}"
    by (auto simp: log_block_writes_def dest: set_zip_leftD)
  then have sub: "fst ` set (take k (log_block_writes st)) \<subseteq> laddr st ` {0..<?n}"
    by (meson image_mono order_trans set_take_subset)
  show "b \<notin> fst ` set (take k (log_block_writes st))" if "b \<notin> log_region st \<or> b = start (log st)"
  proof
    assume "b \<in> fst ` set (take k (log_block_writes st))"
    then obtain i where i: "i < ?n" "b = laddr st i" using sub by auto
    then have "int i + 1 < log_size (log st)" using wf(2) by simp
    from laddr_facts(3,4) [OF wf(1) this] that i(2) show False by auto
  qed
qed

lemma commit_writes:
  assumes "log_wf st" "lh (log st) \<noteq> []"
  shows "\<exists>st'. commit st = Some st' \<and> trace st' = trace st @ log_block_writes st @
      [head_write st (lh (log st))] @ home_writes st @
      [(start (log st), patch 0 (head_bytes []) (snd (head_write st (lh (log st)))))] \<and>
    lh (log st') = [] \<and> platter st' = apply_writes (platter st) (log_block_writes st @
      [head_write st (lh (log st))] @ home_writes st @
      [(start (log st), patch 0 (head_bytes []) (snd (head_write st (lh (log st)))))])"
proof -
  let ?s = "start (log st)" and ?bs = "lh (log st)"
  let ?w1 = "log_block_writes st" and ?w2 = "head_write st ?bs" and ?w3 = "home_writes st"
  have wf: "region_ok st" "entries_ok st ?bs" using assms(1) by (simp_all add: log_wf_def)
  have s1: "apply_writes (cache st) ?w1 ?s = cache st ?s"
    using log_block_writes_facts(2) [OF assms(1), of ?s "length ?w1"] by (intro apply_writes_frame) simp
  define st1 where "st1 = do_writes st ?w1"
  have ok1: "region_ok st1" using wf(1) by (simp add: st1_def region_ok_def)
  define st2 where "st2 = do_writes st (?w1 @ [?w2])"
  have ok2: "region_ok st2" "entries_ok st2 (lh (log st2))"
    using wf by (simp_all add: st2_def region_ok_def entries_ok_def log_region_def)
  have c2: "cache st2 (laddr st i) = cache st (?bs ! i)" if "i < length ?bs" for i
    using log_block_writes_facts(1) [OF assms(1) that] region_disjoint(3) [OF wf that]
    by (simp add: st2_def head_write_def)
  have st3: "?s \<notin> fst ` set ?w3"
    using wf start_facts [OF wf(1)] by (auto simp: home_writes_def entries_ok_def dest: set_zip_leftD)
  define st3 where "st3 = clear_lh (do_writes st2 ?w3)"
  have ok3: "region_ok st3" using ok2(1) by (simp add: st3_def region_ok_def clear_lh_def)
  have "write_log st = Some st1" using write_log_writes [OF wf] by (simp add: st1_def log_block_writes_def)
  moreover have "write_head st1 = Some st2"
    using write_head_writes [OF ok1] s1 by (simp add: st1_def st2_def head_write_def)
  moreover have "laddr st2 = laddr st" by (simp add: st2_def)
  then have "map (\<lambda>i. cache st2 (laddr st2 i)) [0..<length ?bs] = map (cache st) ?bs"
    using c2 by (simp add: list_eq_iff_nth_eq [of "map _ _"])
  then have "install_trans st2 = Some (do_writes st2 ?w3)"
    using install_trans_writes [OF ok2] by (simp add: st2_def home_writes_def)
  moreover have "write_head st3 = Some (do_writes st3 [(?s, patch 0 (head_bytes []) (snd ?w2))])"
    using write_head_writes [OF ok3] apply_writes_frame [OF st3]
    by (simp add: st3_def clear_lh_def st2_def head_write_def)
  ultimately have "commit st = Some (do_writes st3 [(?s, patch 0 (head_bytes []) (snd ?w2))])"
    using assms(2) by (simp add: commit_def st3_def)
  then show ?thesis by (simp add: st3_def st2_def clear_lh_def)
qed

text \<open>A platter from which recovery produces given contents outside the log.\<close>

definition recovers_to :: "'a kdev_scheme \<Rightarrow> (u32 \<Rightarrow> blk) \<Rightarrow> (u32 \<Rightarrow> blk) \<Rightarrow> bool" where
  "recovers_to st d f \<longleftrightarrow> recoverable st d \<and> (\<forall>b. b \<notin> log_region st \<longrightarrow> recovered st d b = f b)"

lemma recovers_to_cleared:
  assumes "region_ok st" "length (d (start (log st))) = BSIZE" "head_of (d (start (log st))) = []"
    and "\<And>b. b \<notin> log_region st \<Longrightarrow> d b = f b"
  shows "recovers_to st d f"
  using assms by (simp add: recovers_to_def recoverable_def recovered_def entries_ok_def region_ok_def)

lemma crash_before_header:
  assumes "log_wf st"
  shows "recovers_to st (apply_writes (platter st) (take j (log_block_writes st))) (platter st)"
proof (rule recovers_to_cleared)
  have "apply_writes (platter st) (take j (log_block_writes st)) b = platter st b"
    if "b \<notin> log_region st \<or> b = start (log st)" for b
    using log_block_writes_facts(2) [OF assms that] by (rule apply_writes_frame)
  then show "region_ok st" "length (apply_writes (platter st) (take j (log_block_writes st)) (start (log st))) = BSIZE"
    "head_of (apply_writes (platter st) (take j (log_block_writes st)) (start (log st))) = []"
    "b \<notin> log_region st \<Longrightarrow> apply_writes (platter st) (take j (log_block_writes st)) b = platter st b" for b
    using assms by (simp_all add: log_wf_def)
qed

lemma home_writes_facts:
  assumes "entries_ok st (lh (log st))"
  shows "apply_writes d (home_writes st) b = (if b \<in> set (lh (log st)) then cache st b else d b)"
    "fst ` set (take j (home_writes st)) \<subseteq> set (lh (log st))"
  using assms apply_writes_zip [of "lh (log st)" "map (cache st) (lh (log st))" _ d]
  by (auto simp: home_writes_def apply_writes_zip_frame in_set_conv_nth entries_ok_def
      dest!: in_set_takeD dest: set_zip_leftD)

lemma length_head_write:
  "log_wf st \<Longrightarrow> length bs \<le> LOGSIZE \<Longrightarrow> length (snd (head_write st bs)) = BSIZE"
  by (simp add: head_write_def patch_def log_wf_def)

lemma crash_after_header:
  assumes "log_wf st"
  shows "recovers_to st (apply_writes (platter st) (log_block_writes st @ [head_write st (lh (log st))] @
    take j (home_writes st))) (committed st)"
proof -
  let ?s = "start (log st)" and ?bs = "lh (log st)"
  define d where "d = apply_writes (platter st) (log_block_writes st @ [head_write st ?bs] @ take j (home_writes st))"
  have wf: "region_ok st" "entries_ok st ?bs" using assms by (simp_all add: log_wf_def)
  then have bs: "?s \<notin> set ?bs" "length ?bs \<le> LOGSIZE" "distinct ?bs"
    using start_facts [OF wf(1)] by (auto simp: entries_ok_def)
  have out: "d b = ((apply_writes (platter st) (log_block_writes st))(?s := snd (head_write st ?bs))) b" if "b \<notin> set ?bs" for b
  proof -
    have "b \<notin> fst ` set (take j (home_writes st))" using home_writes_facts(2) [OF wf(2)] that by blast
    then show ?thesis unfolding d_def by (simp add: apply_writes_frame head_write_def)
  qed
  have head: "d ?s = snd (head_write st ?bs)" "head_of (d ?s) = ?bs"
    using out [OF bs(1)] bs(2) by (simp_all add: head_write_def head_of_patch)
  have body: "d (laddr st i) = cache st (?bs ! i)" if "i < length ?bs" for i
    using out [OF region_disjoint(2) [OF wf that]] region_disjoint(3) [OF wf that]
      log_block_writes_facts(1) [OF assms that] by simp
  have "map (\<lambda>i. d (laddr st i)) [0..<length ?bs] = map (cache st) ?bs"
    using body by (simp add: list_eq_iff_nth_eq [of "map _ _"])
  then have "recovered st d b = apply_writes d (home_writes st) b" for b
    unfolding recovered_def head(2) Let_def home_writes_def by (simp only:)
  moreover have "d b = platter st b" if "b \<notin> log_region st" "b \<notin> set ?bs" for b
    using out [OF that(2)] that(1) start_facts [OF wf(1)] log_block_writes_facts(2) [OF assms, of b "length (log_block_writes st)"]
    by (auto simp: apply_writes_frame)
  ultimately have "\<forall>b. b \<notin> log_region st \<longrightarrow> recovered st d b = committed st b"
    using home_writes_facts(1) [OF wf(2)] by (simp add: committed_def)
  moreover have "recoverable st d"
    using head length_head_write [OF assms bs(2)] wf(2) by (simp add: recoverable_def)
  ultimately show ?thesis unfolding d_def recovers_to_def by blast
qed

lemma crash_after_clear:
  assumes "log_wf st"
  shows "recovers_to st (apply_writes (platter st) (log_block_writes st @ [head_write st (lh (log st))] @
    home_writes st @ [(start (log st), patch 0 (head_bytes []) (snd (head_write st (lh (log st)))))])) (committed st)"
proof (rule recovers_to_cleared)
  let ?s = "start (log st)"
  have wf: "region_ok st" "entries_ok st (lh (log st))" using assms by (simp_all add: log_wf_def)
  let ?d = "apply_writes (platter st) (log_block_writes st @ [head_write st (lh (log st))] @
    home_writes st @ [(?s, patch 0 (head_bytes []) (snd (head_write st (lh (log st)))))])"
  show "region_ok st" by (rule wf(1))
  show "head_of (?d ?s) = []" by (simp add: head_of_patch)
  show "length (?d ?s) = BSIZE"
    using length_head_write [OF assms] wf(2) by (simp add: patch_def entries_ok_def)
  show "?d b = committed st b" if "b \<notin> log_region st" for b
    using that start_facts [OF wf(1)] log_block_writes_facts(2) [OF assms, of b "length (log_block_writes st)"]
    by (auto simp: home_writes_facts(1) [OF wf(2)] committed_def apply_writes_frame head_write_def)
qed

lemma commit_crash_image:
  assumes "log_wf st"
  shows "\<exists>st'. commit st = Some st' \<and> lh (log st') = [] \<and>
    (\<forall>k. recovers_to st (apply_writes (platter st) (take k (issued st st')))
       (if k \<le> length (lh (log st)) then platter st else committed st))"
proof (cases "lh (log st) = []")
  case True
  then have "committed st = platter st" by (simp add: committed_def fun_eq_iff)
  then show ?thesis
    using True crash_before_header [OF assms, of 0] by (simp add: commit_def issued_def)
next
  case False
  let ?n = "length (lh (log st))"
  let ?w1 = "log_block_writes st" and ?w2 = "head_write st (lh (log st))" and ?w3 = "home_writes st"
  let ?w4 = "(start (log st), patch 0 (head_bytes []) (snd ?w2))"
  obtain st' where st': "commit st = Some st'" "issued st st' = ?w1 @ [?w2] @ ?w3 @ [?w4]" "lh (log st') = []"
    using commit_writes [OF assms False] by (auto simp: issued_def)
  have len: "length ?w1 = ?n" "length ?w3 = ?n" by (simp_all add: log_block_writes_def home_writes_def)
  have "recovers_to st (apply_writes (platter st) (take k (issued st st')))
       (if k \<le> ?n then platter st else committed st)" for k
  proof -
    consider "k \<le> ?n" | "?n < k" "k \<le> 2 * ?n + 1" | "2 * ?n + 1 < k" by linarith
    then show ?thesis
    proof cases
      case 1
      then show ?thesis using crash_before_header [OF assms, of k] by (simp add: st' len)
    next
      case 2
      then have "take k (issued st st') = ?w1 @ [?w2] @ take (k - ?n - 1) ?w3"
        by (cases "k - ?n") (simp_all add: st' len)
      then show ?thesis using crash_after_header [OF assms, of "k - ?n - 1"] 2 by simp
    next
      case 3
      then have "take k (issued st st') = ?w1 @ [?w2] @ ?w3 @ [?w4]" by (simp add: st' len)
      then show ?thesis using crash_after_clear [OF assms] 3 by simp
    qed
  qed
  with st' show ?thesis by blast
qed

text \<open>
  C1: commits are atomic.  In a transaction whose blocks lie outside the log region, \<^verbatim>\<open>commit\<close>
  completes; for a crash after any number \<open>k\<close> of its disk writes, recovery on the platter then
  found completes and leaves every block outside the log as it was before the transaction when \<open>k\<close> is
  at most the number of logged blocks, and with the whole transaction applied otherwise.
\<close>

theorem commit_crash_atomic:
  assumes "log_wf st"
  shows "\<exists>st'. commit st = Some st' \<and> lh (log st') = [] \<and>
    (\<forall>k. \<exists>r. recover_from_log (reboot st (apply_writes (platter st) (take k (issued st st')))) = Some r \<and>
      (\<forall>b. b \<notin> log_region st \<longrightarrow>
        platter r b = (if k \<le> length (lh (log st)) then platter st b else committed st b)))"
proof -
  obtain st' where st': "commit st = Some st'" "lh (log st') = []"
    and img: "\<And>k. recovers_to st (apply_writes (platter st) (take k (issued st st')))
       (if k \<le> length (lh (log st)) then platter st else committed st)"
    using commit_crash_image [OF assms] by blast
  have "region_ok st" using assms by (simp add: log_wf_def)
  then have "\<exists>r. recover_from_log (reboot st (apply_writes (platter st) (take k (issued st st')))) = Some r \<and>
      (\<forall>b. b \<notin> log_region st \<longrightarrow>
        platter r b = (if k \<le> length (lh (log st)) then platter st b else committed st b))" for k
    using recover_result [of st "apply_writes (platter st) (take k (issued st st'))"] img [of k]
    by (fastforce simp: recovers_to_def)
  with st' show ?thesis by blast
qed

text \<open>A transaction of one block, on a device whose log starts at block 2.\<close>

definition sample_dev :: kdev where
  "sample_dev = \<lparr>fssize = 1000, platter = (\<lambda>_. replicate BSIZE 0),
     cache = (\<lambda>b. if b = 40 then replicate BSIZE 1 else replicate BSIZE 0), trace = [],
     log = \<lparr>start = 2, log_size = 30, outstanding = 0, committing = True, lh = [40]\<rparr>\<rparr>"

lemma head_of_zero: "head_of (replicate BSIZE 0) = []"
  by (simp add: head_of_def get32_def)

lemma sample_dev_wf: "log_wf sample_dev"
  using head_of_zero
  by (simp add: log_wf_def region_ok_def entries_ok_def log_region_def sample_dev_def word_nat)

theorem commit_crash_atomic_witness:
  "\<exists>st' r0 r2. commit sample_dev = Some st' \<and>
     recover_from_log (reboot sample_dev (apply_writes (platter sample_dev) (take 1 (issued sample_dev st')))) = Some r0 \<and>
     recover_from_log (reboot sample_dev (apply_writes (platter sample_dev) (take 2 (issued sample_dev st')))) = Some r2 \<and>
     platter r0 40 = replicate BSIZE 0 \<and> platter r2 40 = replicate BSIZE 1"
proof -
  have "40 \<notin> log_region sample_dev" by (simp add: log_region_def sample_dev_def)
  moreover obtain st' where st': "commit sample_dev = Some st'"
    "\<forall>k. \<exists>r. recover_from_log (reboot sample_dev (apply_writes (platter sample_dev) (take k (issued sample_dev st')))) = Some r \<and>
      (\<forall>b. b \<notin> log_region sample_dev \<longrightarrow>
        platter r b = (if k \<le> length (lh (log sample_dev)) then platter sample_dev b else committed sample_dev b))"
    using commit_crash_atomic [OF sample_dev_wf] by blast
  ultimately show ?thesis
    using st'(2) [THEN spec, of 1] st'(2) [THEN spec, of 2]
    by (fastforce simp: sample_dev_def committed_def)
qed

theorem recovery_restartable_witness:
  "\<exists>r. recover_from_log (reboot sample_dev (platter sample_dev)) = Some r"
  using recovery_restartable [of sample_dev "platter sample_dev"] sample_dev_wf head_of_zero
  by (auto simp: log_wf_def recoverable_def entries_ok_def sample_dev_def)

subsection \<open>Reservations\<close>

text \<open>
  Interleaved system calls as steps.  The second component counts, for every running call, the blocks
  it has added to the log; a call adds at most \<^verbatim>\<open>MAXOPBLOCKS\<close>.
\<close>

inductive log_step :: "kdev \<times> nat list \<Rightarrow> kdev \<times> nat list \<Rightarrow> bool" where
  step_begin: "begin_op st = Goes st' \<Longrightarrow> log_step (st, us) (st', us @ [0])"
| step_write: "log_write st b = Some st' \<Longrightarrow> i < length us \<Longrightarrow> us ! i < MAXOPBLOCKS \<Longrightarrow>
     log_step (st, us) (st', if b \<in> set (lh (log st)) then us else us[i := us ! i + 1])"
| step_end: "end_op st = Some st' \<Longrightarrow> i < length us \<Longrightarrow>
     log_step (st, us) (st', take i us @ drop (Suc i) us)"

inductive_cases log_step_cases: "log_step (st, us) (st', us')"

definition idle :: "kdev \<Rightarrow> bool" where
  "idle st \<longleftrightarrow> outstanding (log st) = 0 \<and> \<not> committing (log st) \<and> lh (log st) = []"

definition reserved :: "nat list \<Rightarrow> nat" where
  "reserved us = sum_list (map (\<lambda>u. MAXOPBLOCKS - u) us)"

definition log_inv :: "kdev \<Rightarrow> nat list \<Rightarrow> bool" where
  "log_inv st us \<longleftrightarrow> outstanding (log st) = int (length us) \<and> \<not> committing (log st) \<and>
     length (lh (log st)) + reserved us \<le> LOGSIZE \<and> distinct (lh (log st)) \<and> (us = [] \<longrightarrow> lh (log st) = [])"

lemma reserved_le: "reserved us \<le> length us * MAXOPBLOCKS"
  by (induction us) (auto simp: reserved_def)

lemma reserved_update:
  assumes "i < length us"
  shows "reserved (us[i := u]) + (MAXOPBLOCKS - us ! i) = reserved us + (MAXOPBLOCKS - u)"
  using assms
proof (induction us arbitrary: i)
  case (Cons v us)
  then show ?case by (cases i) (auto simp: reserved_def)
qed simp

lemma reserved_member: "i < length us \<Longrightarrow> MAXOPBLOCKS - us ! i \<le> reserved us"
proof -
  assume "i < length us"
  then have "MAXOPBLOCKS - us ! i \<in> set (map (\<lambda>u. MAXOPBLOCKS - u) us)" by simp
  then show ?thesis unfolding reserved_def by (rule member_le_sum_list) simp
qed

lemma reserved_remove: "reserved (take i us @ drop (Suc i) us) \<le> reserved us"
proof (cases "i < length us")
  case True
  then have "reserved us = reserved (take i us @ us ! i # drop (Suc i) us)" by (simp add: id_take_nth_drop [symmetric])
  then show ?thesis by (simp add: reserved_def)
qed simp

lemma write_head_log [frame]: "write_head st = Some st' \<Longrightarrow> log st' = log st"
  by (auto simp: write_head_def bind_Some_iff bwrite_set_buf)

lemma install_blocks_log [frame]: "install_blocks st t bs = Some st' \<Longrightarrow> log st' = log st"
  by (induction bs arbitrary: st t) (auto simp: bind_Some_iff bwrite_set_buf)

lemma write_log_blocks_log [frame]: "write_log_blocks st t bs = Some st' \<Longrightarrow> log st' = log st"
  by (induction bs arbitrary: st t) (auto simp: bind_Some_iff bwrite_set_buf)

lemma commit_log: "commit st = Some st' \<Longrightarrow> log st' = (log st)\<lparr>lh := []\<rparr>"
  by (auto simp: commit_def bind_Some_iff clear_lh_def install_trans_def write_log_def
      dest!: frame split: if_splits)

lemma begin_op_Goes:
  assumes "begin_op st = Goes st'"
  shows "int (length (lh (log st))) + (outstanding (log st) + 1) * int MAXOPBLOCKS \<le> int LOGSIZE \<and>
    \<not> committing (log st) \<and> st' = st\<lparr>log := (log st)\<lparr>outstanding := outstanding (log st) + 1\<rparr>\<rparr>"
  using assms unfolding begin_op_def
  by (cases "committing (log st)";
      cases "int (length (lh (log st))) + (outstanding (log st) + 1) * int MAXOPBLOCKS > int LOGSIZE") simp_all

lemma log_inv_step:
  assumes "log_step (st, us) (st', us')" "log_inv st us"
  shows "log_inv st' us'"
proof -
  consider (begins) "us' = us @ [0]" "begin_op st = Goes st'"
    | (writes) b i where "us' = (if b \<in> set (lh (log st)) then us else us[i := us ! i + 1])"
        "log_write st b = Some st'" "i < length us" "us ! i < MAXOPBLOCKS"
    | (ends) i where "us' = take i us @ drop (Suc i) us" "end_op st = Some st'" "i < length us"
    using assms(1) by (rule log_step_cases) blast+
  then show ?thesis
  proof cases
    case begins
    then have "int (length (lh (log st))) + (outstanding (log st) + 1) * int MAXOPBLOCKS \<le> int LOGSIZE"
      using begin_op_Goes by blast
    then have "length (lh (log st)) + (length us + 1) * MAXOPBLOCKS \<le> LOGSIZE"
      using assms(2) by (simp add: log_inv_def)
    moreover have "reserved (us @ [0]) \<le> (length us + 1) * MAXOPBLOCKS" using reserved_le [of "us @ [0]"] by simp
    ultimately have "length (lh (log st)) + reserved (us @ [0]) \<le> LOGSIZE" by linarith
    then show ?thesis using begins(1) assms(2) begin_op_Goes [OF begins(2)] by (auto simp: log_inv_def)
  next
    case (writes b i)
    then show ?thesis
      using assms(2) reserved_update [of i us "us ! i + 1"]
      by (auto simp: log_write_def log_inv_def split: if_splits)
  next
    case (ends i)
    let ?st = "st\<lparr>log := (log st)\<lparr>outstanding := outstanding (log st) - 1\<rparr>\<rparr>"
    have len: "int (length us') = outstanding (log st) - 1" using ends assms(2) by (simp add: log_inv_def)
    show ?thesis
    proof (cases "outstanding (log st) = 1")
      case True
      then obtain st1 where "commit (?st\<lparr>log := (log ?st)\<lparr>committing := True\<rparr>\<rparr>) = Some st1"
        "st' = st1\<lparr>log := (log st1)\<lparr>committing := False\<rparr>\<rparr>"
        using ends assms(2) by (auto simp: end_op_def Let_def log_inv_def bind_Some_iff split: if_splits)
      then have "log st' = (log ?st)\<lparr>committing := False, lh := []\<rparr>" by (simp add: commit_log)
      then show ?thesis using True len by (simp add: log_inv_def reserved_def)
    next
      case False
      then have "st' = ?st" using ends assms(2) by (auto simp: end_op_def Let_def log_inv_def split: if_splits)
      moreover have "us' \<noteq> []" using len False by auto
      ultimately show ?thesis
        using assms(2) len ends(1,3) reserved_remove [of i us] by (auto simp: log_inv_def)
    qed
  qed
qed

lemma log_inv_reachable:
  assumes "log_step\<^sup>*\<^sup>* (st0, []) (st, us)" "idle st0"
  shows "log_inv st us"
proof -
  have "case z of (st, us) \<Rightarrow> log_inv st us" if "log_step\<^sup>*\<^sup>* (st0, []) z" for z
    using that
  proof (induction rule: rtranclp_induct)
    case base
    then show ?case using assms(2) by (simp add: idle_def log_inv_def reserved_def)
  next
    case (step y z)
    then show ?case by (auto intro: log_inv_step split: prod.splits)
  qed
  from this [OF assms(1)] show ?thesis by simp
qed

text \<open>
  C15: the reservation scheme works.  Starting from an idle log, after any interleaving of
  system calls the log holds at most \<^verbatim>\<open>LOGSIZE\<close> blocks, and when the log region has more than
  \<^verbatim>\<open>LOGSIZE\<close> blocks, \<^verbatim>\<open>log_write\<close> does not panic for a call that has added fewer than
  \<^verbatim>\<open>MAXOPBLOCKS\<close> blocks so far.
\<close>

theorem log_write_within_reservation:
  assumes "log_step\<^sup>*\<^sup>* (st0, []) (st, us)" "idle st0"
    and "i < length us" "us ! i < MAXOPBLOCKS" "log_size (log st) > int LOGSIZE"
  shows "length (lh (log st)) < LOGSIZE \<and> (\<exists>st'. log_write st b = Some st' \<and> b \<in> set (lh (log st')))"
proof -
  have inv: "log_inv st us" using assms(1,2) by (rule log_inv_reachable)
  then have "length (lh (log st)) < LOGSIZE"
    using reserved_member [OF assms(3)] assms(4) unfolding log_inv_def by linarith
  moreover have "1 \<le> outstanding (log st)" using inv assms(3) by (auto simp: log_inv_def)
  ultimately show ?thesis using assms(5) by (simp add: log_write_def)
qed

text \<open>A device with a given log size, nothing in the log, and the run that fills the log.\<close>

definition fresh_dev :: "int \<Rightarrow> kdev" where
  "fresh_dev n = \<lparr>fssize = 1000, platter = (\<lambda>_. replicate BSIZE 0), cache = (\<lambda>_. replicate BSIZE 0), trace = [],
     log = \<lparr>start = 2, log_size = n, outstanding = 0, committing = False, lh = []\<rparr>\<rparr>"

definition filled :: "int \<Rightarrow> nat \<Rightarrow> kdev" where
  "filled n k = (fresh_dev n)\<lparr>log := (log (fresh_dev n))\<lparr>outstanding := 3, lh := map (\<lambda>i. word_of_nat (100 + i)) [0..<k]\<rparr>\<rparr>"

lemma fresh_idle: "idle (fresh_dev n)"
  by (simp add: idle_def fresh_dev_def)

lemma three_begins: "log_step\<^sup>*\<^sup>* (fresh_dev n, []) (filled n 0, [0, 0, 0])"
proof -
  let ?d = "\<lambda>o'. (fresh_dev n)\<lparr>log := (log (fresh_dev n))\<lparr>outstanding := o'\<rparr>\<rparr>"
  have b: "log_step (?d (int k), us) (?d (int k + 1), us @ [0])" if "k < 3" for k us
    using that by (intro step_begin) (auto simp: begin_op_def fresh_dev_def)
  have "?d 0 = fresh_dev n" by (simp add: fresh_dev_def)
  moreover have "?d 3 = filled n 0" by (simp add: filled_def fresh_dev_def)
  ultimately show ?thesis
    using b [of 0 "[]"] b [of 1 "[0]"] b [of 2 "[0, 0]"] by (auto intro: rtranclp.intros)
qed

lemma fill_step:
  assumes "k < 29" "n = 30"
  shows "log_step (filled n k, [min k 10, min (k - 10) 10, min (k - 20) 10])
    (filled n (k + 1), [min (k + 1) 10, min (k + 1 - 10) 10, min (k + 1 - 20) 10])"
proof -
  have inj: "(word_of_nat a = (word_of_nat c :: u32)) \<longleftrightarrow> a = c" if "a < 200" "c < 200" for a c
    using that by (simp add: word_unat_eq_iff unat_of_nat take_bit_nat_eq_self)
  have fresh: "word_of_nat (100 + k) \<notin> set (lh (log (filled n k)))"
  proof
    assume "word_of_nat (100 + k) \<in> set (lh (log (filled n k)))"
    moreover have "lh (log (filled n k)) = map (\<lambda>i. word_of_nat (100 + i)) [0..<k]" by (simp add: filled_def)
    ultimately have "(word_of_nat (100 + k) :: u32) \<in> (\<lambda>i. word_of_nat (100 + i)) ` {0..<k}"
      by (simp only: set_map set_upt)
    then obtain c where c: "c \<in> {0..<k}" "(word_of_nat (100 + k) :: u32) = word_of_nat (100 + c)" by blast
    then have "100 + k = 100 + c" using assms(1) by (intro iffD1 [OF inj c(2)]) auto
    with c(1) show False by simp
  qed
  have w: "log_write (filled n k) (word_of_nat (100 + k)) = Some (filled n (k + 1))"
    using fresh assms by (simp add: log_write_def) (simp add: filled_def fresh_dev_def)
  let ?us = "[min k 10, min (k - 10) 10, min (k - 20) 10]"
  let ?us' = "[min (k + 1) 10, min (k + 1 - 10) 10, min (k + 1 - 20) 10]"
  have step: "log_step (filled n k, ?us) (filled n (k + 1), ?us')"
    if "i < length ?us" "?us ! i < MAXOPBLOCKS" "?us[i := ?us ! i + 1] = ?us'" for i
    using step_write [OF w that(1,2)] fresh that(3) by (simp only: if_False)
  consider "k < 10" | "10 \<le> k" "k < 20" | "20 \<le> k" by linarith
  then show ?thesis
  proof cases
    case 1 then show ?thesis by (intro step [of 0]) simp_all
  next
    case 2 then show ?thesis by (intro step [of 1]) simp_all
  next
    case 3 then show ?thesis using assms(1) by (intro step [of 2]) simp_all
  qed
qed

text \<open>
  C30: the log region that \<^verbatim>\<open>mkfs\<close> lays out is one block too small.  With \<^verbatim>\<open>nlog = LOGSIZE\<close>
  (one block of which is the header) three concurrent calls within their reservations, all admitted by
  \<^verbatim>\<open>begin_op\<close>, reach a state in which a block that the third may still add makes \<^verbatim>\<open>log_write\<close> panic.
\<close>

theorem log_reservation_off_by_one:
  "\<exists>st us i. log_step\<^sup>*\<^sup>* (fresh_dev (int LOGSIZE), []) (st, us) \<and> idle (fresh_dev (int LOGSIZE)) \<and>
     i < length us \<and> us ! i < MAXOPBLOCKS \<and> (\<forall>b. log_write st b = None)"
proof -
  have "log_step\<^sup>*\<^sup>* (fresh_dev 30, []) (filled 30 k, [min k 10, min (k - 10) 10, min (k - 20) 10])" if "k \<le> 29" for k
    using that
  proof (induction k)
    case 0
    show ?case using three_begins by simp
  next
    case (Suc k)
    then show ?case using fill_step [of k 30] by (auto intro: rtranclp.rtrancl_into_rtrancl)
  qed
  from this [of 29] have "log_step\<^sup>*\<^sup>* (fresh_dev (int LOGSIZE), []) (filled 30 29, [10, 10, 9])" by simp
  moreover have "\<forall>b. log_write (filled 30 29) b = None"
    by (simp add: log_write_def filled_def fresh_dev_def)
  ultimately show ?thesis using fresh_idle by (intro exI [of _ 2] exI conjI) auto
qed

theorem log_write_within_reservation_witness:
  "\<exists>st'. log_write (filled 31 0) 7 = Some st' \<and> 7 \<in> set (lh (log st'))"
  using log_write_within_reservation [OF three_begins fresh_idle, of 0 31 7]
  by (simp add: filled_def fresh_dev_def)

end
