(* ===== verification/Xv6_Cache.thy ===== *)
theory Xv6_Cache
  imports Xv6_Log
begin

text \<open>
  The buffer cache of the xv6 kernels (\<^verbatim>\<open>bio.c\<close>, the same file in both kernels) over the disk in memory of \<^verbatim>\<open>memide.c\<close>.

  The cache is the array of buffers, the list \<^verbatim>\<open>bcache.head\<close> of their indices, most recently used first, and the disk.  What
  runs under \<^verbatim>\<open>bcache.lock\<close> is one operation; \<^verbatim>\<open>bget\<close> ends with \<^verbatim>\<open>acquiresleep\<close>, which is an operation of its own, so that other
  processes may run in between, and \<^verbatim>\<open>brelse\<close> is two operations for the same reason.  \<open>None\<close> is a call of \<^verbatim>\<open>panic\<close>.

  Shown here: under any interleaving of processes a block is in one buffer, a buffer counts the processes that use it, and
  cache and disk together behave as the idealised cache of \<^theory_text>\<open>Xv6_Log\<close>, which the models of the log and the file system rest on.
\<close>

abbreviation "NBUF \<equiv> (30 :: nat)"

definition B_VALID :: u32 where "B_VALID = 2"
definition B_DIRTY :: u32 where "B_DIRTY = 4"

record buf =
  flags :: u32
  dev :: u32
  blockno :: u32
  locked :: bool
  lpid :: int
  refcnt :: nat
  bdata :: blk

record bcache =
  bufs :: "buf list"
  mru :: "nat list"
  memdisk :: "u32 \<Rightarrow> blk"
  disksize :: u32

definition set_b :: "nat \<Rightarrow> buf \<Rightarrow> 'a bcache_scheme \<Rightarrow> 'a bcache_scheme" where
  "set_b i b s = s\<lparr>bufs := (bufs s)[i := b]\<rparr>"

fun binit_loop :: "nat list \<Rightarrow> nat list \<Rightarrow> nat list" where
  "binit_loop [] l = l"
| "binit_loop (b # bs) l = binit_loop bs (b # l)"

definition binit :: "bcache \<Rightarrow> bcache" where
  "binit s = s\<lparr>bufs := map (\<lambda>b. b\<lparr>locked := False, lpid := 0\<rparr>) (bufs s), mru := binit_loop [0..<NBUF] []\<rparr>"

definition bget :: "u32 \<Rightarrow> u32 \<Rightarrow> 'a bcache_scheme \<Rightarrow> (nat \<times> 'a bcache_scheme) option" where
  "bget d n s =
     (case find (\<lambda>i. dev (bufs s ! i) = d \<and> blockno (bufs s ! i) = n) (mru s) of
        Some i \<Rightarrow> Some (i, set_b i ((bufs s ! i)\<lparr>refcnt := refcnt (bufs s ! i) + 1\<rparr>) s)
      | None \<Rightarrow>
          case find (\<lambda>i. refcnt (bufs s ! i) = 0 \<and> flags (bufs s ! i) AND B_DIRTY = 0) (rev (mru s)) of
            Some i \<Rightarrow> Some (i, set_b i ((bufs s ! i)\<lparr>dev := d, blockno := n, flags := 0, refcnt := 1\<rparr>) s)
          | None \<Rightarrow> None)"

text \<open>The loop of \<^verbatim>\<open>acquiresleep\<close> ends when the lock is free.\<close>

definition acquire_buf :: "int \<Rightarrow> nat \<Rightarrow> 'a bcache_scheme \<Rightarrow> 'a bcache_scheme option" where
  "acquire_buf pid i s =
     (if locked (bufs s ! i) then None else Some (set_b i ((bufs s ! i)\<lparr>locked := True, lpid := pid\<rparr>) s))"

definition release_buf :: "nat \<Rightarrow> 'a bcache_scheme \<Rightarrow> 'a bcache_scheme" where
  "release_buf i s = set_b i ((bufs s ! i)\<lparr>locked := False, lpid := 0\<rparr>) s"

definition holding_buf :: "int \<Rightarrow> nat \<Rightarrow> 'a bcache_scheme \<Rightarrow> bool" where
  "holding_buf pid i s \<longleftrightarrow> locked (bufs s ! i) \<and> lpid (bufs s ! i) = pid"

definition iderw :: "int \<Rightarrow> nat \<Rightarrow> 'a bcache_scheme \<Rightarrow> 'a bcache_scheme option" where
  "iderw pid i s =
     (let b = bufs s ! i in
      if \<not> holding_buf pid i s then None
      else if flags b AND (B_VALID OR B_DIRTY) = B_VALID then None
      else if dev b \<noteq> 1 then None
      else if blockno b \<ge> disksize s then None
      else if flags b AND B_DIRTY \<noteq> 0 then
        Some (set_b i (b\<lparr>flags := (flags b AND NOT B_DIRTY) OR B_VALID\<rparr>) (s\<lparr>memdisk := (memdisk s)(blockno b := bdata b)\<rparr>))
      else Some (set_b i (b\<lparr>bdata := memdisk s (blockno b), flags := flags b OR B_VALID\<rparr>) s))"

text \<open>The part of \<^verbatim>\<open>bread\<close> after \<^verbatim>\<open>bget\<close>, and the whole of it for a process that finds the buffer unlocked.\<close>

definition bread_fill :: "int \<Rightarrow> nat \<Rightarrow> 'a bcache_scheme \<Rightarrow> 'a bcache_scheme option" where
  "bread_fill pid i s = (if flags (bufs s ! i) AND B_VALID = 0 then iderw pid i s else Some s)"

definition bc_bread :: "int \<Rightarrow> u32 \<Rightarrow> u32 \<Rightarrow> 'a bcache_scheme \<Rightarrow> (nat \<times> 'a bcache_scheme) option" where
  "bc_bread pid d n s = do {
     (i, s) \<leftarrow> bget d n s;
     s \<leftarrow> acquire_buf pid i s;
     s \<leftarrow> bread_fill pid i s;
     Some (i, s)
   }"

definition bc_bwrite :: "int \<Rightarrow> nat \<Rightarrow> 'a bcache_scheme \<Rightarrow> 'a bcache_scheme option" where
  "bc_bwrite pid i s =
     (if \<not> holding_buf pid i s then None
      else iderw pid i (set_b i ((bufs s ! i)\<lparr>flags := flags (bufs s ! i) OR B_DIRTY\<rparr>) s))"

text \<open>\<^verbatim>\<open>brelse\<close> unlocks the buffer first and takes \<^verbatim>\<open>bcache.lock\<close> afterwards: two operations, between which other processes may run.\<close>

definition brelse_unlock :: "int \<Rightarrow> nat \<Rightarrow> 'a bcache_scheme \<Rightarrow> 'a bcache_scheme option" where
  "brelse_unlock pid i s = (if \<not> holding_buf pid i s then None else Some (release_buf i s))"

definition brelse_drop :: "nat \<Rightarrow> 'a bcache_scheme \<Rightarrow> 'a bcache_scheme" where
  "brelse_drop i s =
     (let s = set_b i ((bufs s ! i)\<lparr>refcnt := refcnt (bufs s ! i) - 1\<rparr>) s in
      if refcnt (bufs s ! i) = 0 then s\<lparr>mru := i # remove1 i (mru s)\<rparr> else s)"

definition brelse :: "int \<Rightarrow> nat \<Rightarrow> 'a bcache_scheme \<Rightarrow> 'a bcache_scheme option" where
  "brelse pid i s = do {
     s \<leftarrow> brelse_unlock pid i s;
     Some (brelse_drop i s)
   }"

subsection \<open>Processes that use the cache\<close>

text \<open>The processes that wait in \<^verbatim>\<open>acquiresleep\<close>, and those between the two sections of \<^verbatim>\<open>brelse\<close>, each with its buffer.\<close>

record cstate = bcache +
  waiting :: "(int \<times> nat) list"
  leaving :: "(int \<times> nat) list"

datatype event =
    Get int u32 nat | Lock int nat | Fill int nat | Modify int nat blk | Pin int nat | Write int nat | Unlock int nat | Drop int nat

text \<open>
  A process gets a buffer, waits for its lock, fills it if it is not valid, and then may change the data, mark the buffer dirty
  (\<^verbatim>\<open>log_write\<close>), write it or release it, which takes two steps.  A process that has changed the data writes or marks the buffer before it
  releases it; this is the rule the users of the cache keep.
\<close>

inductive cstep :: "cstate \<Rightarrow> event \<Rightarrow> cstate \<Rightarrow> bool" where
  get: "bget 1 n s = Some (i, s') \<Longrightarrow> cstep s (Get pid n i) (s'\<lparr>waiting := (pid, i) # waiting s'\<rparr>)"
| lock: "(pid, i) \<in> set (waiting s) \<Longrightarrow> acquire_buf pid i s = Some s' \<Longrightarrow>
    cstep s (Lock pid i) (s'\<lparr>waiting := remove1 (pid, i) (waiting s')\<rparr>)"
| fill: "holding_buf pid i s \<Longrightarrow> bread_fill pid i s = Some s' \<Longrightarrow> i < NBUF \<Longrightarrow> cstep s (Fill pid i) s'"
| modify: "holding_buf pid i s \<Longrightarrow> i < NBUF \<Longrightarrow> flags (bufs s ! i) AND B_VALID \<noteq> 0 \<Longrightarrow>
    cstep s (Modify pid i d) (set_b i ((bufs s ! i)\<lparr>bdata := d\<rparr>) s)"
| pin: "holding_buf pid i s \<Longrightarrow> i < NBUF \<Longrightarrow> flags (bufs s ! i) AND B_VALID \<noteq> 0 \<Longrightarrow>
    cstep s (Pin pid i) (set_b i ((bufs s ! i)\<lparr>flags := flags (bufs s ! i) OR B_DIRTY\<rparr>) s)"
| flush: "bc_bwrite pid i s = Some s' \<Longrightarrow> i < NBUF \<Longrightarrow> flags (bufs s ! i) AND B_VALID \<noteq> 0 \<Longrightarrow> cstep s (Write pid i) s'"
| unlock: "brelse_unlock pid i s = Some s' \<Longrightarrow> i < NBUF \<Longrightarrow>
    flags (bufs s ! i) AND B_DIRTY \<noteq> 0 \<or> flags (bufs s ! i) AND B_VALID = 0 \<or> bdata (bufs s ! i) = memdisk s (blockno (bufs s ! i)) \<Longrightarrow>
    cstep s (Unlock pid i) (s'\<lparr>leaving := (pid, i) # leaving s'\<rparr>)"
| drop: "(pid, i) \<in> set (leaving s) \<Longrightarrow>
    cstep s (Drop pid i) ((brelse_drop i s)\<lparr>leaving := remove1 (pid, i) (leaving s)\<rparr>)"

inductive_cases cstepE: "cstep s e s'"

definition booted :: "(u32 \<Rightarrow> blk) \<Rightarrow> u32 \<Rightarrow> cstate" where
  "booted disk sz = bcache.extend (binit \<lparr>bufs = replicate NBUF \<lparr>flags = 0, dev = 0, blockno = 0, locked = False, lpid = 0, refcnt = 0,
     bdata = replicate BSIZE 0\<rparr>, mru = [], memdisk = disk, disksize = sz\<rparr>) (cstate.fields [] [])"

inductive cruns :: "cstate \<Rightarrow> event list \<Rightarrow> cstate \<Rightarrow> bool" where
  start: "cruns s [] s"
| step: "cruns s es s' \<Longrightarrow> cstep s' e s'' \<Longrightarrow> cruns s (es @ [e]) s''"

subsection \<open>Flags\<close>

definition valid :: "buf \<Rightarrow> bool" where "valid b \<longleftrightarrow> flags b AND B_VALID \<noteq> 0"
definition dirty :: "buf \<Rightarrow> bool" where "dirty b \<longleftrightarrow> flags b AND B_DIRTY \<noteq> 0"

lemma B_nonzero: "B_VALID \<noteq> 0" "B_DIRTY \<noteq> 0"
  by (simp_all add: B_VALID_def B_DIRTY_def)

lemma flag_bits: "w AND B_VALID = 0 \<longleftrightarrow> \<not> bit w 1" "w AND B_DIRTY = 0 \<longleftrightarrow> \<not> bit w 2"
  using and_exp_eq_0_iff_not_bit [of w 1] and_exp_eq_0_iff_not_bit [of w 2] by (simp_all add: B_VALID_def B_DIRTY_def)

lemma bit_flags: "bit B_VALID n \<longleftrightarrow> n = 1" "bit B_DIRTY n \<longleftrightarrow> n = 2"
  using bit_exp_iff [of 1 n, where 'a = u32] bit_exp_iff [of 2 n, where 'a = u32]
  by (auto simp: B_VALID_def B_DIRTY_def)

lemma nothing_to_do: "flags b AND (B_VALID OR B_DIRTY) = B_VALID \<longleftrightarrow> valid b \<and> \<not> dirty b"
proof -
  let ?w = "flags b"
  have "bit ?w 1 \<and> \<not> bit ?w 2" if eq: "?w AND (B_VALID OR B_DIRTY) = B_VALID"
    using arg_cong [OF eq, of "\<lambda>w. bit w 1"] arg_cong [OF eq, of "\<lambda>w. bit w 2"]
    unfolding bit_and_iff bit_or_iff bit_flags by simp
  moreover have "?w AND (B_VALID OR B_DIRTY) = B_VALID" if "bit ?w 1" "\<not> bit ?w 2"
  proof (rule bit_eqI)
    fix n
    show "bit (?w AND (B_VALID OR B_DIRTY)) n \<longleftrightarrow> bit B_VALID n"
      unfolding bit_and_iff bit_or_iff bit_flags using that by auto
  qed
  ultimately show ?thesis
    unfolding valid_def dirty_def flag_bits by blast
qed

lemma flags_simps [simp]:
  "valid (b\<lparr>flags := 0\<rparr>) = False" "dirty (b\<lparr>flags := 0\<rparr>) = False"
  "valid (b\<lparr>flags := w OR B_DIRTY\<rparr>) = valid (b\<lparr>flags := w\<rparr>)" "dirty (b\<lparr>flags := w OR B_DIRTY\<rparr>)"
  "valid (b\<lparr>flags := w OR B_VALID\<rparr>)" "dirty (b\<lparr>flags := w OR B_VALID\<rparr>) = dirty (b\<lparr>flags := w\<rparr>)"
  "\<not> dirty (b\<lparr>flags := w AND NOT B_DIRTY\<rparr>)"
  "valid (b\<lparr>flags := flags c\<rparr>) = valid c" "dirty (b\<lparr>flags := flags c\<rparr>) = dirty c"
  by (simp_all add: valid_def dirty_def flag_bits bit_simps bit_flags B_nonzero)

lemma valid_simps [simp]:
  "valid (b\<lparr>refcnt := r\<rparr>) = valid b" "valid (b\<lparr>locked := l\<rparr>) = valid b" "valid (b\<lparr>lpid := q\<rparr>) = valid b" "valid (b\<lparr>bdata := d\<rparr>) = valid b"
  "valid (b\<lparr>dev := v\<rparr>) = valid b" "valid (b\<lparr>blockno := n\<rparr>) = valid b"
  "dirty (b\<lparr>refcnt := r\<rparr>) = dirty b" "dirty (b\<lparr>locked := l\<rparr>) = dirty b" "dirty (b\<lparr>lpid := q\<rparr>) = dirty b" "dirty (b\<lparr>bdata := d\<rparr>) = dirty b"
  "dirty (b\<lparr>dev := v\<rparr>) = dirty b" "dirty (b\<lparr>blockno := n\<rparr>) = dirty b"
  by (simp_all add: valid_def dirty_def)


subsection \<open>The invariant\<close>

definition users :: "cstate \<Rightarrow> nat \<Rightarrow> nat" where
  "users s i = length (filter (\<lambda>w. snd w = i) (waiting s)) +
     length (filter (\<lambda>w. snd w = i) (leaving s)) + (if locked (bufs s ! i) then 1 else 0)"

definition buf_ok :: "cstate \<Rightarrow> nat \<Rightarrow> bool" where
  "buf_ok s i \<longleftrightarrow> (let b = bufs s ! i in
     refcnt b = users s i \<and> (valid b \<longrightarrow> dev b = 1 \<and> blockno b < disksize s) \<and> (dirty b \<longrightarrow> valid b) \<and>
     (valid b \<and> \<not> dirty b \<and> \<not> locked b \<longrightarrow> bdata b = memdisk s (blockno b)))"

definition binv :: "cstate \<Rightarrow> bool" where
  "binv s \<longleftrightarrow> length (bufs s) = NBUF \<and> mset (mru s) = mset [0..<NBUF] \<and> (\<forall>w \<in> set (waiting s @ leaving s). snd w < NBUF) \<and>
     (\<forall>i < NBUF. buf_ok s i) \<and>
     (\<forall>i < NBUF. \<forall>j < NBUF. i \<noteq> j \<and> dev (bufs s ! i) = 1 \<and> dev (bufs s ! j) = 1 \<longrightarrow> blockno (bufs s ! i) \<noteq> blockno (bufs s ! j))"

lemma binvD:
  assumes "binv s"
  shows "length (bufs s) = NBUF" "set (mru s) = {..<NBUF}" "distinct (mru s)"
    "i < NBUF \<Longrightarrow> buf_ok s i" "(pid, i) \<in> set (waiting s) \<or> (pid, i) \<in> set (leaving s) \<Longrightarrow> i < NBUF"
  using assms mset_eq_setD [of "mru s" "[0..<NBUF]"] mset_eq_imp_distinct_iff [of "mru s" "[0..<NBUF]"]
  by (auto simp: binv_def atLeast0LessThan ball_Un)

text \<open>One buffer changes, and with it the disk at its block, the two lists of processes at its index and the order of the buffers.\<close>

lemma binv_update:
  assumes s: "binv s" and i: "i < NBUF"
    and s': "bufs s' = (bufs s)[i := b]" "mset (mru s') = mset (mru s)" "\<forall>w \<in> set (waiting s' @ leaving s'). snd w < NBUF" "disksize s' = disksize s"
    and w: "\<And>j. j \<noteq> i \<Longrightarrow> filter (\<lambda>w. snd w = j) (waiting s') = filter (\<lambda>w. snd w = j) (waiting s)"
      "\<And>j. j \<noteq> i \<Longrightarrow> filter (\<lambda>w. snd w = j) (leaving s') = filter (\<lambda>w. snd w = j) (leaving s)"
    and d: "\<And>n. memdisk s' n \<noteq> memdisk s n \<Longrightarrow> n = blockno b \<and> dev b = 1"
    and u: "dev b = 1 \<Longrightarrow> dev (bufs s ! i) = 1 \<and> blockno (bufs s ! i) = blockno b \<or>
      (\<forall>j < NBUF. dev (bufs s ! j) = 1 \<longrightarrow> blockno (bufs s ! j) \<noteq> blockno b)"
    and b: "buf_ok s' i"
  shows "binv s'"
proof -
  have uniq: "blockno (bufs s ! j) \<noteq> blockno b" if "j < NBUF" "j \<noteq> i" "dev (bufs s ! j) = 1" "dev b = 1" for j
    using u [OF that(4)] s i that unfolding binv_def by metis
  have "buf_ok s' j" if "j < NBUF" "j \<noteq> i" for j
  proof -
    have eq: "bufs s' ! j = bufs s ! j" "users s' j = users s j"
      using that s' w by (auto simp: users_def)
    have "valid (bufs s ! j) \<Longrightarrow> memdisk s' (blockno (bufs s ! j)) = memdisk s (blockno (bufs s ! j))"
      using d [of "blockno (bufs s ! j)"] uniq [OF that] binvD(4) [OF s that(1)] by (auto simp: buf_ok_def Let_def)
    then show ?thesis
      using binvD(4) [OF s that(1)] eq s'(4) by (auto simp: buf_ok_def Let_def)
  qed
  moreover have "blockno (bufs s' ! j) \<noteq> blockno (bufs s' ! k)"
    if "j < NBUF" "k < NBUF" "j \<noteq> k" "dev (bufs s' ! j) = 1" "dev (bufs s' ! k) = 1" for j k
    using that s'(1) uniq [of j] uniq [of k] s i binvD(1) [OF s] unfolding binv_def
    by (auto simp: nth_list_update split: if_splits)
  ultimately show ?thesis
    using s s' b i unfolding binv_def by (metis length_list_update)
qed

lemma set_b_simps [simp]:
  "bufs (set_b i b s) = (bufs s)[i := b]" "mru (set_b i b s) = mru s" "memdisk (set_b i b s) = memdisk s"
  "disksize (set_b i b s) = disksize s" "waiting (set_b i b t) = waiting t" "leaving (set_b i b t) = leaving t"
  by (simp_all add: set_b_def)

lemma find_SomeD: "find P xs = Some x \<Longrightarrow> x \<in> set xs \<and> P x"
  by (auto simp: find_Some_iff)

lemma bget_cases:
  assumes "bget 1 n s = Some (i, s')" "binv s"
  obtains "i < NBUF" "dev (bufs s ! i) = 1" "blockno (bufs s ! i) = n" "s' = set_b i ((bufs s ! i)\<lparr>refcnt := refcnt (bufs s ! i) + 1\<rparr>) s"
  | "i < NBUF" "\<And>j. j < NBUF \<Longrightarrow> dev (bufs s ! j) = 1 \<Longrightarrow> blockno (bufs s ! j) \<noteq> n" "refcnt (bufs s ! i) = 0" "\<not> dirty (bufs s ! i)"
    "s' = set_b i ((bufs s ! i)\<lparr>dev := 1, blockno := n, flags := 0, refcnt := 1\<rparr>) s"
  using assms binvD(2) [OF assms(2)]
  by (auto simp: bget_def dirty_def find_None_iff split: option.splits dest!: find_SomeD)

lemma buf_upd [simp]:
  "binv s \<Longrightarrow> i < NBUF \<Longrightarrow> (bufs s)[i := b] ! i = b"
  by (simp add: binvD(1))

lemma get_binv:
  assumes "bget 1 n s = Some (i, s')" "binv s"
  shows "binv (s'\<lparr>waiting := (pid, i) # waiting s'\<rparr>)"
  using assms
proof (cases rule: bget_cases)
  case 1
  then show ?thesis
    using binvD(4) [OF assms(2) 1(1)] assms(2)
    by (intro binv_update [OF assms(2) 1(1), where b = "(bufs s ! i)\<lparr>refcnt := refcnt (bufs s ! i) + 1\<rparr>"])
      (auto simp: buf_ok_def users_def Let_def binv_def)
next
  case 2
  have "users s i = 0"
    using binvD(4) [OF assms(2) 2(1)] 2(3) by (simp add: buf_ok_def Let_def)
  then show ?thesis
    using assms(2) 2
    by (intro binv_update [OF assms(2) 2(1), where b = "(bufs s ! i)\<lparr>dev := 1, blockno := n, flags := 0, refcnt := 1\<rparr>"])
      (auto simp: buf_ok_def users_def Let_def binv_def)
qed

lemma filter_remove1: "filter P (remove1 x xs) = (if P x then remove1 x (filter P xs) else filter P xs)"
  by (induction xs) auto

lemma remove_user:
  assumes "(pid, i) \<in> set l"
  shows "length (filter (\<lambda>w. snd w = i) l) = Suc (length (filter (\<lambda>w. snd w = i) (remove1 (pid, i) l)))"
    "j \<noteq> i \<Longrightarrow> filter (\<lambda>w. snd w = j) (remove1 (pid, i) l) = filter (\<lambda>w. snd w = j) l"
  using assms length_pos_if_in_set [of "(pid, i)" "filter (\<lambda>w. snd w = i) l"]
  by (auto simp: filter_remove1 length_remove1)

lemma lock_binv:
  assumes "(pid, i) \<in> set (waiting s)" "acquire_buf pid i s = Some s'" "binv s"
  shows "binv (s'\<lparr>waiting := remove1 (pid, i) (waiting s')\<rparr>)"
proof -
  have i: "i < NBUF" using binvD(5) [OF assms(3)] assms(1) by blast
  have free: "\<not> locked (bufs s ! i)" and s': "s' = set_b i ((bufs s ! i)\<lparr>locked := True, lpid := pid\<rparr>) s"
    using assms(2) by (auto simp: acquire_buf_def split: if_splits)
  have ws: "\<forall>w \<in> set (remove1 (pid, i) (waiting s) @ leaving s). snd w < NBUF"
    using assms(3) set_remove1_subset [of "(pid, i)" "waiting s"] unfolding binv_def set_append by blast
  show ?thesis
    unfolding s'
  proof (rule binv_update [OF assms(3) i, where b = "(bufs s ! i)\<lparr>locked := True, lpid := pid\<rparr>"])
    show "buf_ok (set_b i ((bufs s ! i)\<lparr>locked := True, lpid := pid\<rparr>) s
        \<lparr>waiting := remove1 (pid, i) (waiting (set_b i ((bufs s ! i)\<lparr>locked := True, lpid := pid\<rparr>) s))\<rparr>) i"
      using binvD(4) [OF assms(3) i] assms(3) i free remove_user(1) [OF assms(1)]
      by (simp add: buf_ok_def users_def Let_def)
  qed (use ws remove_user(2) [OF assms(1)] in simp_all)
qed

lemma iderw_Some:
  assumes "iderw pid i s = Some s'"
  shows "holding_buf pid i s \<and> dev (bufs s ! i) = 1 \<and> blockno (bufs s ! i) < disksize s \<and>
    (if dirty (bufs s ! i)
     then s' = set_b i ((bufs s ! i)\<lparr>flags := (flags (bufs s ! i) AND NOT B_DIRTY) OR B_VALID\<rparr>)
       (s\<lparr>memdisk := (memdisk s)(blockno (bufs s ! i) := bdata (bufs s ! i))\<rparr>)
     else \<not> valid (bufs s ! i) \<and> s' = set_b i ((bufs s ! i)\<lparr>bdata := memdisk s (blockno (bufs s ! i)), flags := flags (bufs s ! i) OR B_VALID\<rparr>) s)"
  using assms unfolding iderw_def Let_def nothing_to_do dirty_def [symmetric]
  by (auto simp: not_le split: if_splits)

lemma holding_locked: "holding_buf pid i s \<Longrightarrow> locked (bufs s ! i)"
  by (simp add: holding_buf_def)

text \<open>The holder of a buffer changes its data and flags, or writes it.\<close>

lemma holder_binv:
  assumes "binv s" "i < NBUF" "locked (bufs s ! i)"
    and "\<And>n. m n \<noteq> memdisk s n \<Longrightarrow> n = blockno (bufs s ! i) \<and> dev (bufs s ! i) = 1"
    and "dev b = dev (bufs s ! i)" "blockno b = blockno (bufs s ! i)" "locked b" "refcnt b = refcnt (bufs s ! i)"
    "valid b \<Longrightarrow> dev b = 1 \<and> blockno b < disksize s" "dirty b \<Longrightarrow> valid b"
  shows "binv (set_b i b (s\<lparr>memdisk := m\<rparr>))"
  using binvD(4) [OF assms(1,2)] assms
  by (intro binv_update [OF assms(1,2), where b = b]) (auto simp: buf_ok_def users_def Let_def binv_def)

lemma fill_binv:
  assumes "bread_fill pid i s = Some s'" "i < NBUF" "binv s"
  shows "binv s'"
proof (cases "valid (bufs s ! i)")
  case True
  then show ?thesis using assms by (simp add: bread_fill_def valid_def)
next
  case False
  then have "iderw pid i s = Some s'" "\<not> dirty (bufs s ! i)"
    using assms binvD(4) [OF assms(3,2)] by (auto simp: bread_fill_def valid_def buf_ok_def Let_def)
  then show ?thesis
    using iderw_Some [of pid i s s'] holder_binv [OF assms(3,2), where m = "memdisk s"] holding_locked [of pid i s] by auto
qed

lemma write_Some:
  assumes "bc_bwrite pid i s = Some s'" "length (bufs s) = NBUF" "i < NBUF"
  shows "holding_buf pid i s \<and> dev (bufs s ! i) = 1 \<and> blockno (bufs s ! i) < disksize s \<and>
    s' = set_b i ((bufs s ! i)\<lparr>flags := (flags (bufs s ! i) OR B_DIRTY) AND NOT B_DIRTY OR B_VALID\<rparr>)
       (s\<lparr>memdisk := (memdisk s)(blockno (bufs s ! i) := bdata (bufs s ! i))\<rparr>)"
  using assms iderw_Some [of pid i "set_b i ((bufs s ! i)\<lparr>flags := flags (bufs s ! i) OR B_DIRTY\<rparr>) s" s']
  by (auto simp: bc_bwrite_def holding_buf_def set_b_def split: if_splits)

lemma unlock_Some:
  assumes "brelse_unlock pid i s = Some s'"
  shows "locked (bufs s ! i)" "s' = set_b i ((bufs s ! i)\<lparr>locked := False, lpid := 0\<rparr>) s"
  using assms by (auto simp: brelse_unlock_def release_buf_def holding_buf_def split: if_splits)

lemma unlock_binv:
  assumes "brelse_unlock pid i s = Some s'" "i < NBUF" "binv s"
    "dirty (bufs s ! i) \<or> \<not> valid (bufs s ! i) \<or> bdata (bufs s ! i) = memdisk s (blockno (bufs s ! i))"
  shows "binv (s'\<lparr>leaving := (pid, i) # leaving s'\<rparr>)"
  using binvD(4) [OF assms(3,2)] assms(2-4) unlock_Some(1) [OF assms(1)] unfolding unlock_Some(2) [OF assms(1)]
  by (intro binv_update [OF assms(3,2), where b = "(bufs s ! i)\<lparr>locked := False, lpid := 0\<rparr>"])
    (auto simp: buf_ok_def users_def Let_def binv_def)

lemma drop_simps [simp]:
  "bufs (brelse_drop i s) = (bufs s)[i := (bufs s ! i)\<lparr>refcnt := refcnt (bufs s ! i) - 1\<rparr>]"
  "memdisk (brelse_drop i s) = memdisk s" "disksize (brelse_drop i s) = disksize s"
  "waiting (brelse_drop i t) = waiting t" "leaving (brelse_drop i t) = leaving t"
  by (simp_all add: brelse_drop_def Let_def)

lemma drop_mru: "i \<in> set (mru s) \<Longrightarrow> mset (mru (brelse_drop i s)) = mset (mru s)"
  by (simp add: brelse_drop_def Let_def)

lemma drop_binv:
  assumes "(pid, i) \<in> set (leaving s)" "binv s"
  shows "binv ((brelse_drop i s)\<lparr>leaving := remove1 (pid, i) (leaving s)\<rparr>)"
proof -
  have i: "i < NBUF" using binvD(5) [OF assms(2)] assms(1) by blast
  have m: "mset (mru (brelse_drop i s)) = mset (mru s)"
    using binvD(2) [OF assms(2)] i by (intro drop_mru) simp
  have ws: "\<forall>w \<in> set (waiting s @ remove1 (pid, i) (leaving s)). snd w < NBUF"
    using assms(2) set_remove1_subset [of "(pid, i)" "leaving s"] unfolding binv_def set_append by blast
  show ?thesis
  proof (rule binv_update [OF assms(2) i, where b = "(bufs s ! i)\<lparr>refcnt := refcnt (bufs s ! i) - 1\<rparr>"])
    show "buf_ok ((brelse_drop i s)\<lparr>leaving := remove1 (pid, i) (leaving s)\<rparr>) i"
      using binvD(4) [OF assms(2) i] assms(2) i remove_user(1) [OF assms(1)]
      by (simp add: buf_ok_def users_def Let_def)
  qed (use ws m remove_user(2) [OF assms(1)] in simp_all)
qed

lemma cstep_binv: "cstep s e s' \<Longrightarrow> binv s \<Longrightarrow> binv s'"
proof (induction rule: cstep.induct)
  case (modify pid i s d)
  then have "valid (bufs s ! i)" by (simp add: valid_def)
  then show ?case
    using holder_binv [OF modify(4,2) holding_locked [OF modify(1)], where m = "memdisk s"] binvD(4) [OF modify(4,2)] holding_locked [OF modify(1)]
    by (auto simp: buf_ok_def Let_def)
next
  case (pin pid i s)
  then have "valid (bufs s ! i)" by (simp add: valid_def)
  then show ?case
    using holder_binv [OF pin(4,2) holding_locked [OF pin(1)], where m = "memdisk s"] binvD(4) [OF pin(4,2)] holding_locked [OF pin(1)]
    by (auto simp: buf_ok_def Let_def)
next
  case (flush pid i s s')
  note w = write_Some [OF flush(1) binvD(1) [OF flush(4)] flush(2)]
  then have "locked (bufs s ! i)" by (simp add: holding_buf_def)
  with w have "binv (set_b i ((bufs s ! i)\<lparr>flags := (flags (bufs s ! i) OR B_DIRTY) AND NOT B_DIRTY OR B_VALID\<rparr>)
       (s\<lparr>memdisk := (memdisk s)(blockno (bufs s ! i) := bdata (bufs s ! i))\<rparr>))"
    by (intro holder_binv [OF flush(4,2)]) (simp_all split: if_splits)
  with w show ?case by simp
next
  case (unlock pid i s s')
  then show ?case using unlock_binv [of pid i s s'] by (auto simp: valid_def dirty_def)
qed (auto intro: get_binv lock_binv fill_binv drop_binv)

lemma booted_binv: "binv (booted disk sz)"
proof -
  have l: "binit_loop xs l = rev xs @ l" for xs l :: "nat list"
    by (induction xs l rule: binit_loop.induct) auto
  show ?thesis
    by (simp add: binv_def booted_def binit_def l buf_ok_def users_def valid_def dirty_def Let_def bcache.defs cstate.defs)
qed

lemma cruns_binv: "cruns s es s' \<Longrightarrow> binv s \<Longrightarrow> binv s'"
  by (induction rule: cruns.induct) (auto intro: cstep_binv)

subsection \<open>The contents of a block\<close>

text \<open>What a process that reads the block sees: the data of its buffer, if there is a valid one, else the disk.\<close>

definition contents :: "cstate \<Rightarrow> u32 \<Rightarrow> blk" where
  "contents s n =
     (case find (\<lambda>i. dev (bufs s ! i) = 1 \<and> blockno (bufs s ! i) = n \<and> valid (bufs s ! i)) [0..<NBUF] of
        Some i \<Rightarrow> bdata (bufs s ! i) | None \<Rightarrow> memdisk s n)"

lemma binv_uniq:
  "binv s \<Longrightarrow> i < NBUF \<Longrightarrow> j < NBUF \<Longrightarrow> dev (bufs s ! i) = 1 \<Longrightarrow> dev (bufs s ! j) = 1 \<Longrightarrow> blockno (bufs s ! i) = blockno (bufs s ! j) \<Longrightarrow> i = j"
  unfolding binv_def by blast

lemma contents_buffer:
  assumes "binv s" "i < NBUF" "dev (bufs s ! i) = 1" "valid (bufs s ! i)"
  shows "contents s (blockno (bufs s ! i)) = bdata (bufs s ! i)"
proof -
  obtain j where j: "find (\<lambda>j. dev (bufs s ! j) = 1 \<and> blockno (bufs s ! j) = blockno (bufs s ! i) \<and> valid (bufs s ! j)) [0..<NBUF] = Some j"
    using assms(2-4) by (cases "find (\<lambda>j. dev (bufs s ! j) = 1 \<and> blockno (bufs s ! j) = blockno (bufs s ! i) \<and> valid (bufs s ! j)) [0..<NBUF]")
      (auto simp: find_None_iff)
  then have "j = i"
    using find_SomeD [OF j] assms(2,3) by (intro binv_uniq [OF assms(1)]) auto
  with j show ?thesis by (simp add: contents_def)
qed

lemma contents_disk:
  "(\<And>i. i < NBUF \<Longrightarrow> dev (bufs s ! i) = 1 \<Longrightarrow> blockno (bufs s ! i) = n \<Longrightarrow> \<not> valid (bufs s ! i)) \<Longrightarrow> contents s n = memdisk s n"
proof -
  assume a: "\<And>i. i < NBUF \<Longrightarrow> dev (bufs s ! i) = 1 \<Longrightarrow> blockno (bufs s ! i) = n \<Longrightarrow> \<not> valid (bufs s ! i)"
  have "find (\<lambda>i. dev (bufs s ! i) = 1 \<and> blockno (bufs s ! i) = n \<and> valid (bufs s ! i)) [0..<NBUF] = None"
    using a by (auto simp: find_None_iff)
  then show ?thesis by (simp add: contents_def)
qed

lemma contents_same:
  assumes "\<And>j. j < NBUF \<Longrightarrow> dev (bufs s' ! j) = dev (bufs s ! j) \<and> blockno (bufs s' ! j) = blockno (bufs s ! j) \<and>
      valid (bufs s' ! j) = valid (bufs s ! j) \<and> bdata (bufs s' ! j) = bdata (bufs s ! j)" "memdisk s' = memdisk s"
  shows "contents s' = contents s"
proof
  fix n
  have "find (\<lambda>i. dev (bufs s' ! i) = 1 \<and> blockno (bufs s' ! i) = n \<and> valid (bufs s' ! i)) [0..<NBUF] =
      find (\<lambda>i. dev (bufs s ! i) = 1 \<and> blockno (bufs s ! i) = n \<and> valid (bufs s ! i)) [0..<NBUF]"
    by (rule find_cong) (use assms(1) in auto)
  then show "contents s' n = contents s n"
    using assms by (auto simp: contents_def split: option.split dest: find_SomeD)
qed

lemma contents_update:
  assumes s: "binv s" and s': "binv s'" and i: "i < NBUF" and b: "bufs s' = (bufs s)[i := b]" "dev b = 1"
    and d: "\<And>n. memdisk s' n \<noteq> memdisk s n \<Longrightarrow> n = blockno b"
    and old: "valid (bufs s ! i) \<Longrightarrow> blockno b = blockno (bufs s ! i) \<or> bdata (bufs s ! i) = memdisk s (blockno (bufs s ! i))"
  shows "contents s' = (contents s)(blockno b := if valid b then bdata b else memdisk s' (blockno b))"
proof
  fix n
  have at: "bufs s' ! j = (if j = i then b else bufs s ! j)" for j
    using b(1) i binvD(1) [OF s] by simp
  show "contents s' n = ((contents s)(blockno b := if valid b then bdata b else memdisk s' (blockno b))) n"
  proof (cases "n = blockno b")
    case True
    have "contents s' (blockno b) = memdisk s' (blockno b)" if "\<not> valid b"
    proof (rule contents_disk)
      fix j
      assume "j < NBUF" "dev (bufs s' ! j) = 1" "blockno (bufs s' ! j) = blockno b"
      then have "i = j" using binv_uniq [OF s' i, of j] b(2) at [of i] by simp
      then show "\<not> valid (bufs s' ! j)" using at [of i] that by simp
    qed
    then show ?thesis
      using True contents_buffer [OF s' i] b(2) at [of i] by auto
  next
    case False
    then have m: "memdisk s' n = memdisk s n" using d by blast
    show ?thesis
    proof (cases "\<exists>j < NBUF. j \<noteq> i \<and> dev (bufs s ! j) = 1 \<and> blockno (bufs s ! j) = n \<and> valid (bufs s ! j)")
      case True
      then show ?thesis
        using False at contents_buffer [OF s] contents_buffer [OF s'] by fastforce
    next
      case none: False
      have "contents s' n = memdisk s' n"
        by (rule contents_disk) (use none at False in \<open>auto split: if_splits\<close>)
      moreover have "contents s n = memdisk s n"
      proof (cases "dev (bufs s ! i) = 1 \<and> blockno (bufs s ! i) = n \<and> valid (bufs s ! i)")
        case True
        then show ?thesis using old False contents_buffer [OF s i] by auto
      next
        case f: False
        show ?thesis by (rule contents_disk) (use none f in auto)
      qed
      ultimately show ?thesis using False m by simp
    qed
  qed
qed

lemma uncached_disk: "(\<And>j. j < NBUF \<Longrightarrow> dev (bufs s ! j) = 1 \<Longrightarrow> blockno (bufs s ! j) \<noteq> n) \<Longrightarrow> contents s n = memdisk s n"
  by (rule contents_disk) blast

lemma get_contents:
  assumes "bget 1 n s = Some (i, s')" "binv s"
  shows "contents (s'\<lparr>waiting := w\<rparr>) = contents s \<and> memdisk s' = memdisk s \<and> disksize s' = disksize s"
  using assms
proof (cases rule: bget_cases)
  case 1
  have "contents (s'\<lparr>waiting := w\<rparr>) = contents s"
    by (rule contents_same) (use 1 binvD(1) [OF assms(2)] in \<open>auto simp: nth_list_update\<close>)
  with 1(4) show ?thesis by simp
next
  case 2
  have b: "valid (bufs s ! i) \<Longrightarrow> bdata (bufs s ! i) = memdisk s (blockno (bufs s ! i))"
    using binvD(4) [OF assms(2) 2(1)] 2(3,4) by (auto simp: buf_ok_def users_def Let_def split: if_splits)
  have same: "contents (s'\<lparr>waiting := w\<rparr>) = contents (s'\<lparr>waiting := (0, i) # waiting s'\<rparr>)"
    by (rule contents_same) auto
  have "contents (s'\<lparr>waiting := (0, i) # waiting s'\<rparr>) = contents s"
    using contents_update [OF assms(2) get_binv [OF assms, of 0] 2(1), of "(bufs s ! i)\<lparr>dev := 1, blockno := n, flags := 0, refcnt := 1\<rparr>"] b
      uncached_disk [of s n] 2(2,5) by auto
  with same 2(5) show ?thesis by simp
qed

lemma fill_contents:
  assumes "bread_fill pid i s = Some s'" "i < NBUF" "binv s"
  shows "contents s' = contents s \<and> memdisk s' = memdisk s \<and> disksize s' = disksize s"
proof (cases "valid (bufs s ! i)")
  case True
  then show ?thesis using assms by (simp add: bread_fill_def valid_def)
next
  case False
  then have r: "iderw pid i s = Some s'" "\<not> dirty (bufs s ! i)"
    using assms binvD(4) [OF assms(3,2)] by (auto simp: bread_fill_def valid_def buf_ok_def Let_def)
  note s' = iderw_Some [OF r(1)]
  have "contents s (blockno (bufs s ! i)) = memdisk s (blockno (bufs s ! i))"
    by (rule contents_disk) (use False s' binv_uniq [OF assms(3,2)] in metis)
  then show ?thesis
    using contents_update [OF assms(3) fill_binv [OF assms] assms(2)] s' r(2) False by auto
qed

lemma modify_contents:
  assumes "binv s" "i < NBUF" "valid (bufs s ! i)" "binv (set_b i ((bufs s ! i)\<lparr>bdata := d\<rparr>) s)"
  shows "contents (set_b i ((bufs s ! i)\<lparr>bdata := d\<rparr>) s) = (contents s)(blockno (bufs s ! i) := d)"
  using contents_update [OF assms(1,4,2), of "(bufs s ! i)\<lparr>bdata := d\<rparr>"] binvD(4) [OF assms(1,2)] assms(3)
  by (auto simp: buf_ok_def Let_def)

lemma write_contents:
  assumes "bc_bwrite pid i s = Some s'" "i < NBUF" "valid (bufs s ! i)" "binv s" "binv s'"
  shows "contents s' = contents s \<and> memdisk s' = (memdisk s)(blockno (bufs s ! i) := contents s (blockno (bufs s ! i))) \<and> disksize s' = disksize s"
proof -
  note s' = write_Some [OF assms(1) binvD(1) [OF assms(4)] assms(2)]
  then have c: "contents s (blockno (bufs s ! i)) = bdata (bufs s ! i)"
    using contents_buffer [OF assms(4,2) _ assms(3)] by blast
  let ?b = "(bufs s ! i)\<lparr>flags := (flags (bufs s ! i) OR B_DIRTY) AND NOT B_DIRTY OR B_VALID\<rparr>"
  have "bufs s' = (bufs s)[i := ?b]" using s' by simp
  from contents_update [OF assms(4,5,2) this] s' c show ?thesis
    by (auto split: if_splits)
qed

text \<open>The device of the log and file system models that a state of the cache stands for, and what an event does to it.\<close>

definition view :: "cstate \<Rightarrow> kdev \<Rightarrow> bool" where
  "view s k \<longleftrightarrow> fssize k = disksize s \<and> platter k = memdisk s \<and> cache k = contents s"

fun device_step :: "cstate \<Rightarrow> event \<Rightarrow> kdev \<Rightarrow> kdev" where
  "device_step s (Modify pid i d) k = set_buf k (blockno (bufs s ! i)) d"
| "device_step s (Write pid i) k = bwrite k (blockno (bufs s ! i))"
| "device_step s _ k = k"

lemma cstep_view:
  assumes "cstep s e s'" "binv s" "view s k"
  shows "view s' (device_step s e k)"
  using assms cstep_binv [OF assms(1,2)]
proof (cases rule: cstep.cases)
  case (get n i s1 pid)
  then show ?thesis using get_contents [OF get(3) assms(2)] assms(3) by (simp add: view_def)
next
  case (lock pid i s1)
  then have "i < NBUF" using binvD(5) [OF assms(2)] by blast
  with lock have "contents s' = contents s"
    by (intro contents_same) (auto simp: acquire_buf_def nth_list_update binvD(1) [OF assms(2)] split: if_splits)
  then show ?thesis using lock assms(3) by (auto simp: view_def acquire_buf_def split: if_splits)
next
  case (fill pid i)
  then show ?thesis using fill_contents [OF fill(3,4) assms(2)] assms(3) by (simp add: view_def)
next
  case (modify pid i d)
  then show ?thesis
    using modify_contents [OF assms(2) modify(4), of d] cstep_binv [OF assms(1,2)] assms(3) by (auto simp: view_def set_buf_def valid_def)
next
  case (pin pid i)
  then have "contents s' = contents s"
    by (intro contents_same) (auto simp: nth_list_update binvD(1) [OF assms(2)])
  then show ?thesis using pin assms(3) by (simp add: view_def)
next
  case (flush pid i)
  then show ?thesis
    using write_contents [OF flush(2,3) _ assms(2) cstep_binv [OF assms(1,2)]] assms(3) by (auto simp: view_def bwrite_def valid_def)
next
  case (unlock pid i s1)
  note s1 = unlock_Some(2) [OF unlock(3)]
  have "contents s' = contents s"
    by (intro contents_same) (use s1 unlock binvD(1) [OF assms(2)] in \<open>auto simp: nth_list_update\<close>)
  then show ?thesis using unlock s1 assms(3) by (simp add: view_def)
next
  case (drop pid i)
  then have "i < NBUF" using binvD(5) [OF assms(2)] by blast
  have "contents s' = contents s"
    by (intro contents_same) (use drop \<open>i < NBUF\<close> binvD(1) [OF assms(2)] in \<open>auto simp: nth_list_update\<close>)
  then show ?thesis using drop assms(3) by (simp add: view_def)
qed

text \<open>
  C5: under any interleaving of processes that use the cache as the kernel does, cache and disk implement the device of the log and file
  system models: getting, locking, filling, pinning and releasing a buffer leave the device as it is, a change of data changes
  the block of the buffer and no other, a write brings it to the disk.  No block is in two buffers, every buffer counts
  the processes that wait for it, hold it or are on the way out of \<^verbatim>\<open>brelse\<close>, and a process that holds a valid buffer sees what the device holds in its block.
\<close>

theorem cache_implements_device:
  assumes "cruns (booted disk sz) es s" "cstep s e s'" "view s k"
  shows "view s' (device_step s e k) \<and>
    (\<forall>i < NBUF. refcnt (bufs s' ! i) = users s' i \<and>
      (\<forall>j < NBUF. i \<noteq> j \<and> dev (bufs s' ! i) = 1 \<and> dev (bufs s' ! j) = 1 \<longrightarrow> blockno (bufs s' ! i) \<noteq> blockno (bufs s' ! j)) \<and>
      (\<forall>pid. holding_buf pid i s' \<and> valid (bufs s' ! i) \<longrightarrow>
         bread (device_step s e k) (blockno (bufs s' ! i)) = Some (bdata (bufs s' ! i))))"
proof -
  have s: "binv s" and s': "binv s'"
    using cruns_binv [OF assms(1) booted_binv] cstep_binv [OF assms(2)] by auto
  have v: "view s' (device_step s e k)"
    by (rule cstep_view [OF assms(2) s assms(3)])
  have "refcnt (bufs s' ! i) = users s' i" if "i < NBUF" for i
    using binvD(4) [OF s' that] by (auto simp: buf_ok_def Let_def)
  moreover have "bread (device_step s e k) (blockno (bufs s' ! i)) = Some (bdata (bufs s' ! i))" if "i < NBUF" "valid (bufs s' ! i)" for i
    using binvD(4) [OF s' that(1)] contents_buffer [OF s' that(1)] that(2) v
    by (auto simp: buf_ok_def Let_def view_def bread_def not_le [symmetric])
  ultimately show ?thesis
    using v binv_uniq [OF s'] by auto
qed

definition fresh_device :: kdev where
  "fresh_device = \<lparr>fssize = 100, platter = (\<lambda>_. []), cache = (\<lambda>_. []), trace = [],
     log = \<lparr>start = 2, log_size = 30, outstanding = 0, committing = False, lh = []\<rparr>\<rparr>"

lemma booted_simps:
  "bufs (booted disk sz) = replicate NBUF \<lparr>flags = 0, dev = 0, blockno = 0, locked = False, lpid = 0, refcnt = 0, bdata = replicate BSIZE 0\<rparr>"
  "mru (booted disk sz) = binit_loop [0..<NBUF] []" "memdisk (booted disk sz) = disk" "disksize (booted disk sz) = sz" "waiting (booted disk sz) = []"
  "leaving (booted disk sz) = []"
  by (simp_all add: booted_def binit_def bcache.defs cstate.defs)

text \<open>Process 7 has unlocked block 3 and not yet dropped it; process 8 gets the same buffer in between, and then process 7 drops it.\<close>

theorem cache_implements_device_witness:
  "\<exists>s s'. cruns (booted (\<lambda>_. []) 100) [Get 7 3 0, Lock 7 0, Unlock 7 0, Get 8 3 0] s \<and> cstep s (Drop 7 0) s' \<and>
     view s' fresh_device \<and> refcnt (bufs s' ! 0) = users s' 0 \<and> users s' 0 = 1"
proof -
  let ?b = "\<lparr>flags = 0, dev = 1, blockno = 3, locked = False, lpid = 0, refcnt = 1, bdata = replicate BSIZE 0\<rparr>"
  define s where "s = (\<lambda>b w l. set_b 0 b (booted (\<lambda>_. []) 100)\<lparr>waiting := w, leaving := l\<rparr>)"
  have s: "bufs (s b w l) ! 0 = b" "waiting (s b w l) = w" "leaving (s b w l) = l" "mru (s b w l) = binit_loop [0..<NBUF] []"
    "set_b 0 c (s b w l) = s c w l" "(s b w l)\<lparr>waiting := w'\<rparr> = s b w' l" "(s b w l)\<lparr>leaving := l'\<rparr> = s b w l'" for b c w w' l l'
    by (simp_all add: s_def booted_simps set_b_def)
  have "bget 1 3 (booted (\<lambda>_. []) 100) = Some (0, s ?b [] [])"
    by (simp add: bget_def booted_simps upt_rec [of 0] upt_rec s_def set_b_def)
  from cstep.get [OF this, of 7] have 1: "cstep (booted (\<lambda>_. []) 100) (Get 7 3 0) (s ?b [(7, 0)] [])"
    by (simp add: s)
  have 2: "cstep (s ?b [(7, 0)] []) (Lock 7 0) (s (?b\<lparr>locked := True, lpid := 7\<rparr>) [] [])"
    using cstep.lock [of 7 0 "s ?b [(7, 0)] []"] by (simp add: acquire_buf_def s)
  have 3: "cstep (s (?b\<lparr>locked := True, lpid := 7\<rparr>) [] []) (Unlock 7 0) (s ?b [] [(7, 0)])"
    using cstep.unlock [of 7 0 "s (?b\<lparr>locked := True, lpid := 7\<rparr>) [] []"] by (simp add: brelse_unlock_def release_buf_def holding_buf_def s)
  have "find (\<lambda>i. dev (bufs (s ?b [] [(7, 0)]) ! i) = 1 \<and> blockno (bufs (s ?b [] [(7, 0)]) ! i) = 3) (binit_loop [0..<NBUF] []) = Some 0"
    by (simp add: booted_simps upt_rec [of 0] upt_rec s_def)
  then have "bget 1 3 (s ?b [] [(7, 0)]) = Some (0, s (?b\<lparr>refcnt := 2\<rparr>) [] [(7, 0)])"
    by (simp add: bget_def s numeral_2_eq_2)
  from cstep.get [OF this, of 8] have 4: "cstep (s ?b [] [(7, 0)]) (Get 8 3 0) (s (?b\<lparr>refcnt := 2\<rparr>) [(8, 0)] [(7, 0)])"
    by (simp add: s)
  have 5: "cstep (s (?b\<lparr>refcnt := 2\<rparr>) [(8, 0)] [(7, 0)]) (Drop 7 0) (s ?b [(8, 0)] [])"
    using cstep.drop [of 7 0 "s (?b\<lparr>refcnt := 2\<rparr>) [(8, 0)] [(7, 0)]"] by (simp add: brelse_drop_def s)
  have r: "cruns (booted (\<lambda>_. []) 100) [Get 7 3 0, Lock 7 0, Unlock 7 0, Get 8 3 0] (s (?b\<lparr>refcnt := 2\<rparr>) [(8, 0)] [(7, 0)])"
    using cruns.step [OF cruns.step [OF cruns.step [OF cruns.step [OF cruns.start 1] 2] 3] 4] by simp
  have "view (s (?b\<lparr>refcnt := 2\<rparr>) [(8, 0)] [(7, 0)]) fresh_device"
    using contents_disk [of "s (?b\<lparr>refcnt := 2\<rparr>) [(8, 0)] [(7, 0)]"]
    by (auto simp: view_def fresh_device_def s_def booted_simps valid_def nth_list_update)
  from cache_implements_device [OF r 5 this] r 5 show ?thesis
    by (intro exI [of _ "s (?b\<lparr>refcnt := 2\<rparr>) [(8, 0)] [(7, 0)]"] exI [of _ "s ?b [(8, 0)] []"]) (auto simp: s users_def)
qed

end
