(* ===== verification/Xv6_Blocks.thy ===== *)
theory Xv6_Blocks
  imports Xv6_Log
begin

text \<open>
  The block layer of \<^verbatim>\<open>fs.c\<close> of the continuous-sector kernel: the super block, the free block map
  and the allocator \<^verbatim>\<open>ballocx\<close>/\<^verbatim>\<open>bfree\<close>, on the device and log of \<^verbatim>\<open>Xv6_Log\<close>.  The multi-level kernel
  uses the same allocator without the \<^verbatim>\<open>failok\<close> case.  The state also holds the in-memory inodes and
  the lines printed with \<^verbatim>\<open>cprintf\<close>.
\<close>

abbreviation "BPB \<equiv> (4096 :: nat)"

record superblock =
  sb_size :: u32
  nblocks :: u32
  ninodes :: u32
  nlog :: u32
  logstart :: u32
  inodestart :: u32
  bmapstart :: u32

text \<open>The in-memory inode; \<^verbatim>\<open>short\<close> fields are 16-bit words, the sleep lock is whether it is held.\<close>

record inode =
  dev :: u32
  inum :: u32
  ref :: int
  locked :: bool
  valid :: bool
  itype :: u16
  major :: u16
  minor :: u16
  nlink :: u16
  isize :: u32
  addrs :: "u32 list"

text \<open>
  The state of the file system.  The functions of the device switch are represented by the result
  they give: the bytes read with the value returned, or the value a write returns; \<open>None\<close> is a null
  pointer in the table.
\<close>

record fsys = kdev +
  sb :: superblock
  console :: "string list"
  icache :: "inode list"
  dev_read :: "nat \<Rightarrow> (u32 \<Rightarrow> int \<times> u8 list) option"
  dev_write :: "nat \<Rightarrow> (u8 list \<Rightarrow> int) option"

definition cprintf :: "string \<Rightarrow> fsys \<Rightarrow> fsys" where
  "cprintf s st = st\<lparr>console := console st @ [s]\<rparr>"

definition readsb :: "fsys \<Rightarrow> superblock option" where
  "readsb st = do {
     d \<leftarrow> bread st 1;
     Some \<lparr>sb_size = get32 d 0, nblocks = get32 d 4, ninodes = get32 d 8, nlog = get32 d 12,
           logstart = get32 d 16, inodestart = get32 d 20, bmapstart = get32 d 24\<rparr>
   }"

definition bzero :: "fsys \<Rightarrow> u32 \<Rightarrow> fsys option" where
  "bzero st b = do {
     bp \<leftarrow> bread st b;
     log_write (set_buf st b (replicate BSIZE 0)) b
   }"

subsection \<open>The free map\<close>

definition map_bit :: "blk \<Rightarrow> nat \<Rightarrow> bool" where
  "map_bit d bi \<longleftrightarrow> (d ! (bi div 8)) AND push_bit (bi mod 8) 1 \<noteq> 0"

definition set_map_bit :: "blk \<Rightarrow> nat \<Rightarrow> blk" where
  "set_map_bit d bi = d[bi div 8 := (d ! (bi div 8)) OR push_bit (bi mod 8) 1]"

definition clear_map_bit :: "blk \<Rightarrow> nat \<Rightarrow> blk" where
  "clear_map_bit d bi = d[bi div 8 := (d ! (bi div 8)) AND NOT (push_bit (bi mod 8) 1)]"

definition BBLOCK :: "fsys \<Rightarrow> u32 \<Rightarrow> u32" where
  "BBLOCK st b = b div 4096 + bmapstart (sb st)"

function ballocx_from :: "fsys \<Rightarrow> bool \<Rightarrow> nat \<Rightarrow> (u32 \<times> fsys) option" where
  "ballocx_from st failok b =
     (if b < unat (sb_size (sb st)) then do {
        bp \<leftarrow> bread st (BBLOCK st (word_of_nat b));
        (case find (\<lambda>bi. \<not> map_bit bp bi) [0..<min BPB (unat (sb_size (sb st)) - b)] of
           Some bi \<Rightarrow> do {
             st \<leftarrow> log_write (set_buf st (BBLOCK st (word_of_nat b)) (set_map_bit bp bi)) (BBLOCK st (word_of_nat b));
             st \<leftarrow> bzero st (word_of_nat (b + bi));
             Some (word_of_nat (b + bi), st)
           }
         | None \<Rightarrow> ballocx_from st failok (b + BPB))
      }
      else if failok then Some (0, cprintf ''csfs: no free data blocks'' st)
      else None)"
  by pat_completeness auto
termination
  by (relation "measure (\<lambda>(st, failok, b). unat (sb_size (sb st)) - b)") auto

declare ballocx_from.simps [simp del]

definition ballocx :: "fsys \<Rightarrow> bool \<Rightarrow> (u32 \<times> fsys) option" where
  "ballocx st failok = ballocx_from st failok 0"

definition balloc :: "fsys \<Rightarrow> (u32 \<times> fsys) option" where
  "balloc st = ballocx st False"

definition bfree :: "fsys \<Rightarrow> u32 \<Rightarrow> fsys option" where
  "bfree st b = do {
     bp \<leftarrow> bread st (BBLOCK st b);
     (let bi = unat b mod BPB in
      if \<not> map_bit bp bi then None
      else log_write (set_buf st (BBLOCK st b) (clear_map_bit bp bi)) (BBLOCK st b))
   }"

subsection \<open>Reference: the set of used blocks\<close>

definition used :: "fsys \<Rightarrow> u32 \<Rightarrow> bool" where
  "used st b \<longleftrightarrow> map_bit (cache st (BBLOCK st b)) (unat b mod BPB)"

definition data_start :: "fsys \<Rightarrow> nat" where
  "data_start st = unat (bmapstart (sb st)) + unat (sb_size (sb st)) div BPB + 1"

text \<open>
  The layout \<^verbatim>\<open>mkfs\<close> produces: boot and super block, log, inode blocks, free map, data; every block
  before the data is marked used.
\<close>

definition layout_ok :: "fsys \<Rightarrow> bool" where
  "layout_ok st \<longleftrightarrow>
     1 < unat (inodestart (sb st)) \<and>
     unat (inodestart (sb st)) + unat (ninodes (sb st)) div 8 + 1 \<le> unat (bmapstart (sb st)) \<and>
     data_start st \<le> unat (sb_size (sb st)) \<and>
     sb_size (sb st) \<le> fssize st \<and> unat (fssize st) < 2 ^ 24"

definition fs_wf :: "fsys \<Rightarrow> bool" where
  "fs_wf st \<longleftrightarrow> layout_ok st \<and> (\<forall>b. length (cache st b) = BSIZE) \<and>
     (\<forall>b. unat b < data_start st \<longrightarrow> used st b)"

text \<open>Room in the log for \<open>k\<close> more blocks within the running transaction.\<close>

definition log_room :: "'a kdev_scheme \<Rightarrow> nat \<Rightarrow> bool" where
  "log_room st k \<longleftrightarrow> length (lh (log st)) + k \<le> LOGSIZE \<and>
     int (length (lh (log st)) + k) \<le> log_size (log st) - 1 \<and> 1 \<le> outstanding (log st)"

subsection \<open>A map block is a bit table\<close>

lemma length_map_bits [simp]:
  "length (set_map_bit d i) = length d" "length (clear_map_bit d i) = length d"
  by (simp_all add: set_map_bit_def clear_map_bit_def)

interpretation free_map: bit_table map_bit set_map_bit "\<lambda>d i. i div 8 < length d"
proof
  fix d :: blk and i j :: nat
  assume "i div 8 < length d" "j div 8 < length d"
  then have "map_bit (set_map_bit d i) j \<longleftrightarrow> (i div 8 = j div 8 \<and> i mod 8 = j mod 8) \<or> map_bit d j"
    unfolding map_bit_def set_map_bit_def and_bit_test
    by (auto simp: bit_or_iff bit_exp_iff possible_bit_word nth_list_update)
  then show "map_bit (set_map_bit d i) j \<longleftrightarrow> i = j \<or> map_bit d j" by (simp add: bit_index_eq)
qed simp

lemma clear_map_bit:
  assumes "i div 8 < length d" "j div 8 < length d"
  shows "map_bit (clear_map_bit d i) j \<longleftrightarrow> i \<noteq> j \<and> map_bit d j"
proof -
  have "map_bit (clear_map_bit d i) j \<longleftrightarrow> \<not> (i div 8 = j div 8 \<and> i mod 8 = j mod 8) \<and> map_bit d j"
    using assms unfolding map_bit_def clear_map_bit_def and_bit_test
    by (auto simp: bit_and_iff bit_not_iff bit_exp_iff possible_bit_word nth_list_update
        dest: bit_imp_le_length)
  then show ?thesis by (simp add: bit_index_eq)
qed

subsection \<open>Logging a block\<close>

definition note_logged :: "'a kdev_scheme \<Rightarrow> u32 \<Rightarrow> 'a kdev_scheme" where
  "note_logged st b = st\<lparr>log := (log st)\<lparr>lh := if b \<in> set (lh (log st)) then lh (log st) else lh (log st) @ [b]\<rparr>\<rparr>"

lemma log_write_eq: "log_write st b = (if log_room st 1 then Some (note_logged st b) else None)"
  by (auto simp: log_write_def log_room_def note_logged_def)

lemma note_logged_simps [simp]:
  "fssize (note_logged st b) = fssize st" "cache (note_logged st b) = cache st"
  "platter (note_logged st b) = platter st" "trace (note_logged st b) = trace st"
  by (simp_all add: note_logged_def)

lemma note_logged_fs_simps [simp]:
  "sb (note_logged fs b) = sb fs" "console (note_logged fs b) = console fs"
  "icache (note_logged fs b) = icache fs" "dev_read (note_logged fs b) = dev_read fs" "dev_write (note_logged fs b) = dev_write fs"
  by (simp_all add: note_logged_def)

lemma set_buf_simps [simp]:
  "fssize (set_buf st b d) = fssize st" "cache (set_buf st b d) = (cache st)(b := d)"
  "log (set_buf st b d) = log st"
  by (simp_all add: set_buf_def)

lemma set_buf_fs_simps [simp]:
  "sb (set_buf fs b d) = sb fs" "console (set_buf fs b d) = console fs"
  "icache (set_buf fs b d) = icache fs" "dev_read (set_buf fs b d) = dev_read fs" "dev_write (set_buf fs b d) = dev_write fs"
  by (simp_all add: set_buf_def)

lemma cprintf_simps [simp]:
  "sb (cprintf s st) = sb st" "cache (cprintf s st) = cache st" "fssize (cprintf s st) = fssize st"
  "log (cprintf s st) = log st" "icache (cprintf s st) = icache st"
  by (simp_all add: cprintf_def)

lemma log_room_note_logged [intro]: "log_room st (Suc k) \<Longrightarrow> log_room (note_logged st b) k"
  by (auto simp: log_room_def note_logged_def)

lemma log_room_log: "log st' = log st \<Longrightarrow> log_room st' k = log_room st k"
  by (simp add: log_room_def)

lemma log_room_mono: "log_room st k \<Longrightarrow> j \<le> k \<Longrightarrow> log_room st j"
  by (auto simp: log_room_def)

lemma log_room_set_buf [simp]: "log_room (set_buf st b d) k = log_room st k"
  by (simp add: log_room_def)

text \<open>What depends on the super block only.\<close>

lemma sb_cong:
  "sb st' = sb st \<Longrightarrow> BBLOCK st' b = BBLOCK st b"
  "sb st' = sb st \<Longrightarrow> data_start st' = data_start st"
  "sb st' = sb st \<Longrightarrow> fssize st' = fssize st \<Longrightarrow> layout_ok st' = layout_ok st"
  by (simp_all add: BBLOCK_def data_start_def layout_ok_def)

subsection \<open>The allocator\<close>

lemma BBLOCK_facts:
  assumes "layout_ok st" "unat b \<le> unat (sb_size (sb st))"
  shows "unat (BBLOCK st b) = unat (bmapstart (sb st)) + unat b div BPB"
    "unat (BBLOCK st b) < data_start st" "BBLOCK st b < fssize st"
proof -
  have d: "unat b div BPB \<le> unat (sb_size (sb st)) div BPB" using assms(2) by (rule div_le_mono)
  then have lt: "unat (bmapstart (sb st)) + unat b div BPB < data_start st" by (simp add: data_start_def)
  moreover have "data_start st \<le> unat (fssize st)" "unat (fssize st) < 2 ^ 24"
    using assms(1) by (auto simp: layout_ok_def word_nat)
  ultimately have "unat (b div 4096) + unat (bmapstart (sb st)) < 2 ^ 32" by (simp add: unat_div_word)
  then show u: "unat (BBLOCK st b) = unat (bmapstart (sb st)) + unat b div BPB"
    using unat_add_nowrap [of "b div 4096" "bmapstart (sb st)"] by (simp add: BBLOCK_def unat_div_word)
  show "unat (BBLOCK st b) < data_start st" using u lt by simp
  then show "BBLOCK st b < fssize st" using \<open>data_start st \<le> unat (fssize st)\<close> by (simp add: word_nat)
qed

lemma BBLOCK_eq:
  assumes "layout_ok st" "unat b \<le> unat (sb_size (sb st))" "unat c \<le> unat (sb_size (sb st))"
  shows "BBLOCK st b = BBLOCK st c \<longleftrightarrow> unat b div BPB = unat c div BPB"
  using BBLOCK_facts(1) [OF assms(1,2)] BBLOCK_facts(1) [OF assms(1,3)] by (simp add: word_unat_eq_iff)

definition alloc_effect :: "fsys \<Rightarrow> u32 \<Rightarrow> fsys" where
  "alloc_effect st a =
     note_logged (set_buf (note_logged (set_buf st (BBLOCK st a)
       (set_map_bit (cache st (BBLOCK st a)) (unat a mod BPB))) (BBLOCK st a)) a (replicate BSIZE 0)) a"

definition first_free :: "fsys \<Rightarrow> u32 \<Rightarrow> bool" where
  "first_free st a \<longleftrightarrow> unat a < unat (sb_size (sb st)) \<and> \<not> used st a \<and> (\<forall>b. unat b < unat a \<longrightarrow> used st b)"

lemma first_free_data: "fs_wf st \<Longrightarrow> first_free st a \<Longrightarrow> data_start st \<le> unat a"
  by (auto simp: fs_wf_def first_free_def not_less [symmetric])

lemma scan_bits:
  assumes "layout_ok st" "c * BPB < unat (sb_size (sb st))" "i < BPB" "c * BPB + i < unat (sb_size (sb st))"
  shows "map_bit (cache st (BBLOCK st (word_of_nat (c * BPB)))) i \<longleftrightarrow> used st (word_of_nat (c * BPB + i))"
proof -
  have sz: "unat (sb_size (sb st)) < 2 ^ 32" using unsigned_less [of "sb_size (sb st)", where ?'a = nat] by simp
  have u: "unat (word_of_nat (c * BPB) :: u32) = c * BPB" "unat (word_of_nat (c * BPB + i) :: u32) = c * BPB + i"
    by (rule unat_of_nat_lt, use assms sz in simp)+
  have "(c * BPB + i) div BPB = c" "(c * BPB + i) mod BPB = i" using assms(3) by simp_all
  then have "BBLOCK st (word_of_nat (c * BPB)) = BBLOCK st (word_of_nat (c * BPB + i))"
    "unat (word_of_nat (c * BPB + i) :: u32) mod BPB = i"
    using assms u BBLOCK_eq [of st "word_of_nat (c * BPB)" "word_of_nat (c * BPB + i)"] by simp_all
  then show ?thesis unfolding used_def by metis
qed

lemma find_first:
  "find P [0..<n] = Some i \<longleftrightarrow> i < n \<and> P i \<and> (\<forall>j<i. \<not> P j)"
  "find P [0..<n] = None \<longleftrightarrow> (\<forall>j<n. \<not> P j)"
  by (auto simp: find_Some_iff find_None_iff)

lemma log_room_note_set_buf [simp]: "log_room (note_logged (set_buf st b d) c) k = log_room (note_logged st c) k"
  by (rule log_room_log) (simp add: note_logged_def)

lemma mark_and_zero:
  assumes "a < fssize st"
  shows "do {
      st \<leftarrow> log_write (set_buf st bb d) bb;
      st \<leftarrow> bzero st a;
      Some (a, st)
    } = (if log_room st 1 \<and> log_room (note_logged st bb) 1
      then Some (a, note_logged (set_buf (note_logged (set_buf st bb d) bb) a (replicate BSIZE 0)) a) else None)"
  using assms by (simp add: log_write_eq bzero_def bread_ok)

lemma ballocx_from_found:
  assumes "layout_ok st" "first_free st a" "b = c * BPB" "b \<le> unat a"
  shows "ballocx_from st failok b =
    (if log_room st 1 \<and> log_room (note_logged st (BBLOCK st a)) 1 then Some (a, alloc_effect st a) else None)"
  using assms
proof (induction st failok b arbitrary: c rule: ballocx_from.induct)
  case (1 st failok b)
  let ?n = "unat (sb_size (sb st))"
  have sz: "?n < 2 ^ 32" using unsigned_less [of "sb_size (sb st)", where ?'a = nat] by simp
  have an: "unat a < ?n" "\<not> used st a" "\<And>x. unat x < unat a \<Longrightarrow> used st x"
    using "1.prems"(2) by (auto simp: first_free_def)
  have b: "b < ?n" using an(1) "1.prems"(4) by simp
  have wb: "unat (word_of_nat b :: u32) = b" using b sz by (intro unat_of_nat_lt) simp
  have bb: "BBLOCK st (word_of_nat b) < fssize st"
    using BBLOCK_facts(3) [OF "1.prems"(1), of "word_of_nat b"] b wb by simp
  have bits: "map_bit (cache st (BBLOCK st (word_of_nat b))) i \<longleftrightarrow> used st (word_of_nat (b + i))"
    if "i < BPB" "b + i < ?n" for i
    using scan_bits [of st c i] that b "1.prems"(1,3) by simp
  have wi: "unat (word_of_nat (b + i) :: u32) = b + i" if "b + i < ?n" for i
    using that sz by (intro unat_of_nat_lt) simp
  show ?case
  proof (cases "unat a < b + BPB")
    case True
    define i where "i = unat a - b"
    have i: "b + i = unat a" "i < BPB" using True "1.prems"(4) by (auto simp: i_def)
    have a: "word_of_nat (b + i) = a" using i(1) by simp
    have "find (\<lambda>bi. \<not> map_bit (cache st (BBLOCK st (word_of_nat b))) bi) [0..<min BPB (?n - b)] = Some i"
      unfolding find_first using i an bits [of i] bits wi a by (auto simp del: of_nat_add)
    moreover have "unat a mod BPB = i" "BBLOCK st (word_of_nat b) = BBLOCK st a"
      using i "1.prems"(1,3) BBLOCK_eq [of st "word_of_nat b" a] an(1) b wb by (auto simp flip: i(1))
    moreover have "a < fssize st" using an(1) "1.prems"(1) by (simp add: layout_ok_def word_nat)
    ultimately show ?thesis
      unfolding ballocx_from.simps [of st failok b] alloc_effect_def
      using b bb by (simp only: a mark_and_zero bread_ok bind.bind_lunit option.case if_True)
  next
    case False
    then have f: "find (\<lambda>bi. \<not> map_bit (cache st (BBLOCK st (word_of_nat b))) bi) [0..<min BPB (?n - b)] = None"
      unfolding find_first using an bits wi by auto
    then have "ballocx_from st failok b = ballocx_from st failok (b + BPB)"
      unfolding ballocx_from.simps [of st failok b]
      using b bb by (simp only: bread_ok bind.bind_lunit option.case if_True)
    moreover have "b + BPB = (c + 1) * BPB" "b + BPB \<le> unat a" using "1.prems"(3) False by auto
    ultimately show ?thesis
      using "1.IH" [OF b bread_ok [OF bb] f "1.prems"(1,2)] by metis
  qed
qed

lemma ballocx_from_full:
  assumes "layout_ok st" "\<And>x. unat x < unat (sb_size (sb st)) \<Longrightarrow> used st x" "b = c * BPB"
  shows "ballocx_from st failok b =
    (if failok then Some (0, cprintf ''csfs: no free data blocks'' st) else None)"
  using assms
proof (induction st failok b arbitrary: c rule: ballocx_from.induct)
  case (1 st failok b)
  let ?n = "unat (sb_size (sb st))"
  show ?case
  proof (cases "b < ?n")
    case b: True
    have sz: "?n < 2 ^ 32" using unsigned_less [of "sb_size (sb st)", where ?'a = nat] by simp
    have wb: "unat (word_of_nat b :: u32) = b" using b sz by (intro unat_of_nat_lt) simp
    have bb: "BBLOCK st (word_of_nat b) < fssize st"
      using BBLOCK_facts(3) [OF "1.prems"(1), of "word_of_nat b"] b wb by simp
    have "map_bit (cache st (BBLOCK st (word_of_nat b))) i" if "i < BPB" "b + i < ?n" for i
      using scan_bits [of st c i] that b "1.prems" unat_of_nat_lt [where 'a = 32, of "b + i"] sz by simp
    then have f: "find (\<lambda>bi. \<not> map_bit (cache st (BBLOCK st (word_of_nat b))) bi) [0..<min BPB (?n - b)] = None"
      unfolding find_first by auto
    then have "ballocx_from st failok b = ballocx_from st failok (b + BPB)"
      unfolding ballocx_from.simps [of st failok b]
      using b bb by (simp only: bread_ok bind.bind_lunit option.case if_True)
    moreover have "b + BPB = (c + 1) * BPB" using "1.prems"(3) by simp
    ultimately show ?thesis
      using "1.IH" [OF b bread_ok [OF bb] f "1.prems"(1,2)] by metis
  next
    case False
    then show ?thesis by (simp add: ballocx_from.simps [of st failok b])
  qed
qed

lemma alloc_effect_simps [simp]:
  "sb (alloc_effect st a) = sb st" "fssize (alloc_effect st a) = fssize st"
  "console (alloc_effect st a) = console st" "icache (alloc_effect st a) = icache st"
  "dev_read (alloc_effect st a) = dev_read st" "dev_write (alloc_effect st a) = dev_write st"
  "cache (alloc_effect st a) =
     (cache st)(BBLOCK st a := set_map_bit (cache st (BBLOCK st a)) (unat a mod BPB), a := replicate BSIZE 0)"
  by (simp_all add: alloc_effect_def)

lemma map_byte_in_block: "fs_wf st \<Longrightarrow> (n mod BPB) div 8 < length (cache st b)"
  by (simp add: fs_wf_def less_mult_imp_div_less)

lemma used_update:
  assumes "fs_wf st" "sb st' = sb st" "unat a < unat (sb_size (sb st))" "unat b < unat (sb_size (sb st))"
    and "cache st' (BBLOCK st b) = (if BBLOCK st b = BBLOCK st a then d else cache st (BBLOCK st b))"
    and "map_bit d (unat b mod BPB) \<longleftrightarrow> (if unat a mod BPB = unat b mod BPB then v else map_bit (cache st (BBLOCK st a)) (unat b mod BPB))"
  shows "used st' b \<longleftrightarrow> (if b = a then v else used st b)"
proof -
  have "layout_ok st" using assms(1) by (simp add: fs_wf_def)
  note eq = BBLOCK_eq [OF this, of b a]
  have u: "used st' b = map_bit (cache st' (BBLOCK st b)) (unat b mod BPB)"
    unfolding used_def sb_cong(1) [OF assms(2)] ..
  show ?thesis
  proof (cases "b = a")
    case True
    then show ?thesis using u assms(5,6) by simp
  next
    case False
    then have "unat a div BPB \<noteq> unat b div BPB \<or> unat a mod BPB \<noteq> unat b mod BPB"
      by (metis div_mult_mod_eq word_unat_eq_iff)
    then have "BBLOCK st b = BBLOCK st a \<Longrightarrow> unat a mod BPB \<noteq> unat b mod BPB"
      using eq assms(3,4) by (simp add: less_imp_le)
    then show ?thesis using False u assms(5,6) by (cases "BBLOCK st b = BBLOCK st a") (simp_all add: used_def)
  qed
qed

lemma used_alloc:
  assumes "fs_wf st" "first_free st a" "unat b < unat (sb_size (sb st))"
  shows "used (alloc_effect st a) b \<longleftrightarrow> b = a \<or> used st b"
proof -
  have a: "unat a < unat (sb_size (sb st))" "data_start st \<le> unat a"
    using assms first_free_data by (auto simp: first_free_def)
  have "BBLOCK st b \<noteq> a"
    using BBLOCK_facts(2) [of st b] assms(1,3) a(2) by (auto simp: fs_wf_def)
  then have "used (alloc_effect st a) b \<longleftrightarrow> (if b = a then True else used st b)"
    using free_map.test_mark [OF map_byte_in_block [OF assms(1)] map_byte_in_block [OF assms(1)], of "BBLOCK st a" "unat a" "unat b"]
      map_byte_in_block [OF assms(1)] a(1) assms
    by (intro used_update [of st _ a b "set_map_bit (cache st (BBLOCK st a)) (unat a mod BPB)"]) auto
  then show ?thesis by auto
qed

lemma alloc_effect_wf:
  assumes "fs_wf st" "first_free st a"
  shows "fs_wf (alloc_effect st a)"
proof -
  have "unat b < unat (sb_size (sb st))" if "unat b < data_start st" for b :: u32
    using that assms(1) by (auto simp: fs_wf_def layout_ok_def)
  then show ?thesis
    using assms used_alloc [OF assms] sb_cong [of "alloc_effect st a" st] by (auto simp: fs_wf_def)
qed

lemma ballocx_found:
  "fs_wf st \<Longrightarrow> first_free st a \<Longrightarrow> ballocx st failok =
     (if log_room st 1 \<and> log_room (note_logged st (BBLOCK st a)) 1 then Some (a, alloc_effect st a) else None)"
  unfolding ballocx_def by (rule ballocx_from_found [where c = 0]) (auto simp: fs_wf_def)

lemma ballocx_full:
  "fs_wf st \<Longrightarrow> (\<And>x. unat x < unat (sb_size (sb st)) \<Longrightarrow> used st x) \<Longrightarrow> ballocx st failok =
     (if failok then Some (0, cprintf ''csfs: no free data blocks'' st) else None)"
  unfolding ballocx_def by (rule ballocx_from_full [where c = 0]) (auto simp: fs_wf_def)

lemma first_free_exists:
  assumes "unat x < unat (sb_size (sb st))" "\<not> used st x"
  shows "\<exists>a. first_free st a"
proof -
  let ?P = "\<lambda>n. n < unat (sb_size (sb st)) \<and> \<not> used st (word_of_nat n)"
  have "\<exists>n. ?P n" using assms by (intro exI [of _ "unat x"]) simp
  then obtain n where n: "?P n" "\<forall>m<n. \<not> ?P m" using exists_least_iff [of ?P] by blast
  then have "unat (word_of_nat n :: u32) = n"
    using unsigned_less [of "sb_size (sb st)", where ?'a = nat] by (intro unat_of_nat_lt) simp
  moreover have "used st b" if "unat b < n" for b
    using n(2) [rule_format, OF that] that n(1) by simp
  ultimately show ?thesis using n(1) by (intro exI [of _ "word_of_nat n"]) (simp add: first_free_def)
qed

lemma log_room_two: "log_room st 2 \<Longrightarrow> log_room st 1 \<and> log_room (note_logged st b) 1"
  by (auto simp: log_room_def note_logged_def)

lemma ballocx_room:
  "fs_wf st \<Longrightarrow> first_free st a \<Longrightarrow> log_room st 2 \<Longrightarrow> ballocx st failok = Some (a, alloc_effect st a)"
  using log_room_two [of st] by (simp add: ballocx_found)

subsection \<open>Freeing\<close>

definition free_effect :: "fsys \<Rightarrow> u32 \<Rightarrow> fsys" where
  "free_effect st b = note_logged (set_buf st (BBLOCK st b)
     (clear_map_bit (cache st (BBLOCK st b)) (unat b mod BPB))) (BBLOCK st b)"

lemma free_effect_simps [simp]:
  "sb (free_effect st a) = sb st" "fssize (free_effect st a) = fssize st"
  "console (free_effect st a) = console st" "icache (free_effect st a) = icache st"
  "dev_read (free_effect st a) = dev_read st" "dev_write (free_effect st a) = dev_write st"
  "cache (free_effect st a) = (cache st)(BBLOCK st a := clear_map_bit (cache st (BBLOCK st a)) (unat a mod BPB))"
  by (simp_all add: free_effect_def)

lemma bfree_eq:
  assumes "fs_wf st" "unat b < unat (sb_size (sb st))"
  shows "bfree st b = (if used st b \<and> log_room st 1 then Some (free_effect st b) else None)"
proof -
  have "BBLOCK st b < fssize st" using assms by (intro BBLOCK_facts(3)) (auto simp: fs_wf_def)
  then show ?thesis by (simp add: bfree_def bread_ok used_def log_write_eq free_effect_def Let_def)
qed

lemma used_free:
  assumes "fs_wf st" "unat a < unat (sb_size (sb st))" "unat b < unat (sb_size (sb st))"
  shows "used (free_effect st a) b \<longleftrightarrow> b \<noteq> a \<and> used st b"
proof -
  have "used (free_effect st a) b \<longleftrightarrow> (if b = a then False else used st b)"
    using clear_map_bit [OF map_byte_in_block [OF assms(1), of "unat a" "BBLOCK st a"]
        map_byte_in_block [OF assms(1), of "unat b" "BBLOCK st a"]] assms
    by (intro used_update [of st _ a b "clear_map_bit (cache st (BBLOCK st a)) (unat a mod BPB)"]) auto
  then show ?thesis by auto
qed

lemma free_effect_wf:
  assumes "fs_wf st" "data_start st \<le> unat a" "unat a < unat (sb_size (sb st))"
  shows "fs_wf (free_effect st a)"
proof -
  have "unat b < unat (sb_size (sb st))" if "unat b < data_start st" for b :: u32
    using that assms(1) by (auto simp: fs_wf_def layout_ok_def)
  then show ?thesis
    using assms used_free [OF assms(1,3)] sb_cong [of "free_effect st a" st] by (auto simp: fs_wf_def)
qed

text \<open>
  C16: the allocator.  In a well-formed file system with a free block and log space for two blocks,
  \<^verbatim>\<open>ballocx\<close> returns the first free block, which is a data block; afterwards exactly that block has
  become used, it reads as zeros, and no other block but its map block has changed.  When no
  block is free it reports failure if asked to, and panics otherwise.
\<close>

theorem ballocx_spec:
  assumes "fs_wf st"
  shows "if \<exists>x. unat x < unat (sb_size (sb st)) \<and> \<not> used st x then
      log_room st 2 \<longrightarrow> (\<exists>a st'. ballocx st failok = Some (a, st') \<and> fs_wf st' \<and>
        data_start st \<le> unat a \<and> first_free st a \<and>
        (\<forall>b. unat b < unat (sb_size (sb st)) \<longrightarrow> (used st' b \<longleftrightarrow> b = a \<or> used st b)) \<and>
        cache st' a = replicate BSIZE 0 \<and>
        (\<forall>b. b \<noteq> a \<and> b \<noteq> BBLOCK st a \<longrightarrow> cache st' b = cache st b))
    else ballocx st failok = (if failok then Some (0, cprintf ''csfs: no free data blocks'' st) else None)"
proof (cases "\<exists>x. unat x < unat (sb_size (sb st)) \<and> \<not> used st x")
  case True
  then obtain a where a: "first_free st a" using first_free_exists by blast
  then have "ballocx st failok = Some (a, alloc_effect st a)" if "log_room st 2"
    using that assms by (intro ballocx_room)
  then have "\<exists>a st'. ballocx st failok = Some (a, st') \<and> fs_wf st' \<and>
        data_start st \<le> unat a \<and> first_free st a \<and>
        (\<forall>b. unat b < unat (sb_size (sb st)) \<longrightarrow> (used st' b \<longleftrightarrow> b = a \<or> used st b)) \<and>
        cache st' a = replicate BSIZE 0 \<and>
        (\<forall>b. b \<noteq> a \<and> b \<noteq> BBLOCK st a \<longrightarrow> cache st' b = cache st b)" if "log_room st 2"
    using a assms that by (intro exI [of _ a] exI [of _ "alloc_effect st a"])
      (auto simp: alloc_effect_wf used_alloc first_free_data)
  then show ?thesis using True by (simp only: if_True) blast
next
  case False
  then show ?thesis using ballocx_full [OF assms, of failok] by (simp only: if_False) blast
qed

text \<open>
  Allocating a block and freeing it again restores the free map, and freeing a block that is
  already free panics.
\<close>

theorem balloc_bfree_roundtrip:
  assumes "fs_wf st" "log_room st 3" "balloc st = Some (a, st')"
  shows "\<exists>st''. bfree st' a = Some st'' \<and> fs_wf st'' \<and> bfree st'' a = None \<and>
    (\<forall>b. unat b < unat (sb_size (sb st)) \<longrightarrow> (used st'' b \<longleftrightarrow> used st b))"
proof -
  have "\<exists>x. unat x < unat (sb_size (sb st)) \<and> \<not> used st x"
    using ballocx_full [OF assms(1), of False] assms(3) by (auto simp: balloc_def)
  then obtain a' where a': "first_free st a'" using first_free_exists by blast
  moreover have "log_room st 2" using assms(2) by (rule log_room_mono) simp
  ultimately have eq: "a' = a" "st' = alloc_effect st a"
    using ballocx_room [OF assms(1), of a' False] assms(3) by (auto simp: balloc_def)
  note a = a' [unfolded eq(1)]
  have wf: "fs_wf st'" and an: "unat a < unat (sb_size (sb st))" "data_start st \<le> unat a"
    using assms(1) a alloc_effect_wf first_free_data eq(2) by (auto simp: first_free_def)
  have room: "log_room st' 1"
    using assms(2) unfolding eq(2) by (auto simp: alloc_effect_def log_room_def note_logged_def)
  have used': "used st' b \<longleftrightarrow> b = a \<or> used st b" if "unat b < unat (sb_size (sb st))" for b
    using used_alloc [OF assms(1) a that] eq(2) by simp
  have f: "bfree st' a = Some (free_effect st' a)"
    using bfree_eq [OF wf] an(1) room used' [OF an(1)] eq(2) by simp
  have wf': "fs_wf (free_effect st' a)"
    using free_effect_wf [OF wf] an eq(2) sb_cong(2) [of st' st] by simp
  have used'': "used (free_effect st' a) b \<longleftrightarrow> used st b" if "unat b < unat (sb_size (sb st))" for b
    using used_free [OF wf, of a b] used' [OF that] that an(1) a eq(2) by (auto simp: first_free_def)
  moreover have "bfree (free_effect st' a) a = None"
    using bfree_eq [OF wf', of a] used'' [OF an(1)] an(1) a eq(2) by (simp add: first_free_def)
  ultimately show ?thesis using f wf' by blast
qed

subsection \<open>A small file system\<close>

definition sample_map :: blk where
  "sample_map = [255, 255, 255, 255, 7] @ replicate 507 0"

definition sample_sb :: superblock where
  "sample_sb = \<lparr>sb_size = 1000, nblocks = 965, ninodes = 8, nlog = 30, logstart = 2, inodestart = 32, bmapstart = 34\<rparr>"

definition sample_st :: fsys where
  "sample_st = \<lparr>fssize = 1000, platter = (\<lambda>_. replicate BSIZE 0),
     cache = (\<lambda>b. if b = 34 then sample_map else replicate BSIZE 0), trace = [],
     log = \<lparr>start = 2, log_size = 30, outstanding = 1, committing = False, lh = []\<rparr>,
     sb = sample_sb, console = [], icache = [], dev_read = (\<lambda>_. None), dev_write = (\<lambda>_. None)\<rparr>"

lemma sample_map_bits: "n < BPB \<Longrightarrow> map_bit sample_map n \<longleftrightarrow> n < 35"
proof -
  assume n: "n < BPB"
  consider "n < 40" | "40 \<le> n" by linarith
  then show ?thesis
  proof cases
    case 1
    have "\<forall>n \<in> set [0..<40]. map_bit ([255, 255, 255, 255, 7] @ replicate 507 0) n = (n < 35)" by code_simp
    with 1 show ?thesis by (simp add: sample_map_def)
  next
    case 2
    then have "5 \<le> n div 8" "n div 8 < 512" using n by auto
    then have "sample_map ! (n div 8) = 0" by (simp add: sample_map_def nth_append)
    with 2 show ?thesis by (simp add: map_bit_def)
  qed
qed

lemma sample_used: "unat b < 1000 \<Longrightarrow> used sample_st b \<longleftrightarrow> unat b < 35"
proof -
  assume b: "unat b < 1000"
  then have "b div 4096 = 0" by (simp add: unat_eq_zero_iff unat_div_word)
  then show ?thesis using b sample_map_bits [of "unat b"]
    by (simp add: used_def BBLOCK_def sample_st_def sample_sb_def)
qed

lemma sample_st_wf: "fs_wf sample_st"
proof -
  have "layout_ok sample_st" "data_start sample_st = 35"
    by (simp_all add: layout_ok_def data_start_def sample_st_def sample_sb_def word_nat)
  moreover have "\<forall>b. length (cache sample_st b) = BSIZE" by (simp add: sample_st_def sample_map_def)
  ultimately show ?thesis using sample_used by (auto simp: fs_wf_def)
qed

lemma sample_room: "k \<le> 29 \<Longrightarrow> log_room sample_st k"
  by (simp add: log_room_def sample_st_def)

lemma sample_first_free: "first_free sample_st 35"
proof -
  have "used sample_st b" if "unat b < 35" for b using sample_used [of b] that by simp
  moreover have "\<not> used sample_st 35" using sample_used [of 35] by simp
  ultimately show ?thesis by (simp add: first_free_def) (simp add: sample_st_def sample_sb_def)
qed

theorem ballocx_spec_witness:
  "\<exists>a st'. ballocx sample_st True = Some (a, st') \<and> first_free sample_st a \<and> cache st' a = replicate BSIZE 0"
proof -
  have "\<exists>x. unat x < unat (sb_size (sb sample_st)) \<and> \<not> used sample_st x"
    using sample_first_free unfolding first_free_def by blast
  then show ?thesis using ballocx_spec [OF sample_st_wf, of True] sample_room [of 2] by auto
qed

theorem balloc_bfree_roundtrip_witness:
  "\<exists>st''. bfree (alloc_effect sample_st 35) 35 = Some st'' \<and> fs_wf st''"
proof -
  have "balloc sample_st = Some (35, alloc_effect sample_st 35)"
    using ballocx_room [OF sample_st_wf sample_first_free] sample_room [of 2] by (simp add: balloc_def)
  from balloc_bfree_roundtrip [OF sample_st_wf sample_room this] show ?thesis by auto
qed

end
