(* ===== verification/Xv6_Inodes.thy ===== *)
theory Xv6_Inodes
  imports Xv6_Blocks
begin

text \<open>
  The inode layer of \<^verbatim>\<open>fs.c\<close> of the continuous-sector kernel: the on-disk inode, the inode cache, the
  block maps (extents of a CS file, direct and indirect blocks otherwise), truncation, reading and
  writing, directories and path names.  An in-memory inode is passed and returned by the operations
  that its holder calls; the operations that take a pointer into the cache use its index.
  \<open>None\<close> is a \<^verbatim>\<open>panic\<close>, or waiting forever for a lock that is already held.

  The loops of \<^verbatim>\<open>readi\<close> and \<^verbatim>\<open>writei\<close> count in natural numbers: their guards ensure that
  \<^verbatim>\<open>off + n\<close> does not wrap.
\<close>

abbreviation "NDIRECT \<equiv> (12 :: nat)"
abbreviation "NINDIRECT \<equiv> (128 :: nat)"
abbreviation "MAXFILE \<equiv> (140 :: nat)"
abbreviation "MAXCSBLOCKS \<equiv> (3060 :: nat)"
abbreviation "NDEV \<equiv> (10 :: int)"
abbreviation "T_DIR \<equiv> (1 :: u16)"
abbreviation "T_FILE \<equiv> (2 :: u16)"
abbreviation "T_DEV \<equiv> (3 :: u16)"
abbreviation "T_CS \<equiv> (4 :: u16)"
abbreviation "ROOTDEV \<equiv> (1 :: u32)"
abbreviation "ROOTINO \<equiv> (1 :: u32)"
abbreviation "DIRSIZ \<equiv> (14 :: nat)"

subsection \<open>Inodes on disk and in the cache\<close>

definition get16 :: "blk \<Rightarrow> nat \<Rightarrow> u16" where
  "get16 d off = of_le16 (d ! off) (d ! (off + 1))"

definition IBLOCK :: "fsys \<Rightarrow> u32 \<Rightarrow> u32" where
  "IBLOCK st i = i div 8 + inodestart (sb st)"

definition dinode_off :: "u32 \<Rightarrow> nat" where
  "dinode_off i = unat (i mod 8) * 64"

definition dinode_bytes :: "inode \<Rightarrow> u8 list" where
  "dinode_bytes ip = le16_bytes (itype ip) @ le16_bytes (major ip) @ le16_bytes (minor ip) @
     le16_bytes (nlink ip) @ le32_bytes (isize ip) @ concat (map le32_bytes (addrs ip))"

definition load_dinode :: "blk \<Rightarrow> nat \<Rightarrow> inode \<Rightarrow> inode" where
  "load_dinode d off ip = ip\<lparr>itype := get16 d off, major := get16 d (off + 2), minor := get16 d (off + 4),
     nlink := get16 d (off + 6), isize := get32 d (off + 8),
     addrs := map (\<lambda>i. get32 d (off + 12 + 4 * i)) [0..<NDIRECT + 1]\<rparr>"

definition iupdate :: "fsys \<Rightarrow> inode \<Rightarrow> fsys option" where
  "iupdate st ip = do {
     bp \<leftarrow> bread st (IBLOCK st (inum ip));
     log_write (set_buf st (IBLOCK st (inum ip)) (patch (dinode_off (inum ip)) (dinode_bytes ip) bp))
               (IBLOCK st (inum ip))
   }"

definition iget :: "fsys \<Rightarrow> u32 \<Rightarrow> u32 \<Rightarrow> (nat \<times> fsys) option" where
  "iget st dv i =
     (case find (\<lambda>k. ref (icache st ! k) > 0 \<and> dev (icache st ! k) = dv \<and> inum (icache st ! k) = i)
             [0..<length (icache st)] of
        Some k \<Rightarrow> Some (k, st\<lparr>icache := (icache st)[k := (icache st ! k)\<lparr>ref := ref (icache st ! k) + 1\<rparr>]\<rparr>)
      | None \<Rightarrow>
         (case find (\<lambda>k. ref (icache st ! k) = 0) [0..<length (icache st)] of
            None \<Rightarrow> None
          | Some k \<Rightarrow> Some (k, st\<lparr>icache := (icache st)[k := (icache st ! k)\<lparr>dev := dv, inum := i, ref := 1, valid := False\<rparr>]\<rparr>)))"

function ialloc_from :: "fsys \<Rightarrow> u32 \<Rightarrow> u16 \<Rightarrow> nat \<Rightarrow> (nat \<times> fsys) option" where
  "ialloc_from st dv ty i =
     (if i < unat (ninodes (sb st)) then do {
        bp \<leftarrow> bread st (IBLOCK st (word_of_nat i));
        (let off = dinode_off (word_of_nat i) in
         if get16 bp off = 0 then do {
           st \<leftarrow> log_write (set_buf st (IBLOCK st (word_of_nat i))
                   (patch off (le16_bytes ty @ replicate 62 0) bp)) (IBLOCK st (word_of_nat i));
           iget st dv (word_of_nat i)
         } else ialloc_from st dv ty (i + 1))
      } else None)"
  by pat_completeness auto
termination
  by (relation "measure (\<lambda>(st, dv, ty, i). unat (ninodes (sb st)) - i)") auto

declare ialloc_from.simps [simp del]

definition ialloc :: "fsys \<Rightarrow> u32 \<Rightarrow> u16 \<Rightarrow> (nat \<times> fsys) option" where
  "ialloc st dv ty = ialloc_from st dv ty 1"

definition put_inode :: "fsys \<Rightarrow> nat \<Rightarrow> inode \<Rightarrow> fsys" where
  "put_inode st k ip = st\<lparr>icache := (icache st)[k := ip]\<rparr>"

definition idup :: "fsys \<Rightarrow> nat \<Rightarrow> fsys" where
  "idup st k = put_inode st k ((icache st ! k)\<lparr>ref := ref (icache st ! k) + 1\<rparr>)"

definition ilock :: "fsys \<Rightarrow> nat \<Rightarrow> fsys option" where
  "ilock st k =
     (let ip = icache st ! k in
      if ref ip < 1 \<or> locked ip then None
      else if valid ip then Some (put_inode st k (ip\<lparr>locked := True\<rparr>))
      else do {
        bp \<leftarrow> bread st (IBLOCK st (inum ip));
        (let ip = (load_dinode bp (dinode_off (inum ip)) ip)\<lparr>locked := True, valid := True\<rparr> in
         if itype ip = 0 then None else Some (put_inode st k ip))
      })"

definition iunlock :: "fsys \<Rightarrow> nat \<Rightarrow> fsys option" where
  "iunlock st k =
     (let ip = icache st ! k in
      if \<not> locked ip \<or> ref ip < 1 then None else Some (put_inode st k (ip\<lparr>locked := False\<rparr>)))"

subsection \<open>Block maps\<close>

datatype cs_walk_result = CsFound u32 | CsBad | CsEnd u32 nat

text \<open>The scan of the extents; the last component is the number of entries passed, \<^verbatim>\<open>last + 1\<close>.\<close>

fun cs_walk :: "u32 list \<Rightarrow> u32 \<Rightarrow> u32 \<Rightarrow> nat \<Rightarrow> cs_walk_result" where
  "cs_walk [] bn tot k = CsEnd tot k"
| "cs_walk (e # es) bn tot k =
     (if e = 0 then CsEnd tot k
      else let run_start = drop_bit 8 e; len = e AND 0xFF in
        if len = 0 then CsBad
        else if bn < tot + len then CsFound (run_start + (bn - tot))
        else cs_walk es bn (tot + len) (k + 1))"

definition csbmap :: "fsys \<Rightarrow> inode \<Rightarrow> u32 \<Rightarrow> (u32 \<times> fsys \<times> inode) option" where
  "csbmap st ip bn =
     (case cs_walk (take NDIRECT (addrs ip)) bn 0 0 of
        CsBad \<Rightarrow> Some (0, cprintf ''csfs: invalid zero-length CS'' st, ip)
      | CsFound a \<Rightarrow> Some (a, st, ip)
      | CsEnd tot k \<Rightarrow>
          if bn \<noteq> tot then Some (0, cprintf ''csfs: non-sequential block allocation'' st, ip)
          else if bn \<ge> word_of_nat MAXCSBLOCKS then Some (0, cprintf ''csfs: direct block range exceeded'' st, ip)
          else do {
            (addr, st) \<leftarrow> ballocx st True;
            if addr = 0 then Some (0, st, ip)
            else if addr > 0xFFFFFF then do {
              st \<leftarrow> bfree st addr;
              Some (0, cprintf ''csfs: disk block number exceeds 24 bits'' st, ip)
            }
            else let e = addrs ip ! (k - 1); run_start = drop_bit 8 e; len = e AND 0xFF in
              if k \<ge> 1 \<and> len < 255 \<and> addr = run_start + len
              then Some (addr, st, ip\<lparr>addrs := (addrs ip)[k - 1 := (push_bit 8 run_start) OR (len + 1)]\<rparr>)
              else if k \<ge> NDIRECT then do {
                st \<leftarrow> bfree st addr;
                Some (0, cprintf ''csfs: no free direct block entries'' st, ip)
              }
              else Some (addr, st, ip\<lparr>addrs := (addrs ip)[k := (push_bit 8 addr) OR 1]\<rparr>)
          })"

definition bmap :: "fsys \<Rightarrow> inode \<Rightarrow> u32 \<Rightarrow> (u32 \<times> fsys \<times> inode) option" where
  "bmap st ip bn =
     (if itype ip = T_CS then csbmap st ip bn
      else if unat bn < NDIRECT then
        (if addrs ip ! unat bn = 0 then do {
           (addr, st) \<leftarrow> balloc st;
           Some (addr, st, ip\<lparr>addrs := (addrs ip)[unat bn := addr]\<rparr>)
         } else Some (addrs ip ! unat bn, st, ip))
      else let bi = unat bn - NDIRECT in
        if bi < NINDIRECT then do {
          (ind, st, ip) \<leftarrow> (if addrs ip ! NDIRECT = 0 then do {
                (addr, st) \<leftarrow> balloc st;
                Some (addr, st, ip\<lparr>addrs := (addrs ip)[NDIRECT := addr]\<rparr>)
              } else Some (addrs ip ! NDIRECT, st, ip));
          bp \<leftarrow> bread st ind;
          (if get32 bp (4 * bi) = 0 then do {
             (addr, st) \<leftarrow> balloc st;
             bp \<leftarrow> bread st ind;
             st \<leftarrow> log_write (set_buf st ind (patch (4 * bi) (le32_bytes addr) bp)) ind;
             Some (addr, st, ip)
           } else Some (get32 bp (4 * bi), st, ip))
        }
        else None)"

fun free_run :: "fsys \<Rightarrow> u32 \<Rightarrow> nat \<Rightarrow> nat \<Rightarrow> fsys option" where
  "free_run st run_start j 0 = Some st"
| "free_run st run_start j (Suc n) = do {
     st \<leftarrow> bfree st (run_start + word_of_nat j);
     free_run st run_start (j + 1) n
   }"

fun free_extents :: "fsys \<Rightarrow> u32 list \<Rightarrow> fsys option" where
  "free_extents st [] = Some st"
| "free_extents st (e # es) =
     (if e = 0 then free_extents st es
      else do {
        st \<leftarrow> free_run st (drop_bit 8 e) 0 (unat (e AND 0xFF));
        free_extents st es
      })"

fun free_nonzero :: "fsys \<Rightarrow> u32 list \<Rightarrow> fsys option" where
  "free_nonzero st [] = Some st"
| "free_nonzero st (b # bs) =
     (if b \<noteq> 0 then do { st \<leftarrow> bfree st b; free_nonzero st bs } else free_nonzero st bs)"

definition itrunc :: "fsys \<Rightarrow> inode \<Rightarrow> (fsys \<times> inode) option" where
  "itrunc st ip =
     (if itype ip = T_CS then do {
        st \<leftarrow> free_extents st (take NDIRECT (addrs ip));
        (let ip = ip\<lparr>addrs := replicate (NDIRECT + 1) 0, isize := 0\<rparr> in do {
          st \<leftarrow> iupdate st ip;
          Some (st, ip)
        })
      }
      else do {
        st \<leftarrow> free_nonzero st (take NDIRECT (addrs ip));
        st \<leftarrow> (if addrs ip ! NDIRECT \<noteq> 0 then do {
                bp \<leftarrow> bread st (addrs ip ! NDIRECT);
                st \<leftarrow> free_nonzero st (map (\<lambda>j. get32 bp (4 * j)) [0..<NINDIRECT]);
                bfree st (addrs ip ! NDIRECT)
              } else Some st);
        (let ip = ip\<lparr>addrs := replicate (NDIRECT + 1) 0, isize := 0\<rparr> in do {
          st \<leftarrow> iupdate st ip;
          Some (st, ip)
        })
      })"

definition iput :: "fsys \<Rightarrow> nat \<Rightarrow> fsys option" where
  "iput st k =
     (let ip = icache st ! k in
      if locked ip then None
      else do {
        st \<leftarrow> (if valid ip \<and> nlink ip = 0 \<and> ref ip = 1 then do {
                (st, ip) \<leftarrow> itrunc st ip;
                (let ip = ip\<lparr>itype := 0\<rparr> in do {
                  st \<leftarrow> iupdate st ip;
                  Some (put_inode st k (ip\<lparr>valid := False\<rparr>))
                })
              } else Some st);
        Some (put_inode st k ((icache st ! k)\<lparr>ref := ref (icache st ! k) - 1\<rparr>))
      })"

definition iunlockput :: "fsys \<Rightarrow> nat \<Rightarrow> fsys option" where
  "iunlockput st k = do { st \<leftarrow> iunlock st k; iput st k }"

subsection \<open>Reading and writing\<close>

function readi_loop :: "fsys \<Rightarrow> inode \<Rightarrow> nat \<Rightarrow> nat \<Rightarrow> nat \<Rightarrow> u8 list \<Rightarrow> (int \<times> u8 list \<times> fsys \<times> inode) option" where
  "readi_loop st ip off n tot dst =
     (if tot < n then do {
        (addr, st, ip) \<leftarrow> bmap st ip (word_of_nat (off div BSIZE));
        if addr = 0 then Some (if tot > 0 then int tot else - 1, dst, st, ip)
        else do {
          bp \<leftarrow> bread st addr;
          (let m = min (n - tot) (BSIZE - off mod BSIZE) in
           readi_loop st ip (off + m) n (tot + m) (dst @ take m (drop (off mod BSIZE) bp)))
        }
      } else Some (int n, dst, st, ip))"
  by pat_completeness auto
termination
  by (relation "measure (\<lambda>(st, ip, off, n, tot, dst). n - tot)") auto

declare readi_loop.simps [simp del]

definition readi :: "fsys \<Rightarrow> inode \<Rightarrow> u32 \<Rightarrow> u32 \<Rightarrow> (int \<times> u8 list \<times> fsys \<times> inode) option" where
  "readi st ip off n =
     (if itype ip = T_DEV then
        (if sint (major ip) < 0 \<or> sint (major ip) \<ge> NDEV then Some (- 1, [], st, ip)
         else case dev_read st (nat (sint (major ip))) of
           None \<Rightarrow> Some (- 1, [], st, ip)
         | Some f \<Rightarrow> (case f n of (r, bs) \<Rightarrow> Some (r, bs, st, ip)))
      else if off > isize ip \<or> off + n < off then Some (- 1, [], st, ip)
      else readi_loop st ip (unat off)
             (if off + n > isize ip then unat (isize ip - off) else unat n) 0 [])"

function writei_loop :: "fsys \<Rightarrow> inode \<Rightarrow> u8 list \<Rightarrow> nat \<Rightarrow> nat \<Rightarrow> (nat \<times> fsys \<times> inode) option" where
  "writei_loop st ip src off tot =
     (if tot < length src then do {
        (addr, st, ip) \<leftarrow> bmap st ip (word_of_nat (off div BSIZE));
        if addr = 0 then Some (tot, st, ip)
        else do {
          bp \<leftarrow> bread st addr;
          (let m = min (length src - tot) (BSIZE - off mod BSIZE) in do {
            st \<leftarrow> log_write (set_buf st addr (patch (off mod BSIZE) (take m (drop tot src)) bp)) addr;
            writei_loop st ip src (off + m) (tot + m)
          })
        }
      } else Some (tot, st, ip))"
  by pat_completeness auto
termination
  by (relation "measure (\<lambda>(st, ip, src, off, tot). length src - tot)") auto

declare writei_loop.simps [simp del]

definition write_limit :: "inode \<Rightarrow> u32" where
  "write_limit ip = word_of_nat ((if itype ip = T_CS then MAXCSBLOCKS else MAXFILE) * BSIZE)"

definition writei :: "fsys \<Rightarrow> inode \<Rightarrow> u8 list \<Rightarrow> u32 \<Rightarrow> (int \<times> fsys \<times> inode) option" where
  "writei st ip src off =
     (let n = word_of_nat (length src) :: u32 in
      if itype ip = T_DEV then
        (if sint (major ip) < 0 \<or> sint (major ip) \<ge> NDEV then Some (- 1, st, ip)
         else case dev_write st (nat (sint (major ip))) of
           None \<Rightarrow> Some (- 1, st, ip)
         | Some f \<Rightarrow> Some (f src, st, ip))
      else if off > isize ip \<or> off + n < off then Some (- 1, st, ip)
      else if off + n > write_limit ip \<and> (itype ip \<noteq> T_CS \<or> off \<ge> write_limit ip) then Some (- 1, st, ip)
      else
        let (src, st) = (if off + n > write_limit ip
              then (take (unat (write_limit ip - off)) src, cprintf ''csfs: direct block range exceeded'' st)
              else (src, st)) in do {
          (tot, st, ip) \<leftarrow> writei_loop st ip src (unat off) 0;
          (st, ip) \<leftarrow> (if src \<noteq> [] \<and> unat off + tot > unat (isize ip) then
                let ip = ip\<lparr>isize := off + word_of_nat tot\<rparr> in do {
                  st \<leftarrow> iupdate st ip;
                  Some (st, ip)
                }
              else Some (st, ip));
          Some (if tot = 0 \<and> src \<noteq> [] then - 1 else int tot, st, ip)
        })"

record stat =
  st_type :: u16
  st_dev :: u32
  st_ino :: u32
  st_nlink :: u16
  st_size :: u32

definition stati :: "inode \<Rightarrow> stat" where
  "stati ip = \<lparr>st_type = itype ip, st_dev = dev ip, st_ino = inum ip, st_nlink = nlink ip, st_size = isize ip\<rparr>"

subsection \<open>Directories\<close>

text \<open>Strings without their terminator; reading past the end of one gives the terminator.\<close>

definition chr :: "u8 list \<Rightarrow> u8" where
  "chr s = (case s of [] \<Rightarrow> 0 | c # _ \<Rightarrow> c)"

fun strncmp :: "nat \<Rightarrow> u8 list \<Rightarrow> u8 list \<Rightarrow> int" where
  "strncmp 0 p q = 0"
| "strncmp (Suc n) p q =
     (if chr p \<noteq> 0 \<and> chr p = chr q then strncmp n (tl p) (tl q) else uint (chr p) - uint (chr q))"

definition namecmp :: "u8 list \<Rightarrow> u8 list \<Rightarrow> int" where
  "namecmp s t = strncmp DIRSIZ s t"

definition strncpy :: "nat \<Rightarrow> u8 list \<Rightarrow> u8 list" where
  "strncpy n t = take n (takeWhile (\<lambda>c. c \<noteq> 0) t @ replicate n 0)"

definition readi_at :: "fsys \<Rightarrow> nat \<Rightarrow> u32 \<Rightarrow> u32 \<Rightarrow> (int \<times> u8 list \<times> fsys) option" where
  "readi_at st k off n = do {
     (r, bs, st, ip) \<leftarrow> readi st (icache st ! k) off n;
     Some (r, bs, put_inode st k ip)
   }"

definition writei_at :: "fsys \<Rightarrow> nat \<Rightarrow> u8 list \<Rightarrow> u32 \<Rightarrow> (int \<times> fsys) option" where
  "writei_at st k src off = do {
     (r, st, ip) \<leftarrow> writei st (icache st ! k) src off;
     Some (r, put_inode st k ip)
   }"

text \<open>
  The scan of a directory with 16-byte entries, for the first entry whose inode number and name
  satisfy a condition; the bound on the number of entries is the directory's size.
\<close>

function dir_scan :: "fsys \<Rightarrow> nat \<Rightarrow> (u16 \<Rightarrow> u8 list \<Rightarrow> bool) \<Rightarrow> nat \<Rightarrow> nat \<Rightarrow> (((nat \<times> u16) option) \<times> fsys) option" where
  "dir_scan st k found off sz =
     (if off < sz then do {
        (r, de, st) \<leftarrow> readi_at st k (word_of_nat off) 16;
        if r \<noteq> 16 then None
        else if found (get16 de 0) (drop 2 de) then Some (Some (off, get16 de 0), st)
        else dir_scan st k found (off + 16) sz
      } else Some (None, st))"
  by pat_completeness auto
termination
  by (relation "measure (\<lambda>(st, k, found, off, sz). sz - off)") auto

declare dir_scan.simps [simp del]

definition dirlookup :: "fsys \<Rightarrow> nat \<Rightarrow> u8 list \<Rightarrow> (((nat \<times> nat) option) \<times> fsys) option" where
  "dirlookup st k name =
     (if itype (icache st ! k) \<noteq> T_DIR then None
      else do {
        (r, st) \<leftarrow> dir_scan st k (\<lambda>i nm. i \<noteq> 0 \<and> namecmp name nm = 0) 0 (unat (isize (icache st ! k)));
        (case r of
           None \<Rightarrow> Some (None, st)
         | Some (off, i) \<Rightarrow> do {
             (ip, st) \<leftarrow> iget st (dev (icache st ! k)) (ucast i);
             Some (Some (ip, off), st)
           })
      })"

definition dirlink :: "fsys \<Rightarrow> nat \<Rightarrow> u8 list \<Rightarrow> u32 \<Rightarrow> (int \<times> fsys) option" where
  "dirlink st k name i = do {
     (r, st) \<leftarrow> dirlookup st k name;
     (case r of
        Some (ip, _) \<Rightarrow> do { st \<leftarrow> iput st ip; Some (- 1, st) }
      | None \<Rightarrow> do {
          (e, st) \<leftarrow> dir_scan st k (\<lambda>i _. i = 0) 0 (unat (isize (icache st ! k)));
          (let off = (case e of Some (off, _) \<Rightarrow> off | None \<Rightarrow> 16 * ((unat (isize (icache st ! k)) + 15) div 16)) in do {
            (r, st) \<leftarrow> writei_at st k (le16_bytes (ucast i) @ strncpy DIRSIZ name) (word_of_nat off);
            if r \<noteq> 16 then None else Some (0, st)
          })
        })
   }"

subsection \<open>Path names\<close>

definition skipelem :: "u8 list \<Rightarrow> (u8 list \<times> u8 list) option" where
  "skipelem path =
     (let s = dropWhile (\<lambda>c. c = 47) path in
      if s = [] then None
      else Some (dropWhile (\<lambda>c. c = 47) (dropWhile (\<lambda>c. c \<noteq> 47) s),
                 take DIRSIZ (takeWhile (\<lambda>c. c \<noteq> 47) s)))"

lemma skipelem_shorter: "skipelem path = Some (rest, name) \<Longrightarrow> length rest < length path"
proof -
  assume a: "skipelem path = Some (rest, name)"
  define s where "s = dropWhile (\<lambda>c. c = 47) path"
  have "s \<noteq> []" and rest: "rest = dropWhile (\<lambda>c. c = 47) (dropWhile (\<lambda>c. c \<noteq> 47) s)"
    using a by (auto simp: skipelem_def s_def Let_def split: if_splits)
  then obtain c cs where s: "s = c # cs" "c \<noteq> 47"
    using hd_dropWhile [of "\<lambda>c. c = 47" path] by (cases s) (auto simp: s_def)
  have "length rest \<le> length (dropWhile (\<lambda>c. c \<noteq> 47) s)" unfolding rest by (rule length_dropWhile_le)
  also have "\<dots> \<le> length cs" using s length_dropWhile_le [of "\<lambda>c. c \<noteq> 47" cs] by simp
  also have "\<dots> < length s" using s by simp
  also have "\<dots> \<le> length path" unfolding s_def by (rule length_dropWhile_le)
  finally show ?thesis .
qed

function namex_loop :: "fsys \<Rightarrow> nat \<Rightarrow> u8 list \<Rightarrow> bool \<Rightarrow> u8 list \<Rightarrow> (((nat \<times> u8 list) option) \<times> fsys) option" where
  "namex_loop st ip path nameiparent name =
     (case skipelem path of
        None \<Rightarrow> (if nameiparent then do { st \<leftarrow> iput st ip; Some (None, st) } else Some (Some (ip, name), st))
      | Some (rest, name) \<Rightarrow> do {
          st \<leftarrow> ilock st ip;
          if itype (icache st ! ip) \<noteq> T_DIR then do { st \<leftarrow> iunlockput st ip; Some (None, st) }
          else if nameiparent \<and> rest = [] then do { st \<leftarrow> iunlock st ip; Some (Some (ip, name), st) }
          else do {
            (r, st) \<leftarrow> dirlookup st ip name;
            (case r of
               None \<Rightarrow> do { st \<leftarrow> iunlockput st ip; Some (None, st) }
             | Some (nx, _) \<Rightarrow> do {
                 st \<leftarrow> iunlockput st ip;
                 namex_loop st nx rest nameiparent name
               })
          }
        })"
  by pat_completeness auto
termination
  by (relation "measure (\<lambda>(st, ip, path, nameiparent, name). length path)") (auto dest: skipelem_shorter)

declare namex_loop.simps [simp del]

definition namex :: "fsys \<Rightarrow> nat \<Rightarrow> u8 list \<Rightarrow> bool \<Rightarrow> (((nat \<times> u8 list) option) \<times> fsys) option" where
  "namex st cwd path nameiparent = do {
     (ip, st) \<leftarrow> (if chr path = 47 then iget st ROOTDEV ROOTINO else Some (cwd, idup st cwd));
     namex_loop st ip path nameiparent []
   }"

definition namei :: "fsys \<Rightarrow> nat \<Rightarrow> u8 list \<Rightarrow> (nat option \<times> fsys) option" where
  "namei st cwd path = do {
     (r, st) \<leftarrow> namex st cwd path False;
     Some (map_option fst r, st)
   }"

definition nameiparent :: "fsys \<Rightarrow> nat \<Rightarrow> u8 list \<Rightarrow> (((nat \<times> u8 list) option) \<times> fsys) option" where
  "nameiparent st cwd path = namex st cwd path True"

end
