(* ===== verification/Xv6_Files.thy ===== *)
theory Xv6_Files
  imports Xv6_Inodes
begin

text \<open>
  File contents over the block maps.  The locale \<open>block_map\<close> states what \<^verbatim>\<open>readi\<close> and \<^verbatim>\<open>writei\<close> rely on:
  a map from an inode to the list of its data blocks, such that \<^verbatim>\<open>bmap\<close> looks up existing blocks
  without side effects and appends a newly allocated block at the end.  Reading and writing are
  verified once from these laws, with what stops a write early: the map is \<open>stuck\<close> when it refuses a
  block although the disk has a free one.  The extents of a CS file are the instance.
\<close>

subsection \<open>Chunks of equal length\<close>

lemma concat_drop_chunk:
  assumes "\<And>x. x \<in> set xs \<Longrightarrow> length x = w" "0 < w" "off div w < length xs"
  shows "drop off (concat xs) = drop (off mod w) (xs ! (off div w)) @ concat (drop (off div w + 1) xs)"
  using assms
proof (induction xs arbitrary: off)
  case (Cons x xs)
  have x: "length x = w" using Cons.prems(1) by simp
  show ?case
  proof (cases "off < w")
    case True
    then show ?thesis using x by simp
  next
    case False
    then obtain o' where o': "off = w + o'" using le_Suc_ex not_less by blast
    then have "off div w = Suc (o' div w)" "off mod w = o' mod w" using Cons.prems(2) by (simp_all add: div_add_self1)
    then show ?thesis using Cons.IH [of o'] Cons.prems o' x by simp
  qed
qed simp

lemma concat_take_chunk:
  assumes "\<And>x. x \<in> set xs \<Longrightarrow> length x = w" "0 < w" "off div w < length xs"
    and "m \<le> w - off mod w"
  shows "take m (drop off (concat xs)) = take m (drop (off mod w) (xs ! (off div w)))"
proof -
  have "length (xs ! (off div w)) = w" using assms by simp
  then show ?thesis using concat_drop_chunk [OF assms(1-3)] assms(4) by simp
qed

lemma length_concat_chunks: "(\<And>x. x \<in> set xs \<Longrightarrow> length x = w) \<Longrightarrow> length (concat xs) = w * length xs"
  using concat_map_take_length [of xs "\<lambda>x. x" w] by simp

lemma length_patch: "off + length bs \<le> length d \<Longrightarrow> length (patch off bs d) = length d"
  by (simp add: patch_def)

lemma concat_update_chunk:
  assumes "\<And>x. x \<in> set xs \<Longrightarrow> length x = w" "0 < w" "off div w < length xs" "off mod w + length bs \<le> w"
  shows "concat (xs[off div w := patch (off mod w) bs (xs ! (off div w))]) = patch off bs (concat xs)"
proof -
  let ?k = "off div w" and ?r = "off mod w"
  have xs: "xs = take ?k xs @ xs ! ?k # drop (Suc ?k) xs" using assms(3) by (simp add: id_take_nth_drop)
  let ?a = "concat (take ?k xs)" and ?c = "concat (drop (Suc ?k) xs)" and ?x = "xs ! ?k"
  have la: "length ?a = w * ?k"
    using length_concat_chunks [of "take ?k xs" w] assms(1,3) by (auto dest: in_set_takeD)
  have lx: "length ?x = w" using assms(1,3) by simp
  have off: "off = length ?a + ?r" unfolding la by simp
  have "concat xs = ?a @ ?x @ ?c" using arg_cong [OF xs, of concat] by simp
  moreover have "patch (length ?a + ?r) bs (?a @ ?x @ ?c) = ?a @ patch ?r bs ?x @ ?c"
    using lx assms(4) by (simp add: patch_def)
  ultimately have "patch off bs (concat xs) = ?a @ patch ?r bs ?x @ ?c" using off by metis
  moreover have "concat (xs[?k := patch ?r bs ?x]) = ?a @ patch ?r bs ?x @ ?c"
    using assms(3) by (simp add: upd_conv_take_nth_drop)
  ultimately show ?thesis by simp
qed

lemma map_update_distinct:
  assumes "distinct bs" "k < length bs"
  shows "map (f(bs ! k := d)) bs = (map f bs)[k := d]"
  using assms by (intro nth_equalityI) (auto simp: nth_list_update nth_eq_iff_index_eq)

lemma patch_patch:
  assumes "off + length a \<le> length d"
  shows "patch (off + length a) b (patch off a d) = patch off (a @ b) d"
proof -
  have "take (off + length a) (patch off a d) = take off d @ a" using assms by (simp add: patch_def)
  moreover have "drop (off + length a + length b) (patch off a d) = drop (off + length a + length b) d"
    using assms by (simp add: patch_def add.commute)
  ultimately show ?thesis unfolding patch_def [of "off + length a"] by (simp add: patch_def add.assoc)
qed

lemma patch_append_zeros: "off + length a \<le> length d \<Longrightarrow> patch off a (d @ z) = patch off a d @ z"
  by (simp add: patch_def)

lemma patch_Nil [simp]: "patch off [] d = d"
  by (simp add: patch_def)

subsection \<open>The interface of a block map\<close>

text \<open>A state after an operation that failed: used data blocks and the free map are untouched.\<close>

definition quiet :: "fsys \<Rightarrow> fsys \<Rightarrow> bool" where
  "quiet st st' \<longleftrightarrow> fs_wf st' \<and> sb st' = sb st \<and> fssize st' = fssize st \<and>
     (\<forall>b. unat b < unat (sb_size (sb st)) \<longrightarrow> (used st' b \<longleftrightarrow> used st b)) \<and>
     (\<forall>b. data_start st \<le> unat b \<and> unat b < unat (sb_size (sb st)) \<and> used st b \<longrightarrow> cache st' b = cache st b)"

text \<open>Everything but the block addresses.\<close>

definition same_meta :: "inode \<Rightarrow> inode \<Rightarrow> bool" where
  "same_meta ip ip' \<longleftrightarrow> ip' = ip\<lparr>addrs := addrs ip'\<rparr>"

lemma same_meta_iff: "same_meta ip ip' \<longleftrightarrow> (\<exists>A. ip' = ip\<lparr>addrs := A\<rparr>)"
  by (auto simp: same_meta_def)

lemma same_meta_fields:
  "same_meta ip ip' \<Longrightarrow> isize ip' = isize ip \<and> inum ip' = inum ip \<and> itype ip' = itype ip"
  by (auto simp: same_meta_iff)

lemma same_meta_trans: "same_meta ip ip1 \<Longrightarrow> same_meta ip1 ip2 \<Longrightarrow> same_meta ip ip2"
  by (auto simp: same_meta_iff)

lemma same_meta_isize: "same_meta ip ip1 \<Longrightarrow> same_meta (ip\<lparr>isize := n\<rparr>) (ip1\<lparr>isize := n\<rparr>)"
proof -
  assume "same_meta ip ip1"
  then obtain A where "ip1 = ip\<lparr>addrs := A\<rparr>" by (auto simp: same_meta_iff)
  then have "ip1\<lparr>isize := n\<rparr> = ip\<lparr>isize := n\<rparr>\<lparr>addrs := A\<rparr>" by simp
  then show ?thesis by (auto simp: same_meta_iff)
qed

lemma chunk_lengths: "fs_wf st \<Longrightarrow> x \<in> set (map (cache st) bs) \<Longrightarrow> length x = BSIZE"
  by (auto simp: fs_wf_def)

text \<open>Writing a data block leaves the free map alone.\<close>

lemma data_write:
  assumes "fs_wf st" "data_start st \<le> unat b" "length d = BSIZE"
  shows "fs_wf (note_logged (set_buf st b d) b)"
    "unat c < unat (sb_size (sb st)) \<Longrightarrow> used (note_logged (set_buf st b d) b) c \<longleftrightarrow> used st c"
proof -
  let ?st = "note_logged (set_buf st b d) b"
  have u: "used ?st c \<longleftrightarrow> used st c" if "unat c < unat (sb_size (sb st))" for c
  proof -
    have "BBLOCK st c \<noteq> b" using BBLOCK_facts(2) [of st c] assms(1,2) that by (auto simp: fs_wf_def)
    then show ?thesis using sb_cong(1) [of ?st st c] by (simp add: used_def)
  qed
  then show "unat c < unat (sb_size (sb st)) \<Longrightarrow> used ?st c \<longleftrightarrow> used st c" .
  have "unat c < unat (sb_size (sb st))" if "unat c < data_start st" for c :: u32
    using that assms(1) by (auto simp: fs_wf_def layout_ok_def)
  then show "fs_wf ?st" using u assms sb_cong [of ?st st] by (auto simp: fs_wf_def)
qed

text \<open>The number of blocks that a write of \<open>left\<close> bytes at \<open>off\<close> touches.\<close>

definition touched_blocks :: "nat \<Rightarrow> nat \<Rightarrow> nat" where
  "touched_blocks off left = (if left = 0 then 0 else (off mod BSIZE + left + 511) div BSIZE)"

lemma touched_blocks_step:
  fixes off :: nat
  assumes "0 < left"
  defines "m \<equiv> min left (BSIZE - off mod BSIZE)"
  shows "touched_blocks (off + m) (left - m) + 1 \<le> touched_blocks off left"
proof (cases "left \<le> BSIZE - off mod BSIZE")
  case True
  then have "left - m = 0" by (simp add: m_def)
  moreover have "1 \<le> (off mod BSIZE + left + 511) div BSIZE" using assms(1) by (simp add: div_greater_zero_iff Suc_le_eq)
  ultimately show ?thesis using assms(1) by (simp add: touched_blocks_def)
next
  case False
  have m: "m = BSIZE - off mod BSIZE" using False by (simp add: m_def)
  have "off mod BSIZE < BSIZE" by simp
  then have "off mod BSIZE + m = BSIZE" unfolding m by simp
  then have "off + m = off div BSIZE * BSIZE + BSIZE" by (metis add.assoc div_mult_mod_eq)
  then have "(off + m) mod BSIZE = 0" by simp
  moreover have "off mod BSIZE + left + 511 = (left - m + 511) + BSIZE" using False m by simp
  then have "(off mod BSIZE + left + 511) div BSIZE = (left - m + 511) div BSIZE + 1" by (simp only: div_add_self2)
  ultimately show ?thesis using assms(1) False m by (simp add: touched_blocks_def)
qed

text \<open>The number of free blocks.\<close>

definition free_count :: "fsys \<Rightarrow> nat" where
  "free_count st = card {b. unat b < unat (sb_size (sb st)) \<and> \<not> used st b}"

lemma free_count_alloc:
  assumes "fs_wf st" "first_free st a"
  shows "free_count st = Suc (free_count (alloc_effect st a))"
proof -
  have "{b. unat b < unat (sb_size (sb st)) \<and> \<not> used st b} =
      insert a {b. unat b < unat (sb_size (sb (alloc_effect st a))) \<and> \<not> used (alloc_effect st a) b}"
    using used_alloc [OF assms] assms(2) by (auto simp: first_free_def)
  moreover have "a \<notin> {b. unat b < unat (sb_size (sb (alloc_effect st a))) \<and> \<not> used (alloc_effect st a) b}"
    using used_alloc [OF assms, of a] by auto
  ultimately show ?thesis by (simp add: free_count_def)
qed

lemma free_count_cong:
  "sb st' = sb st \<Longrightarrow> (\<And>b. unat b < unat (sb_size (sb st)) \<Longrightarrow> used st' b = used st b) \<Longrightarrow> free_count st' = free_count st"
  unfolding free_count_def by (intro arg_cong [where f = card]) auto

lemma free_count_pos: "0 < free_count st \<Longrightarrow> \<exists>a. first_free st a"
  using first_free_exists by (fastforce simp: free_count_def card_gt_0_iff)

lemma log_room_alloc: "log_room st (j + 2) \<Longrightarrow> log_room (alloc_effect st a) j"
  by (auto simp: alloc_effect_def log_room_def note_logged_def)

text \<open>Updating an inode on disk touches its inode block only.\<close>

lemma length_dinode_bytes: "length (dinode_bytes ip) = 12 + 4 * length (addrs ip)"
proof -
  have "length (concat (map le32_bytes xs)) = 4 * length xs" for xs by (induction xs) auto
  then show ?thesis by (simp add: dinode_bytes_def)
qed

lemma IBLOCK_facts:
  assumes "layout_ok st" "unat i < unat (ninodes (sb st))"
  shows "unat (IBLOCK st i) = unat i div 8 + unat (inodestart (sb st))"
    "unat (IBLOCK st i) < unat (bmapstart (sb st))" "IBLOCK st i < fssize st"
proof -
  have "unat i div 8 \<le> unat (ninodes (sb st)) div 8" using assms(2) by (intro div_le_mono) simp
  then have lt: "unat i div 8 + unat (inodestart (sb st)) < unat (bmapstart (sb st))"
    using assms(1) by (simp add: layout_ok_def)
  moreover have le: "unat (bmapstart (sb st)) < unat (fssize st)"
    using assms(1) by (auto simp: layout_ok_def data_start_def word_nat)
  moreover have "unat (fssize st) < 2 ^ 32" using assms(1) by (simp add: layout_ok_def)
  ultimately have "unat (i div 8) + unat (inodestart (sb st)) < 2 ^ 32" by (simp add: unat_div_word)
  then show u: "unat (IBLOCK st i) = unat i div 8 + unat (inodestart (sb st))"
    using unat_add_nowrap [of "i div 8" "inodestart (sb st)"] by (simp add: IBLOCK_def unat_div_word)
  show "unat (IBLOCK st i) < unat (bmapstart (sb st))" using lt u by simp
  then show "IBLOCK st i < fssize st" using le by (simp add: unat_lt_word)
qed

lemma dinode_off_bound: "dinode_off i + 64 \<le> BSIZE"
proof -
  have "unat (i mod 8) < 8" by (simp add: unat_mod_word)
  then show ?thesis by (simp add: dinode_off_def)
qed

definition update_effect :: "fsys \<Rightarrow> inode \<Rightarrow> fsys" where
  "update_effect st ip = note_logged (set_buf st (IBLOCK st (inum ip))
     (patch (dinode_off (inum ip)) (dinode_bytes ip) (cache st (IBLOCK st (inum ip))))) (IBLOCK st (inum ip))"

lemma iupdate_eq:
  assumes "fs_wf st" "unat (inum ip) < unat (ninodes (sb st))"
  shows "iupdate st ip = (if log_room st 1 then Some (update_effect st ip) else None)"
  using IBLOCK_facts(3) [of st "inum ip"] assms
  by (simp add: iupdate_def bread_ok fs_wf_def log_write_eq update_effect_def)

lemma update_effect_ok:
  assumes "fs_wf st" "unat (inum ip) < unat (ninodes (sb st))" "length (addrs ip) = NDIRECT + 1"
  shows "quiet st (update_effect st ip)"
    "\<And>b. b \<noteq> IBLOCK st (inum ip) \<Longrightarrow> cache (update_effect st ip) b = cache st b"
    "log_room st (Suc k) \<Longrightarrow> log_room (update_effect st ip) k"
proof -
  let ?st = "update_effect st ip"
  note ib = IBLOCK_facts [of st "inum ip"]
  have sb: "sb ?st = sb st" "fssize ?st = fssize st" by (simp_all add: update_effect_def)
  show c: "\<And>b. b \<noteq> IBLOCK st (inum ip) \<Longrightarrow> cache ?st b = cache st b" by (simp add: update_effect_def)
  have u: "used ?st b \<longleftrightarrow> used st b" if "unat b < unat (sb_size (sb st))" for b
  proof -
    have "BBLOCK st b \<noteq> IBLOCK st (inum ip)"
      using BBLOCK_facts(1) [of st b] ib(2) assms(1,2) that by (auto simp: fs_wf_def)
    then show ?thesis using c sb_cong(1) [OF sb(1)] by (simp add: used_def)
  qed
  have "length (cache ?st b) = BSIZE" for b
    using assms(1,3) dinode_off_bound [of "inum ip"]
    by (auto simp: update_effect_def fs_wf_def length_patch length_dinode_bytes)
  moreover have "unat b < unat (sb_size (sb st))" if "unat b < data_start st" for b :: u32
    using that assms(1) by (auto simp: fs_wf_def layout_ok_def)
  ultimately have "fs_wf ?st" using u assms(1) sb_cong(2,3) [OF sb(1)] sb(2) by (auto simp: fs_wf_def)
  moreover have "b \<noteq> IBLOCK st (inum ip)" if "data_start st \<le> unat b" for b
    using ib(2) assms(1,2) that by (auto simp: fs_wf_def data_start_def)
  ultimately show "quiet st ?st" using u c sb by (auto simp: quiet_def)
  show "log_room st (Suc k) \<Longrightarrow> log_room ?st k" by (auto simp: update_effect_def)
qed

locale block_map =
  fixes good :: "inode \<Rightarrow> bool" and blocks :: "inode \<Rightarrow> u32 list" and cap :: nat and stuck :: "fsys \<Rightarrow> inode \<Rightarrow> bool"
  assumes good_meta: "good ip \<Longrightarrow> good (ip\<lparr>isize := n\<rparr>)" "blocks (ip\<lparr>isize := n\<rparr>) = blocks ip"
    and cap_bound: "cap \<le> 3060"
    and good_cap: "good ip \<Longrightarrow> length (blocks ip) \<le> cap \<and> length (addrs ip) = NDIRECT + 1"
    and bmap_lookup: "good ip \<Longrightarrow> k < length (blocks ip) \<Longrightarrow>
      bmap st ip (word_of_nat k) = Some (blocks ip ! k, st, ip)"
    and bmap_append: "good ip \<Longrightarrow> fs_wf st \<Longrightarrow> length (blocks ip) < cap \<Longrightarrow>
      bmap st ip (word_of_nat (length (blocks ip))) = Some (a, st', ip') \<Longrightarrow>
      (a = 0 \<and> ip' = ip \<and> quiet st st') \<or>
      (first_free st a \<and> st' = alloc_effect st a \<and> good ip' \<and> blocks ip' = blocks ip @ [a] \<and> same_meta ip ip')"
    and bmap_room: "good ip \<Longrightarrow> fs_wf st \<Longrightarrow> length (blocks ip) < cap \<Longrightarrow>
      bmap st ip (word_of_nat (length (blocks ip))) = Some (a, st', ip') \<Longrightarrow> log_room st (j + 3) \<Longrightarrow> log_room st' j"
    and bmap_total: "good ip \<Longrightarrow> fs_wf st \<Longrightarrow> length (blocks ip) < cap \<Longrightarrow> log_room st 3 \<Longrightarrow>
      first_free st a \<Longrightarrow> \<exists>r. bmap st ip (word_of_nat (length (blocks ip))) = Some r"
    and bmap_stuck: "good ip \<Longrightarrow> fs_wf st \<Longrightarrow> length (blocks ip) < cap \<Longrightarrow> first_free st a \<Longrightarrow>
      bmap st ip (word_of_nat (length (blocks ip))) = Some (0, st', ip') \<Longrightarrow> stuck st' ip'"
    and stuck_quiet: "stuck st ip \<Longrightarrow> quiet st st' \<Longrightarrow> stuck st' (ip\<lparr>isize := n\<rparr>)"
begin

definition file_ok :: "fsys \<Rightarrow> inode \<Rightarrow> bool" where
  "file_ok st ip \<longleftrightarrow> good ip \<and> distinct (blocks ip) \<and> unat (isize ip) \<le> BSIZE * length (blocks ip) \<and>
     (\<forall>b \<in> set (blocks ip). data_start st \<le> unat b \<and> unat b < unat (sb_size (sb st)) \<and> used st b)"

definition raw :: "fsys \<Rightarrow> inode \<Rightarrow> u8 list" where
  "raw st ip = concat (map (cache st) (blocks ip))"

definition contents :: "fsys \<Rightarrow> inode \<Rightarrow> u8 list" where
  "contents st ip = take (unat (isize ip)) (raw st ip)"

lemma length_raw: "fs_wf st \<Longrightarrow> length (raw st ip) = BSIZE * length (blocks ip)"
  unfolding raw_def by (subst length_concat_chunks [where w = BSIZE]) (auto simp: fs_wf_def)

lemma block_facts:
  assumes "fs_wf st" "file_ok st ip" "b \<in> set (blocks ip)"
  shows "b < fssize st" "b \<noteq> 0" "length (cache st b) = BSIZE"
  using assms by (auto simp: fs_wf_def file_ok_def layout_ok_def word_nat data_start_def)

lemma readi_loop_ok:
  assumes "fs_wf st" "file_ok st ip" "tot \<le> n" "off + (n - tot) \<le> BSIZE * length (blocks ip)"
  shows "readi_loop st ip off n tot dst = Some (int n, dst @ take (n - tot) (drop off (raw st ip)), st, ip)"
  using assms
proof (induction st ip off n tot dst rule: readi_loop.induct)
  case (1 st ip off n tot dst)
  show ?case
  proof (cases "tot < n")
    case True
    let ?k = "off div BSIZE"
    define m where "m = min (n - tot) (BSIZE - off mod BSIZE)"
    have "off < BSIZE * length (blocks ip)" using True "1.prems"(4) by simp
    then have k: "?k < length (blocks ip)" by (simp add: less_mult_imp_div_less mult.commute)
    have good: "good ip" using "1.prems"(2) by (simp add: file_ok_def)
    have b: "blocks ip ! ?k \<in> set (blocks ip)" using k by simp
    note bm = bmap_lookup [OF good k, of st] and bf = block_facts [OF "1.prems"(1,2) b]
    have chunk: "take m (drop (off mod BSIZE) (cache st (blocks ip ! ?k))) = take m (drop off (raw st ip))"
      using concat_take_chunk [where xs = "map (cache st) (blocks ip)" and w = BSIZE and off = off and m = m,
          OF chunk_lengths [OF "1.prems"(1)]] k
      by (simp add: raw_def m_def)
    have m: "off + m + (n - (tot + m)) \<le> BSIZE * length (blocks ip)" "tot + m \<le> n"
      "m + (n - (tot + m)) = n - tot" using "1.prems"(3,4) by (auto simp: m_def)
    have IH: "readi_loop st ip (off + m) n (tot + m) (dst @ take m (drop (off mod BSIZE) (cache st (blocks ip ! ?k)))) =
        Some (int n, (dst @ take m (drop off (raw st ip))) @ take (n - (tot + m)) (drop (off + m) (raw st ip)), st, ip)"
      unfolding chunk
      using "1.IH" [OF True bm refl refl bf(2) bread_ok [OF bf(1)] m_def "1.prems"(1,2) m(2,1)] unfolding chunk .
    have "take (n - tot) (drop off (raw st ip)) =
        take m (drop off (raw st ip)) @ take (n - (tot + m)) (drop (off + m) (raw st ip))"
      using take_add [of m "n - (tot + m)" "drop off (raw st ip)"]
      by (simp only: m(3) drop_drop add.commute [of m off])
    with IH show ?thesis
      unfolding readi_loop.simps [of st ip off] m_def [symmetric] using True bm bf
      by (simp add: bread_ok Let_def m_def [symmetric])
  next
    case False
    then show ?thesis using "1.prems"(3) by (simp add: readi_loop.simps [of st ip off])
  qed
qed

lemma raw_cong: "(\<And>b. b \<in> set (blocks ip) \<Longrightarrow> cache st' b = cache st b) \<Longrightarrow> raw st' ip = raw st ip"
  unfolding raw_def by (simp cong: map_cong)

lemma file_ok_mono:
  assumes "file_ok st ip" "sb st' = sb st"
    and "\<And>b. unat b < unat (sb_size (sb st)) \<Longrightarrow> used st b \<Longrightarrow> used st' b"
  shows "file_ok st' ip"
  using assms sb_cong(2) [OF assms(2)] by (auto simp: file_ok_def)

lemma append_ok:
  assumes "fs_wf st" "file_ok st ip" "first_free st a" "good ip'" "blocks ip' = blocks ip @ [a]" "same_meta ip ip'"
  shows "fs_wf (alloc_effect st a)" "file_ok (alloc_effect st a) ip'"
    "raw (alloc_effect st a) ip' = raw st ip @ replicate BSIZE 0"
proof -
  let ?st = "alloc_effect st a"
  show wf: "fs_wf ?st" using assms(1,3) by (rule alloc_effect_wf)
  have a: "data_start st \<le> unat a" "unat a < unat (sb_size (sb st))" "a \<notin> set (blocks ip)"
    using assms first_free_data by (auto simp: first_free_def file_ok_def)
  have mono: "used ?st b" if "unat b < unat (sb_size (sb st))" "used st b \<or> b = a" for b
    using used_alloc [OF assms(1,3) that(1)] that(2) by auto
  have "isize ip' = isize ip" using same_meta_fields [OF assms(6)] by simp
  then show "file_ok ?st ip'"
    using assms(2,4,5) a mono sb_cong(2) [of ?st st] by (auto simp: file_ok_def)
  have "cache ?st b = cache st b" if "b \<in> set (blocks ip)" for b
  proof -
    have "data_start st \<le> unat b" "b \<noteq> a" using that assms(2) a(3) by (auto simp: file_ok_def)
    moreover have "unat (BBLOCK st a) < data_start st"
      using BBLOCK_facts(2) [of st a] assms(1) a(2) by (auto simp: fs_wf_def)
    ultimately show ?thesis by auto
  qed
  then show "raw ?st ip' = raw st ip @ replicate BSIZE 0"
    using raw_cong [of ip ?st st] assms(5) by (simp add: raw_def)
qed

lemma write_block_ok:
  assumes "fs_wf st" "file_ok st ip" "off div BSIZE < length (blocks ip)" "off mod BSIZE + length bs \<le> BSIZE"
  defines "b \<equiv> blocks ip ! (off div BSIZE)"
  defines "st' \<equiv> note_logged (set_buf st b (patch (off mod BSIZE) bs (cache st b))) b"
  shows "fs_wf st'" "file_ok st' ip" "raw st' ip = patch off bs (raw st ip)"
proof -
  have b: "b \<in> set (blocks ip)" using assms(3) by (simp add: b_def)
  note bf = block_facts [OF assms(1,2) b]
  have d: "data_start st \<le> unat b" using assms(2) b by (auto simp: file_ok_def)
  have len: "length (patch (off mod BSIZE) bs (cache st b)) = BSIZE"
    using assms(4) bf(3) by (simp add: length_patch)
  show "fs_wf st'" unfolding st'_def using assms(1) d len by (rule data_write(1))
  show "file_ok st' ip"
    using assms(2) by (rule file_ok_mono) (simp_all add: st'_def data_write(2) [OF assms(1) d len])
  have "raw st' ip = concat ((map (cache st) (blocks ip))[off div BSIZE := patch (off mod BSIZE) bs (cache st b)])"
    using map_update_distinct [of "blocks ip" "off div BSIZE" "cache st"] assms(2,3)
    by (simp add: raw_def st'_def b_def file_ok_def)
  also have "\<dots> = patch off bs (raw st ip)"
    using concat_update_chunk [where xs = "map (cache st) (blocks ip)" and w = BSIZE and off = off and bs = bs,
        OF chunk_lengths [OF assms(1)]] assms(3,4)
    by (simp add: raw_def b_def)
  finally show "raw st' ip = patch off bs (raw st ip)" .
qed

text \<open>
  What a write of \<open>bs\<close> at \<open>off\<close> does: the file grows by zeros as needed and then holds \<open>bs\<close> there; blocks of
  other files keep their contents and stay used.
\<close>

definition wrote :: "fsys \<Rightarrow> inode \<Rightarrow> nat \<Rightarrow> u8 list \<Rightarrow> fsys \<Rightarrow> inode \<Rightarrow> bool" where
  "wrote st ip off bs st' ip' \<longleftrightarrow> fs_wf st' \<and> file_ok st' ip' \<and> same_meta ip ip' \<and>
     sb st' = sb st \<and> fssize st' = fssize st \<and>
     (\<exists>z. off + length bs \<le> length (raw st ip) + z \<and> raw st' ip' = patch off bs (raw st ip @ replicate z 0)) \<and>
     (\<forall>b \<in> set (blocks ip'). b \<in> set (blocks ip) \<or> \<not> used st b) \<and>
     (\<forall>b. data_start st \<le> unat b \<and> unat b < unat (sb_size (sb st)) \<and> used st b \<and> b \<notin> set (blocks ip) \<longrightarrow>
        used st' b \<and> cache st' b = cache st b) \<and>
     set (blocks ip) \<subseteq> set (blocks ip')"

lemma wrote_trans:
  assumes "wrote st ip off a st1 ip1" "wrote st1 ip1 (off + length a) c st2 ip2"
    and "\<And>b. b \<in> set (blocks ip) \<Longrightarrow> used st b \<and> data_start st \<le> unat b \<and> unat b < unat (sb_size (sb st))"
  shows "wrote st ip off (a @ c) st2 ip2"
proof -
  obtain z1 z2 where z: "off + length a \<le> length (raw st ip) + z1" "raw st1 ip1 = patch off a (raw st ip @ replicate z1 0)"
    "off + length a + length c \<le> length (raw st1 ip1) + z2"
    "raw st2 ip2 = patch (off + length a) c (raw st1 ip1 @ replicate z2 0)"
    using assms(1,2) unfolding wrote_def by auto
  have "length (raw st1 ip1) = length (raw st ip) + z1" using z(1,2) by (simp add: length_patch)
  moreover have "raw st2 ip2 = patch off (a @ c) (raw st ip @ replicate (z1 + z2) 0)"
    using z(1,2,4) patch_append_zeros [of off a "raw st ip @ replicate z1 0" "replicate z2 0"]
      patch_patch [of off a "raw st ip @ replicate (z1 + z2) 0" c] by (simp add: replicate_add)
  ultimately have data: "\<exists>z. off + length (a @ c) \<le> length (raw st ip) + z \<and> raw st2 ip2 = patch off (a @ c) (raw st ip @ replicate z 0)"
    using z(3) by (intro exI [of _ "z1 + z2"]) simp
  have meta: "same_meta ip ip2" using assms(1,2) same_meta_trans by (simp add: wrote_def) blast
  have sb1: "sb st1 = sb st" "data_start st1 = data_start st"
    using assms(1) sb_cong(2) [of st1 st] by (simp_all add: wrote_def)
  have kept: "used st1 b \<and> (b \<notin> set (blocks ip) \<longrightarrow> cache st1 b = cache st b \<and> b \<notin> set (blocks ip1))"
    if "data_start st \<le> unat b" "unat b < unat (sb_size (sb st))" "used st b" for b
    using assms(1) that by (cases "b \<in> set (blocks ip)") (auto simp: wrote_def file_ok_def)
  have new: "b \<in> set (blocks ip) \<or> \<not> used st b" if "b \<in> set (blocks ip2)" for b
  proof (cases "b \<in> set (blocks ip1)")
    case True
    then show ?thesis using assms(1) by (auto simp: wrote_def)
  next
    case False
    then have "\<not> used st1 b" "data_start st \<le> unat b" "unat b < unat (sb_size (sb st))"
      using assms(2) that sb1 sb_cong(2) [of st2 st1] by (auto simp: wrote_def file_ok_def)
    then show ?thesis using kept by blast
  qed
  have frame: "used st2 b \<and> cache st2 b = cache st b"
    if "data_start st \<le> unat b" "unat b < unat (sb_size (sb st))" "used st b" "b \<notin> set (blocks ip)" for b
    using kept [OF that(1-3)] that assms(2) sb1 by (simp add: wrote_def)
  have rest: "fs_wf st2" "file_ok st2 ip2" "sb st2 = sb st" "fssize st2 = fssize st"
    using assms(1,2) by (simp_all add: wrote_def)
  have "set (blocks ip) \<subseteq> set (blocks ip1)" "set (blocks ip1) \<subseteq> set (blocks ip2)"
    using assms(1,2) by (simp_all add: wrote_def)
  then have sub: "set (blocks ip) \<subseteq> set (blocks ip2)" by (rule subset_trans)
  show ?thesis unfolding wrote_def using data meta new frame rest sub by blast
qed

lemma wrote_quiet:
  assumes "fs_wf st" "file_ok st ip" "quiet st st'" "off \<le> length (raw st ip)"
  shows "wrote st ip off [] st' ip"
proof -
  have "raw st' ip = raw st ip"
    using assms(2,3) by (intro raw_cong) (auto simp: quiet_def file_ok_def)
  moreover have "file_ok st' ip" using assms(2) by (rule file_ok_mono) (use assms(3) in \<open>simp_all add: quiet_def\<close>)
  moreover have "\<exists>z. off + length [] \<le> length (raw st ip) + z \<and> raw st ip = patch off [] (raw st ip @ replicate z 0)"
    using assms(4) by (intro exI [of _ 0]) simp
  moreover have "same_meta ip ip" by (simp add: same_meta_def)
  moreover have "fs_wf st'" "sb st' = sb st" "fssize st' = fssize st"
    "\<And>b. data_start st \<le> unat b \<Longrightarrow> unat b < unat (sb_size (sb st)) \<Longrightarrow> used st b \<Longrightarrow> used st' b \<and> cache st' b = cache st b"
    using assms(3) by (simp_all add: quiet_def)
  ultimately show ?thesis unfolding wrote_def by simp
qed

lemma wrote_alloc:
  assumes "fs_wf st" "file_ok st ip" "first_free st a" "good ip'" "blocks ip' = blocks ip @ [a]" "same_meta ip ip'"
    and "off \<le> length (raw st ip) + BSIZE"
  shows "wrote st ip off [] (alloc_effect st a) ip'"
proof -
  note ok = append_ok [OF assms(1-6)]
  have map: "unat (BBLOCK st a) < data_start st"
    using BBLOCK_facts(2) [of st a] assms(1,3) by (auto simp: fs_wf_def first_free_def)
  have "used (alloc_effect st a) b \<and> cache (alloc_effect st a) b = cache st b"
    if "data_start st \<le> unat b" "unat b < unat (sb_size (sb st))" "used st b" for b
    using used_alloc [OF assms(1,3) that(2)] that map assms(3) by (auto simp: first_free_def)
  moreover have "\<exists>z. off + length [] \<le> length (raw st ip) + z \<and>
      raw (alloc_effect st a) ip' = patch off [] (raw st ip @ replicate z 0)"
    using ok(3) assms(7) by (intro exI [of _ BSIZE]) simp
  moreover have "b \<in> set (blocks ip) \<or> \<not> used st b" if "b \<in> set (blocks ip')" for b
    using that assms(3,5) by (auto simp: first_free_def)
  ultimately show ?thesis unfolding wrote_def using ok(1,2) assms(5,6) by auto
qed

lemma wrote_block:
  assumes "fs_wf st" "file_ok st ip" "off div BSIZE < length (blocks ip)" "off mod BSIZE + length bs \<le> BSIZE"
  shows "wrote st ip off bs (note_logged (set_buf st (blocks ip ! (off div BSIZE))
    (patch (off mod BSIZE) bs (cache st (blocks ip ! (off div BSIZE))))) (blocks ip ! (off div BSIZE))) ip"
proof -
  let ?b = "blocks ip ! (off div BSIZE)"
  let ?st = "note_logged (set_buf st ?b (patch (off mod BSIZE) bs (cache st ?b))) ?b"
  note ok = write_block_ok [OF assms]
  have b: "?b \<in> set (blocks ip)" using assms(3) by simp
  have d: "data_start st \<le> unat ?b" using assms(2) b by (auto simp: file_ok_def)
  have len: "length (patch (off mod BSIZE) bs (cache st ?b)) = BSIZE"
    using assms(4) block_facts(3) [OF assms(1,2) b] by (simp add: length_patch)
  have "used ?st c \<and> cache ?st c = cache st c" if "unat c < unat (sb_size (sb st))" "used st c" "c \<notin> set (blocks ip)" for c
    using data_write(2) [OF assms(1) d len that(1)] that b by auto
  moreover have "\<exists>z. off + length bs \<le> length (raw st ip) + z \<and> raw ?st ip = patch off bs (raw st ip @ replicate z 0)"
  proof (intro exI [of _ 0] conjI)
    have "off + length bs \<le> BSIZE * (off div BSIZE) + BSIZE" using assms(4) by (metis add.assoc add_left_mono div_mult_mod_eq mult.commute)
    also have "\<dots> \<le> BSIZE * length (blocks ip)" using assms(3) by simp
    finally show "off + length bs \<le> length (raw st ip) + 0" using length_raw [OF assms(1)] by simp
    show "raw ?st ip = patch off bs (raw st ip @ replicate 0 0)" using ok(3) by simp
  qed
  ultimately show ?thesis unfolding wrote_def using ok(1,2) by (simp add: same_meta_def)
qed

text \<open>One iteration of the write loop.\<close>

lemma write_step:
  assumes "fs_wf st" "file_ok st ip" "off \<le> BSIZE * length (blocks ip)" "off < BSIZE * cap"
    and "bmap st ip (word_of_nat (off div BSIZE)) = Some (addr, st1, ip1)" "off mod BSIZE + length bs \<le> BSIZE"
  shows "addr = 0 \<Longrightarrow> wrote st ip off [] st1 ip1"
    "addr \<noteq> 0 \<Longrightarrow> addr < fssize st1 \<and>
       wrote st ip off bs (note_logged (set_buf st1 addr (patch (off mod BSIZE) bs (cache st1 addr))) addr) ip1"
proof -
  have good: "good ip" using assms(2) by (simp add: file_ok_def)
  have fit: "off \<le> length (raw st ip)" using assms(3) length_raw [OF assms(1)] by simp
  have "(addr = 0 \<longrightarrow> wrote st ip off [] st1 ip1) \<and> (addr \<noteq> 0 \<longrightarrow> addr < fssize st1 \<and>
       wrote st ip off bs (note_logged (set_buf st1 addr (patch (off mod BSIZE) bs (cache st1 addr))) addr) ip1)"
  proof (cases "off div BSIZE < length (blocks ip)")
    case True
    then have eq: "addr = blocks ip ! (off div BSIZE)" "st1 = st" "ip1 = ip"
      using bmap_lookup [OF good True, of st] assms(5) by auto
    have b: "blocks ip ! (off div BSIZE) \<in> set (blocks ip)" using True by simp
    show ?thesis
      using wrote_block [OF assms(1,2) True assms(6)] block_facts [OF assms(1,2) b] eq by simp
  next
    case False
    then have k: "off div BSIZE = length (blocks ip)"
      using assms(3) by (metis div_le_mono div_mult_self1_is_m le_antisym mult.commute not_less zero_less_numeral nonzero_mult_div_cancel_left zero_neq_numeral)
    then have "length (blocks ip) < cap" using assms(4) by (metis less_mult_imp_div_less mult.commute)
    from bmap_append [OF good assms(1) this] assms(5) k
    consider "addr = 0" "ip1 = ip" "quiet st st1"
      | "first_free st addr" "st1 = alloc_effect st addr" "good ip1" "blocks ip1 = blocks ip @ [addr]" "same_meta ip ip1"
      by metis
    then show ?thesis
    proof cases
      case 1
      then show ?thesis using wrote_quiet [OF assms(1,2) _ fit] by simp
    next
      case 2
      have ne: "addr \<noteq> 0" "addr < fssize st1"
        using 2 assms(1) first_free_data [OF assms(1) 2(1)]
        by (auto simp: fs_wf_def layout_ok_def word_nat first_free_def data_start_def)
      have a: "wrote st ip off [] st1 ip1"
        using wrote_alloc [OF assms(1,2) 2(1,3,4,5)] fit 2(2) by simp
      then have ok1: "fs_wf st1" "file_ok st1 ip1" by (simp_all add: wrote_def)
      have k1: "off div BSIZE < length (blocks ip1)" "blocks ip1 ! (off div BSIZE) = addr"
        using 2(4) k by simp_all
      have "wrote st1 ip1 (off + length []) bs (note_logged (set_buf st1 addr (patch (off mod BSIZE) bs (cache st1 addr))) addr) ip1"
        using wrote_block [OF ok1 k1(1) assms(6)] k1(2) by simp
      from wrote_trans [OF a this] assms(2) ne show ?thesis by (simp add: file_ok_def)
    qed
  qed
  then show "addr = 0 \<Longrightarrow> wrote st ip off [] st1 ip1"
    "addr \<noteq> 0 \<Longrightarrow> addr < fssize st1 \<and>
       wrote st ip off bs (note_logged (set_buf st1 addr (patch (off mod BSIZE) bs (cache st1 addr))) addr) ip1"
    by simp_all
qed

lemma wrote_length:
  assumes "wrote st ip off bs st' ip'"
  shows "off + length bs \<le> BSIZE * length (blocks ip')"
proof -
  obtain z where "off + length bs \<le> length (raw st ip) + z" "raw st' ip' = patch off bs (raw st ip @ replicate z 0)"
    using assms by (auto simp: wrote_def)
  then have "off + length bs \<le> length (raw st' ip')" by (simp add: length_patch)
  moreover have "fs_wf st'" using assms by (simp add: wrote_def)
  ultimately show ?thesis using length_raw by metis
qed

lemma writei_loop_wrote:
  assumes "fs_wf st" "file_ok st ip" "off \<le> BSIZE * length (blocks ip)" "tot \<le> length src"
    and "off + (length src - tot) \<le> BSIZE * cap" "writei_loop st ip src off tot = Some (r, st', ip')"
  shows "tot \<le> r \<and> r \<le> length src \<and> wrote st ip off (take (r - tot) (drop tot src)) st' ip'"
  using assms
proof (induction st ip src off tot rule: writei_loop.induct)
  case (1 st ip src off tot)
  show ?case
  proof (cases "tot < length src")
    case False
    then have "r = tot" "st' = st" "ip' = ip" using "1.prems"(6) by (simp_all add: writei_loop.simps [of st ip src off])
    moreover have "quiet st st" using "1.prems"(1) by (simp add: quiet_def)
    then have "wrote st ip off [] st ip"
      using wrote_quiet [OF "1.prems"(1,2)] "1.prems"(3) length_raw [OF "1.prems"(1)] by simp
    ultimately show ?thesis using "1.prems"(4) by simp
  next
    case True
    define m where "m = min (length src - tot) (BSIZE - off mod BSIZE)"
    let ?bs = "take m (drop tot src)"
    have m: "length ?bs = m" "0 < m" "tot + m \<le> length src" using True by (simp_all add: m_def)
    obtain addr st1 ip1 where bm: "bmap st ip (word_of_nat (off div BSIZE)) = Some (addr, st1, ip1)"
      using "1.prems"(6) True unfolding writei_loop.simps [of st ip src off]
      by (auto simp: bind_Some_iff split: prod.splits)
    have "off < BSIZE * cap" using "1.prems"(5) True by simp
    note step = write_step [OF "1.prems"(1-3) this bm, of ?bs]
    have fits: "off mod BSIZE + length ?bs \<le> BSIZE" using m(1) by (simp add: m_def)
    show ?thesis
    proof (cases "addr = 0")
      case z: True
      then have "r = tot" "st' = st1" "ip' = ip1"
        using "1.prems"(6) bm True unfolding writei_loop.simps [of st ip src off] by simp_all
      then show ?thesis using step(1) [OF fits z] True by simp
    next
      case nz: False
      define st2 where "st2 = note_logged (set_buf st1 addr (patch (off mod BSIZE) ?bs (cache st1 addr))) addr"
      note s2 = step(2) [OF fits nz, folded st2_def]
      have w: "wrote st ip off ?bs st2 ip1" and addr: "bread st1 addr = Some (cache st1 addr)"
        using s2 bread_ok by auto
      have lw: "log_write (set_buf st1 addr (patch (off mod BSIZE) ?bs (cache st1 addr))) addr = Some st2"
        and rest: "writei_loop st2 ip1 src (off + m) (tot + m) = Some (r, st', ip')"
        using "1.prems"(6) True nz unfolding writei_loop.simps [of st ip src off] bm
        by (auto simp: Let_def addr m_def [symmetric] log_write_eq st2_def split: if_splits)
      have "fs_wf st2" "file_ok st2 ip1" using w by (simp_all add: wrote_def)
      moreover have "off + m \<le> BSIZE * length (blocks ip1)" using wrote_length [OF w] m(1) by simp
      moreover have "off + m + (length src - (tot + m)) \<le> BSIZE * cap" using "1.prems"(5) m(3) by simp
      ultimately have IH: "tot + m \<le> r \<and> r \<le> length src \<and>
          wrote st2 ip1 (off + m) (take (r - (tot + m)) (drop (tot + m) src)) st' ip'"
        using "1.IH" [OF True bm refl refl nz addr m_def lw] m(3) rest by blast
      have "wrote st ip off (?bs @ take (r - (tot + m)) (drop (tot + m) src)) st' ip'"
        using IH m(1) "1.prems"(2) by (intro wrote_trans [OF w]) (auto simp: file_ok_def)
      moreover have "r - tot = m + (r - (tot + m))" using IH by simp
      then have "?bs @ take (r - (tot + m)) (drop (tot + m) src) = take (r - tot) (drop tot src)"
        by (simp only: take_add drop_drop add.commute [of tot m])
      ultimately show ?thesis using IH by simp
    qed
  qed
qed

lemma readi_contents:
  assumes "fs_wf st" "file_ok st ip" "itype ip \<noteq> T_DEV" "off \<le> isize ip" "unat off + unat n < 2 ^ 32"
  shows "readi st ip off n = Some (int (min (unat n) (unat (isize ip) - unat off)),
    take (unat n) (drop (unat off) (contents st ip)), st, ip)"
proof -
  have nw: "unat (off + n) = unat off + unat n" using assms(5) by (intro unat_add_nowrap) simp
  let ?n = "if off + n > isize ip then unat (isize ip - off) else unat n"
  have n: "?n = min (unat n) (unat (isize ip) - unat off)"
    using nw assms(4) by (auto simp: unat_lt_word unat_le_word unat_sub_le)
  have sz: "unat (isize ip) \<le> BSIZE * length (blocks ip)" "unat off \<le> unat (isize ip)"
    using assms(2,4) by (simp_all add: file_ok_def unat_le_word)
  have "readi st ip off n = readi_loop st ip (unat off) ?n 0 []"
    using assms(3,4) nw by (auto simp: readi_def unat_lt_word unat_le_word)
  also have "\<dots> = Some (int ?n, take ?n (drop (unat off) (raw st ip)), st, ip)"
    using readi_loop_ok [OF assms(1,2), of 0 ?n "unat off" "[]"] sz n by simp
  also have "take ?n (drop (unat off) (raw st ip)) = take (unat n) (drop (unat off) (contents st ip))"
    unfolding n contents_def drop_take take_take ..
  finally show ?thesis unfolding n .
qed

lemma take_patch:
  assumes "off + length bs \<le> s" "s \<le> length d"
  shows "take s (patch off bs d) = patch off bs (take s d)"
proof (cases "s \<le> off")
  case True
  then have "length bs = 0" using assms(1) by linarith
  then show ?thesis by simp
next
  case False
  then show ?thesis using assms unfolding patch_def take_append drop_take by (auto simp: min_def)
qed

lemma contents_wrote:
  assumes "fs_wf st" "file_ok st ip" "wrote st ip off bs st' ip'" "off \<le> unat (isize ip)"
    and "unat s = max (unat (isize ip)) (off + length bs)"
  shows "take (unat s) (raw st' ip') = take off (contents st ip) @ bs @ drop (off + length bs) (contents st ip)"
proof -
  obtain z where z: "off + length bs \<le> length (raw st ip) + z" "raw st' ip' = patch off bs (raw st ip @ replicate z 0)"
    using assms(3) by (auto simp: wrote_def)
  have sz: "unat (isize ip) \<le> length (raw st ip)" using assms(2) length_raw [OF assms(1)] by (simp add: file_ok_def)
  show ?thesis
  proof (cases "off + length bs \<le> unat (isize ip)")
    case True
    then show ?thesis
      using assms(5) z sz take_patch [of off bs "unat (isize ip)" "raw st ip @ replicate z 0"]
      by (simp add: contents_def patch_def)
  next
    case False
    then have "unat s = off + length bs" using assms(5) by simp
    then show ?thesis using z sz assms(4) False by (simp add: contents_def patch_def)
  qed
qed

lemma file_ok_size:
  "file_ok st ip \<Longrightarrow> unat n \<le> BSIZE * length (blocks ip) \<Longrightarrow> file_ok st (ip\<lparr>isize := n\<rparr>)"
  by (simp add: file_ok_def good_meta)

text \<open>The end of \<^verbatim>\<open>writei\<close>: the size grows if needed, and the inode is then written.\<close>

lemma write_finish:
  assumes "fs_wf st" "file_ok st ip" "wrote st ip (unat off) bs st1 ip1" "off \<le> isize ip"
    and "unat (inum ip) < unat (ninodes (sb st))" "unat off + length bs < 2 ^ 32"
    and "(if src \<noteq> [] \<and> unat off + length bs > unat (isize ip1) then
            let ip = ip1\<lparr>isize := off + word_of_nat (length bs)\<rparr> in do { st \<leftarrow> iupdate st1 ip; Some (st, ip) }
          else Some (st1, ip1)) = Some (st', ip')" "bs \<noteq> [] \<Longrightarrow> src \<noteq> []"
  shows "fs_wf st'" "file_ok st' ip'" "same_meta (ip\<lparr>isize := isize ip'\<rparr>) ip'" "sb st' = sb st"
    "contents st' ip' = take (unat off) (contents st ip) @ bs @ drop (unat off + length bs) (contents st ip)"
proof -
  have w: "fs_wf st1" "file_ok st1 ip1" "sb st1 = sb st" and meta: "same_meta ip ip1"
    using assms(3) by (simp_all add: wrote_def)
  note mf = same_meta_fields [OF meta]
  have off: "unat off \<le> unat (isize ip)" using assms(4) by (simp add: unat_le_word)
  have "fs_wf st' \<and> file_ok st' ip' \<and> same_meta (ip\<lparr>isize := isize ip'\<rparr>) ip' \<and> sb st' = sb st \<and>
    unat (isize ip') = max (unat (isize ip)) (unat off + length bs) \<and> raw st' ip' = raw st1 ip1"
  proof (cases "unat off + length bs > unat (isize ip)")
    case True
    let ?ip = "ip1\<lparr>isize := off + word_of_nat (length bs)\<rparr>"
    have sz: "unat (off + word_of_nat (length bs)) = unat off + length bs"
      using assms(6) by (subst unat_add_nowrap) (simp_all add: unat_of_nat_lt)
    have "bs \<noteq> []" using True off by auto
    then have "src \<noteq> []" by (rule assms(8))
    then have up: "iupdate st1 ?ip = Some st'" and ip': "ip' = ?ip"
      using assms(7) True mf by (auto simp: Let_def bind_Some_iff)
    have inum: "unat (inum ?ip) < unat (ninodes (sb st1))" using assms(5) mf w(3) by simp
    have ad: "length (addrs ?ip) = NDIRECT + 1" using w(2) good_cap by (simp add: file_ok_def)
    have q: "quiet st1 st'"
      using up iupdate_eq [OF w(1) inum] update_effect_ok(1) [OF w(1) inum ad] by (auto split: if_splits)
    have ok: "file_ok st1 ?ip"
      using w(2) wrote_length [OF assms(3)] sz by (intro file_ok_size) simp_all
    have fo: "file_ok st' ?ip" using ok by (rule file_ok_mono) (use q in \<open>simp_all add: quiet_def\<close>)
    have "raw st' ?ip = raw st1 ?ip"
      using ok q by (intro raw_cong) (auto simp: quiet_def file_ok_def)
    then have "raw st' ip' = raw st1 ip1" by (simp add: ip' raw_def good_meta)
    moreover have "same_meta (ip\<lparr>isize := isize ip'\<rparr>) ip'"
      using same_meta_isize [OF meta] by (simp add: ip')
    ultimately show ?thesis using q fo sz True w(3) by (simp add: quiet_def ip')
  next
    case False
    then have "st' = st1" "ip' = ip1" using assms(7) mf by auto
    moreover have "same_meta (ip\<lparr>isize := isize ip1\<rparr>) ip1"
      using same_meta_isize [OF meta, of "isize ip1"] by simp
    ultimately show ?thesis using w mf False by simp
  qed
  then show "fs_wf st'" "file_ok st' ip'" "same_meta (ip\<lparr>isize := isize ip'\<rparr>) ip'" "sb st' = sb st"
    "contents st' ip' = take (unat off) (contents st ip) @ bs @ drop (unat off + length bs) (contents st ip)"
    using contents_wrote [OF assms(1-3) off, of "isize ip'"] by (simp_all add: contents_def [of st' ip'])
qed

lemma writei_contents:
  assumes "fs_wf st" "file_ok st ip" "itype ip \<noteq> T_DEV" "off \<le> isize ip"
    and "unat (inum ip) < unat (ninodes (sb st))"
    and "unat off + length src \<le> BSIZE * cap" "BSIZE * cap \<le> unat (write_limit ip)"
    and "writei st ip src off = Some (r, st', ip')"
  shows "\<exists>t. t \<le> length src \<and> r = (if t = 0 \<and> src \<noteq> [] then - 1 else int t) \<and>
    fs_wf st' \<and> file_ok st' ip' \<and> same_meta (ip\<lparr>isize := isize ip'\<rparr>) ip' \<and> sb st' = sb st \<and>
    contents st' ip' = take (unat off) (contents st ip) @ take t src @ drop (unat off + t) (contents st ip)"
proof -
  have lim: "unat off + length src < 2 ^ 31"
  proof -
    have "BSIZE * cap \<le> BSIZE * 3060" using cap_bound by (intro mult_le_mono2)
    also have "\<dots> < 2 ^ 31" by simp
    finally show ?thesis using assms(6) by linarith
  qed
  let ?n = "word_of_nat (length src) :: u32"
  have n: "unat ?n = length src" using lim by (intro unat_of_nat_lt) simp
  have on: "unat (off + ?n) = unat off + length src" using lim n by (subst unat_add_nowrap) simp_all
  have "\<not> (off > isize ip \<or> off + ?n < off)" "\<not> off + ?n > write_limit ip"
    using assms(4,6,7) on by (auto simp: unat_lt_word unat_le_word)
  then obtain tot st1 ip1 where loop: "writei_loop st ip src (unat off) 0 = Some (tot, st1, ip1)"
    and fin: "(if src \<noteq> [] \<and> unat off + tot > unat (isize ip1) then
          let ip = ip1\<lparr>isize := off + word_of_nat tot\<rparr> in do { st \<leftarrow> iupdate st1 ip; Some (st, ip) }
        else Some (st1, ip1)) = Some (st', ip')"
    and r: "r = (if tot = 0 \<and> src \<noteq> [] then - 1 else int tot)"
    using assms(3,8) by (auto simp: writei_def Let_def bind_Some_iff split: prod.splits)
  have fo: "unat off \<le> BSIZE * length (blocks ip)" using assms(2,4) by (simp add: file_ok_def unat_le_word)
  have w: "tot \<le> length src" "wrote st ip (unat off) (take tot src) st1 ip1"
    using writei_loop_wrote [OF assms(1,2) fo, of 0 src] loop assms(6) by auto
  then have len: "length (take tot src) = tot" by simp
  have fits: "unat off + length (take tot src) < 2 ^ 32" using lim w(1) by simp
  have "take tot src \<noteq> [] \<Longrightarrow> src \<noteq> []" by auto
  moreover have "(if src \<noteq> [] \<and> unat off + length (take tot src) > unat (isize ip1) then
          let ip = ip1\<lparr>isize := off + word_of_nat (length (take tot src))\<rparr> in do { st \<leftarrow> iupdate st1 ip; Some (st, ip) }
        else Some (st1, ip1)) = Some (st', ip')"
    unfolding len by (rule fin)
  ultimately have res: "fs_wf st'" "file_ok st' ip'" "same_meta (ip\<lparr>isize := isize ip'\<rparr>) ip'" "sb st' = sb st"
    "contents st' ip' = take (unat off) (contents st ip) @ take tot src @ drop (unat off + length (take tot src)) (contents st ip)"
    using write_finish [OF assms(1,2) w(2) assms(4,5) fits] by blast+
  show ?thesis using res w(1) r len by (intro exI [of _ tot]) simp
qed

text \<open>
  Writing does not panic: every block touched needs at most three log entries and one free block.
\<close>

lemma bmap_step_total:
  assumes "fs_wf st" "file_ok st ip" "off \<le> BSIZE * length (blocks ip)" "off < BSIZE * cap"
    and "log_room st (j + 3)" "0 < free_count st"
  shows "\<exists>addr st1 ip1. bmap st ip (word_of_nat (off div BSIZE)) = Some (addr, st1, ip1) \<and>
    log_room st1 j \<and> (addr \<noteq> 0 \<longrightarrow> log_room st1 (j + 1) \<and> free_count st \<le> free_count st1 + 1 \<and>
      fs_wf st1 \<and> data_start st1 \<le> unat addr) \<and>
    (addr = 0 \<longrightarrow> stuck st1 ip1 \<and> off = BSIZE * length (blocks ip1))"
proof -
  have good: "good ip" using assms(2) by (simp add: file_ok_def)
  show ?thesis
  proof (cases "off div BSIZE < length (blocks ip)")
    case True
    have "log_room st j" "log_room st (j + 1)" using assms(5) by (auto intro: log_room_mono)
    moreover have "blocks ip ! (off div BSIZE) \<in> set (blocks ip)" using True by simp
    then have "data_start st \<le> unat (blocks ip ! (off div BSIZE))" using assms(2) by (auto simp: file_ok_def)
    ultimately show ?thesis
      using bmap_lookup [OF good True, of st] assms(1) block_facts(2) [OF assms(1,2) nth_mem [OF True]] by simp
  next
    case False
    have "off div BSIZE \<le> (BSIZE * length (blocks ip)) div BSIZE" using assms(3) by (rule div_le_mono)
    then have k: "off div BSIZE = length (blocks ip)" using False by simp
    then have len: "length (blocks ip) < cap" using assms(4) by (metis less_mult_imp_div_less mult.commute)
    have off: "off = BSIZE * length (blocks ip)"
      using assms(3) k mult_div_mod_eq [of BSIZE off] by simp
    obtain a where a: "first_free st a" using free_count_pos [OF assms(6)] by blast
    moreover have "log_room st 3" using assms(5) by (rule log_room_mono) simp
    ultimately obtain addr st1 ip1 where bm: "bmap st ip (word_of_nat (length (blocks ip))) = Some (addr, st1, ip1)"
      using bmap_total [OF good assms(1) len] by (metis prod_cases3)
    have "stuck st1 ip1 \<and> off = BSIZE * length (blocks ip1)" if "addr = 0"
      using bmap_stuck [OF good assms(1) len a, of st1 ip1] bmap_append [OF good assms(1) len bm] bm that off
        first_free_data [OF assms(1), of 0] by (auto simp: data_start_def)
    moreover have "log_room st1 (j + 1) \<and> free_count st \<le> free_count st1 + 1 \<and> fs_wf st1 \<and> data_start st1 \<le> unat addr"
      if "addr \<noteq> 0"
    proof -
      have a: "first_free st addr" "st1 = alloc_effect st addr"
        using bmap_append [OF good assms(1) len bm] that by auto
      have "log_room st (j + 1 + 2)" using assms(5) by (rule log_room_mono) simp
      from log_room_alloc [OF this] free_count_alloc [OF assms(1) a(1)] alloc_effect_wf [OF assms(1) a(1)]
        first_free_data [OF assms(1) a(1)] sb_cong(2) [of st1 st] a(2)
      show ?thesis by simp
    qed
    ultimately show ?thesis using bm bmap_room [OF good assms(1) len bm assms(5)] k by auto
  qed
qed

lemma writei_loop_total:
  assumes "fs_wf st" "file_ok st ip" "off \<le> BSIZE * length (blocks ip)" "tot \<le> length src"
    and "off + (length src - tot) \<le> BSIZE * cap"
    and "log_room st (3 * touched_blocks off (length src - tot) + j)" "touched_blocks off (length src - tot) \<le> free_count st"
  shows "\<exists>r st' ip'. writei_loop st ip src off tot = Some (r, st', ip') \<and> log_room st' j \<and>
    (r = length src \<or> stuck st' ip' \<and> off + r = tot + BSIZE * length (blocks ip'))"
  using assms
proof (induction st ip src off tot rule: writei_loop.induct)
  case (1 st ip src off tot)
  show ?case
  proof (cases "tot < length src")
    case False
    then show ?thesis using "1.prems"(4,6) by (auto simp: writei_loop.simps [of st ip src off] touched_blocks_def)
  next
    case True
    define m where "m = min (length src - tot) (BSIZE - off mod BSIZE)"
    let ?bs = "take m (drop tot src)"
    have m: "length ?bs = m" "tot + m \<le> length src" using True by (simp_all add: m_def)
    define k where "k = touched_blocks (off + m) (length src - (tot + m))"
    have k: "k + 1 \<le> touched_blocks off (length src - tot)"
      using touched_blocks_step [of "length src - tot" off] True by (simp add: m_def k_def)
    have "log_room st (3 * k + j + 3)" using "1.prems"(6) by (rule log_room_mono) (use k in simp)
    moreover have lt: "off < BSIZE * cap" using "1.prems"(5) True by simp
    moreover have "0 < free_count st" using "1.prems"(7) k by simp
    ultimately obtain addr st1 ip1 where bm: "bmap st ip (word_of_nat (off div BSIZE)) = Some (addr, st1, ip1)"
      and rm: "log_room st1 (3 * k + j)" "addr \<noteq> 0 \<longrightarrow> log_room st1 (3 * k + j + 1) \<and> free_count st \<le> free_count st1 + 1 \<and>
        fs_wf st1 \<and> data_start st1 \<le> unat addr"
        "addr = 0 \<longrightarrow> stuck st1 ip1 \<and> off = BSIZE * length (blocks ip1)"
      using bmap_step_total [OF "1.prems"(1-3)] by blast
    have fits: "off mod BSIZE + length ?bs \<le> BSIZE" using m(1) by (simp add: m_def)
    note step = write_step [OF "1.prems"(1-3) lt bm fits]
    show ?thesis
    proof (cases "addr = 0")
      case z: True
      have "log_room st1 j" using rm(1) by (rule log_room_mono) simp
      moreover have "writei_loop st ip src off tot = Some (tot, st1, ip1)"
        using bm True z by (simp add: writei_loop.simps [of st ip src off])
      ultimately show ?thesis using rm(3) z by (intro exI [of _ tot] exI conjI) auto
    next
      case nz: False
      define st2 where "st2 = note_logged (set_buf st1 addr (patch (off mod BSIZE) ?bs (cache st1 addr))) addr"
      note s2 = step(2) [OF nz, folded st2_def]
      have w: "wrote st ip off ?bs st2 ip1" and addr: "bread st1 addr = Some (cache st1 addr)"
        using s2 bread_ok by auto
      have r1: "log_room st1 1" "log_room st2 (3 * k + j)"
        using rm(2) nz log_room_mono [of st1 "3 * k + j + 1" 1] by (auto simp: st2_def)
      have lw: "log_write (set_buf st1 addr (patch (off mod BSIZE) ?bs (cache st1 addr))) addr = Some st2"
        using r1(1) by (simp add: log_write_eq st2_def)
      have ok: "fs_wf st2" "file_ok st2 ip1" using w by (simp_all add: wrote_def)
      have "length (patch (off mod BSIZE) ?bs (cache st1 addr)) = BSIZE"
        using rm(2) nz fits by (intro length_patch [THEN trans]) (auto simp: fs_wf_def)
      then have "free_count st2 = free_count st1"
        using data_write(2) [of st1 addr] rm(2) nz by (intro free_count_cong) (auto simp: st2_def)
      then have f2: "k \<le> free_count st2" using rm(2) nz "1.prems"(7) k by simp
      have "\<exists>r st' ip'. writei_loop st2 ip1 src (off + m) (tot + m) = Some (r, st', ip') \<and> log_room st' j \<and>
          (r = length src \<or> stuck st' ip' \<and> off + m + r = tot + m + BSIZE * length (blocks ip'))"
        using "1.IH" [OF True bm refl refl nz addr m_def lw ok] wrote_length [OF w] m "1.prems"(5) r1(2) f2
        by (simp add: k_def)
      then show ?thesis
        unfolding writei_loop.simps [of st ip src off] using True bm nz addr lw
        by (simp add: Let_def m_def [symmetric])
    qed
  qed
qed

lemma writei_total:
  assumes "fs_wf st" "file_ok st ip" "itype ip \<noteq> T_DEV" "off \<le> isize ip"
    and "unat (inum ip) < unat (ninodes (sb st))"
    and "unat off + length src \<le> BSIZE * cap" "BSIZE * cap \<le> unat (write_limit ip)"
    and "log_room st (3 * touched_blocks (unat off) (length src) + 1)"
      "touched_blocks (unat off) (length src) \<le> free_count st"
  shows "\<exists>t st' ip'. writei st ip src off = Some (if t = 0 \<and> src \<noteq> [] then - 1 else int t, st', ip') \<and>
    (t = length src \<or> stuck st' ip' \<and> unat off + t = BSIZE * length (blocks ip'))"
proof -
  have "BSIZE * cap \<le> BSIZE * 3060" using cap_bound by (intro mult_le_mono2)
  then have lim: "unat off + length src < 2 ^ 32" using assms(6) by simp
  let ?n = "word_of_nat (length src) :: u32"
  have n: "unat ?n = length src" using lim by (intro unat_of_nat_lt) simp
  have on: "unat (off + ?n) = unat off + length src" using lim n by (subst unat_add_nowrap) simp_all
  have guards: "\<not> (off > isize ip \<or> off + ?n < off)" "\<not> off + ?n > write_limit ip"
    using assms(4,6,7) on by (auto simp: unat_lt_word unat_le_word)
  have fo: "unat off \<le> BSIZE * length (blocks ip)" using assms(2,4) by (simp add: file_ok_def unat_le_word)
  obtain tot st1 ip1 where loop: "writei_loop st ip src (unat off) 0 = Some (tot, st1, ip1)" and room: "log_room st1 1"
    and fin: "tot = length src \<or> stuck st1 ip1 \<and> unat off + tot = BSIZE * length (blocks ip1)"
    using writei_loop_total [OF assms(1,2) fo, of 0 src 1] assms(6,8,9) by auto
  have w: "wrote st ip (unat off) (take tot src) st1 ip1"
    using writei_loop_wrote [OF assms(1,2) fo, of 0 src] loop assms(6) by auto
  then have wf: "fs_wf st1" "unat (inum ip1) < unat (ninodes (sb st1))" "length (addrs ip1) = NDIRECT + 1"
    using assms(5) same_meta_fields [of ip ip1] good_cap by (simp_all add: wrote_def file_ok_def)
  let ?ip = "ip1\<lparr>isize := off + word_of_nat tot\<rparr>"
  have up: "iupdate st1 ?ip = Some (update_effect st1 ?ip)"
    using iupdate_eq [of st1 ?ip] wf room by simp
  have "quiet st1 (update_effect st1 ?ip)" using wf by (intro update_effect_ok(1)) simp_all
  then have st: "stuck st1 ip1 \<Longrightarrow> stuck (update_effect st1 ?ip) ?ip" using stuck_quiet by blast
  show ?thesis
  proof (cases "src \<noteq> [] \<and> unat off + tot > unat (isize ip1)")
    case True
    then have "writei st ip src off = Some (if tot = 0 \<and> src \<noteq> [] then - 1 else int tot, update_effect st1 ?ip, ?ip)"
      using assms(3) guards loop up by (simp add: writei_def Let_def)
    then show ?thesis using fin st good_meta(2)
      by (intro exI [of _ tot] exI [of _ "update_effect st1 ?ip"] exI [of _ ?ip] conjI) auto
  next
    case False
    then have "writei st ip src off = Some (if tot = 0 \<and> src \<noteq> [] then - 1 else int tot, st1, ip1)"
      using assms(3) guards loop by (auto simp: writei_def Let_def)
    then show ?thesis using fin by (intro exI conjI)
  qed
qed

end

end
