(* ===== verification/Xv6_CS.thy ===== *)
theory Xv6_CS
  imports Xv6_Files
begin

text \<open>
  Continuous-sector files.  The 12 direct entries of a CS inode hold runs of consecutive blocks: a 24-bit
  start and an 8-bit length.  Reference: the list of blocks the runs describe.  Shown: \<^verbatim>\<open>csbmap\<close>
  looks up and appends to that list, so CS inodes are an instance of \<open>block_map\<close>, and truncation
  frees exactly the blocks of the list.
\<close>

subsection \<open>Runs\<close>

definition run_len :: "u32 \<Rightarrow> nat" where
  "run_len e = unat (e AND 0xFF)"

definition run_blocks :: "u32 \<Rightarrow> u32 list" where
  "run_blocks e = map (\<lambda>k. drop_bit 8 e + word_of_nat k) [0..<run_len e]"

definition cs_entries :: "inode \<Rightarrow> u32 list" where
  "cs_entries ip = takeWhile (\<lambda>e. e \<noteq> 0) (take NDIRECT (addrs ip))"

definition cs_blocks :: "inode \<Rightarrow> u32 list" where
  "cs_blocks ip = concat (map run_blocks (cs_entries ip))"

definition cs_ok :: "inode \<Rightarrow> bool" where
  "cs_ok ip \<longleftrightarrow> itype ip = T_CS \<and> length (addrs ip) = NDIRECT + 1 \<and>
     take NDIRECT (addrs ip) = cs_entries ip @ replicate (NDIRECT - length (cs_entries ip)) 0 \<and>
     (\<forall>e \<in> set (cs_entries ip). e AND 0xFF \<noteq> 0)"

lemma run_len_bound: "run_len e \<le> 255"
proof -
  have "(0xFF :: u32) = mask 8" by (simp add: mask_eq_exp_minus_1)
  then have "run_len e = unat e mod 2 ^ 8" unfolding run_len_def by (simp only: unat_and_mask)
  then show ?thesis by simp
qed

lemma length_run_blocks [simp]: "length (run_blocks e) = run_len e"
  by (simp add: run_blocks_def)

lemma small_bits: "unat (l :: u32) < 256 \<Longrightarrow> bit l n \<Longrightarrow> n < 8"
proof (rule ccontr)
  assume l: "unat l < 256" "bit l n" "\<not> n < 8"
  have "l = l AND mask 8"
    using l(1) by (simp add: word_unat_eq_iff unat_and_mask)
  then have "bit (l AND mask 8) n" using l(2) by simp
  then show False using l(3) by (simp add: bit_simps)
qed

lemma high_bits: "unat (s :: u32) < 2 ^ 24 \<Longrightarrow> bit s n \<Longrightarrow> n < 24"
proof (rule ccontr)
  assume s: "unat s < 2 ^ 24" "bit s n" "\<not> n < 24"
  have "s = s AND mask 24"
    using s(1) by (simp add: word_unat_eq_iff unat_and_mask)
  then have "bit (s AND mask 24) n" using s(2) by simp
  then show False using s(3) by (simp add: bit_simps)
qed

lemma run_fields:
  assumes "unat s < 2 ^ 24" "unat l < 256"
  shows "drop_bit 8 (push_bit 8 s OR l) = (s :: u32)" "(push_bit 8 s OR l) AND 0xFF = l"
proof -
  show "drop_bit 8 (push_bit 8 s OR l) = s"
    by (rule bit_word_eqI) (use small_bits [OF assms(2)] high_bits [OF assms(1)] in \<open>fastforce simp: bit_simps\<close>)
  have "(0xFF :: u32) = mask 8" by (simp add: mask_eq_exp_minus_1)
  moreover have "(push_bit 8 s OR l) AND mask 8 = l"
    by (rule bit_word_eqI) (use small_bits [OF assms(2)] in \<open>auto simp: bit_simps\<close>)
  ultimately show "(push_bit 8 s OR l) AND 0xFF = l" by simp
qed

lemma drop_bit_24: "unat (drop_bit 8 (e :: u32)) < 2 ^ 24"
  using unsigned_less [of e, where ?'a = nat] by (simp add: unat_drop_bit_div less_mult_imp_div_less)

lemma run_extend:
  assumes "run_len e < 255"
  shows "run_blocks (push_bit 8 (drop_bit 8 e) OR ((e AND 0xFF) + 1)) = run_blocks e @ [drop_bit 8 e + (e AND 0xFF)]"
    "(push_bit 8 (drop_bit 8 e) OR ((e AND 0xFF) + 1)) AND 0xFF \<noteq> 0"
proof -
  let ?e = "push_bit 8 (drop_bit 8 e) OR ((e AND 0xFF) + 1)"
  have l: "unat ((e AND 0xFF) + 1) = run_len e + 1"
    using assms by (subst unat_add_nowrap) (simp_all add: run_len_def)
  have f: "drop_bit 8 ?e = drop_bit 8 e" "?e AND 0xFF = (e AND 0xFF) + 1"
    using run_fields [OF drop_bit_24, of "(e AND 0xFF) + 1" e] l assms by auto
  then have "run_len ?e = Suc (run_len e)" using l unfolding run_len_def by simp
  then show "run_blocks ?e = run_blocks e @ [drop_bit 8 e + (e AND 0xFF)]"
    unfolding run_blocks_def f(1) by (simp add: run_len_def)
  show "?e AND 0xFF \<noteq> 0" unfolding f(2) using l by (metis Suc_eq_plus1 nat.simps(3) unat_0)
qed

lemma run_new:
  assumes "unat a < 2 ^ 24"
  shows "run_blocks (push_bit 8 a OR 1) = [a]" "(push_bit 8 a OR 1) AND 0xFF \<noteq> (0 :: u32)"
proof -
  have f: "drop_bit 8 (push_bit 8 a OR 1) = a" "(push_bit 8 a OR 1) AND 0xFF = (1 :: u32)"
    using run_fields [OF assms, of 1] by simp_all
  show "run_blocks (push_bit 8 a OR 1) = [a]" unfolding run_blocks_def run_len_def f by simp
  show "(push_bit 8 a OR 1) AND 0xFF \<noteq> (0 :: u32)" unfolding f by simp
qed

subsection \<open>The scan and the append\<close>

lemma length_runs: "length (concat (map run_blocks es)) \<le> 255 * length es"
proof (induction es)
  case (Cons e es)
  then show ?case using run_len_bound [of e] by simp
qed simp

lemma cs_walk_runs:
  assumes "\<And>e. e \<in> set es \<Longrightarrow> e AND 0xFF \<noteq> 0" "unat t \<le> unat bn"
    and "unat t + length (concat (map run_blocks es)) < 2 ^ 32"
  shows "cs_walk (es @ replicate m 0) bn t k =
    (if unat bn < unat t + length (concat (map run_blocks es))
     then CsFound (concat (map run_blocks es) ! (unat bn - unat t))
     else CsEnd (t + word_of_nat (length (concat (map run_blocks es)))) (k + length es))"
  using assms
proof (induction es arbitrary: t k)
  case Nil
  then show ?case by (cases m) auto
next
  case (Cons e es)
  let ?l = "e AND 0xFF" and ?rest = "concat (map run_blocks es)"
  have e: "?l \<noteq> 0" using Cons.prems(1) by simp
  then have ne: "e \<noteq> 0" by auto
  have l: "unat ?l = run_len e" by (simp add: run_len_def)
  have tl: "unat (t + ?l) = unat t + run_len e"
    using Cons.prems(3) l by (subst unat_add_nowrap) simp_all
  show ?case
  proof (cases "unat bn < unat t + run_len e")
    case True
    then have "bn < t + ?l" using tl by (simp add: unat_lt_word)
    then have "cs_walk ((e # es) @ replicate m 0) bn t k = CsFound (drop_bit 8 e + (bn - t))"
      using ne e by (simp add: Let_def)
    moreover have "word_of_nat (unat bn - unat t) = bn - t"
      using Cons.prems(2) by (intro word_of_unat unat_sub_le) (simp add: unat_le_word)
    moreover have "unat bn - unat t < run_len e" using True Cons.prems(2) by linarith
    ultimately show ?thesis using True by (simp add: nth_append run_blocks_def)
  next
    case False
    then have "\<not> bn < t + ?l" using tl by (simp add: unat_lt_word)
    then have "cs_walk ((e # es) @ replicate m 0) bn t k = cs_walk (es @ replicate m 0) bn (t + ?l) (k + 1)"
      using ne e by (simp add: Let_def)
    also have "\<dots> = (if unat bn < unat (t + ?l) + length ?rest
     then CsFound (?rest ! (unat bn - unat (t + ?l)))
     else CsEnd (t + ?l + word_of_nat (length ?rest)) (k + 1 + length es))"
      using Cons.prems tl False by (intro Cons.IH) auto
    finally have w: "cs_walk ((e # es) @ replicate m 0) bn t k = (if unat bn < unat (t + ?l) + length ?rest
     then CsFound (?rest ! (unat bn - unat (t + ?l)))
     else CsEnd (t + ?l + word_of_nat (length ?rest)) (k + 1 + length es))" .
    have "word_of_nat (run_len e) = ?l" by (simp add: run_len_def)
    then have tot: "t + ?l + word_of_nat (length ?rest) = t + word_of_nat (run_len e + length ?rest)" by (simp add: add.assoc)
    have "\<not> unat bn - unat t < run_len e" using False Cons.prems(2) by linarith
    then have idx: "(run_blocks e @ ?rest) ! (unat bn - unat t) = ?rest ! (unat bn - (unat t + run_len e))"
      by (simp add: nth_append)
    have app: "concat (map run_blocks (e # es)) = run_blocks e @ ?rest" by simp
    show ?thesis unfolding w tl tot app idx by (simp add: add.assoc)
  qed
qed

lemma cs_length:
  assumes "cs_ok ip"
  shows "length (cs_entries ip) \<le> NDIRECT" "length (cs_blocks ip) \<le> MAXCSBLOCKS"
proof -
  have "length (take NDIRECT (addrs ip)) \<le> NDIRECT" by simp
  then show l: "length (cs_entries ip) \<le> NDIRECT"
    unfolding cs_entries_def by (meson le_trans length_takeWhile_le)
  have "255 * length (cs_entries ip) \<le> 255 * NDIRECT" using l by (intro mult_le_mono2)
  then show "length (cs_blocks ip) \<le> MAXCSBLOCKS"
    using length_runs [of "cs_entries ip"] unfolding cs_blocks_def by linarith
qed

lemma cs_walk_ok:
  assumes "cs_ok ip"
  shows "cs_walk (take NDIRECT (addrs ip)) bn 0 0 =
    (if unat bn < length (cs_blocks ip) then CsFound (cs_blocks ip ! unat bn)
     else CsEnd (word_of_nat (length (cs_blocks ip))) (length (cs_entries ip)))"
proof -
  have e: "take NDIRECT (addrs ip) = cs_entries ip @ replicate (NDIRECT - length (cs_entries ip)) 0"
    and nz: "\<And>e. e \<in> set (cs_entries ip) \<Longrightarrow> e AND 0xFF \<noteq> 0"
    using assms by (auto simp: cs_ok_def)
  have "unat (0 :: u32) + length (concat (map run_blocks (cs_entries ip))) < 2 ^ 32"
    using cs_length(2) [OF assms] by (simp add: cs_blocks_def)
  from cs_walk_runs [OF nz _ this, of bn "NDIRECT - length (cs_entries ip)" 0] e show ?thesis
    by (simp add: cs_blocks_def)
qed

lemma csbmap_lookup:
  assumes "cs_ok ip" "n < length (cs_blocks ip)"
  shows "csbmap st ip (word_of_nat n) = Some (cs_blocks ip ! n, st, ip)"
proof -
  have "unat (word_of_nat n :: u32) = n"
    using assms cs_length(2) [OF assms(1)] by (intro unat_of_nat_lt) simp
  then show ?thesis using cs_walk_ok [OF assms(1), of "word_of_nat n"] assms(2) by (simp add: csbmap_def)
qed

text \<open>The two ways an inode grows: the last run is extended, or a new run of one block is started.\<close>

lemma cs_extend:
  assumes "cs_ok ip" "length (cs_entries ip) = Suc j" "run_len (addrs ip ! j) < 255"
  defines "e \<equiv> addrs ip ! j"
  defines "ip' \<equiv> ip\<lparr>addrs := (addrs ip)[j := push_bit 8 (drop_bit 8 e) OR ((e AND 0xFF) + 1)]\<rparr>"
  shows "cs_ok ip'" "cs_blocks ip' = cs_blocks ip @ [drop_bit 8 e + (e AND 0xFF)]"
proof -
  let ?e = "push_bit 8 (drop_bit 8 e) OR ((e AND 0xFF) + 1)" and ?es = "cs_entries ip"
  have ok: "itype ip = T_CS" "length (addrs ip) = NDIRECT + 1"
    "take NDIRECT (addrs ip) = ?es @ replicate (NDIRECT - length ?es) 0" "\<And>e. e \<in> set ?es \<Longrightarrow> e AND 0xFF \<noteq> 0"
    using assms(1) by (auto simp: cs_ok_def)
  have j: "j < NDIRECT" using cs_length(1) [OF assms(1)] assms(2) by simp
  have ej: "?es ! j = e"
    using arg_cong [OF ok(3), of "\<lambda>xs. xs ! j"] assms(2) j ok(2) by (simp add: nth_append e_def)
  have es: "?es = take j ?es @ [e]" using assms(2) ej by (metis lessI take_Suc_conv_app_nth take_all_iff le_refl)
  note run = run_extend [OF assms(3) [folded e_def]]
  have "take NDIRECT (addrs ip') = (take NDIRECT (addrs ip))[j := ?e]" by (simp add: ip'_def take_update_swap)
  also have "\<dots> = ?es[j := ?e] @ replicate (NDIRECT - Suc j) 0"
    unfolding ok(3) using assms(2) by (simp add: list_update_append1)
  also have "?es[j := ?e] = take j ?es @ [?e]" using assms(2) by (simp add: upd_conv_take_nth_drop)
  finally have tk: "take NDIRECT (addrs ip') = take j ?es @ ?e # replicate (NDIRECT - Suc j) 0" by simp
  have nz: "\<And>x. x \<in> set (take j ?es @ [?e]) \<Longrightarrow> x AND 0xFF \<noteq> 0"
    using ok(4) run(2) by (auto dest: in_set_takeD)
  then have ent: "cs_entries ip' = take j ?es @ [?e]"
    unfolding cs_entries_def [of ip'] tk by (cases "NDIRECT - Suc j") (fastforce simp: takeWhile_append)+
  show "cs_ok ip'"
    using ok(1,2) tk nz ent j assms(2) by (auto simp: cs_ok_def ip'_def)
  show "cs_blocks ip' = cs_blocks ip @ [drop_bit 8 e + (e AND 0xFF)]"
    unfolding cs_blocks_def ent by (subst (2) es) (simp add: run(1))
qed

lemma cs_new_run:
  assumes "cs_ok ip" "length (cs_entries ip) < NDIRECT" "unat a < 2 ^ 24"
  defines "j \<equiv> length (cs_entries ip)"
  defines "ip' \<equiv> ip\<lparr>addrs := (addrs ip)[j := push_bit 8 a OR 1]\<rparr>"
  shows "cs_ok ip'" "cs_blocks ip' = cs_blocks ip @ [a]"
proof -
  let ?e = "push_bit 8 a OR 1" and ?es = "cs_entries ip"
  have ok: "itype ip = T_CS" "length (addrs ip) = NDIRECT + 1"
    "take NDIRECT (addrs ip) = ?es @ replicate (NDIRECT - length ?es) 0" "\<And>e. e \<in> set ?es \<Longrightarrow> e AND 0xFF \<noteq> 0"
    using assms(1) by (auto simp: cs_ok_def)
  note run = run_new [OF assms(3)]
  have rep: "replicate (NDIRECT - j) (0 :: u32) = 0 # replicate (NDIRECT - Suc j) 0"
    using assms(2) unfolding j_def by (metis Suc_diff_Suc replicate_Suc)
  have "take NDIRECT (addrs ip') = (take NDIRECT (addrs ip))[j := ?e]" by (simp add: ip'_def take_update_swap)
  also have "\<dots> = ?es @ ?e # replicate (NDIRECT - Suc j) 0"
    unfolding ok(3) j_def [symmetric] rep by (simp add: j_def)
  finally have tk: "take NDIRECT (addrs ip') = ?es @ ?e # replicate (NDIRECT - Suc j) 0" .
  have nz: "\<And>x. x \<in> set (?es @ [?e]) \<Longrightarrow> x AND 0xFF \<noteq> 0"
    using ok(4) run(2) by auto
  then have ent: "cs_entries ip' = ?es @ [?e]"
    unfolding cs_entries_def [of ip'] tk by (cases "NDIRECT - Suc j") (fastforce simp: takeWhile_append)+
  show "cs_ok ip'"
    using ok(1,2) tk nz ent assms(2) by (auto simp: cs_ok_def ip'_def j_def)
  show "cs_blocks ip' = cs_blocks ip @ [a]"
    unfolding cs_blocks_def ent by (simp add: run(1))
qed

text \<open>A block that is allocated and given back leaves no trace in the used blocks.\<close>

lemma alloc_free_quiet:
  assumes "fs_wf st" "first_free st a" "bfree (alloc_effect st a) a = Some st1"
  shows "quiet st st1" "quiet st (cprintf s st1)"
proof -
  let ?st = "alloc_effect st a"
  have wf: "fs_wf ?st" using assms(1,2) by (rule alloc_effect_wf)
  have a: "unat a < unat (sb_size (sb st))" "data_start st \<le> unat a" "\<not> used st a"
    using assms(1,2) first_free_data by (auto simp: first_free_def)
  have st1: "st1 = free_effect ?st a" using assms(3) bfree_eq [OF wf] a(1) by (auto split: if_splits)
  have sb: "sb st1 = sb st" "fssize st1 = fssize st" by (simp_all add: st1)
  have "fs_wf st1" unfolding st1
    using free_effect_wf [OF wf] a sb_cong(2) [of ?st st] by simp
  moreover have "used st1 b \<longleftrightarrow> used st b" if "unat b < unat (sb_size (sb st))" for b
    using used_free [OF wf, of a b] used_alloc [OF assms(1,2) that] that a by (auto simp: st1)
  moreover have "cache st1 b = cache st b" if "data_start st \<le> unat b" "used st b" for b
  proof -
    have "unat (BBLOCK st a) < data_start st" "BBLOCK ?st a = BBLOCK st a"
      using BBLOCK_facts(2) [of st a] assms(1) a(1) sb_cong(1) [of ?st st a] by (auto simp: fs_wf_def)
    then show ?thesis using that a by (auto simp: st1)
  qed
  ultimately show q: "quiet st st1" using sb by (simp add: quiet_def)
  have "used (cprintf s st1) b = used st1 b" for b
    using sb_cong(1) [of "cprintf s st1" st1 b] by (simp add: used_def)
  then show "quiet st (cprintf s st1)"
    using q sb_cong [of "cprintf s st1" st1] by (simp add: quiet_def fs_wf_def)
qed

lemma quiet_cprintf: "fs_wf st \<Longrightarrow> quiet st (cprintf s st)"
proof -
  assume "fs_wf st"
  moreover have "used (cprintf s st) b = used st b" for b
    using sb_cong(1) [of "cprintf s st" st b] by (simp add: used_def)
  ultimately show ?thesis using sb_cong [of "cprintf s st" st] by (simp add: quiet_def fs_wf_def)
qed

text \<open>The rest of \<^verbatim>\<open>csbmap\<close> once a block has been allocated.\<close>

definition cs_attach :: "fsys \<Rightarrow> inode \<Rightarrow> u32 \<Rightarrow> nat \<Rightarrow> (u32 \<times> fsys \<times> inode) option" where
  "cs_attach st ip addr k =
     (let e = addrs ip ! (k - 1); run_start = drop_bit 8 e; len = e AND 0xFF in
      if k \<ge> 1 \<and> len < 255 \<and> addr = run_start + len
      then Some (addr, st, ip\<lparr>addrs := (addrs ip)[k - 1 := (push_bit 8 run_start) OR (len + 1)]\<rparr>)
      else if k \<ge> NDIRECT then do {
        st \<leftarrow> bfree st addr;
        Some (0, cprintf ''csfs: no free direct block entries'' st, ip)
      }
      else Some (addr, st, ip\<lparr>addrs := (addrs ip)[k := (push_bit 8 addr) OR 1]\<rparr>))"

lemma csbmap_at_end:
  assumes "cs_ok ip" "fs_wf st" "length (cs_blocks ip) < MAXCSBLOCKS"
  shows "first_free st a \<Longrightarrow> csbmap st ip (word_of_nat (length (cs_blocks ip))) =
      (if log_room st 1 \<and> log_room (note_logged st (BBLOCK st a)) 1
       then cs_attach (alloc_effect st a) ip a (length (cs_entries ip)) else None)"
    "(\<And>x. unat x < unat (sb_size (sb st)) \<Longrightarrow> used st x) \<Longrightarrow> csbmap st ip (word_of_nat (length (cs_blocks ip))) =
      Some (0, cprintf ''csfs: no free data blocks'' st, ip)"
proof -
  let ?bn = "word_of_nat (length (cs_blocks ip)) :: u32"
  have u: "unat ?bn = length (cs_blocks ip)" using assms(3) by (intro unat_of_nat_lt) simp
  have walk: "cs_walk (take NDIRECT (addrs ip)) ?bn 0 0 = CsEnd ?bn (length (cs_entries ip))"
    using cs_walk_ok [OF assms(1), of ?bn] u by simp
  have small: "\<not> ?bn \<ge> word_of_nat MAXCSBLOCKS" using u assms(3) by (simp add: unat_le_word)
  show "csbmap st ip ?bn = (if log_room st 1 \<and> log_room (note_logged st (BBLOCK st a)) 1
       then cs_attach (alloc_effect st a) ip a (length (cs_entries ip)) else None)" if a: "first_free st a"
  proof -
    have "unat a < 2 ^ 24" "data_start st \<le> unat a"
      using a assms(2) first_free_data by (auto simp: first_free_def fs_wf_def layout_ok_def unat_le_word)
    then have "a \<noteq> 0" "\<not> a > 0xFFFFFF" by (auto simp: data_start_def unat_lt_word)
    then show ?thesis
      unfolding csbmap_def walk cs_walk_result.case
      using small ballocx_found [OF assms(2) a, of True] by (simp add: cs_attach_def Let_def)
  qed
  show "csbmap st ip ?bn = Some (0, cprintf ''csfs: no free data blocks'' st, ip)"
    if "\<And>x. unat x < unat (sb_size (sb st)) \<Longrightarrow> used st x"
    unfolding csbmap_def walk cs_walk_result.case
    using small ballocx_full [OF assms(2) that, of True] by simp
qed

lemma cs_attach_ok:
  assumes "cs_ok ip" "fs_wf st" "first_free st a"
    and "cs_attach (alloc_effect st a) ip a (length (cs_entries ip)) = Some (b, st', ip')"
  shows "(b = 0 \<and> ip' = ip \<and> quiet st st') \<or>
    (b = a \<and> st' = alloc_effect st a \<and> cs_ok ip' \<and> cs_blocks ip' = cs_blocks ip @ [a] \<and> same_meta ip ip')"
proof -
  let ?k = "length (cs_entries ip)" and ?st = "alloc_effect st a"
  define e where "e = addrs ip ! (?k - 1)"
  have a: "unat a < 2 ^ 24"
    using assms(2,3) by (auto simp: first_free_def fs_wf_def layout_ok_def unat_le_word)
  note att = assms(4) [unfolded cs_attach_def Let_def, folded e_def]
  show ?thesis
  proof (cases "?k \<ge> 1 \<and> e AND 0xFF < 255 \<and> a = drop_bit 8 e + (e AND 0xFF)")
    case True
    have eq: "b = a" "st' = ?st" "ip' = ip\<lparr>addrs := (addrs ip)[?k - 1 := (push_bit 8 (drop_bit 8 e)) OR ((e AND 0xFF) + 1)]\<rparr>"
      using att [unfolded if_P [OF True]] by blast+
    from True obtain j where j: "?k = Suc j" by (cases ?k) auto
    then have "run_len (addrs ip ! j) < 255"
      using True by (simp add: e_def run_len_def unat_lt_word)
    from cs_extend [OF assms(1) j this] eq j True show ?thesis
      by (simp add: e_def same_meta_iff) blast
  next
    case nx: False
    show ?thesis
    proof (cases "?k \<ge> NDIRECT")
      case True
      then have "do { st \<leftarrow> bfree ?st a; Some (0, cprintf ''csfs: no free direct block entries'' st, ip) } = Some (b, st', ip')"
        using att by (simp only: nx if_False if_True)
      then show ?thesis using alloc_free_quiet(2) [OF assms(2,3)] by (auto simp: bind_Some_iff)
    next
      case False
      have eq: "b = a" "st' = ?st" "ip' = ip\<lparr>addrs := (addrs ip)[?k := (push_bit 8 a) OR 1]\<rparr>"
        using att [unfolded if_not_P [OF nx] if_not_P [OF False]] by blast+
      from cs_new_run [OF assms(1) _ a] eq False show ?thesis by (simp add: same_meta_iff) blast
    qed
  qed
qed

lemma csbmap_append:
  assumes "cs_ok ip" "fs_wf st" "length (cs_blocks ip) < MAXCSBLOCKS"
    and "csbmap st ip (word_of_nat (length (cs_blocks ip))) = Some (b, st', ip')"
  shows "(b = 0 \<and> ip' = ip \<and> quiet st st') \<or>
    (first_free st b \<and> st' = alloc_effect st b \<and> cs_ok ip' \<and> cs_blocks ip' = cs_blocks ip @ [b] \<and> same_meta ip ip')"
proof (cases "\<exists>x. unat x < unat (sb_size (sb st)) \<and> \<not> used st x")
  case True
  then obtain a where a: "first_free st a" using first_free_exists by blast
  with csbmap_at_end(1) [OF assms(1-3) a] assms(4) cs_attach_ok [OF assms(1,2) a, of b st' ip'] show ?thesis
    by (auto split: if_splits)
next
  case False
  then show ?thesis
    using csbmap_at_end(2) [OF assms(1-3)] assms(4) quiet_cprintf [OF assms(2)] by auto
qed

lemma csbmap_total:
  assumes "cs_ok ip" "fs_wf st" "length (cs_blocks ip) < MAXCSBLOCKS" "log_room st 3" "first_free st a"
  shows "\<exists>r. csbmap st ip (word_of_nat (length (cs_blocks ip))) = Some r"
proof -
  have "log_room st 2" using assms(4) by (rule log_room_mono) simp
  then have room: "log_room st 1" "log_room (note_logged st (BBLOCK st a)) 1" using log_room_two by blast+
  have "log_room (alloc_effect st a) 1"
    using assms(4) by (auto simp: alloc_effect_def log_room_def note_logged_def)
  moreover have an: "unat a < unat (sb_size (sb st))" using assms(5) by (simp add: first_free_def)
  moreover have "used (alloc_effect st a) a" using used_alloc [OF assms(2,5) an] by simp
  ultimately have "\<exists>st1. bfree (alloc_effect st a) a = Some st1"
    using bfree_eq [OF alloc_effect_wf [OF assms(2,5)], of a] by simp
  then have "\<exists>r. cs_attach (alloc_effect st a) ip a (length (cs_entries ip)) = Some r"
    by (auto simp: cs_attach_def Let_def)
  then show ?thesis using csbmap_at_end(1) [OF assms(1-3,5)] room by simp
qed

lemma csbmap_room:
  assumes "cs_ok ip" "fs_wf st" "length (cs_blocks ip) < MAXCSBLOCKS" "log_room st (j + 3)"
    and "csbmap st ip (word_of_nat (length (cs_blocks ip))) = Some (b, st', ip')"
  shows "log_room st' j"
proof (cases "\<exists>x. unat x < unat (sb_size (sb st)) \<and> \<not> used st x")
  case True
  then obtain a where a: "first_free st a" using first_free_exists by blast
  have att: "cs_attach (alloc_effect st a) ip a (length (cs_entries ip)) = Some (b, st', ip')"
    using csbmap_at_end(1) [OF assms(1-3) a] assms(5) by (auto split: if_splits)
  have r: "log_room (alloc_effect st a) (Suc j)"
    using assms(4) by (intro log_room_alloc) (simp add: numeral_3_eq_3)
  then have r0: "log_room (alloc_effect st a) j" by (rule log_room_mono) simp
  have f: "log_room st1 j" if "bfree (alloc_effect st a) a = Some st1" for st1
    using that r bfree_eq [OF alloc_effect_wf [OF assms(2) a], of a] a
    by (auto simp: first_free_def free_effect_def split: if_splits)
  have "st' = alloc_effect st a \<or> (\<exists>st1 s. bfree (alloc_effect st a) a = Some st1 \<and> st' = cprintf s st1)"
    using att unfolding cs_attach_def Let_def
    by (simp split: if_splits) (auto simp: bind_Some_iff)
  then show ?thesis
  proof
    assume "\<exists>st1 s. bfree (alloc_effect st a) a = Some st1 \<and> st' = cprintf s st1"
    then obtain st1 s where "bfree (alloc_effect st a) a = Some st1" "st' = cprintf s st1" by blast
    then show ?thesis using f log_room_log [of st' st1 j] by simp
  qed (use r0 in simp)
next
  case False
  then have "st' = cprintf ''csfs: no free data blocks'' st"
    using csbmap_at_end(2) [OF assms(1-3)] assms(5) by auto
  then show ?thesis using log_room_log [of st' st j] log_room_mono [OF assms(4), of j] by simp
qed

text \<open>
  When the extents are used up: all twelve entries hold a run, and the next free block of the disk does not
  continue the last run, or that run has its full 255 blocks.
\<close>

definition cs_full :: "fsys \<Rightarrow> inode \<Rightarrow> bool" where
  "cs_full st ip \<longleftrightarrow> length (cs_entries ip) = NDIRECT \<and>
     (\<exists>a. first_free st a \<and> \<not> (run_len (last (cs_entries ip)) < 255 \<and>
        a = drop_bit 8 (last (cs_entries ip)) + word_of_nat (run_len (last (cs_entries ip)))))"

lemma first_free_quiet: "quiet st st' \<Longrightarrow> first_free st a \<Longrightarrow> first_free st' a"
  by (auto simp: quiet_def first_free_def)

lemma cs_full_quiet: "cs_full st ip \<Longrightarrow> quiet st st' \<Longrightarrow> cs_full st' (ip\<lparr>isize := n\<rparr>)"
  using first_free_quiet by (auto simp: cs_full_def cs_entries_def)

lemma csbmap_stuck:
  assumes "cs_ok ip" "fs_wf st" "length (cs_blocks ip) < MAXCSBLOCKS" "first_free st a"
    and "csbmap st ip (word_of_nat (length (cs_blocks ip))) = Some (0, st', ip')"
  shows "cs_full st' ip'"
proof -
  let ?k = "length (cs_entries ip)"
  define e where "e = addrs ip ! (?k - 1)"
  have q: "ip' = ip" "quiet st st'"
    using csbmap_append [OF assms(1-3,5)] first_free_data [OF assms(2), of 0] by (auto simp: data_start_def)
  have "a \<noteq> 0" using first_free_data [OF assms(2,4)] by (auto simp: data_start_def)
  moreover have "cs_attach (alloc_effect st a) ip a ?k = Some (0, st', ip')"
    using csbmap_at_end(1) [OF assms(1-4)] assms(5) by (auto split: if_splits)
  ultimately have no: "\<not> (?k \<ge> 1 \<and> e AND 0xFF < 255 \<and> a = drop_bit 8 e + (e AND 0xFF))" "?k \<ge> NDIRECT"
    unfolding cs_attach_def Let_def e_def [symmetric] by (auto split: if_splits)
  have k: "?k = NDIRECT" using no(2) cs_length(1) [OF assms(1)] by simp
  then have "cs_entries ip \<noteq> []" by auto
  moreover have "take NDIRECT (addrs ip) = cs_entries ip" using assms(1) k by (simp add: cs_ok_def)
  then have "cs_entries ip ! (?k - 1) = e" unfolding e_def using k nth_take [of "?k - 1" NDIRECT "addrs ip"] by simp
  ultimately have l: "last (cs_entries ip) = e" by (simp add: last_conv_nth)
  have "e AND 0xFF < 255 \<longleftrightarrow> run_len e < 255" by (simp add: run_len_def unat_lt_word)
  moreover have "word_of_nat (run_len e) = e AND 0xFF" by (simp add: run_len_def)
  ultimately show ?thesis
    using no(1) k first_free_quiet [OF q(2) assms(4)] unfolding cs_full_def q(1) l by auto
qed

interpretation cs: block_map cs_ok cs_blocks MAXCSBLOCKS cs_full
proof
  show "cs_ok (ip\<lparr>isize := n\<rparr>)" if "cs_ok ip" for ip n
    using that by (simp add: cs_ok_def cs_entries_def)
  show "cs_blocks (ip\<lparr>isize := n\<rparr>) = cs_blocks ip" for ip n
    by (simp add: cs_blocks_def cs_entries_def)
  show "length (cs_blocks ip) \<le> MAXCSBLOCKS \<and> length (addrs ip) = NDIRECT + 1" if "cs_ok ip" for ip
    using that cs_length(2) [OF that] by (simp add: cs_ok_def)
  show "bmap st ip (word_of_nat k) = Some (cs_blocks ip ! k, st, ip)" if "cs_ok ip" "k < length (cs_blocks ip)" for ip st k
    using csbmap_lookup [OF that] that(1) by (simp add: bmap_def cs_ok_def)
  show "(a = 0 \<and> ip' = ip \<and> quiet st st') \<or>
      (first_free st a \<and> st' = alloc_effect st a \<and> cs_ok ip' \<and> cs_blocks ip' = cs_blocks ip @ [a] \<and> same_meta ip ip')"
    if "cs_ok ip" "fs_wf st" "length (cs_blocks ip) < MAXCSBLOCKS"
      "bmap st ip (word_of_nat (length (cs_blocks ip))) = Some (a, st', ip')" for ip st a st' ip'
    using csbmap_append [OF that(1-3)] that(1,4) by (simp add: bmap_def cs_ok_def)
  show "log_room st' j"
    if "cs_ok ip" "fs_wf st" "length (cs_blocks ip) < MAXCSBLOCKS"
      "bmap st ip (word_of_nat (length (cs_blocks ip))) = Some (a, st', ip')" "log_room st (j + 3)" for ip st a st' ip' j
    using csbmap_room [OF that(1-3,5)] that(1,4) by (simp add: bmap_def cs_ok_def)
  show "\<exists>r. bmap st ip (word_of_nat (length (cs_blocks ip))) = Some r"
    if "cs_ok ip" "fs_wf st" "length (cs_blocks ip) < MAXCSBLOCKS" "log_room st 3" "first_free st a" for ip st a
    using csbmap_total [OF that] that(1) by (simp add: bmap_def cs_ok_def)
  show "cs_full st' ip'"
    if "cs_ok ip" "fs_wf st" "length (cs_blocks ip) < MAXCSBLOCKS" "first_free st a"
      "bmap st ip (word_of_nat (length (cs_blocks ip))) = Some (0, st', ip')" for ip st a st' ip'
    using csbmap_stuck [OF that(1-4)] that(1,5) by (simp add: bmap_def cs_ok_def)
qed (simp_all add: cs_full_quiet)

subsection \<open>CS files\<close>

text \<open>The contents of a CS file, and when its inode describes one: distinct used data blocks, enough of them.\<close>

definition cs_contents :: "fsys \<Rightarrow> inode \<Rightarrow> u8 list" where
  "cs_contents st ip = take (unat (isize ip)) (concat (map (cache st) (cs_blocks ip)))"

definition cs_file_ok :: "fsys \<Rightarrow> inode \<Rightarrow> bool" where
  "cs_file_ok st ip \<longleftrightarrow> cs_ok ip \<and> distinct (cs_blocks ip) \<and> unat (isize ip) \<le> BSIZE * length (cs_blocks ip) \<and>
     (\<forall>b \<in> set (cs_blocks ip). data_start st \<le> unat b \<and> unat b < unat (sb_size (sb st)) \<and> used st b) \<and>
     unat (inum ip) < unat (ninodes (sb st))"

lemma cs_contents_eq: "cs.contents st ip = cs_contents st ip"
  by (simp add: cs.contents_def cs.raw_def cs_contents_def)

lemma cs_file_ok_eq: "cs_file_ok st ip \<longleftrightarrow> cs.file_ok st ip \<and> unat (inum ip) < unat (ninodes (sb st))"
  by (auto simp: cs_file_ok_def cs.file_ok_def)

lemma cs_write:
  assumes "fs_wf st" "cs_file_ok st ip" "off \<le> isize ip" "unat off + length src \<le> BSIZE * MAXCSBLOCKS"
    and "writei st ip src off = Some (r, st', ip')"
  shows "\<exists>t. t \<le> length src \<and> r = (if t = 0 \<and> src \<noteq> [] then - 1 else int t) \<and>
    fs_wf st' \<and> cs_file_ok st' ip' \<and>
    cs_contents st' ip' = take (unat off) (cs_contents st ip) @ take t src @ drop (unat off + t) (cs_contents st ip)"
proof -
  have ok: "cs.file_ok st ip" "unat (inum ip) < unat (ninodes (sb st))" "itype ip = T_CS"
    using assms(2) cs_file_ok_eq [of st ip] by (auto simp: cs_file_ok_def cs_ok_def)
  have lim: "BSIZE * MAXCSBLOCKS \<le> unat (write_limit ip)" by (simp add: write_limit_def ok(3))
  have nd: "itype ip \<noteq> T_DEV" using ok(3) by simp
  obtain t where t: "t \<le> length src" "r = (if t = 0 \<and> src \<noteq> [] then - 1 else int t)" "fs_wf st'" "cs.file_ok st' ip'"
    "same_meta (ip\<lparr>isize := isize ip'\<rparr>) ip'" "sb st' = sb st"
    "cs.contents st' ip' = take (unat off) (cs.contents st ip) @ take t src @ drop (unat off + t) (cs.contents st ip)"
    using cs.writei_contents [OF assms(1) ok(1) nd assms(3) ok(2) assms(4) lim assms(5)] by blast
  have "inum ip' = inum ip" using same_meta_fields [OF t(5)] by simp
  then have "cs_file_ok st' ip'" using t(4,6) ok(2) by (simp add: cs_file_ok_eq)
  then show ?thesis using t cs_contents_eq by metis
qed

lemma cs_read:
  assumes "fs_wf st" "cs_file_ok st ip" "off \<le> isize ip" "unat off + unat n < 2 ^ 32"
  shows "readi st ip off n = Some (int (min (unat n) (unat (isize ip) - unat off)),
    take (unat n) (drop (unat off) (cs_contents st ip)), st, ip)"
proof -
  have "cs.file_ok st ip" "itype ip \<noteq> T_DEV"
    using assms(2) cs_file_ok_eq [of st ip] by (auto simp: cs_file_ok_def cs_ok_def)
  from cs.readi_contents [OF assms(1) this assms(3,4)] show ?thesis by (simp add: cs_contents_eq)
qed

lemma length_cs_contents: "fs_wf st \<Longrightarrow> cs_file_ok st ip \<Longrightarrow> length (cs_contents st ip) = unat (isize ip)"
  using cs.length_raw [of st ip] by (simp add: cs_contents_def cs.raw_def cs_file_ok_def)

text \<open>
  C6: the extent map of a CS inode is the list of its blocks.  Looking up a logical block returns
  the corresponding list element and changes nothing; asking for the block after the last, when it
  succeeds, has allocated the first free block, appended it to the list (by extending the last run or
  starting a new one) and kept the inode well formed; a block further on is refused.
\<close>

theorem csbmap_refines:
  assumes "cs_ok ip" "fs_wf st"
  shows "(n < length (cs_blocks ip) \<longrightarrow> bmap st ip (word_of_nat n) = Some (cs_blocks ip ! n, st, ip)) \<and>
    (n = length (cs_blocks ip) \<and> n < MAXCSBLOCKS \<and> bmap st ip (word_of_nat n) = Some (b, st', ip') \<and> b \<noteq> 0 \<longrightarrow>
       first_free st b \<and> st' = alloc_effect st b \<and> cs_ok ip' \<and> cs_blocks ip' = cs_blocks ip @ [b]) \<and>
    (length (cs_blocks ip) < n \<and> n < 2 ^ 32 \<longrightarrow>
       bmap st ip (word_of_nat n) = Some (0, cprintf ''csfs: non-sequential block allocation'' st, ip))"
proof (intro conjI impI)
  show "bmap st ip (word_of_nat n) = Some (cs_blocks ip ! n, st, ip)" if "n < length (cs_blocks ip)"
    using assms(1) that by (rule cs.bmap_lookup)
next
  assume a: "n = length (cs_blocks ip) \<and> n < MAXCSBLOCKS \<and> bmap st ip (word_of_nat n) = Some (b, st', ip') \<and> b \<noteq> 0"
  then show "first_free st b" "st' = alloc_effect st b" "cs_ok ip'" "cs_blocks ip' = cs_blocks ip @ [b]"
    using cs.bmap_append [OF assms, of b st' ip'] by auto
next
  assume n: "length (cs_blocks ip) < n \<and> n < 2 ^ 32"
  then have u: "unat (word_of_nat n :: u32) = n" by (simp add: unat_of_nat_lt)
  have "unat (word_of_nat (length (cs_blocks ip)) :: u32) = length (cs_blocks ip)"
    using cs_length(2) [OF assms(1)] by (intro unat_of_nat_lt) simp
  then have "(word_of_nat n :: u32) \<noteq> word_of_nat (length (cs_blocks ip))"
    using u n arg_cong [where f = unat and x = "word_of_nat n :: u32" and y = "word_of_nat (length (cs_blocks ip))"] by auto
  then show "bmap st ip (word_of_nat n) = Some (0, cprintf ''csfs: non-sequential block allocation'' st, ip)"
    using cs_walk_ok [OF assms(1), of "word_of_nat n"] n u assms(1)
    by (simp add: bmap_def csbmap_def cs_ok_def)
qed

lemma cs_write_total:
  assumes "fs_wf st" "cs_file_ok st ip" "off \<le> isize ip" "unat off + length src \<le> BSIZE * MAXCSBLOCKS"
    and "log_room st (3 * touched_blocks (unat off) (length src) + 1)"
      "touched_blocks (unat off) (length src) \<le> free_count st"
  shows "\<exists>t st' ip'. writei st ip src off = Some (if t = 0 \<and> src \<noteq> [] then - 1 else int t, st', ip') \<and>
    (t = length src \<or> cs_full st' ip' \<and> unat off + t = BSIZE * length (cs_blocks ip'))"
proof -
  have ok: "cs.file_ok st ip" "unat (inum ip) < unat (ninodes (sb st))" "itype ip = T_CS"
    using assms(2) cs_file_ok_eq [of st ip] by (auto simp: cs_file_ok_def cs_ok_def)
  have "BSIZE * MAXCSBLOCKS \<le> unat (write_limit ip)" "itype ip \<noteq> T_DEV" by (simp_all add: write_limit_def ok(3))
  then show ?thesis using cs.writei_total [OF assms(1) ok(1) _ assms(3) ok(2) assms(4) _ assms(5,6)] by blast
qed

text \<open>
  C3: writing a CS file and reading it back.  With log space for three blocks and one free block per
  block touched, a write of \<open>src\<close> at an offset within the file completes, and all of \<open>src\<close> has been written (its length is
  returned) unless the extents are used up: then every block the file has is filled, its twelve entries are in use and the next free
  block of the disk does not extend the last run, and the number of bytes that fitted is returned, or -1 for none.
  The contents are those before with exactly the bytes written replaced or appended, the file stays well
  formed, and reading at the same offset returns the bytes written, leaving everything unchanged.
\<close>

theorem cs_write_read:
  assumes "fs_wf st" "cs_file_ok st ip" "off \<le> isize ip" "unat off + length src \<le> BSIZE * MAXCSBLOCKS"
    and "log_room st (3 * touched_blocks (unat off) (length src) + 1)"
      "touched_blocks (unat off) (length src) \<le> free_count st"
  shows "\<exists>t st' ip'. writei st ip src off = Some (if t = 0 \<and> src \<noteq> [] then - 1 else int t, st', ip') \<and>
    t \<le> length src \<and> (t = length src \<or> cs_full st' ip' \<and> unat off + t = BSIZE * length (cs_blocks ip')) \<and>
    fs_wf st' \<and> cs_file_ok st' ip' \<and>
    cs_contents st' ip' = take (unat off) (cs_contents st ip) @ take t src @ drop (unat off + t) (cs_contents st ip) \<and>
    readi st' ip' off (word_of_nat t) = Some (int t, take t src, st', ip')"
proof -
  obtain t st' ip' where w: "writei st ip src off = Some (if t = 0 \<and> src \<noteq> [] then - 1 else int t, st', ip')"
    and all: "t = length src \<or> cs_full st' ip' \<and> unat off + t = BSIZE * length (cs_blocks ip')"
    using cs_write_total [OF assms] by blast
  obtain u where u: "u \<le> length src" "(if t = 0 \<and> src \<noteq> [] then - 1 else int t) = (if u = 0 \<and> src \<noteq> [] then - 1 else int u)"
    "fs_wf st'" "cs_file_ok st' ip'"
    "cs_contents st' ip' = take (unat off) (cs_contents st ip) @ take u src @ drop (unat off + u) (cs_contents st ip)"
    using cs_write [OF assms(1-4) w] by blast
  have "u = t" using u(2) by (auto split: if_splits)
  note t = u [unfolded this]
  have n: "unat (word_of_nat t :: u32) = t" using t(1) assms(4) by (intro unat_of_nat_lt) simp
  have lc: "length (take (unat off) (cs_contents st ip)) = unat off"
    using length_cs_contents [OF assms(1,2)] assms(3) by (simp add: unat_le_word)
  have "unat off + t \<le> length (cs_contents st' ip')" using arg_cong [OF t(5), of length] lc t(1) by simp
  then have sz: "unat off + t \<le> unat (isize ip')" using length_cs_contents [OF t(3,4)] by simp
  then have "off \<le> isize ip'" by (simp add: unat_le_word)
  moreover have "take t (drop (unat off) (cs_contents st' ip')) = take t src"
    unfolding t(5) using lc t(1) by simp
  ultimately have "readi st' ip' off (word_of_nat t) = Some (int t, take t src, st', ip')"
    using cs_read [OF t(3,4), of off "word_of_nat t"] n sz t(1) assms(4) by simp
  with t w all show ?thesis by blast
qed

subsection \<open>Truncation\<close>

text \<open>Freeing a list of distinct used blocks, as long as all share one map block.\<close>

definition log_ready :: "fsys \<Rightarrow> u32 \<Rightarrow> nat \<Rightarrow> bool" where
  "log_ready st m k \<longleftrightarrow> log_room st (k + (if m \<in> set (lh (log st)) then 0 else 1))"

lemma log_ready_note:
  "log_ready st m (Suc k) \<Longrightarrow> log_room st 1 \<and> log_ready (note_logged (set_buf st b d) m) m (Suc k)"
  by (auto simp: log_ready_def log_room_def note_logged_def)

fun free_list :: "fsys \<Rightarrow> u32 list \<Rightarrow> fsys option" where
  "free_list st [] = Some st"
| "free_list st (b # bs) = do { st \<leftarrow> bfree st b; free_list st bs }"

lemma free_list_append: "free_list st (xs @ ys) = do { st \<leftarrow> free_list st xs; free_list st ys }"
  by (induction xs arbitrary: st) auto

lemma free_run_list: "free_run st s j n = free_list st (map (\<lambda>k. s + word_of_nat k) [j..<j + n])"
proof (induction n arbitrary: st j)
  case (Suc n)
  then show ?case by (simp add: upt_conv_Cons del: upt_Suc)
qed simp

lemma free_extents_list:
  "0 \<notin> set es \<Longrightarrow> free_extents st (es @ replicate m 0) = free_list st (concat (map run_blocks es))"
proof (induction es arbitrary: st)
  case Nil
  show ?case by (induction m) auto
next
  case (Cons e es)
  then show ?case
    by (simp add: free_run_list run_blocks_def [of e] run_len_def free_list_append)
qed

lemma free_list_ok:
  assumes "fs_wf st" "distinct bs"
    and "\<And>b. b \<in> set bs \<Longrightarrow> data_start st \<le> unat b \<and> unat b < unat (sb_size (sb st)) \<and> used st b"
    and "free_list st bs = Some st'"
  shows "fs_wf st' \<and> sb st' = sb st \<and> fssize st' = fssize st \<and>
    (\<forall>b. unat b < unat (sb_size (sb st)) \<longrightarrow> (used st' b \<longleftrightarrow> used st b \<and> b \<notin> set bs)) \<and>
    (\<forall>b. data_start st \<le> unat b \<longrightarrow> cache st' b = cache st b)"
  using assms
proof (induction bs arbitrary: st)
  case (Cons b bs)
  have b: "data_start st \<le> unat b" "unat b < unat (sb_size (sb st))" using Cons.prems(3) by auto
  obtain st1 where st1: "bfree st b = Some st1" "free_list st1 bs = Some st'"
    using Cons.prems(4) by (auto simp: bind_Some_iff)
  then have eq: "st1 = free_effect st b" using bfree_eq [OF Cons.prems(1) b(2)] by (auto split: if_splits)
  have wf: "fs_wf st1" unfolding eq using Cons.prems(1) b by (rule free_effect_wf)
  have sb: "sb st1 = sb st" "data_start st1 = data_start st" "fssize st1 = fssize st"
    using sb_cong(2) [of st1 st] by (simp_all add: eq)
  have u: "used st1 c \<longleftrightarrow> c \<noteq> b \<and> used st c" if "unat c < unat (sb_size (sb st))" for c
    unfolding eq using used_free [OF Cons.prems(1) b(2) that] .
  have "unat (BBLOCK st b) < data_start st"
    using BBLOCK_facts(2) [of st b] Cons.prems(1) b(2) by (auto simp: fs_wf_def)
  then have c: "cache st1 c = cache st c" if "data_start st \<le> unat c" for c using that by (auto simp: eq)
  have "fs_wf st' \<and> sb st' = sb st1 \<and> fssize st' = fssize st1 \<and>
    (\<forall>b. unat b < unat (sb_size (sb st1)) \<longrightarrow> (used st' b \<longleftrightarrow> used st1 b \<and> b \<notin> set bs)) \<and>
    (\<forall>b. data_start st1 \<le> unat b \<longrightarrow> cache st' b = cache st1 b)"
    using Cons.prems(2,3) u sb by (intro Cons.IH [OF wf _ _ st1(2)]) auto
  then show ?case using u sb c by auto
qed simp

lemma free_list_total:
  assumes "fs_wf st" "distinct bs" "log_ready st m (Suc k)"
    and "\<And>b. b \<in> set bs \<Longrightarrow> data_start st \<le> unat b \<and> unat b < unat (sb_size (sb st)) \<and> used st b \<and> BBLOCK st b = m"
  shows "\<exists>st'. free_list st bs = Some st' \<and> log_ready st' m (Suc k)"
  using assms
proof (induction bs arbitrary: st)
  case (Cons b bs)
  have b: "data_start st \<le> unat b" "unat b < unat (sb_size (sb st))" "used st b" "BBLOCK st b = m"
    using Cons.prems(4) by auto
  note room = log_ready_note [OF Cons.prems(3)]
  have st1: "bfree st b = Some (free_effect st b)"
    using bfree_eq [OF Cons.prems(1) b(2)] b(3) room by auto
  have "log_ready (free_effect st b) m (Suc k)" unfolding free_effect_def b(4) using room by blast
  moreover have "fs_wf (free_effect st b)" using Cons.prems(1) b(1,2) by (rule free_effect_wf)
  moreover have "data_start (free_effect st b) \<le> unat c \<and> unat c < unat (sb_size (sb (free_effect st b))) \<and>
      used (free_effect st b) c \<and> BBLOCK (free_effect st b) c = m" if "c \<in> set bs" for c
    using Cons.prems(2,4) that used_free [OF Cons.prems(1) b(2), of c] sb_cong(1,2) [of "free_effect st b" st] by auto
  ultimately show ?case using Cons.IH [of "free_effect st b"] Cons.prems(2) st1 by auto
qed simp

lemma cs_trunc_list:
  assumes "cs_ok ip"
  shows "itrunc st ip = do {
    st \<leftarrow> free_list st (cs_blocks ip);
    st \<leftarrow> iupdate st (ip\<lparr>addrs := replicate (NDIRECT + 1) 0, isize := 0\<rparr>);
    Some (st, ip\<lparr>addrs := replicate (NDIRECT + 1) 0, isize := 0\<rparr>)
  }"
proof -
  have "0 \<notin> set (cs_entries ip)" unfolding cs_entries_def by (auto dest: set_takeWhileD)
  then have "free_extents st (take NDIRECT (addrs ip)) = free_list st (cs_blocks ip)" for st
    using assms free_extents_list unfolding cs_ok_def cs_blocks_def by metis
  then show ?thesis using assms by (simp add: itrunc_def cs_ok_def Let_def)
qed

lemma cs_empty_ok:
  assumes "itype ip = T_CS"
  shows "cs_ok (ip\<lparr>addrs := replicate (NDIRECT + 1) 0, isize := 0\<rparr>)"
    "cs_blocks (ip\<lparr>addrs := replicate (NDIRECT + 1) 0, isize := 0\<rparr>) = []"
proof -
  have "cs_entries (ip\<lparr>addrs := replicate (NDIRECT + 1) 0, isize := 0\<rparr>) = []" by (simp add: cs_entries_def)
  then show "cs_ok (ip\<lparr>addrs := replicate (NDIRECT + 1) 0, isize := 0\<rparr>)"
    "cs_blocks (ip\<lparr>addrs := replicate (NDIRECT + 1) 0, isize := 0\<rparr>) = []"
    using assms by (simp_all add: cs_ok_def cs_blocks_def)
qed

text \<open>
  C31: truncating a CS file.  On a device whose free map fits one block, with log space for two more
  blocks, \<^verbatim>\<open>itrunc\<close> completes, however many blocks the file has; exactly the file's blocks have
  become free, every other data block is untouched, and the inode describes an empty file.
\<close>

theorem itrunc_cs:
  assumes "fs_wf st" "cs_file_ok st ip" "log_room st 2" "unat (sb_size (sb st)) \<le> BPB"
  shows "\<exists>st' ip'. itrunc st ip = Some (st', ip') \<and> fs_wf st' \<and> cs_file_ok st' ip' \<and> cs_contents st' ip' = [] \<and>
    (\<forall>b. unat b < unat (sb_size (sb st)) \<longrightarrow> (used st' b \<longleftrightarrow> used st b \<and> b \<notin> set (cs_blocks ip))) \<and>
    (\<forall>b. data_start st \<le> unat b \<and> unat b < unat (sb_size (sb st)) \<and> used st b \<and> b \<notin> set (cs_blocks ip) \<longrightarrow>
       cache st' b = cache st b)"
proof -
  let ?ip = "ip\<lparr>addrs := replicate (NDIRECT + 1) 0, isize := 0\<rparr>" and ?m = "bmapstart (sb st)"
  have ip: "cs_ok ip" "distinct (cs_blocks ip)" "unat (inum ip) < unat (ninodes (sb st))" "itype ip = T_CS"
    and bl: "\<And>b. b \<in> set (cs_blocks ip) \<Longrightarrow> data_start st \<le> unat b \<and> unat b < unat (sb_size (sb st)) \<and> used st b"
    using assms(2) by (auto simp: cs_file_ok_def cs_ok_def)
  have "BBLOCK st b = ?m" if "unat b < unat (sb_size (sb st))" for b
  proof -
    have "b div 4096 = 0" using that assms(4) by (simp add: unat_eq_zero_iff unat_div_word)
    then show ?thesis by (simp add: BBLOCK_def)
  qed
  moreover have "log_ready st ?m (Suc 0)" using assms(3) by (simp add: log_ready_def log_room_def)
  ultimately obtain st1 where st1: "free_list st (cs_blocks ip) = Some st1" "log_ready st1 ?m (Suc 0)"
    using free_list_total [OF assms(1) ip(2), of ?m 0] bl by blast
  note ok = free_list_ok [OF assms(1) ip(2) bl st1(1)]
  have in1: "unat (inum ?ip) < unat (ninodes (sb st1))" and len: "length (addrs ?ip) = NDIRECT + 1"
    using ok ip(3) by simp_all
  have "log_room st1 1" using st1(2) by (auto simp: log_ready_def log_room_def split: if_splits)
  then have up: "iupdate st1 ?ip = Some (update_effect st1 ?ip)"
    using iupdate_eq [of st1 ?ip] ok in1 by simp
  note q = update_effect_ok(1) [OF _ in1 len]
  have tr: "itrunc st ip = Some (update_effect st1 ?ip, ?ip)"
    unfolding cs_trunc_list [OF ip(1)] using st1(1) up by simp
  have "cs_file_ok (update_effect st1 ?ip) ?ip" "cs_contents (update_effect st1 ?ip) ?ip = []"
    using cs_empty_ok [OF ip(4)] q ok ip(3) by (simp_all add: cs_file_ok_def cs_contents_def quiet_def)
  with tr q ok sb_cong(2) [of st1 st] show ?thesis
    by (intro exI [of _ "update_effect st1 ?ip"] exI [of _ ?ip]) (auto simp: quiet_def)
qed

subsection \<open>An empty CS file\<close>

definition sample_cs :: inode where
  "sample_cs = \<lparr>dev = 1, inum = 1, ref = 1, locked = True, valid = True, itype = T_CS, major = 0, minor = 0,
     nlink = 1, isize = 0, addrs = replicate 13 0\<rparr>"

lemma sample_cs_ok: "cs_ok sample_cs" "cs_blocks sample_cs = []" "cs_file_ok sample_st sample_cs" "cs_entries sample_cs = []"
proof -
  have e: "cs_entries sample_cs = []" by (simp add: cs_entries_def sample_cs_def)
  then show "cs_ok sample_cs" "cs_blocks sample_cs = []" "cs_file_ok sample_st sample_cs" "cs_entries sample_cs = []"
    by (simp_all add: cs_ok_def cs_blocks_def cs_file_ok_def) (simp_all add: sample_cs_def sample_st_def sample_sb_def)
qed

lemma sample_free: "1 \<le> free_count sample_st"
proof -
  have "35 \<in> {b. unat b < unat (sb_size (sb sample_st)) \<and> \<not> used sample_st b}"
    using sample_first_free by (auto simp: first_free_def)
  then have "{b. unat b < unat (sb_size (sb sample_st)) \<and> \<not> used sample_st b} \<noteq> {}" by blast
  then have "0 < free_count sample_st" unfolding free_count_def by (simp only: card_gt_0_iff finite simp_thms)
  then show ?thesis by simp
qed

lemma sample_bmap:
  "bmap sample_st sample_cs (word_of_nat 0) =
     Some (35, alloc_effect sample_st 35, sample_cs\<lparr>addrs := (addrs sample_cs)[0 := push_bit 8 35 OR 1]\<rparr>)"
proof -
  have "bmap sample_st sample_cs (word_of_nat 0) = csbmap sample_st sample_cs (word_of_nat (length (cs_blocks sample_cs)))"
    unfolding sample_cs_ok(2) by (simp add: bmap_def) (simp add: sample_cs_def)
  also have "\<dots> = cs_attach (alloc_effect sample_st 35) sample_cs 35 0"
  proof -
    have "length (cs_blocks sample_cs) < MAXCSBLOCKS" by (simp add: sample_cs_ok(2))
    note e = csbmap_at_end(1) [OF sample_cs_ok(1) sample_st_wf this sample_first_free]
    have "log_room sample_st 1 \<and> log_room (note_logged sample_st (BBLOCK sample_st 35)) 1"
      by (rule log_room_two) (rule sample_room, simp)
    then show ?thesis unfolding e sample_cs_ok(4) by simp
  qed
  finally show ?thesis by (simp add: cs_attach_def Let_def)
qed

theorem csbmap_refines_witness:
  "cs_blocks (sample_cs\<lparr>addrs := (addrs sample_cs)[0 := push_bit 8 35 OR 1]\<rparr>) = [35]"
proof -
  let ?ip = "sample_cs\<lparr>addrs := (addrs sample_cs)[0 := push_bit 8 35 OR 1]\<rparr>"
  have "(0 :: nat) = length (cs_blocks sample_cs) \<and> (0 :: nat) < MAXCSBLOCKS \<and>
      bmap sample_st sample_cs (word_of_nat 0) = Some (35, alloc_effect sample_st 35, ?ip) \<and> (35 :: u32) \<noteq> 0"
    unfolding sample_bmap sample_cs_ok(2) by simp
  from csbmap_refines [OF sample_cs_ok(1) sample_st_wf, THEN conjunct2, THEN conjunct1, THEN mp, OF this]
  show ?thesis unfolding sample_cs_ok(2) by simp
qed

lemma entries_le_blocks:
  assumes "cs_ok ip"
  shows "length (cs_entries ip) \<le> length (cs_blocks ip)"
proof -
  have "\<forall>e \<in> set es. 0 < run_len e \<Longrightarrow> length es \<le> length (concat (map run_blocks es))" for es
    by (induction es) auto
  moreover have "\<forall>e \<in> set (cs_entries ip). 0 < run_len e"
    using assms by (auto simp: cs_ok_def run_len_def unat_gt_0)
  ultimately show ?thesis by (simp add: cs_blocks_def)
qed

theorem cs_write_read_witness:
  "\<exists>st' ip'. writei sample_st sample_cs [1, 2, 3] 0 = Some (3, st', ip') \<and> cs_contents st' ip' = [1, 2, 3] \<and>
     readi st' ip' 0 3 = Some (3, [1, 2, 3], st', ip')"
proof -
  let ?src = "[1, 2, 3 :: u8]"
  have t: "touched_blocks (unat 0) (length ?src) = 1" by (simp add: touched_blocks_def)
  have r: "log_room sample_st (3 * touched_blocks (unat 0) (length ?src) + 1)"
    unfolding t by (rule sample_room) simp
  have f: "touched_blocks (unat 0) (length ?src) \<le> free_count sample_st"
    unfolding t by (rule sample_free)
  have "(0 :: u32) \<le> isize sample_cs" "unat (0 :: u32) + length ?src \<le> BSIZE * MAXCSBLOCKS" by simp_all
  from cs_write_read [OF sample_st_wf sample_cs_ok(3) this r f] obtain t st' ip' where
    w: "writei sample_st sample_cs ?src 0 = Some (if t = 0 \<and> ?src \<noteq> [] then - 1 else int t, st', ip')" "t \<le> length ?src"
      "t = length ?src \<or> cs_full st' ip' \<and> unat (0 :: u32) + t = BSIZE * length (cs_blocks ip')" "cs_file_ok st' ip'"
      "cs_contents st' ip' = take (unat (0 :: u32)) (cs_contents sample_st sample_cs) @ take t ?src @ drop (unat (0 :: u32) + t) (cs_contents sample_st sample_cs)"
      "readi st' ip' 0 (word_of_nat t) = Some (int t, take t ?src, st', ip')"
    by (elim exE conjE) (rule that, assumption+)
  have "12 \<le> length (cs_blocks ip')" if "cs_full st' ip'"
    using that entries_le_blocks [of ip'] w(4) by (simp add: cs_full_def cs_file_ok_def)
  then have t3: "t = 3" using w(2,3) by auto
  have "cs_contents sample_st sample_cs = []" by (simp add: cs_contents_def sample_cs_ok(2))
  then show ?thesis using w(1,5,6) unfolding t3 by (intro exI [of _ st'] exI [of _ ip']) simp
qed

theorem itrunc_cs_witness: "\<exists>st' ip'. itrunc sample_st sample_cs = Some (st', ip') \<and> cs_contents st' ip' = []"
proof -
  have "unat (sb_size (sb sample_st)) \<le> BPB" by (simp add: sample_st_def sample_sb_def)
  then show ?thesis using itrunc_cs [OF sample_st_wf sample_cs_ok(3) sample_room] by auto
qed

end
