(* ===== verification/Xv6_ML.thy ===== *)
theory Xv6_ML
  imports Xv6_Files
begin

text \<open>
  The block map of the multi-level kernel (its \<^verbatim>\<open>fs.c\<close>): an inode has 6 direct blocks, 4 single
  indirect, 2 double indirect and 1 triple indirect block.  The allocator, the log and the rest of the
  inode layer are those of the other kernel, modelled in \<^verbatim>\<open>Xv6_Blocks\<close> and \<^verbatim>\<open>Xv6_Inodes\<close>; here are
  the functions that differ.  \<open>None\<close> is a \<^verbatim>\<open>panic\<close>.
\<close>

abbreviation "ML_DIRECT \<equiv> (6 :: nat)"
abbreviation "ML_SINGLE \<equiv> (4 :: nat)"
abbreviation "ML_DOUBLE \<equiv> (2 :: nat)"
abbreviation "NDOUBLE \<equiv> (16384 :: nat)"
abbreviation "NTRIPLE \<equiv> (2097152 :: nat)"
abbreviation "ML_MAXFILE \<equiv> (2130438 :: nat)"

subsection \<open>Mapping a block\<close>

text \<open>An entry of the inode, and an entry of an indirect block: allocated when it is 0.\<close>

definition ml_top :: "fsys \<Rightarrow> inode \<Rightarrow> nat \<Rightarrow> (u32 \<times> fsys \<times> inode) option" where
  "ml_top st ip i =
     (if addrs ip ! i = 0 then do {
        (addr, st) \<leftarrow> balloc st;
        Some (addr, st, ip\<lparr>addrs := (addrs ip)[i := addr]\<rparr>)
      } else Some (addrs ip ! i, st, ip))"

definition ml_child :: "fsys \<Rightarrow> u32 \<Rightarrow> nat \<Rightarrow> (u32 \<times> fsys) option" where
  "ml_child st b i = do {
     bp \<leftarrow> bread st b;
     if get32 bp (4 * i) = 0 then do {
       (addr, st) \<leftarrow> balloc st;
       bp \<leftarrow> bread st b;
       st \<leftarrow> log_write (set_buf st b (patch (4 * i) (le32_bytes addr) bp)) b;
       Some (addr, st)
     } else Some (get32 bp (4 * i), st)
   }"

definition ml_bmap :: "fsys \<Rightarrow> inode \<Rightarrow> u32 \<Rightarrow> (u32 \<times> fsys \<times> inode) option" where
  "ml_bmap st ip w =
     (let bn = unat w in
      if bn < ML_DIRECT then ml_top st ip bn
      else let bn = bn - ML_DIRECT in
        if bn < ML_SINGLE * NINDIRECT then do {
          (addr, st, ip) \<leftarrow> ml_top st ip (ML_DIRECT + bn div NINDIRECT);
          (addr, st) \<leftarrow> ml_child st addr (bn mod NINDIRECT);
          Some (addr, st, ip)
        }
        else let bn = bn - ML_SINGLE * NINDIRECT in
          if bn < ML_DOUBLE * NDOUBLE then
            let idx = bn div NDOUBLE; offset = bn mod NDOUBLE in do {
              (addr, st, ip) \<leftarrow> ml_top st ip (ML_DIRECT + ML_SINGLE + idx);
              (addr, st) \<leftarrow> ml_child st addr (offset div NINDIRECT);
              (addr, st) \<leftarrow> ml_child st addr (offset mod NINDIRECT);
              Some (addr, st, ip)
            }
          else let bn = bn - ML_DOUBLE * NDOUBLE in
            if bn < NTRIPLE then
              let first = bn div NDOUBLE; offset = bn mod NDOUBLE in do {
                (addr, st, ip) \<leftarrow> ml_top st ip (ML_DIRECT + ML_SINGLE + ML_DOUBLE);
                (addr, st) \<leftarrow> ml_child st addr first;
                (addr, st) \<leftarrow> ml_child st addr (offset div NINDIRECT);
                (addr, st) \<leftarrow> ml_child st addr (offset mod NINDIRECT);
                Some (addr, st, ip)
              }
            else None)"

subsection \<open>Truncation\<close>

text \<open>The entries of an indirect block, copied before any block is freed; \<open>level\<close> counts down to 1.\<close>

definition entries :: "blk \<Rightarrow> u32 list" where
  "entries bp = map (\<lambda>i. get32 bp (4 * i)) [0..<NINDIRECT]"

fun each :: "(fsys \<Rightarrow> u32 \<Rightarrow> fsys option) \<Rightarrow> fsys \<Rightarrow> u32 list \<Rightarrow> fsys option" where
  "each f st [] = Some st"
| "each f st (e # es) = (if e = 0 then each f st es else do { st \<leftarrow> f st e; each f st es })"

fun bfreeindirect :: "nat \<Rightarrow> fsys \<Rightarrow> u32 \<Rightarrow> fsys option" where
  "bfreeindirect 0 st addr = bfree st addr"
| "bfreeindirect (Suc level) st addr = do {
     bp \<leftarrow> bread st addr;
     st \<leftarrow> each (bfreeindirect level) st (entries bp);
     bfree st addr
   }"

definition ml_itrunc :: "fsys \<Rightarrow> inode \<Rightarrow> (fsys \<times> inode) option" where
  "ml_itrunc st ip = do {
     st \<leftarrow> each (bfreeindirect 0) st (take ML_DIRECT (addrs ip));
     st \<leftarrow> each (bfreeindirect 1) st (take ML_SINGLE (drop ML_DIRECT (addrs ip)));
     st \<leftarrow> each (bfreeindirect 2) st (take ML_DOUBLE (drop (ML_DIRECT + ML_SINGLE) (addrs ip)));
     st \<leftarrow> each (bfreeindirect 3) st (take 1 (drop (ML_DIRECT + ML_SINGLE + ML_DOUBLE) (addrs ip)));
     (let ip = ip\<lparr>addrs := replicate 13 0, isize := 0\<rparr> in do {
       st \<leftarrow> iupdate st ip;
       Some (st, ip)
     })
   }"

subsection \<open>Reading and writing\<close>

function ml_readi_loop :: "fsys \<Rightarrow> inode \<Rightarrow> nat \<Rightarrow> nat \<Rightarrow> nat \<Rightarrow> u8 list \<Rightarrow> (u8 list \<times> fsys \<times> inode) option" where
  "ml_readi_loop st ip off n tot dst =
     (if tot < n then do {
        (addr, st, ip) \<leftarrow> ml_bmap st ip (word_of_nat (off div BSIZE));
        bp \<leftarrow> bread st addr;
        (let m = min (n - tot) (BSIZE - off mod BSIZE) in
         ml_readi_loop st ip (off + m) n (tot + m) (dst @ take m (drop (off mod BSIZE) bp)))
      } else Some (dst, st, ip))"
  by pat_completeness auto
termination
  by (relation "measure (\<lambda>(st, ip, off, n, tot, dst). n - tot)") auto

declare ml_readi_loop.simps [simp del]

definition ml_readi :: "fsys \<Rightarrow> inode \<Rightarrow> u32 \<Rightarrow> u32 \<Rightarrow> (int \<times> u8 list \<times> fsys \<times> inode) option" where
  "ml_readi st ip off n =
     (if itype ip = T_DEV then
        (if sint (major ip) < 0 \<or> sint (major ip) \<ge> NDEV then Some (- 1, [], st, ip)
         else case dev_read st (nat (sint (major ip))) of
           None \<Rightarrow> Some (- 1, [], st, ip)
         | Some f \<Rightarrow> (case f n of (r, bs) \<Rightarrow> Some (r, bs, st, ip)))
      else if off > isize ip \<or> off + n < off then Some (- 1, [], st, ip)
      else let m = (if off + n > isize ip then isize ip - off else n) in do {
        (bs, st, ip) \<leftarrow> ml_readi_loop st ip (unat off) (unat m) 0 [];
        Some (sint m, bs, st, ip)
      })"

function ml_writei_loop :: "fsys \<Rightarrow> inode \<Rightarrow> u8 list \<Rightarrow> nat \<Rightarrow> nat \<Rightarrow> (fsys \<times> inode) option" where
  "ml_writei_loop st ip src off tot =
     (if tot < length src then do {
        (addr, st, ip) \<leftarrow> ml_bmap st ip (word_of_nat (off div BSIZE));
        bp \<leftarrow> bread st addr;
        (let m = min (length src - tot) (BSIZE - off mod BSIZE) in do {
          st \<leftarrow> log_write (set_buf st addr (patch (off mod BSIZE) (take m (drop tot src)) bp)) addr;
          ml_writei_loop st ip src (off + m) (tot + m)
        })
      } else Some (st, ip))"
  by pat_completeness auto
termination
  by (relation "measure (\<lambda>(st, ip, src, off, tot). length src - tot)") auto

declare ml_writei_loop.simps [simp del]

definition ml_writei :: "fsys \<Rightarrow> inode \<Rightarrow> u8 list \<Rightarrow> u32 \<Rightarrow> (int \<times> fsys \<times> inode) option" where
  "ml_writei st ip src off =
     (let n = word_of_nat (length src) :: u32 in
      if itype ip = T_DEV then
        (if sint (major ip) < 0 \<or> sint (major ip) \<ge> NDEV then Some (- 1, st, ip)
         else case dev_write st (nat (sint (major ip))) of
           None \<Rightarrow> Some (- 1, st, ip)
         | Some f \<Rightarrow> Some (f src, st, ip))
      else if off > isize ip \<or> off + n < off then Some (- 1, st, ip)
      else if off + n > word_of_nat (ML_MAXFILE * BSIZE) then Some (- 1, st, ip)
      else do {
        (st, ip) \<leftarrow> ml_writei_loop st ip src (unat off) 0;
        (st, ip) \<leftarrow> (if src \<noteq> [] \<and> off + n > isize ip then
              let ip = ip\<lparr>isize := off + n\<rparr> in do {
                st \<leftarrow> iupdate st ip;
                Some (st, ip)
              }
            else Some (st, ip));
        Some (int (length src), st, ip)
      })"

subsection \<open>The tree of blocks\<close>

text \<open>
  A node is named by the indices on the way to it, the last one first: \<open>[i]\<close> is entry \<open>i\<close> of the inode and
  \<open>j # p\<close> is entry \<open>j\<close> of the indirect block \<open>p\<close>.
\<close>

definition depth :: "nat \<Rightarrow> nat" where
  "depth i = (if i < 6 then 0 else if i < 10 then 1 else if i < 12 then 2 else 3)"

fun node :: "fsys \<Rightarrow> inode \<Rightarrow> nat list \<Rightarrow> u32" where
  "node st ip [] = 0"
| "node st ip [i] = addrs ip ! i"
| "node st ip (j # p) = (if node st ip p = 0 then 0 else get32 (cache st (node st ip p)) (4 * j))"

definition valid_path :: "nat list \<Rightarrow> bool" where
  "valid_path p \<longleftrightarrow> p \<noteq> [] \<and> last p < 13 \<and> length p \<le> depth (last p) + 1 \<and> (\<forall>j \<in> set (butlast p). j < 128)"

definition leaf :: "nat list \<Rightarrow> bool" where
  "leaf p \<longleftrightarrow> valid_path p \<and> length p = depth (last p) + 1"

text \<open>Every block of the tree is a data block in use and occurs once.\<close>

definition tree_ok :: "fsys \<Rightarrow> inode \<Rightarrow> bool" where
  "tree_ok st ip \<longleftrightarrow> length (addrs ip) = 13 \<and>
     (\<forall>p. valid_path p \<longrightarrow> node st ip p \<noteq> 0 \<longrightarrow>
        data_start st \<le> unat (node st ip p) \<and> unat (node st ip p) < unat (sb_size (sb st)) \<and> used st (node st ip p) \<and>
        (\<forall>q. valid_path q \<longrightarrow> node st ip q = node st ip p \<longrightarrow> q = p))"

lemma tree_okD:
  assumes "tree_ok st ip" "valid_path p" "node st ip p \<noteq> 0"
  shows "data_start st \<le> unat (node st ip p)" "unat (node st ip p) < unat (sb_size (sb st))" "used st (node st ip p)"
    "\<And>q. valid_path q \<Longrightarrow> node st ip q = node st ip p \<Longrightarrow> q = p"
  using assms unfolding tree_ok_def by blast+

lemma valid_path_tl: "valid_path (j # p) \<Longrightarrow> p \<noteq> [] \<Longrightarrow> valid_path p \<and> \<not> leaf p \<and> j < 128"
  by (auto simp: valid_path_def leaf_def)

lemma node_Cons: "p \<noteq> [] \<Longrightarrow> node st ip (j # p) = (if node st ip p = 0 then 0 else get32 (cache st (node st ip p)) (4 * j))"
  by (cases p) auto

lemma get32_patch:
  assumes "length d = 512" "j < 128" "k < 128"
  shows "get32 (patch (4 * j) (le32_bytes a) d) (4 * k) = (if k = j then a else get32 d (4 * k))"
proof -
  have n: "patch (4 * j) (le32_bytes a) d ! i = (if 4 * j \<le> i \<and> i < 4 * j + 4 then le32_bytes a ! (i - 4 * j) else d ! i)"
    if "i < 512" for i
    using that assms by (auto simp: patch_def nth_append)
  show ?thesis
  proof (cases "k = j")
    case True
    then show ?thesis using assms by (simp add: get32_def n) (simp add: le32_bytes_def)
  next
    case False
    then have "4 * k + 3 < 4 * j \<or> 4 * j + 4 \<le> 4 * k" by linarith
    then show ?thesis using assms False by (auto simp: get32_def n)
  qed
qed

lemma get32_zeros: "k < 128 \<Longrightarrow> get32 (replicate 512 0) (4 * k) = 0"
  by (simp add: get32_def)

text \<open>
  What adding node \<open>p\<close> with block \<open>addr\<close> does: the node has the block, every other node is as it was, the
  data blocks of the file keep their bytes and a new block is zero.  \<open>k\<close> log entries are left.
\<close>

definition grown :: "nat \<Rightarrow> fsys \<Rightarrow> inode \<Rightarrow> nat list \<Rightarrow> fsys \<Rightarrow> inode \<Rightarrow> u32 \<Rightarrow> bool" where
  "grown k st ip p st' ip' addr \<longleftrightarrow> fs_wf st' \<and> tree_ok st' ip' \<and> same_meta ip ip' \<and> sb st' = sb st \<and> fssize st' = fssize st \<and>
     addr \<noteq> 0 \<and> (\<forall>q. valid_path q \<longrightarrow> node st' ip' q = (if q = p then addr else node st ip q)) \<and>
     (node st ip p \<noteq> 0 \<longrightarrow> addr = node st ip p) \<and> (node st ip p = 0 \<longrightarrow> cache st' addr = replicate BSIZE 0) \<and>
     (\<forall>q. leaf q \<longrightarrow> node st ip q \<noteq> 0 \<longrightarrow> cache st' (node st ip q) = cache st (node st ip q)) \<and>
     log_room st' k \<and> free_count st \<le> Suc (free_count st')"

lemma grown_same:
  assumes "fs_wf st" "tree_ok st ip" "node st ip p \<noteq> 0" "log_room st k"
  shows "grown k st ip p st ip (node st ip p)"
  using assms by (auto simp: grown_def same_meta_iff intro: exI [of _ "addrs ip"])

lemma tree_ok_add:
  assumes T: "tree_ok st ip" and len: "length (addrs ip') = 13" and sb: "sb st' = sb st"
    and u: "\<And>b. unat b < unat (sb_size (sb st)) \<Longrightarrow> used st' b \<longleftrightarrow> b = a \<or> used st b"
    and a: "data_start st \<le> unat a" "unat a < unat (sb_size (sb st))" "\<not> used st a"
    and n: "\<And>q. valid_path q \<Longrightarrow> node st' ip' q = (if q = p then a else node st ip q)"
  shows "tree_ok st' ip'"
  unfolding tree_ok_def
proof (intro conjI allI impI len)
  have ds: "data_start st' = data_start st" using sb_cong(2) [OF sb] .
  have fresh: "node st ip q \<noteq> a" if "valid_path q" "node st ip q \<noteq> 0" for q
    using tree_okD(3) [OF T that] a(3) by auto
  fix q assume q: "valid_path q" "node st' ip' q \<noteq> 0"
  show "data_start st' \<le> unat (node st' ip' q)" "unat (node st' ip' q) < unat (sb_size (sb st'))"
    using q a tree_okD(1,2) [OF T q(1)] by (auto simp: n ds sb)
  show "used st' (node st' ip' q)"
    using q a tree_okD(2,3) [OF T q(1)] by (auto simp: n u)
  fix r assume r: "valid_path r" "node st' ip' r = node st' ip' q"
  show "r = q"
    using r q fresh [of q] fresh [of r] tree_okD(4) [OF T q(1) _ r(1)] a(3) T
    by (cases "q = p"; cases "r = p") (auto simp: n)
qed

lemma alloc_facts:
  assumes "fs_wf st" "first_free st a"
  shows "data_start st \<le> unat a" "unat a < unat (sb_size (sb st))" "\<not> used st a" "a \<noteq> 0"
    "\<And>b. data_start st \<le> unat b \<Longrightarrow> b \<noteq> a \<Longrightarrow> cache (alloc_effect st a) b = cache st b"
    "cache (alloc_effect st a) a = replicate BSIZE 0"
proof -
  show d: "data_start st \<le> unat a" by (rule first_free_data [OF assms])
  show s: "unat a < unat (sb_size (sb st))" "\<not> used st a" using assms(2) by (auto simp: first_free_def)
  have "1 \<le> data_start st" by (simp add: data_start_def)
  then show "a \<noteq> 0" using d by auto
  have "unat (BBLOCK st a) < data_start st" using BBLOCK_facts(2) [of st a] assms(1) s by (simp add: fs_wf_def)
  then show "cache (alloc_effect st a) b = cache st b" if "data_start st \<le> unat b" "b \<noteq> a" for b
    using that by auto
  show "cache (alloc_effect st a) a = replicate BSIZE 0" by simp
qed

lemma ml_top_ok:
  assumes wf: "fs_wf st" and T: "tree_ok st ip" and i: "i < 13" and room: "log_room st (k + 2)" and free: "0 < free_count st"
  shows "\<exists>addr st' ip'. ml_top st ip i = Some (addr, st', ip') \<and> grown k st ip [i] st' ip' addr"
proof (cases "addrs ip ! i = 0")
  case False
  then have "grown k st ip [i] st ip (node st ip [i])"
    using wf T room by (intro grown_same) (auto intro: log_room_mono)
  then show ?thesis using False by (simp add: ml_top_def)
next
  case True
  obtain a where a: "first_free st a" using free_count_pos [OF free] by blast
  note af = alloc_facts [OF wf a]
  let ?s = "alloc_effect st a" and ?ip = "ip\<lparr>addrs := (addrs ip)[i := a]\<rparr>"
  have len: "length (addrs ip) = 13" using T by (simp add: tree_ok_def)
  have "log_room st 2" using room by (rule log_room_mono) simp
  then have call: "ml_top st ip i = Some (a, ?s, ?ip)"
    using True ballocx_room [OF wf a] by (simp add: ml_top_def balloc_def)
  have n: "node ?s ?ip q = (if q = [i] then a else node st ip q)" if "valid_path q" for q
    using that
  proof (induction q)
    case (Cons j q)
    show ?case
    proof (cases "q = []")
      case True
      then show ?thesis using Cons.prems i len by (auto simp: valid_path_def nth_list_update)
    next
      case False
      note v = valid_path_tl [OF Cons.prems False]
      have IH: "node ?s ?ip q = (if q = [i] then a else node st ip q)" using Cons.IH v by blast
      have "cache ?s (node st ip q) = cache st (node st ip q)" if "node st ip q \<noteq> 0"
        using tree_okD(1,3) [OF T _ that] v af(3) by (intro af(5)) auto
      then show ?thesis using False IH v True get32_zeros [of j] af(6) by (auto simp: node_Cons simp del: alloc_effect_simps)
    qed
  qed (simp add: valid_path_def)
  have "tree_ok ?s ?ip"
    by (rule tree_ok_add [OF T _ _ _ af(1-3) n]) (simp_all add: len used_alloc [OF wf a])
  moreover have "cache ?s (node st ip q) = cache st (node st ip q)" if "leaf q" "node st ip q \<noteq> 0" for q
    using that tree_okD(1,3) [OF T _ that(2)] af(3) by (intro af(5)) (auto simp: leaf_def)
  moreover have "same_meta ip ?ip" by (auto simp: same_meta_iff)
  ultimately have "grown k st ip [i] ?s ?ip a"
    using alloc_effect_wf [OF wf a] n af(4,6) True log_room_alloc [OF room] free_count_alloc [OF wf a]
    unfolding grown_def by simp
  then show ?thesis using call by blast
qed

lemma ml_child_ok:
  assumes wf: "fs_wf st" and T: "tree_ok st ip" and p: "valid_path (j # p)" "p \<noteq> []" and b: "node st ip p \<noteq> 0"
    and room: "log_room st (k + 3)" and free: "0 < free_count st"
  shows "\<exists>addr st'. ml_child st (node st ip p) j = Some (addr, st') \<and> grown k st ip (j # p) st' ip addr"
proof -
  let ?b = "node st ip p"
  note vp = valid_path_tl [OF p]
  note tb = tree_okD [OF T _ b]
  have lay: "layout_ok st" using wf by (simp add: fs_wf_def)
  have bf: "?b < fssize st" using tb(2) vp lay by (auto simp: layout_ok_def word_nat)
  then have rd: "bread st ?b = Some (cache st ?b)" by (rule bread_ok)
  have nc: "node st ip (j # p) = get32 (cache st ?b) (4 * j)" using p b by (simp add: node_Cons)
  show ?thesis
  proof (cases "node st ip (j # p) = 0")
    case False
    then have "grown k st ip (j # p) st ip (node st ip (j # p))"
      using wf T room by (intro grown_same) (auto intro: log_room_mono)
    then show ?thesis using False rd nc by (simp add: ml_child_def)
  next
    case True
    obtain a where a: "first_free st a" using free_count_pos [OF free] by blast
    note af = alloc_facts [OF wf a]
    let ?s = "alloc_effect st a"
    have ab: "?b \<noteq> a" using tb(3) vp af(3) by auto
    have cb: "cache ?s ?b = cache st ?b" using af(5) [OF _ ab] tb(1) vp by blast
    let ?d = "patch (4 * j) (le32_bytes a) (cache st ?b)"
    define s2 where "s2 = note_logged (set_buf ?s ?b ?d) ?b"
    have ld: "length (cache st ?b) = 512" using wf by (simp add: fs_wf_def)
    then have pd: "length ?d = BSIZE" using vp by (subst length_patch) auto
    have "log_room st 2" using room by (rule log_room_mono) simp
    then have al: "balloc st = Some (a, ?s)" using ballocx_room [OF wf a] by (simp add: balloc_def)
    have r1: "log_room ?s (k + 1)" by (intro log_room_alloc log_room_mono [OF room]) simp
    then have "log_write (set_buf ?s ?b ?d) ?b = Some s2"
      using log_room_mono [OF r1, of 1] by (simp add: log_write_eq s2_def)
    then have call: "ml_child st ?b j = Some (a, s2)"
      using rd nc True al bf cb by (simp add: ml_child_def bread_ok del: alloc_effect_simps(7))
    have c2: "cache s2 c = (if c = ?b then ?d else cache ?s c)" for c by (simp add: s2_def)
    have data2: "cache s2 c = cache st c" if "data_start st \<le> unat c" "c \<noteq> a" "c \<noteq> ?b" for c
      using af(5) [OF that(1,2)] that(3) by (simp add: c2)
    have n: "node s2 ip q = (if q = j # p then a else node st ip q)" if "valid_path q" for q
      using that
    proof (induction q)
      case (Cons i q)
      show ?case
      proof (cases "q = []")
        case True
        then show ?thesis using p by auto
      next
        case False
        note v = valid_path_tl [OF Cons.prems False]
        have IH: "node s2 ip q = (if q = j # p then a else node st ip q)" using Cons.IH v by blast
        consider (new) "q = j # p" | (zero) "q \<noteq> j # p" "node st ip q = 0" | (par) "q = p" | (other) "q \<noteq> j # p" "node st ip q \<noteq> 0" "q \<noteq> p"
          by blast
        then show ?thesis
        proof cases
          case new
          have "cache s2 a = replicate 512 0" using af(6) ab by (simp add: c2 del: alloc_effect_simps(7))
          then show ?thesis using new IH af(4) v True get32_zeros [of i] by (simp add: node_Cons)
        next
          case zero
          then show ?thesis using False IH p b by (auto simp: node_Cons)
        next
          case par
          then have "q \<noteq> j # p" by auto
          then have "node s2 ip (i # q) = get32 ?d (4 * i)" using par IH b p by (simp add: node_Cons c2)
          also have "\<dots> = (if i = j then a else get32 (cache st ?b) (4 * i))" using get32_patch [OF ld] vp v by simp
          finally show ?thesis using par b p by (simp add: node_Cons)
        next
          case other
          have "node st ip q \<noteq> ?b" using tb(4) vp v other(3) by blast
          moreover have "node st ip q \<noteq> a" using tree_okD(3) [OF T _ other(2)] v af(3) by auto
          ultimately have "cache s2 (node st ip q) = cache st (node st ip q)"
            using tree_okD(1) [OF T _ other(2)] v by (intro data2) auto
          then show ?thesis using False IH other by (auto simp: node_Cons)
        qed
      qed
    qed (simp add: valid_path_def)
    have ds: "data_start ?s = data_start st" by (rule sb_cong(2)) simp
    have dw: "fs_wf s2" "unat c < unat (sb_size (sb st)) \<Longrightarrow> used s2 c \<longleftrightarrow> c = a \<or> used st c" for c
      using data_write [OF alloc_effect_wf [OF wf a], of ?b ?d] tb(1) vp pd used_alloc [OF wf a, of c]
      by (auto simp: s2_def ds)
    have "tree_ok s2 ip"
      by (rule tree_ok_add [OF T _ _ dw(2) af(1-3) n]) (use T in \<open>simp_all add: tree_ok_def s2_def\<close>)
    moreover have "cache s2 (node st ip q) = cache st (node st ip q)" if "leaf q" "node st ip q \<noteq> 0" for q
    proof (rule data2)
      have q: "valid_path q" using that by (simp add: leaf_def)
      show "data_start st \<le> unat (node st ip q)" using tree_okD(1) [OF T q that(2)] .
      show "node st ip q \<noteq> a" using tree_okD(3) [OF T q that(2)] af(3) by auto
      show "node st ip q \<noteq> ?b" using tb(4) [OF _ q] vp that(1) by auto
    qed
    moreover have "free_count s2 = free_count ?s"
      using dw(2) used_alloc [OF wf a] by (intro free_count_cong) (auto simp: s2_def)
    moreover have "log_room s2 k" using r1 unfolding s2_def by (intro log_room_note_logged) simp
    moreover have "cache s2 a = replicate BSIZE 0" using af(6) ab by (simp add: c2 del: alloc_effect_simps(7))
    moreover have "same_meta ip ip" by (simp add: same_meta_def)
    ultimately have "grown k st ip (j # p) s2 ip a"
      using dw(1) n af(4) True free_count_alloc [OF wf a] unfolding grown_def by (simp add: s2_def)
    then show ?thesis using call by blast
  qed
qed

text \<open>
  What mapping the node \<open>p\<close> does, with all nodes on the way to it: \<open>p\<close> has a block, every node that had one
  keeps it, nodes that are not on the way are as they were, and the data of the file is untouched.
\<close>

definition mapped :: "nat \<Rightarrow> fsys \<Rightarrow> inode \<Rightarrow> nat list \<Rightarrow> fsys \<Rightarrow> inode \<Rightarrow> u32 \<Rightarrow> bool" where
  "mapped k st ip p st' ip' addr \<longleftrightarrow> fs_wf st' \<and> tree_ok st' ip' \<and> same_meta ip ip' \<and> sb st' = sb st \<and> fssize st' = fssize st \<and>
     addr \<noteq> 0 \<and> node st' ip' p = addr \<and>
     (\<forall>q. valid_path q \<longrightarrow> node st ip q \<noteq> 0 \<or> \<not> suffix q p \<longrightarrow> node st' ip' q = node st ip q) \<and>
     (node st ip p = 0 \<longrightarrow> cache st' addr = replicate BSIZE 0) \<and>
     (\<forall>q. leaf q \<longrightarrow> node st ip q \<noteq> 0 \<longrightarrow> cache st' (node st ip q) = cache st (node st ip q)) \<and>
     log_room st' k \<and> free_count st \<le> length p + free_count st'"

lemma mapped_top:
  assumes "grown k st ip [i] st' ip' addr" "i < 13"
  shows "mapped k st ip [i] st' ip' addr"
proof -
  have v: "valid_path [i]" using assms(2) by (simp add: valid_path_def)
  have n: "node st' ip' q = (if q = [i] then addr else node st ip q)" if "valid_path q" for q
    using assms(1) that unfolding grown_def by blast
  have "node st' ip' [i] = addr" using n [OF v] by simp
  moreover have "node st' ip' q = node st ip q" if "valid_path q" "node st ip q \<noteq> 0 \<or> \<not> suffix q [i]" for q
    using that n [OF that(1)] assms(1) by (auto simp: grown_def)
  ultimately show ?thesis using assms(1) unfolding grown_def mapped_def by auto
qed

lemma mapped_child:
  assumes m: "mapped k st ip p st1 ip1 b" and g: "grown l st1 ip1 (j # p) st2 ip1 addr" and p: "valid_path (j # p)" "p \<noteq> []"
  shows "mapped l st ip (j # p) st2 ip1 addr"
proof -
  note m' = m [unfolded mapped_def] and g' = g [unfolded grown_def]
  have n: "node st2 ip1 q = (if q = j # p then addr else node st1 ip1 q)" if "valid_path q" for q
    using g' that by blast
  have keep1: "node st1 ip1 q = node st ip q" if "valid_path q" "node st ip q \<noteq> 0 \<or> \<not> suffix q p" for q
    using m' that by blast
  have np: "\<not> suffix (j # p) p" by (auto dest: suffix_length_le)
  have eq: "node st1 ip1 (j # p) = node st ip (j # p)" using keep1 [OF p(1)] np by blast
  have keep: "node st2 ip1 q = node st ip q" if q: "valid_path q" "node st ip q \<noteq> 0 \<or> \<not> suffix q (j # p)" for q
  proof (cases "q = j # p")
    case True
    then have "node st ip (j # p) \<noteq> 0" using q(2) by auto
    then have "addr = node st1 ip1 (j # p)" using g' eq by metis
    then show ?thesis using True n [OF q(1)] eq by simp
  next
    case False
    then have "node st ip q \<noteq> 0 \<or> \<not> suffix q p" using q(2) by (auto simp: suffix_Cons)
    then show ?thesis using n [OF q(1)] keep1 [OF q(1)] False by simp
  qed
  have data: "cache st2 (node st ip q) = cache st (node st ip q)" if "leaf q" "node st ip q \<noteq> 0" for q
  proof -
    have "node st1 ip1 q = node st ip q" using keep1 that by (simp add: leaf_def)
    moreover have "cache st1 (node st ip q) = cache st (node st ip q)" using m' that by blast
    moreover have "cache st2 (node st1 ip1 q) = cache st1 (node st1 ip1 q)" using g' that calculation(1) by metis
    ultimately show ?thesis by simp
  qed
  have "same_meta ip ip1" "sb st2 = sb st" "fssize st2 = fssize st" using m' g' by auto
  moreover have "free_count st \<le> length (j # p) + free_count st2" using m' g' by auto
  moreover have "node st2 ip1 (j # p) = addr" using n [OF p(1)] by simp
  moreover have "node st ip (j # p) = 0 \<longrightarrow> cache st2 addr = replicate BSIZE 0" using g' eq by metis
  ultimately show ?thesis using g' keep data unfolding mapped_def by blast
qed

text \<open>The step of \<^verbatim>\<open>bmap\<close> from a node to its entry \<open>j\<close>.\<close>

lemma ml_child_mapped:
  assumes m: "mapped (k + 3) st ip p st1 ip1 b" and p: "valid_path (j # p)" "p \<noteq> []" and free: "length p < free_count st"
  shows "\<exists>addr st2. ml_child st1 b j = Some (addr, st2) \<and> mapped k st ip (j # p) st2 ip1 addr"
proof -
  note m' = m [unfolded mapped_def]
  have b: "node st1 ip1 p = b" "b \<noteq> 0" using m' by blast+
  have "fs_wf st1" "tree_ok st1 ip1" "log_room st1 (k + 3)" "0 < free_count st1" using m' free by auto
  then obtain addr st2 where "ml_child st1 b j = Some (addr, st2)" "grown k st1 ip1 (j # p) st2 ip1 addr"
    using ml_child_ok [of st1 ip1 j p k] p b by auto
  then show ?thesis using mapped_child [OF m _ p] by blast
qed

subsection \<open>The file as an array of blocks\<close>

text \<open>The node that holds block \<open>bn\<close> of the file.\<close>

definition ml_path :: "nat \<Rightarrow> nat list" where
  "ml_path bn =
     (if bn < 6 then [bn]
      else if bn < 518 then [(bn - 6) mod 128, 6 + (bn - 6) div 128]
      else if bn < 33286 then [(bn - 518) mod 16384 mod 128, (bn - 518) mod 16384 div 128, 10 + (bn - 518) div 16384]
      else [(bn - 33286) mod 16384 mod 128, (bn - 33286) mod 16384 div 128, (bn - 33286) div 16384, 12])"

definition block_at :: "fsys \<Rightarrow> inode \<Rightarrow> nat \<Rightarrow> u32" where
  "block_at st ip bn = node st ip (ml_path bn)"

lemma div_lt_pos: "0 < k \<Longrightarrow> b < n * k \<Longrightarrow> b div k < (n :: nat)"
  by (simp add: less_mult_imp_div_less)

lemma ml_path_leaf:
  assumes "bn < ML_MAXFILE"
  shows "leaf (ml_path bn)"
proof -
  have "(bn - 6) div 128 < 4" if "bn < 518" using that by (intro div_lt_pos) auto
  moreover have "(bn - 518) div 16384 < 2" if "bn < 33286" using that by (intro div_lt_pos) auto
  moreover have "(bn - 33286) div 16384 < 128" using assms by (intro div_lt_pos) auto
  moreover have "b mod 16384 div 128 < 128" for b :: nat by (intro div_lt_pos) auto
  ultimately show ?thesis by (auto simp: ml_path_def leaf_def valid_path_def depth_def)
qed

lemma div_mod_inj: "a div k = b div k \<Longrightarrow> a mod k = b mod k \<Longrightarrow> a = (b :: nat)"
  by (metis div_mult_mod_eq)

lemma ml_path_inj:
  assumes "a < ML_MAXFILE" "b < ML_MAXFILE" "ml_path a = ml_path b"
  shows "a = b"
proof -
  have two: "x = y" if "x div 16384 = y div 16384" "x mod 16384 div 128 = y mod 16384 div 128" "x mod 16384 mod 128 = y mod 16384 mod 128"
    for x y :: nat
    using div_mod_inj [OF that(2,3)] div_mod_inj [OF that(1)] by simp
  have rng: "depth (last (ml_path c)) = (if c < 6 then 0 else if c < 518 then 1 else if c < 33286 then 2 else 3)" if "c < ML_MAXFILE" for c
    using ml_path_leaf [OF that] by (auto simp: ml_path_def leaf_def)
  have "depth (last (ml_path a)) = depth (last (ml_path b))" using assms(3) by simp
  then have same: "a < 6 \<longleftrightarrow> b < 6" "a < 518 \<longleftrightarrow> b < 518" "a < 33286 \<longleftrightarrow> b < 33286"
    unfolding rng [OF assms(1)] rng [OF assms(2)] by (simp_all split: if_splits)
  consider (d) "a < 6" "b < 6" | (s) "6 \<le> a" "a < 518" "6 \<le> b" "b < 518" | (dd) "518 \<le> a" "a < 33286" "518 \<le> b" "b < 33286"
    | (t) "33286 \<le> a" "33286 \<le> b" using same by linarith
  then show ?thesis
  proof cases
    case d
    then show ?thesis using assms(3) by (simp add: ml_path_def)
  next
    case s
    then have "(a - 6) mod 128 = (b - 6) mod 128" "(a - 6) div 128 = (b - 6) div 128" using assms(3) by (simp_all add: ml_path_def)
    then have "a - 6 = b - 6" by (metis div_mod_inj)
    then show ?thesis using s by simp
  next
    case dd
    have "ml_path c = [(c - 518) mod 16384 mod 128, (c - 518) mod 16384 div 128, 10 + (c - 518) div 16384]" if "518 \<le> c" "c < 33286" for c
      using that by (simp add: ml_path_def)
    from assms(3) [unfolded this [OF dd(1,2)] this [OF dd(3,4)]] have "a - 518 = b - 518"
      unfolding list.inject add_left_cancel by (elim conjE) (rule two)
    then show ?thesis using dd by simp
  next
    case t
    have "ml_path c = [(c - 33286) mod 16384 mod 128, (c - 33286) mod 16384 div 128, (c - 33286) div 16384, 12]" if "33286 \<le> c" for c
      using that by (simp add: ml_path_def)
    from assms(3) [unfolded this [OF t(1)] this [OF t(2)]] have "a - 33286 = b - 33286"
      unfolding list.inject by (elim conjE) (rule two)
    then show ?thesis using t by simp
  qed
qed

lemma not_suffix_leaf:
  assumes "leaf p" "leaf q" "suffix q p"
  shows "q = p"
proof -
  obtain r where r: "p = r @ q" using assms(3) by (auto simp: suffix_def)
  have "last p = last q" using assms r by (auto simp: leaf_def valid_path_def)
  then have "length p = length q" using assms by (simp add: leaf_def)
  then show ?thesis using r by simp
qed

text \<open>\<^verbatim>\<open>bmap\<close> walks down the path of its block.\<close>

lemma ml_bmap_mapped:
  assumes wf: "fs_wf st" and T: "tree_ok st ip" and bn: "bn < ML_MAXFILE" and room: "log_room st (k + 11)" and free: "4 \<le> free_count st"
  shows "\<exists>addr st' ip'. ml_bmap st ip (word_of_nat bn) = Some (addr, st', ip') \<and> mapped k st ip (ml_path bn) st' ip' addr"
proof -
  have u: "unat (word_of_nat bn :: u32) = bn" using bn by (intro unat_of_nat_lt) simp
  have top: "\<exists>addr st' ip'. ml_top st ip i = Some (addr, st', ip') \<and> mapped (k + l) st ip [i] st' ip' addr"
    if "i < 13" "l \<le> 9" for i l
  proof -
    have "log_room st (k + l + 2)" using room that by (elim log_room_mono) simp
    then show ?thesis using ml_top_ok [OF wf T that(1), of "k + l"] mapped_top that(1) free by fastforce
  qed
  have leaf: "leaf (ml_path bn)" by (rule ml_path_leaf [OF bn])
  consider (d) "bn < 6" | (s) "6 \<le> bn" "bn < 518" | (dd) "518 \<le> bn" "bn < 33286" | (t) "33286 \<le> bn" by linarith
  then show ?thesis
  proof cases
    case d
    then show ?thesis using top [of bn 0] u by (simp add: ml_bmap_def ml_path_def)
  next
    case s
    let ?i = "6 + (bn - 6) div 128" and ?j = "(bn - 6) mod 128"
    have p: "ml_path bn = [?j, ?i]" using s by (simp add: ml_path_def)
    have v: "valid_path [?j, ?i]" "?i < 13" using leaf p by (auto simp: leaf_def valid_path_def)
    obtain a1 s1 i1 where 1: "ml_top st ip ?i = Some (a1, s1, i1)" "mapped (k + 3) st ip [?i] s1 i1 a1"
      using top [of ?i 3] v(2) by auto
    obtain a2 s2 where 2: "ml_child s1 a1 ?j = Some (a2, s2)" "mapped k st ip [?j, ?i] s2 i1 a2"
      using ml_child_mapped [OF 1(2) v(1)] free by auto
    have b: "bn - 6 < 512" "\<not> bn < 6" using s by auto
    show ?thesis using 1(1) 2 p u b by (simp add: ml_bmap_def Let_def)
  next
    case dd
    let ?i = "10 + (bn - 518) div 16384" and ?j = "(bn - 518) mod 16384 div 128" and ?l = "(bn - 518) mod 16384 mod 128"
    have p: "ml_path bn = [?l, ?j, ?i]" using dd by (simp add: ml_path_def)
    have v: "valid_path [?l, ?j, ?i]" "?i < 13" using leaf p by (auto simp: leaf_def valid_path_def)
    have v2: "valid_path [?j, ?i]" using valid_path_tl [OF v(1)] by simp
    obtain a1 s1 i1 where 1: "ml_top st ip ?i = Some (a1, s1, i1)" "mapped (k + 3 + 3) st ip [?i] s1 i1 a1"
      using top [of ?i 6] v(2) by (auto simp: add.assoc)
    obtain a2 s2 where 2: "ml_child s1 a1 ?j = Some (a2, s2)" "mapped (k + 3) st ip [?j, ?i] s2 i1 a2"
      using ml_child_mapped [OF 1(2) v2] free by auto
    obtain a3 s3 where 3: "ml_child s2 a2 ?l = Some (a3, s3)" "mapped k st ip [?l, ?j, ?i] s3 i1 a3"
      using ml_child_mapped [OF 2(2) v(1)] free by auto
    have b: "bn - 6 - 512 = bn - 518" "\<not> bn - 6 < 512" "bn - 518 < 32768" using dd by auto
    show ?thesis using 1(1) 2(1) 3 p dd u b by (simp add: ml_bmap_def Let_def)
  next
    case t
    let ?h = "(bn - 33286) div 16384" and ?j = "(bn - 33286) mod 16384 div 128" and ?l = "(bn - 33286) mod 16384 mod 128"
    have p: "ml_path bn = [?l, ?j, ?h, 12]" using t by (simp add: ml_path_def)
    have v: "valid_path [?l, ?j, ?h, 12]" using leaf p by (auto simp: leaf_def)
    have v2: "valid_path [?j, ?h, 12]" using valid_path_tl [OF v] by simp
    have v3: "valid_path [?h, 12]" using valid_path_tl [OF v2] by simp
    obtain a1 s1 i1 where 1: "ml_top st ip 12 = Some (a1, s1, i1)" "mapped (k + 3 + 3 + 3) st ip [12] s1 i1 a1"
      using top [of 12 9] by (auto simp: add.assoc)
    obtain a2 s2 where 2: "ml_child s1 a1 ?h = Some (a2, s2)" "mapped (k + 3 + 3) st ip [?h, 12] s2 i1 a2"
      using ml_child_mapped [OF 1(2) v3] free by auto
    obtain a3 s3 where 3: "ml_child s2 a2 ?j = Some (a3, s3)" "mapped (k + 3) st ip [?j, ?h, 12] s3 i1 a3"
      using ml_child_mapped [OF 2(2) v2] free by auto
    obtain a4 s4 where 4: "ml_child s3 a3 ?l = Some (a4, s4)" "mapped k st ip [?l, ?j, ?h, 12] s4 i1 a4"
      using ml_child_mapped [OF 3(2) v] free by auto
    have b: "bn - 6 - 512 - 32768 = bn - 33286" "\<not> bn - 6 < 512" "\<not> bn - 6 - 512 < 32768" "bn - 33286 < 2097152" "\<not> bn < 6"
      using t bn by auto
    show ?thesis using 1(1) 2(1) 3(1) 4 p u b by (simp add: ml_bmap_def Let_def)
  qed
qed

text \<open>The same, seen on the array of blocks.\<close>

definition maps_block :: "nat \<Rightarrow> fsys \<Rightarrow> inode \<Rightarrow> nat \<Rightarrow> fsys \<Rightarrow> inode \<Rightarrow> u32 \<Rightarrow> bool" where
  "maps_block k st ip bn st' ip' addr \<longleftrightarrow> fs_wf st' \<and> tree_ok st' ip' \<and> same_meta ip ip' \<and> sb st' = sb st \<and> fssize st' = fssize st \<and>
     addr \<noteq> 0 \<and> block_at st' ip' bn = addr \<and>
     (\<forall>m < ML_MAXFILE. m \<noteq> bn \<or> block_at st ip m \<noteq> 0 \<longrightarrow> block_at st' ip' m = block_at st ip m) \<and>
     (block_at st ip bn = 0 \<longrightarrow> cache st' addr = replicate BSIZE 0) \<and>
     (\<forall>m < ML_MAXFILE. block_at st ip m \<noteq> 0 \<longrightarrow> cache st' (block_at st ip m) = cache st (block_at st ip m)) \<and>
     log_room st' k \<and> free_count st \<le> 4 + free_count st'"

lemma ml_bmap_array:
  assumes "mapped k st ip (ml_path bn) st' ip' addr" and bn: "bn < ML_MAXFILE"
  shows "maps_block k st ip bn st' ip' addr"
proof -
  note m = assms(1) [unfolded mapped_def]
  have keep: "block_at st' ip' m = block_at st ip m" if "m < ML_MAXFILE" "m \<noteq> bn \<or> block_at st ip m \<noteq> 0" for m
  proof -
    have "valid_path (ml_path m)" "leaf (ml_path m)" using ml_path_leaf [OF that(1)] by (auto simp: leaf_def)
    moreover have "node st ip (ml_path m) \<noteq> 0 \<or> \<not> suffix (ml_path m) (ml_path bn)"
      using that ml_path_inj [OF that(1) bn] not_suffix_leaf [OF ml_path_leaf [OF bn] calculation(2)] by (auto simp: block_at_def)
    ultimately show ?thesis using m by (simp add: block_at_def)
  qed
  have "cache st' (block_at st ip m) = cache st (block_at st ip m)" if "m < ML_MAXFILE" "block_at st ip m \<noteq> 0" for m
    using m ml_path_leaf [OF that(1)] that(2) by (simp add: block_at_def)
  moreover have "length (ml_path bn) \<le> 4" by (simp add: ml_path_def)
  ultimately show ?thesis using m keep unfolding maps_block_def by (auto simp: block_at_def)
qed

text \<open>
  C2: \<^verbatim>\<open>bmap\<close> of the multi-level file system implements a growable array of blocks.  For every block number below
  \<^verbatim>\<open>MAXFILE\<close> it returns a block that is entry \<open>bn\<close> of the file afterwards: the block the file already had there, or a
  fresh zeroed one.  No other entry changes, the bytes of the file's blocks are kept, and the blocks of the tree (the
  indirect ones included) stay disjoint data blocks in use.  At most 4 blocks and 11 log entries are taken.  A
  block number of \<^verbatim>\<open>MAXFILE\<close> or more panics.
\<close>

theorem ml_bmap_grows_array:
  assumes "fs_wf st" "tree_ok st ip" "log_room st (k + 11)" "4 \<le> free_count st"
  shows "if unat bn < ML_MAXFILE
    then \<exists>addr st' ip'. ml_bmap st ip bn = Some (addr, st', ip') \<and> maps_block k st ip (unat bn) st' ip' addr
    else ml_bmap st ip bn = None"
proof (cases "unat bn < ML_MAXFILE")
  case True
  then show ?thesis using ml_bmap_mapped [OF assms(1,2) True assms(3,4)] ml_bmap_array [OF _ True] by auto
next
  case False
  then have "\<not> unat bn < 6" "\<not> unat bn - 6 < 512" "\<not> unat bn - 6 - 512 < 32768" "\<not> unat bn - 6 - 512 - 32768 < 2097152" by auto
  then have "ml_bmap st ip bn = None" unfolding ml_bmap_def Let_def by (simp del: diff_diff_left)
  then show ?thesis using False by simp
qed

subsection \<open>Truncation frees the tree\<close>

text \<open>Index ranges stay folded: an indirect block has 128 entries.\<close>

declare upt_rec_numeral [simp del]

text \<open>The nodes below \<open>p\<close> that have a block, in the order in which truncation frees them.\<close>

fun below :: "nat \<Rightarrow> fsys \<Rightarrow> inode \<Rightarrow> nat list \<Rightarrow> nat list list" where
  "below 0 st ip p = (if node st ip p = 0 then [] else [p])"
| "below (Suc l) st ip p = (if node st ip p = 0 then [] else concat (map (\<lambda>j. below l st ip (j # p)) [0..<NINDIRECT]) @ [p])"

definition tree_paths :: "fsys \<Rightarrow> inode \<Rightarrow> nat list list" where
  "tree_paths st ip = concat (map (\<lambda>i. below (depth i) st ip [i]) [0..<13])"

definition tree_blocks :: "fsys \<Rightarrow> inode \<Rightarrow> u32 set" where
  "tree_blocks st ip = {b. b \<noteq> 0 \<and> (\<exists>p. valid_path p \<and> node st ip p = b)}"

fun bfree_all :: "fsys \<Rightarrow> u32 list \<Rightarrow> fsys option" where
  "bfree_all st [] = Some st"
| "bfree_all st (b # bs) = do { st \<leftarrow> bfree st b; bfree_all st bs }"

lemma bfree_all_append: "bfree_all st (xs @ ys) = do { st \<leftarrow> bfree_all st xs; bfree_all st ys }"
  by (induction xs arbitrary: st) (auto split: Option.bind_splits)

lemma below_suffix: "q \<in> set (below l st ip p) \<Longrightarrow> suffix p q"
proof (induction l arbitrary: p)
  case (Suc l)
  then have "q = p \<or> (\<exists>j. suffix (j # p) q)" by (auto split: if_splits)
  then show ?case by (auto simp: suffix_def)
qed (auto split: if_splits)

lemma suffix_Cons_same: "suffix (i # p) q \<Longrightarrow> suffix (j # p) q \<Longrightarrow> i = j"
  by (auto simp: suffix_def)

lemma distinct_concat_upt:
  assumes "\<And>i. i < n \<Longrightarrow> distinct (f i)" "\<And>i j q. i < j \<Longrightarrow> j < n \<Longrightarrow> q \<in> set (f i) \<Longrightarrow> q \<notin> set (f j)"
  shows "distinct (concat (map f [0..<n]))"
  using assms
proof (induction n)
  case (Suc n)
  then have "distinct (concat (map f [0..<n]))" by auto
  then show ?case using Suc.prems by auto
qed simp

lemma distinct_below: "distinct (below l st ip p)"
proof (induction l arbitrary: p)
  case (Suc l)
  have "distinct (concat (map (\<lambda>j. below l st ip (j # p)) [0..<NINDIRECT]))"
  proof (rule distinct_concat_upt)
    fix i j q assume "i < j" and q: "q \<in> set (below l st ip (i # p))"
    show "q \<notin> set (below l st ip (j # p))"
      using below_suffix [OF q] below_suffix [of q l st ip "j # p"] suffix_Cons_same [of i p q j] \<open>i < j\<close> by auto
  qed (rule Suc)
  moreover have "p \<notin> set (below l st ip (j # p))" for j
    using below_suffix [of p l st ip "j # p"] suffix_length_le [of "j # p" p] by auto
  ultimately show ?case by simp
qed simp

lemma distinct_tree_paths: "distinct (tree_paths st ip)"
  unfolding tree_paths_def
proof (rule distinct_concat_upt)
  fix i j q assume "i < j" and q: "q \<in> set (below (depth i) st ip [i])"
  show "q \<notin> set (below (depth j) st ip [j])"
    using below_suffix [OF q] below_suffix [of q "depth j" st ip "[j]"] \<open>i < j\<close> by (auto simp: suffix_def)
qed (rule distinct_below)

lemma node_suffix: "suffix p q \<Longrightarrow> p \<noteq> [] \<Longrightarrow> node st ip q \<noteq> 0 \<Longrightarrow> node st ip p \<noteq> 0"
proof (induction q)
  case (Cons j q)
  then show ?case by (cases "p = j # q"; cases q) (auto simp: suffix_Cons split: if_splits)
qed simp

lemma set_below:
  "valid_path p \<Longrightarrow> length p + l = depth (last p) + 1 \<Longrightarrow>
   set (below l st ip p) = {q. suffix p q \<and> valid_path q \<and> node st ip q \<noteq> 0}"
proof (induction l arbitrary: p)
  case 0
  have "q = p" if q: "suffix p q" "valid_path q" for q
  proof -
    obtain r where r: "q = r @ p" using q(1) unfolding suffix_def by blast
    then have "length r + length p \<le> depth (last p) + 1" using q(2) 0 by (auto simp: valid_path_def)
    then show ?thesis using r 0 by simp
  qed
  then show ?case using 0 by auto
next
  case (Suc l)
  have ne: "p \<noteq> []" using Suc.prems by (auto simp: valid_path_def)
  have v: "valid_path (j # p) \<longleftrightarrow> j < 128" for j using Suc.prems ne by (auto simp: valid_path_def)
  have IH: "set (below l st ip (j # p)) = {q. suffix (j # p) q \<and> valid_path q \<and> node st ip q \<noteq> 0}" if "j < 128" for j
    using Suc.IH [of "j # p"] v that Suc.prems ne by simp
  have "\<exists>j < 128. suffix (j # p) q" if q: "suffix p q" "q \<noteq> p" "valid_path q" for q
  proof -
    obtain r where r: "q = r @ p" using q(1) unfolding suffix_def by blast
    then obtain r' j where "r = r' @ [j]" using q(2) by (cases r rule: rev_cases) auto
    then have "q = r' @ j # p" using r by simp
    then show ?thesis using q(3) ne by (auto simp: valid_path_def suffix_def butlast_append)
  qed
  moreover have "suffix (j # p) q \<Longrightarrow> suffix p q" for j q by (auto simp: suffix_def)
  ultimately have sub: "{q. suffix p q \<and> valid_path q \<and> node st ip q \<noteq> 0} - {p} =
      (\<Union>j \<in> {0..<128}. {q. suffix (j # p) q \<and> valid_path q \<and> node st ip q \<noteq> 0}) - {p}" by fastforce
  show ?case
  proof (cases "node st ip p = 0")
    case True
    then show ?thesis using node_suffix [OF _ ne, of _ st ip] by auto
  next
    case False
    have "set (below (Suc l) st ip p) = insert p ((\<Union>j \<in> {0..<128}. set (below l st ip (j # p))) - {p})"
      using False by auto
    also have "\<dots> = {q. suffix p q \<and> valid_path q \<and> node st ip q \<noteq> 0}"
      using sub False Suc.prems IH by auto
    finally show ?thesis .
  qed
qed

lemma set_tree_paths: "set (tree_paths st ip) = {q. valid_path q \<and> node st ip q \<noteq> 0}"
proof -
  have v: "valid_path [i] \<longleftrightarrow> i < 13" for i by (auto simp: valid_path_def)
  have "set (below (depth i) st ip [i]) = {q. suffix [i] q \<and> valid_path q \<and> node st ip q \<noteq> 0}" if "i < 13" for i
    using that by (intro set_below) (simp_all add: v)
  moreover have "\<exists>i < 13. suffix [i] q" if "valid_path q" for q
    using that by (cases q rule: rev_cases) (auto simp: valid_path_def suffix_def)
  ultimately show ?thesis by (fastforce simp: tree_paths_def)
qed

text \<open>Freeing data blocks leaves the data blocks as they are: the tree can still be read from them.\<close>

definition agree :: "fsys \<Rightarrow> fsys \<Rightarrow> bool" where
  "agree st st' \<longleftrightarrow> fs_wf st' \<and> sb st' = sb st \<and> fssize st' = fssize st \<and>
     (\<forall>b. data_start st \<le> unat b \<longrightarrow> cache st' b = cache st b)"

definition data_block :: "fsys \<Rightarrow> u32 \<Rightarrow> bool" where
  "data_block st b \<longleftrightarrow> data_start st \<le> unat b \<and> unat b < unat (sb_size (sb st))"

lemma agree_free:
  assumes "agree st st'" "data_block st b"
  shows "agree st (free_effect st' b)"
proof -
  have ds: "data_start st' = data_start st" using assms(1) by (auto simp: agree_def intro: sb_cong(2))
  have "unat (BBLOCK st' b) < data_start st'"
    using BBLOCK_facts(2) [of st' b] assms by (auto simp: agree_def data_block_def fs_wf_def)
  then show ?thesis using assms free_effect_wf [of st' b] ds by (auto simp: agree_def data_block_def)
qed

lemma bfree_agree:
  assumes "agree st st'" "data_block st b"
  shows "bfree st' b = (if used st' b \<and> log_room st' 1 then Some (free_effect st' b) else None)"
  using assms by (intro bfree_eq) (auto simp: agree_def data_block_def)

lemma bfree_all_agree:
  "agree st st' \<Longrightarrow> (\<And>b. b \<in> set bs \<Longrightarrow> data_block st b) \<Longrightarrow> bfree_all st' bs = Some st'' \<Longrightarrow> agree st st''"
proof (induction bs arbitrary: st')
  case (Cons b bs)
  have b: "data_block st b" using Cons.prems(2) by simp
  have "bfree_all (free_effect st' b) bs = Some st''"
    using Cons.prems(3) bfree_agree [OF Cons.prems(1) b] by (simp split: if_splits)
  then show ?case using Cons.IH [OF agree_free [OF Cons.prems(1) b]] Cons.prems(2) by simp
qed simp

lemma each_bfree_all:
  assumes "\<And>p st'. p \<in> set ps \<Longrightarrow> node st ip p \<noteq> 0 \<Longrightarrow> agree st st' \<Longrightarrow> f st' (node st ip p) = bfree_all st' (map (node st ip) (P p))"
    and "\<And>p. p \<in> set ps \<Longrightarrow> node st ip p = 0 \<Longrightarrow> P p = []"
    and "\<And>p q. p \<in> set ps \<Longrightarrow> q \<in> set (P p) \<Longrightarrow> data_block st (node st ip q)"
    and "agree st st'"
  shows "each f st' (map (node st ip) ps) = bfree_all st' (map (node st ip) (concat (map P ps)))"
  using assms
proof (induction ps arbitrary: st')
  case (Cons p ps)
  have IH: "each f s (map (node st ip) ps) = bfree_all s (map (node st ip) (concat (map P ps)))" if "agree st s" for s
    by (rule Cons.IH [OF Cons.prems(1,2) Cons.prems(3) that]) auto
  show ?case
  proof (cases "node st ip p = 0")
    case True
    then show ?thesis using IH Cons.prems by auto
  next
    case False
    have f: "f st' (node st ip p) = bfree_all st' (map (node st ip) (P p))" using Cons.prems False by auto
    have ag: "agree st s" if s: "bfree_all st' (map (node st ip) (P p)) = Some s" for s
      using bfree_all_agree [OF Cons.prems(4) _ s] Cons.prems(3) [of p] by auto
    show ?thesis
      by (cases "bfree_all st' (map (node st ip) (P p))") (use False f IH ag in \<open>auto simp: bfree_all_append\<close>)
  qed
qed simp

lemma tree_node_data: "tree_ok st ip \<Longrightarrow> valid_path q \<Longrightarrow> node st ip q \<noteq> 0 \<Longrightarrow> data_block st (node st ip q)"
  using tree_okD(1,2) by (auto simp: data_block_def)

lemma below_data:
  assumes "tree_ok st ip" "valid_path p" "length p + l = depth (last p) + 1" "q \<in> set (below l st ip p)"
  shows "data_block st (node st ip q)"
  using assms(4) tree_node_data [OF assms(1)] unfolding set_below [OF assms(2,3)] by blast

lemma entries_nodes:
  "p \<noteq> [] \<Longrightarrow> node st ip p \<noteq> 0 \<Longrightarrow> entries (cache st (node st ip p)) = map (node st ip) (map (\<lambda>j. j # p) [0..<NINDIRECT])"
  by (simp add: entries_def node_Cons)

lemma bfreeindirect_all:
  assumes T: "tree_ok st ip" and "valid_path p" "length p + l = depth (last p) + 1" "node st ip p \<noteq> 0" "agree st st'"
  shows "bfreeindirect l st' (node st ip p) = bfree_all st' (map (node st ip) (below l st ip p))"
  using assms(2-)
proof (induction l arbitrary: p st')
  case 0
  then show ?case by (cases "bfree st' (node st ip p)") auto
next
  case (Suc l)
  have ne: "p \<noteq> []" using Suc.prems by (auto simp: valid_path_def)
  have d: "data_block st (node st ip p)" using tree_node_data [OF T] Suc.prems by blast
  have "node st ip p < fssize st'" using d Suc.prems(4) by (auto simp: data_block_def agree_def fs_wf_def layout_ok_def word_nat)
  then have rd: "bread st' (node st ip p) = Some (cache st (node st ip p))"
    using d Suc.prems(4) by (simp add: bread_ok agree_def data_block_def)
  have v: "valid_path (j # p) \<and> length (j # p) + l = depth (last (j # p)) + 1" if "j < 128" for j
    using that Suc.prems ne by (auto simp: valid_path_def)
  have "each (bfreeindirect l) st' (map (node st ip) (map (\<lambda>j. j # p) [0..<NINDIRECT])) =
      bfree_all st' (map (node st ip) (concat (map (below l st ip) (map (\<lambda>j. j # p) [0..<NINDIRECT]))))"
  proof (rule each_bfree_all [OF _ _ _ Suc.prems(4)])
    fix q s assume "q \<in> set (map (\<lambda>j. j # p) [0..<NINDIRECT])" "node st ip q \<noteq> 0" "agree st s"
    then show "bfreeindirect l s (node st ip q) = bfree_all s (map (node st ip) (below l st ip q))"
      using Suc.IH [of q s] v by auto
  next
    fix q assume "node st ip q = 0"
    then show "below l st ip q = []" by (cases l) auto
  next
    fix q r assume "q \<in> set (map (\<lambda>j. j # p) [0..<NINDIRECT])" "r \<in> set (below l st ip q)"
    then show "data_block st (node st ip r)" using below_data [OF T, of q l r] v by auto
  qed
  then show ?case
    using Suc.prems rd entries_nodes [OF ne]
    by (simp add: comp_def bfree_all_append)
qed

text \<open>The four loops of \<^verbatim>\<open>itrunc\<close> over the entries of the inode free the blocks of the tree in order.\<close>

definition part :: "fsys \<Rightarrow> inode \<Rightarrow> nat \<Rightarrow> nat \<Rightarrow> u32 list" where
  "part st ip a b = map (node st ip) (concat (map (\<lambda>i. below (depth i) st ip [i]) [a..<b]))"

lemma itrunc_part:
  assumes T: "tree_ok st ip" and ag: "agree st st'" and r: "b \<le> 13" "\<And>i. a \<le> i \<Longrightarrow> i < b \<Longrightarrow> depth i = l"
  shows "each (bfreeindirect l) st' (take (b - a) (drop a (addrs ip))) = bfree_all st' (part st ip a b)"
proof -
  have v: "valid_path [i] \<and> length [i] + l = depth (last [i]) + 1" if "i \<in> set [a..<b]" for i
    using that r by (auto simp: valid_path_def)
  have "length (addrs ip) = 13" using T by (simp add: tree_ok_def)
  then have "take (b - a) (drop a (addrs ip)) = map (node st ip) (map (\<lambda>i. [i]) [a..<b])"
    using r(1) by (intro nth_equalityI) auto
  moreover have "each (bfreeindirect l) st' (map (node st ip) (map (\<lambda>i. [i]) [a..<b])) =
      bfree_all st' (map (node st ip) (concat (map (below l st ip) (map (\<lambda>i. [i]) [a..<b]))))"
  proof (rule each_bfree_all [OF _ _ _ ag])
    fix q s assume "q \<in> set (map (\<lambda>i. [i]) [a..<b])" "node st ip q \<noteq> 0" "agree st s"
    then show "bfreeindirect l s (node st ip q) = bfree_all s (map (node st ip) (below l st ip q))"
      using bfreeindirect_all [OF T, of q l s] v by auto
  next
    fix q assume "node st ip q = 0"
    then show "below l st ip q = []" by (cases l) auto
  next
    fix q r assume "q \<in> set (map (\<lambda>i. [i]) [a..<b])" "r \<in> set (below l st ip q)"
    then show "data_block st (node st ip r)" using below_data [OF T, of q l r] v by auto
  qed
  moreover have "map (\<lambda>i. below (depth i) st ip [i]) [a..<b] = map (below l st ip) (map (\<lambda>i. [i]) [a..<b])"
    using r(2) by simp
  ultimately show ?thesis unfolding part_def by (simp only:)
qed

lemma part_data:
  assumes "tree_ok st ip" "c \<in> set (part st ip a b)" "b \<le> 13"
  shows "data_block st c"
proof -
  obtain i q where "i < b" "q \<in> set (below (depth i) st ip [i])" "c = node st ip q" using assms(2) by (auto simp: part_def)
  then show ?thesis using below_data [OF assms(1), of "[i]" "depth i" q] assms(3) by (simp add: valid_path_def)
qed

lemma part_append: "a \<le> b \<Longrightarrow> b \<le> c \<Longrightarrow> part st ip a b @ part st ip b c = part st ip a c"
  using upt_add_eq_append [of a b "c - b"] by (simp add: part_def)

lemma ml_itrunc_all:
  assumes T: "tree_ok st ip" and wf: "fs_wf st"
  shows "ml_itrunc st ip = do {
    st \<leftarrow> bfree_all st (part st ip 0 13);
    st \<leftarrow> iupdate st (ip\<lparr>addrs := replicate 13 0, isize := 0\<rparr>);
    Some (st, ip\<lparr>addrs := replicate 13 0, isize := 0\<rparr>) }"
proof -
  have step: "each (bfreeindirect l) s (take (b - a) (drop a (addrs ip))) = bfree_all s (part st ip a b)"
    if "bfree_all st (part st ip 0 a) = Some s" "a \<le> b" "b \<le> 13" "\<And>i. a \<le> i \<Longrightarrow> i < b \<Longrightarrow> depth i = l" for a b l s
  proof (rule itrunc_part [OF T _ that(3,4)])
    have "agree st st" using wf by (simp add: agree_def)
    then show "agree st s" using bfree_all_agree [OF _ part_data [OF T] that(1)] that(2,3) by fastforce
  qed
  have chain: "do { s \<leftarrow> bfree_all st (part st ip 0 a); s \<leftarrow> each (bfreeindirect l) s (take (b - a) (drop a (addrs ip))); g s } =
      do { s \<leftarrow> bfree_all st (part st ip 0 b); g s }"
    if "a \<le> b" "b \<le> 13" "\<And>i. a \<le> i \<Longrightarrow> i < b \<Longrightarrow> depth i = l" for a b l and g :: "fsys \<Rightarrow> (fsys \<times> inode) option"
  proof -
    have "bfree_all st (part st ip 0 b) = do { s \<leftarrow> bfree_all st (part st ip 0 a); bfree_all s (part st ip a b) }"
      using that(1) part_append [of 0 a b st ip] bfree_all_append by (metis le0)
    then show ?thesis using step [OF _ that] by (cases "bfree_all st (part st ip 0 a)") auto
  qed
  have d: "depth i = 0" if "0 \<le> i" "i < 6" for i using that by (simp add: depth_def)
  have s: "depth i = 1" if "6 \<le> i" "i < 10" for i using that by (simp add: depth_def)
  have dd: "depth i = 2" if "10 \<le> i" "i < 12" for i using that by (simp add: depth_def)
  have t: "depth i = 3" if "12 \<le> i" "i < 13" for i using that by (simp add: depth_def)
  have z: "bfree_all st (part st ip 0 0) = Some st" by (simp add: part_def)
  let ?g = "\<lambda>s. do { s \<leftarrow> iupdate s (ip\<lparr>addrs := replicate 13 0, isize := 0\<rparr>); Some (s, ip\<lparr>addrs := replicate 13 0, isize := 0\<rparr>) }"
  note c4 = chain [of 12 13 3 ?g, OF _ _ t]
  note c3 = chain [of 10 12 2 "\<lambda>s. do { s \<leftarrow> each (bfreeindirect 3) s (take 1 (drop 12 (addrs ip))); ?g s }", OF _ _ dd]
  note c2 = chain [of 6 10 1 "\<lambda>s. do { s \<leftarrow> each (bfreeindirect 2) s (take 2 (drop 10 (addrs ip)));
      s \<leftarrow> each (bfreeindirect 3) s (take 1 (drop 12 (addrs ip))); ?g s }", OF _ _ s]
  note c1 = chain [of 0 6 0 "\<lambda>s. do { s \<leftarrow> each (bfreeindirect 1) s (take 4 (drop 6 (addrs ip)));
      s \<leftarrow> each (bfreeindirect 2) s (take 2 (drop 10 (addrs ip)));
      s \<leftarrow> each (bfreeindirect 3) s (take 1 (drop 12 (addrs ip))); ?g s }", OF _ _ d]
  have "ml_itrunc st ip = do { s \<leftarrow> bfree_all st (part st ip 0 6); s \<leftarrow> each (bfreeindirect 1) s (take 4 (drop 6 (addrs ip)));
      s \<leftarrow> each (bfreeindirect 2) s (take 2 (drop 10 (addrs ip)));
      s \<leftarrow> each (bfreeindirect 3) s (take 1 (drop 12 (addrs ip))); ?g s }"
    using c1 unfolding ml_itrunc_def z Let_def by simp
  also have "\<dots> = do { s \<leftarrow> bfree_all st (part st ip 0 13); ?g s }" using c2 c3 c4 by simp
  finally show ?thesis .
qed

lemma part_paths: "part st ip 0 13 = map (node st ip) (tree_paths st ip)"
  by (simp add: part_def tree_paths_def)

lemma tree_list:
  assumes "tree_ok st ip"
  shows "distinct (part st ip 0 13)" "set (part st ip 0 13) = tree_blocks st ip"
proof -
  have "inj_on (node st ip) (set (tree_paths st ip))"
    unfolding set_tree_paths using tree_okD(4) [OF assms] by (intro inj_onI) auto
  then show "distinct (part st ip 0 13)" unfolding part_paths using distinct_tree_paths by (simp add: distinct_map)
  show "set (part st ip 0 13) = tree_blocks st ip" by (auto simp: part_paths set_tree_paths tree_blocks_def)
qed

text \<open>Every freed block puts its map block into the log, once.\<close>

definition fresh_maps :: "fsys \<Rightarrow> u32 list \<Rightarrow> u32 set" where
  "fresh_maps st bs = BBLOCK st ` set bs - set (lh (log st))"

lemma log_free [simp]: "set (lh (log (free_effect st b))) = insert (BBLOCK st b) (set (lh (log st)))"
  by (auto simp: free_effect_def note_logged_def)

lemma log_room_free:
  assumes "log_room st (card (fresh_maps st (b # bs)) + k)"
  shows "log_room (free_effect st b) (card (fresh_maps (free_effect st b) bs) + k)"
proof -
  have B: "BBLOCK (free_effect st b) c = BBLOCK st c" for c by (rule sb_cong(1)) simp
  have f: "fresh_maps (free_effect st b) bs = fresh_maps st (b # bs) - {BBLOCK st b}"
    by (auto simp: fresh_maps_def B)
  show ?thesis
  proof (cases "BBLOCK st b \<in> set (lh (log st))")
    case True
    then have "fresh_maps (free_effect st b) bs = fresh_maps st (b # bs)" unfolding f by (auto simp: fresh_maps_def)
    moreover have "log (free_effect st b) = log st" using True by (simp add: free_effect_def note_logged_def)
    ultimately show ?thesis using assms log_room_log by metis
  next
    case False
    then have "BBLOCK st b \<in> fresh_maps st (b # bs)" by (simp add: fresh_maps_def)
    then have "card (fresh_maps st (b # bs)) = Suc (card (fresh_maps (free_effect st b) bs))"
      using card_Suc_Diff1 [of "fresh_maps st (b # bs)" "BBLOCK st b"] unfolding f by (simp add: fresh_maps_def)
    then show ?thesis using assms False by (auto simp: log_room_def free_effect_def note_logged_def)
  qed
qed

lemma bfree_all_ok:
  assumes "agree st0 st" "distinct bs" "\<And>b. b \<in> set bs \<Longrightarrow> data_block st0 b \<and> used st b" "log_room st (card (fresh_maps st bs) + Suc k)"
  shows "\<exists>st'. bfree_all st bs = Some st' \<and> agree st0 st' \<and> log_room st' (Suc k) \<and>
    (\<forall>b. unat b < unat (sb_size (sb st0)) \<longrightarrow> used st' b = (b \<notin> set bs \<and> used st b))"
  using assms
proof (induction bs arbitrary: st)
  case (Cons b bs)
  let ?s = "free_effect st b"
  have b: "data_block st0 b" "used st b" using Cons.prems(3) by auto
  have "log_room st 1" using Cons.prems(4) by (rule log_room_mono) simp
  then have call: "bfree st b = Some ?s" using bfree_agree [OF Cons.prems(1) b(1)] b(2) by simp
  have ag: "agree st0 ?s" by (rule agree_free [OF Cons.prems(1) b(1)])
  have sz: "sb st = sb st0" "fs_wf st" using Cons.prems(1) by (auto simp: agree_def)
  have u: "used ?s c \<longleftrightarrow> c \<noteq> b \<and> used st c" if "unat c < unat (sb_size (sb st0))" for c
    using used_free [OF sz(2), of b c] that b(1) sz(1) by (simp add: data_block_def)
  have room: "log_room ?s (card (fresh_maps ?s bs) + Suc k)" using log_room_free Cons.prems(4) by blast
  have "data_block st0 c \<and> used ?s c" if "c \<in> set bs" for c
    using Cons.prems(2,3) that u [of c] by (auto simp: data_block_def)
  then obtain st' where "bfree_all ?s bs = Some st'" "agree st0 st'" "log_room st' (Suc k)"
    "\<forall>c. unat c < unat (sb_size (sb st0)) \<longrightarrow> used st' c = (c \<notin> set bs \<and> used ?s c)"
    using Cons.IH [OF ag _ _ room] Cons.prems(2) by auto
  then show ?case using call u by auto
qed (auto intro: log_room_mono)

lemma bfree_all_logs:
  assumes "agree st0 st" "\<And>b. b \<in> set bs \<Longrightarrow> data_block st0 b" "bfree_all st bs = Some st'" "bs \<noteq> []"
  shows "BBLOCK st0 ` set bs \<subseteq> set (lh (log st')) \<and> set (lh (log st)) \<subseteq> set (lh (log st')) \<and> length (lh (log st')) \<le> LOGSIZE"
  using assms
proof (induction bs arbitrary: st)
  case (Cons b bs)
  let ?s = "free_effect st b"
  have b: "data_block st0 b" using Cons.prems(2) by auto
  then have r: "bfree_all ?s bs = Some st'" "log_room st 1"
    using Cons.prems(3) bfree_agree [OF Cons.prems(1) b] by (auto split: if_splits)
  have "BBLOCK st b = BBLOCK st0 b" using Cons.prems(1) by (intro sb_cong(1)) (simp add: agree_def)
  moreover have "length (lh (log ?s)) \<le> LOGSIZE" using r(2) by (auto simp: free_effect_def note_logged_def log_room_def)
  ultimately show ?case
    using r(1) Cons.IH [OF agree_free [OF Cons.prems(1) b] _ r(1)] Cons.prems(2) log_free [of st b]
    by (cases "bs = []") auto
qed simp

text \<open>
  C17: truncation.  \<^verbatim>\<open>itrunc\<close> frees the blocks of the file's tree, data blocks and indirect blocks alike, and no
  other block; afterwards the inode is empty.  The log must have room for the map blocks of the tree's blocks and
  for the inode block.
\<close>

theorem ml_itrunc_frees_tree:
  assumes wf: "fs_wf st" and T: "tree_ok st ip" and i: "unat (inum ip) < unat (ninodes (sb st))"
    and room: "log_room st (card (BBLOCK st ` tree_blocks st ip) + 1)"
  shows "\<exists>st' ip'. ml_itrunc st ip = Some (st', ip') \<and> ip' = ip\<lparr>addrs := replicate 13 0, isize := 0\<rparr> \<and> fs_wf st' \<and>
    (\<forall>b. unat b < unat (sb_size (sb st)) \<longrightarrow> used st' b = (used st b \<and> b \<notin> tree_blocks st ip)) \<and>
    (\<forall>bn < ML_MAXFILE. block_at st' ip' bn = 0)"
proof -
  let ?bs = "part st ip 0 13" and ?ip = "ip\<lparr>addrs := replicate 13 0, isize := 0\<rparr>"
  note tl = tree_list [OF T]
  have "fresh_maps st ?bs \<subseteq> BBLOCK st ` tree_blocks st ip" by (auto simp: fresh_maps_def tl)
  then have "card (fresh_maps st ?bs) \<le> card (BBLOCK st ` tree_blocks st ip)" by (intro card_mono) (simp_all flip: tl(2))
  then have room': "log_room st (card (fresh_maps st ?bs) + Suc 0)" using room by (elim log_room_mono) simp
  have "agree st st" using wf by (simp add: agree_def)
  moreover have "data_block st b \<and> used st b" if "b \<in> set ?bs" for b
    using that tree_okD [OF T] unfolding tl tree_blocks_def data_block_def by blast
  ultimately obtain s where s: "bfree_all st ?bs = Some s" "agree st s" "log_room s (Suc 0)"
    "\<forall>b. unat b < unat (sb_size (sb st)) \<longrightarrow> used s b = (b \<notin> tree_blocks st ip \<and> used st b)"
    using bfree_all_ok [OF _ tl(1) _ room'] unfolding tl(2) by blast
  have s': "fs_wf s" "sb s = sb st" using s(2) by (auto simp: agree_def)
  have iu: "iupdate s ?ip = Some (update_effect s ?ip)" using iupdate_eq [OF s'(1), of ?ip] i s(3) s'(2) by simp
  have q: "quiet s (update_effect s ?ip)" using update_effect_ok(1) [OF s'(1), of ?ip] i s'(2) by simp
  have call: "ml_itrunc st ip = Some (update_effect s ?ip, ?ip)" using ml_itrunc_all [OF T wf] s(1) iu by simp
  have "node u ?ip p = 0" if "valid_path p" for u p
  proof (rule ccontr)
    assume "node u ?ip p \<noteq> 0"
    moreover have "suffix [last p] p" "last p < 13"
      using that append_butlast_last_id [of p] by (auto simp: valid_path_def suffix_def intro: exI [of _ "butlast p"])
    ultimately show False using node_suffix [of "[last p]" p u ?ip] by simp
  qed
  then have "block_at u ?ip bn = 0" if "bn < ML_MAXFILE" for u bn
    using ml_path_leaf [OF that] by (simp add: block_at_def leaf_def)
  then show ?thesis using call q s(4) s'(2) by (auto simp: quiet_def)
qed

text \<open>
  C39: the limit of \<^verbatim>\<open>itrunc\<close>.  Truncation frees the whole file within one transaction, and each freed block logs its map
  block; a log holds \<^verbatim>\<open>LOGSIZE\<close> blocks.  So truncating a file whose blocks lie under more than \<^verbatim>\<open>LOGSIZE\<close> map blocks
  panics (\<^verbatim>\<open>too big a transaction\<close>), although \<^verbatim>\<open>bmap\<close> and \<^verbatim>\<open>writei\<close> let a file grow to \<^verbatim>\<open>MAXFILE\<close> blocks.
\<close>

theorem ml_itrunc_too_big:
  assumes wf: "fs_wf st" and T: "tree_ok st ip" and big: "LOGSIZE < card (BBLOCK st ` tree_blocks st ip)"
  shows "ml_itrunc st ip = None"
proof -
  let ?bs = "part st ip 0 13"
  have ag: "agree st st" using wf by (simp add: agree_def)
  have ne: "?bs \<noteq> []" using big tree_list(2) [OF T] by auto
  have d: "data_block st b" if "b \<in> set ?bs" for b using part_data [OF T that] by simp
  have "bfree_all st ?bs \<noteq> Some s" for s
  proof
    assume "bfree_all st ?bs = Some s"
    from bfree_all_logs [OF ag d this ne]
    have "BBLOCK st ` tree_blocks st ip \<subseteq> set (lh (log s))" "length (lh (log s)) \<le> LOGSIZE" unfolding tree_list(2) [OF T] by auto
    then have "card (BBLOCK st ` tree_blocks st ip) \<le> LOGSIZE"
      using card_mono [of "set (lh (log s))" "BBLOCK st ` tree_blocks st ip"] card_length [of "lh (log s)"] by simp
    then show False using big by simp
  qed
  then show ?thesis using ml_itrunc_all [OF T wf] by (cases "bfree_all st ?bs") auto
qed

subsection \<open>Sample files\<close>

lemma root_of_path: "valid_path p \<Longrightarrow> suffix [last p] p \<and> last p < 13"
  by (cases p rule: rev_cases) (auto simp: valid_path_def suffix_def)

definition empty_ip :: inode where
  "empty_ip = \<lparr>dev = 1, inum = 1, ref = 1, locked = True, valid = True, itype = T_FILE, major = 0, minor = 0,
     nlink = 1, isize = 0, addrs = replicate 13 0\<rparr>"

lemma empty_ip_ok: "tree_ok st empty_ip"
proof -
  have "node st empty_ip p = 0" if "valid_path p" for p
    using node_suffix [of "[last p]" p st empty_ip] root_of_path [OF that] by (auto simp: empty_ip_def)
  then show ?thesis by (auto simp: tree_ok_def) (simp add: empty_ip_def)
qed

theorem ml_bmap_grows_array_witness:
  "\<exists>addr st' ip'. ml_bmap sample_st empty_ip 40000 = Some (addr, st', ip') \<and> maps_block 0 sample_st empty_ip 40000 st' ip' addr"
proof -
  let ?F = "{b. unat b < unat (sb_size (sb sample_st)) \<and> \<not> used sample_st b}"
  have f: "word_of_nat n \<in> ?F" if "35 \<le> n" "n < 1000" for n
  proof -
    have "unat (word_of_nat n :: u32) = n" using that by (intro unat_of_nat_lt) simp
    then show ?thesis using sample_used [of "word_of_nat n"] that by (simp add: sample_st_def sample_sb_def)
  qed
  have "{35, 36, 37, 38} \<subseteq> ?F" using f [of 35] f [of 36] f [of 37] f [of 38] by simp
  then have "card {35, 36, 37, 38 :: u32} \<le> free_count sample_st" unfolding free_count_def by (intro card_mono) simp_all
  then have "4 \<le> free_count sample_st" by simp
  then show ?thesis using ml_bmap_grows_array [OF sample_st_wf empty_ip_ok, of 0 40000] sample_room [of 11] by simp
qed

text \<open>
  A full disk of 143360 blocks with 35 map blocks, and the inodes of two files with one indirect block: block 72 has no
  entries, block 71 has an entry under each of 31 map blocks.
\<close>

definition wide_entry :: "nat \<Rightarrow> u32" where
  "wide_entry j = word_of_nat (4096 * (j + 1))"

definition wide_entries :: "u32 list" where
  "wide_entries = map wide_entry [0..<31] @ replicate 97 0"

definition wide_st :: fsys where
  "wide_st = \<lparr>fssize = 143360, platter = (\<lambda>_. replicate BSIZE 0),
     cache = (\<lambda>b. if 34 \<le> unat b \<and> unat b < 70 then replicate BSIZE 255
        else if b = 71 then concat (map le32_bytes wide_entries) else replicate BSIZE 0), trace = [],
     log = \<lparr>start = 2, log_size = 30, outstanding = 1, committing = False, lh = []\<rparr>,
     sb = \<lparr>sb_size = 143360, nblocks = 143290, ninodes = 8, nlog = 30, logstart = 2, inodestart = 32, bmapstart = 34\<rparr>,
     console = [], icache = [], dev_read = (\<lambda>_. None), dev_write = (\<lambda>_. None)\<rparr>"

definition one_ip :: "u32 \<Rightarrow> inode" where
  "one_ip b = empty_ip\<lparr>addrs := (replicate 13 0)[6 := b]\<rparr>"

lemma get32_concat: "i < length ws \<Longrightarrow> get32 (concat (map le32_bytes ws)) (4 * i) = ws ! i"
proof (induction ws arbitrary: i)
  case (Cons w ws)
  show ?case
  proof (cases i)
    case 0
    then show ?thesis by (simp add: get32_def le32_bytes_def)
  next
    case (Suc k)
    have "get32 (le32_bytes w @ d) (4 + n) = get32 d n" for d n
      unfolding get32_def by (simp add: nth_append add.assoc add.commute [of n])
    then show ?thesis using Cons Suc by simp
  qed
qed simp

lemma wide_st_simps:
  "data_start wide_st = 70" "sb_size (sb wide_st) = 143360" "ninodes (sb wide_st) = 8" "layout_ok wide_st"
  by (simp_all add: wide_st_def data_start_def layout_ok_def word_nat)

lemma wide_BBLOCK: "unat b < 143360 \<Longrightarrow> unat (BBLOCK wide_st b) = 34 + unat b div 4096"
  using BBLOCK_facts(1) [OF wide_st_simps(4), of b] by (simp add: wide_st_simps) (simp add: wide_st_def)

lemma wide_used: "unat b < 143360 \<Longrightarrow> used wide_st b"
proof -
  assume b: "unat b < 143360"
  then have "unat b div 4096 < 35" by (intro div_lt_pos) simp_all
  then have "cache wide_st (BBLOCK wide_st b) = replicate BSIZE 255"
    using wide_BBLOCK [OF b] by (simp add: wide_st_def)
  moreover have "unat b mod 4096 div 8 < 512" by (intro div_lt_pos) simp_all
  moreover have "bit (255 :: u8) k" if "k < 8" for k
    using that bit_mask_iff [of 8 k, where ?'a = u8] by (simp add: mask_eq_exp_minus_1)
  ultimately show ?thesis by (simp add: used_def map_bit_def and_bit_test del: push_bit_of_1)
qed

lemma wide_wf: "fs_wf wide_st"
proof -
  have "length (concat (map le32_bytes wide_entries)) = 4 * length wide_entries" by (rule concat_map_take_length) simp
  then have "length (cache wide_st b) = BSIZE" for b by (simp add: wide_st_def) (simp add: wide_entries_def)
  then show ?thesis using wide_used by (auto simp: fs_wf_def wide_st_simps)
qed

lemma one_ip_nodes:
  assumes "valid_path p" "node st (one_ip b) p \<noteq> 0"
  shows "p = [6] \<and> node st (one_ip b) p = b \<or> (\<exists>j < 128. p = [j, 6] \<and> node st (one_ip b) p = get32 (cache st b) (4 * j) \<and> b \<noteq> 0)"
proof -
  have r: "node st (one_ip b) [last p] \<noteq> 0" using node_suffix [OF _ _ assms(2)] root_of_path [OF assms(1)] by blast
  have l: "last p = 6"
    using r root_of_path [OF assms(1)] by (auto simp: one_ip_def empty_ip_def nth_list_update split: if_splits)
  have "length p \<le> 2" using assms(1) l by (simp add: valid_path_def depth_def)
  then consider "p = [6]" | j where "p = [j, 6]" using assms(1) l
    by (cases p; cases "tl p") (auto simp: valid_path_def)
  then show ?thesis using assms by cases (auto simp: one_ip_def empty_ip_def valid_path_def split: if_splits)
qed

lemma one_ip_ok:
  assumes b: "70 \<le> unat b" "unat b < 143360"
    and e: "\<And>j. j < 128 \<Longrightarrow> get32 (cache wide_st b) (4 * j) = 0 \<or>
      70 \<le> unat (get32 (cache wide_st b) (4 * j)) \<and> unat (get32 (cache wide_st b) (4 * j)) < 143360 \<and> get32 (cache wide_st b) (4 * j) \<noteq> b"
    and d: "\<And>i j. i < 128 \<Longrightarrow> j < 128 \<Longrightarrow> get32 (cache wide_st b) (4 * i) \<noteq> 0 \<Longrightarrow>
      get32 (cache wide_st b) (4 * i) = get32 (cache wide_st b) (4 * j) \<Longrightarrow> i = j"
  shows "tree_ok wide_st (one_ip b)"
proof -
  let ?n = "node wide_st (one_ip b)"
  have "70 \<le> unat (?n p) \<and> unat (?n p) < 143360 \<and> (\<forall>q. valid_path q \<longrightarrow> ?n q = ?n p \<longrightarrow> q = p)" if p: "valid_path p" "?n p \<noteq> 0" for p
  proof (intro conjI allI impI)
    note np = one_ip_nodes [OF p]
    show "70 \<le> unat (?n p)" "unat (?n p) < 143360" using np b e p(2) by metis+
    fix q assume q: "valid_path q" "?n q = ?n p"
    then have "?n q \<noteq> 0" using p by simp
    from one_ip_nodes [OF q(1) this] np show "q = p" using q(2) e d p(2) by metis
  qed
  then show ?thesis using wide_used by (auto simp: tree_ok_def wide_st_simps) (simp add: one_ip_def)
qed

lemma block72: "cache wide_st 72 = replicate BSIZE 0"
  by (simp add: wide_st_def)

lemma tree72: "tree_ok wide_st (one_ip 72)"
  by (rule one_ip_ok) (simp_all add: block72 get32_zeros)

theorem ml_itrunc_frees_tree_witness:
  "\<exists>st'. ml_itrunc wide_st (one_ip 72) = Some (st', one_ip 72\<lparr>addrs := replicate 13 0, isize := 0\<rparr>) \<and> used wide_st 72 \<and> \<not> used st' 72"
proof -
  have sub: "tree_blocks wide_st (one_ip 72) \<subseteq> {72}"
    using one_ip_nodes [of _ wide_st 72] get32_zeros by (fastforce simp: tree_blocks_def block72)
  have "card (BBLOCK wide_st ` tree_blocks wide_st (one_ip 72)) \<le> card (BBLOCK wide_st ` {72})"
    using sub by (intro card_mono image_mono) simp_all
  then have room: "log_room wide_st (card (BBLOCK wide_st ` tree_blocks wide_st (one_ip 72)) + 1)"
    by (simp add: log_room_def) (simp add: wide_st_def)
  have "valid_path [6] \<and> node wide_st (one_ip 72) [6] = 72" by (simp add: valid_path_def depth_def one_ip_def empty_ip_def)
  then have "72 \<in> tree_blocks wide_st (one_ip 72)" unfolding tree_blocks_def by (intro CollectI conjI exI [of _ "[6]"]) auto
  moreover have "unat (inum (one_ip 72)) < unat (ninodes (sb wide_st))" by (simp add: wide_st_simps one_ip_def empty_ip_def)
  ultimately show ?thesis
    using ml_itrunc_frees_tree [OF wide_wf tree72 _ room] wide_used [of 72] by (auto simp: wide_st_simps)
qed

lemma block71: "j < 128 \<Longrightarrow> get32 (cache wide_st 71) (4 * j) = (if j < 31 then wide_entry j else 0)"
  using get32_concat [of j wide_entries] by (simp add: wide_st_def) (simp add: wide_entries_def nth_append)

lemma wide_unat: "j < 31 \<Longrightarrow> unat (wide_entry j) = 4096 * (j + 1)"
  unfolding wide_entry_def by (rule unat_of_nat_lt) simp

lemma wide_neq: "j < 31 \<Longrightarrow> wide_entry j \<noteq> 71 \<and> wide_entry j \<noteq> 0"
  using wide_unat [of j] by auto

lemma tree71: "tree_ok wide_st (one_ip 71)"
proof (rule one_ip_ok)
  fix j :: nat assume j: "j < 128"
  show "get32 (cache wide_st 71) (4 * j) = 0 \<or> 70 \<le> unat (get32 (cache wide_st 71) (4 * j)) \<and>
      unat (get32 (cache wide_st 71) (4 * j)) < 143360 \<and> get32 (cache wide_st 71) (4 * j) \<noteq> 71"
    using j wide_unat [of j] wide_neq [of j] by (cases "j < 31") (simp_all add: block71)
next
  fix i j :: nat
  assume a: "i < 128" "j < 128" "get32 (cache wide_st 71) (4 * i) \<noteq> 0" "get32 (cache wide_st 71) (4 * i) = get32 (cache wide_st 71) (4 * j)"
  then have ij: "i < 31" "j < 31" by (auto simp: block71 split: if_splits)
  then have "unat (wide_entry i) = unat (wide_entry j)" using a by (simp only: block71 if_True)
  then show "i = j" unfolding wide_unat [OF ij(1)] wide_unat [OF ij(2)] by simp
qed simp_all

theorem ml_itrunc_too_big_witness: "ml_itrunc wide_st (one_ip 71) = None"
proof -
  let ?B = "BBLOCK wide_st ` tree_blocks wide_st (one_ip 71)"
  have "BBLOCK wide_st (wide_entry j) \<in> ?B \<and> unat (BBLOCK wide_st (wide_entry j)) = 35 + j" if j: "j < 31" for j
  proof
    have "node wide_st (one_ip 71) [6] = 71" by (simp add: one_ip_def empty_ip_def)
    then have "node wide_st (one_ip 71) [j, 6] = wide_entry j" using j by (simp add: block71)
    moreover have "valid_path [j, 6]" using j by (simp add: valid_path_def depth_def)
    moreover have "wide_entry j \<noteq> 0" using wide_neq [OF j] by simp
    ultimately show "BBLOCK wide_st (wide_entry j) \<in> ?B" unfolding tree_blocks_def by blast
    show "unat (BBLOCK wide_st (wide_entry j)) = 35 + j"
      using wide_BBLOCK [of "wide_entry j"] j unfolding wide_unat [OF j] by simp
  qed
  then have "(\<lambda>j. 35 + j) ` {..<31} \<subseteq> unat ` ?B" by (metis (no_types, lifting) image_eqI image_subsetI lessThan_iff)
  moreover have fin: "finite ?B" by simp
  ultimately have "card ((\<lambda>j. 35 + j) ` {..<31 :: nat}) \<le> card (unat ` ?B)" by (intro card_mono finite_imageI [OF fin])
  also have "\<dots> \<le> card ?B" using fin by (rule card_image_le)
  finally have "LOGSIZE < card ?B" by (simp add: card_image)
  then show ?thesis by (rule ml_itrunc_too_big [OF wide_wf tree71])
qed

end
