(* ===== verification/Xv6_VM.thy ===== *)
theory Xv6_VM
  imports Prelude
begin

text \<open>
  The memory management of the multi-level kernel: the page allocator of \<^verbatim>\<open>kalloc.c\<close>, the two-level
  page tables of \<^verbatim>\<open>vm.c\<close> with the lazily allocated pages of \<^verbatim>\<open>ssualloc\<close>, the system calls that use
  them in \<^verbatim>\<open>sysproc.c\<close> and the page fault case of \<^verbatim>\<open>trap\<close>.

  Memory is byte addressed by kernel virtual addresses.  Page directories, page tables, user pages
  and the links of the free list all live in it, as in the kernel.  A pointer is its address and the
  null pointer is 0.  \<open>None\<close> is a call of \<^verbatim>\<open>panic\<close>, or a loop that does not end: loop counters are
  32-bit words that wrap, so the loops are partial functions, proved to return where that is claimed.
  The spin lock of the allocator is not modelled: every operation runs without interleaving.
\<close>

abbreviation "PGSIZE \<equiv> (4096 :: u32)"
abbreviation "KERNBASE \<equiv> (0x80000000 :: u32)"
abbreviation "EXTMEM \<equiv> (0x100000 :: u32)"
abbreviation "PHYSTOP \<equiv> (0xE000000 :: u32)"
abbreviation "DEVSPACE \<equiv> (0xFE000000 :: u32)"
abbreviation "PTE_P \<equiv> (0x001 :: u32)"
abbreviation "PTE_W \<equiv> (0x002 :: u32)"
abbreviation "PTE_U \<equiv> (0x004 :: u32)"
abbreviation "PTE_SSU \<equiv> (0x200 :: u32)"

text \<open>\<open>kend\<close> and \<open>kdata\<close> are the linker symbols \<^verbatim>\<open>end\<close> and \<^verbatim>\<open>data\<close>; \<open>vout\<close> is the output of \<^verbatim>\<open>cprintf\<close>.\<close>

record vmem =
  mem :: "u32 \<Rightarrow> u8"
  freelist :: u32
  use_lock :: bool
  kend :: u32
  kdata :: u32
  cr3 :: u32
  vout :: "string list"

definition V2P :: "u32 \<Rightarrow> u32" where "V2P a = a - KERNBASE"
definition P2V :: "u32 \<Rightarrow> u32" where "P2V a = a + KERNBASE"
definition PDX :: "u32 \<Rightarrow> u32" where "PDX va = drop_bit 22 va AND 0x3FF"
definition PTX :: "u32 \<Rightarrow> u32" where "PTX va = drop_bit 12 va AND 0x3FF"
definition PGADDR :: "u32 \<Rightarrow> u32 \<Rightarrow> u32 \<Rightarrow> u32" where
  "PGADDR d t off = push_bit 22 d OR push_bit 12 t OR off"
definition PGROUNDUP :: "u32 \<Rightarrow> u32" where "PGROUNDUP sz = (sz + PGSIZE - 1) AND NOT (PGSIZE - 1)"
definition PGROUNDDOWN :: "u32 \<Rightarrow> u32" where "PGROUNDDOWN a = a AND NOT (PGSIZE - 1)"
definition PTE_ADDR :: "u32 \<Rightarrow> u32" where "PTE_ADDR pte = pte AND NOT 0xFFF"
definition PTE_FLAGS :: "u32 \<Rightarrow> u32" where "PTE_FLAGS pte = pte AND 0xFFF"

subsection \<open>Memory\<close>

definition load :: "vmem \<Rightarrow> u32 \<Rightarrow> u32" where
  "load s a = of_le32 (mem s a) (mem s (a + 1)) (mem s (a + 2)) (mem s (a + 3))"

definition store :: "u32 \<Rightarrow> u32 \<Rightarrow> vmem \<Rightarrow> vmem" where
  "store a v s = s\<lparr>mem := (mem s)(a := ucast v, a + 1 := ucast (drop_bit 8 v),
                       a + 2 := ucast (drop_bit 16 v), a + 3 := ucast (drop_bit 24 v))\<rparr>"

definition memset :: "u32 \<Rightarrow> u8 \<Rightarrow> u32 \<Rightarrow> vmem \<Rightarrow> vmem" where
  "memset dst c n s = s\<lparr>mem := (\<lambda>x. if x - dst < n then c else mem s x)\<rparr>"

text \<open>\<^verbatim>\<open>memmove\<close> copies byte by byte, from the end when the source overlaps the destination from below.\<close>

fun copy_up :: "u32 \<Rightarrow> u32 \<Rightarrow> nat \<Rightarrow> vmem \<Rightarrow> vmem" where
  "copy_up d p 0 s = s"
| "copy_up d p (Suc n) s = copy_up (d + 1) (p + 1) n (s\<lparr>mem := (mem s)(d := mem s p)\<rparr>)"

fun copy_down :: "u32 \<Rightarrow> u32 \<Rightarrow> nat \<Rightarrow> vmem \<Rightarrow> vmem" where
  "copy_down d p 0 s = s"
| "copy_down d p (Suc n) s = copy_down (d - 1) (p - 1) n (s\<lparr>mem := (mem s)(d - 1 := mem s (p - 1))\<rparr>)"

definition memmove :: "u32 \<Rightarrow> u32 \<Rightarrow> u32 \<Rightarrow> vmem \<Rightarrow> vmem" where
  "memmove dst src n s =
     (if src < dst \<and> src + n > dst then copy_down (dst + n) (src + n) (unat n) s
      else copy_up dst src (unat n) s)"

definition vprintf :: "string \<Rightarrow> vmem \<Rightarrow> vmem" where
  "vprintf l s = s\<lparr>vout := vout s @ [l]\<rparr>"

subsection \<open>The page allocator\<close>

definition kfree :: "u32 \<Rightarrow> vmem \<Rightarrow> vmem option" where
  "kfree v s =
     (if v mod PGSIZE \<noteq> 0 \<or> v < kend s \<or> V2P v \<ge> PHYSTOP then None
      else let s = memset v 1 PGSIZE s; s = store v (freelist s) s in
        Some (s\<lparr>freelist := v\<rparr>))"

definition kalloc :: "vmem \<Rightarrow> u32 \<times> vmem" where
  "kalloc s =
     (let r = freelist s in
      (r, if r \<noteq> 0 then s\<lparr>freelist := load s r\<rparr> else s))"

partial_function (option) freerange_loop :: "u32 \<Rightarrow> u32 \<Rightarrow> vmem \<Rightarrow> vmem option" where
  "freerange_loop p vend s =
     (if p + PGSIZE \<le> vend then do {
        s \<leftarrow> kfree p s;
        freerange_loop (p + PGSIZE) vend s
      } else Some s)"

definition freerange :: "u32 \<Rightarrow> u32 \<Rightarrow> vmem \<Rightarrow> vmem option" where
  "freerange vstart vend s = freerange_loop (PGROUNDUP vstart) vend s"

definition kinit1 :: "u32 \<Rightarrow> u32 \<Rightarrow> vmem \<Rightarrow> vmem option" where
  "kinit1 vstart vend s = freerange vstart vend (s\<lparr>use_lock := False\<rparr>)"

definition kinit2 :: "u32 \<Rightarrow> u32 \<Rightarrow> vmem \<Rightarrow> vmem option" where
  "kinit2 vstart vend s = do {
     s \<leftarrow> freerange vstart vend s;
     Some (s\<lparr>use_lock := True\<rparr>)
   }"

subsection \<open>Page tables\<close>

definition walkpgdir :: "u32 \<Rightarrow> u32 \<Rightarrow> bool \<Rightarrow> vmem \<Rightarrow> u32 \<times> vmem" where
  "walkpgdir pgdir va alloc s =
     (let pde = pgdir + 4 * PDX va in
      if load s pde AND PTE_P \<noteq> 0 then (P2V (PTE_ADDR (load s pde)) + 4 * PTX va, s)
      else if \<not> alloc then (0, s)
      else case kalloc s of (pgtab, s) \<Rightarrow>
        if pgtab = 0 then (0, s)
        else
          let s = memset pgtab 0 PGSIZE s;
              s = store pde (V2P pgtab OR PTE_P OR PTE_W OR PTE_U) s in
          (pgtab + 4 * PTX va, s))"

partial_function (option) mappages_loop :: "u32 \<Rightarrow> u32 \<Rightarrow> u32 \<Rightarrow> u32 \<Rightarrow> u32 \<Rightarrow> vmem \<Rightarrow> (int \<times> vmem) option" where
  "mappages_loop pgdir a lst pa perm s =
     (case walkpgdir pgdir a True s of (pte, s) \<Rightarrow>
        if pte = 0 then Some (- 1, s)
        else if load s pte AND PTE_P \<noteq> 0 then None
        else let s = store pte (pa OR perm OR PTE_P) s in
          if a = lst then Some (0, s)
          else mappages_loop pgdir (a + PGSIZE) lst (pa + PGSIZE) perm s)"

definition mappages :: "u32 \<Rightarrow> u32 \<Rightarrow> u32 \<Rightarrow> u32 \<Rightarrow> u32 \<Rightarrow> vmem \<Rightarrow> (int \<times> vmem) option" where
  "mappages pgdir va sz pa perm s =
     mappages_loop pgdir (PGROUNDDOWN va) (PGROUNDDOWN (va + sz - 1)) pa perm s"

partial_function (option) deallocuvm_loop :: "u32 \<Rightarrow> u32 \<Rightarrow> u32 \<Rightarrow> vmem \<Rightarrow> vmem option" where
  "deallocuvm_loop pgdir a oldsz s =
     (if a < oldsz then
        let pte = fst (walkpgdir pgdir a False s) in
        if pte = 0 then deallocuvm_loop pgdir (PGADDR (PDX a + 1) 0 0 - PGSIZE + PGSIZE) oldsz s
        else if load s pte AND PTE_P \<noteq> 0 then
          (let pa = PTE_ADDR (load s pte) in
           if pa = 0 then None
           else do {
             s \<leftarrow> kfree (P2V pa) s;
             deallocuvm_loop pgdir (a + PGSIZE) oldsz (store pte 0 s)
           })
        else if load s pte AND PTE_SSU \<noteq> 0 then deallocuvm_loop pgdir (a + PGSIZE) oldsz (store pte 0 s)
        else deallocuvm_loop pgdir (a + PGSIZE) oldsz s
      else Some s)"

definition deallocuvm :: "u32 \<Rightarrow> u32 \<Rightarrow> u32 \<Rightarrow> vmem \<Rightarrow> (u32 \<times> vmem) option" where
  "deallocuvm pgdir oldsz newsz s =
     (if newsz \<ge> oldsz then Some (oldsz, s)
      else do {
        s \<leftarrow> deallocuvm_loop pgdir (PGROUNDUP newsz) oldsz s;
        Some (newsz, s)
      })"

fun free_tables :: "u32 \<Rightarrow> nat list \<Rightarrow> vmem \<Rightarrow> vmem option" where
  "free_tables pgdir [] s = Some s"
| "free_tables pgdir (i # is) s =
     (let pde = load s (pgdir + 4 * word_of_nat i) in
      if pde AND PTE_P \<noteq> 0 then do {
        s \<leftarrow> kfree (P2V (PTE_ADDR pde)) s;
        free_tables pgdir is s
      } else free_tables pgdir is s)"

definition freevm :: "u32 \<Rightarrow> vmem \<Rightarrow> vmem option" where
  "freevm pgdir s =
     (if pgdir = 0 then None
      else do {
        (_, s) \<leftarrow> deallocuvm pgdir KERNBASE 0 s;
        s \<leftarrow> free_tables pgdir [0..<1024] s;
        kfree pgdir s
      })"

text \<open>The table \<^verbatim>\<open>kmap\<close>: virtual start, physical start and end, permissions.\<close>

definition kmap :: "vmem \<Rightarrow> (u32 \<times> u32 \<times> u32 \<times> u32) list" where
  "kmap s = [(KERNBASE, 0, EXTMEM, PTE_W),
             (KERNBASE + EXTMEM, V2P (KERNBASE + EXTMEM), V2P (kdata s), 0),
             (kdata s, V2P (kdata s), PHYSTOP, PTE_W),
             (DEVSPACE, DEVSPACE, 0, PTE_W)]"

fun setupkvm_loop :: "u32 \<Rightarrow> (u32 \<times> u32 \<times> u32 \<times> u32) list \<Rightarrow> vmem \<Rightarrow> (u32 \<times> vmem) option" where
  "setupkvm_loop pgdir [] s = Some (pgdir, s)"
| "setupkvm_loop pgdir ((virt, phys_start, phys_end, perm) # ks) s = do {
     (r, s) \<leftarrow> mappages pgdir virt (phys_end - phys_start) phys_start perm s;
     if r < 0 then do { s \<leftarrow> freevm pgdir s; Some (0, s) }
     else setupkvm_loop pgdir ks s
   }"

definition setupkvm :: "vmem \<Rightarrow> (u32 \<times> vmem) option" where
  "setupkvm s =
     (case kalloc s of (pgdir, s) \<Rightarrow>
        if pgdir = 0 then Some (0, s)
        else let s = memset pgdir 0 PGSIZE s in
          if P2V PHYSTOP > DEVSPACE then None
          else setupkvm_loop pgdir (kmap s) s)"

definition inituvm :: "u32 \<Rightarrow> u32 \<Rightarrow> u32 \<Rightarrow> vmem \<Rightarrow> vmem option" where
  "inituvm pgdir init sz s =
     (if sz \<ge> PGSIZE then None
      else case kalloc s of (mm, s) \<Rightarrow> do {
        (_, s) \<leftarrow> mappages pgdir 0 PGSIZE (V2P mm) (PTE_W OR PTE_U) (memset mm 0 PGSIZE s);
        Some (memmove mm init sz s)
      })"

partial_function (option) allocuvm_loop :: "u32 \<Rightarrow> u32 \<Rightarrow> u32 \<Rightarrow> u32 \<Rightarrow> vmem \<Rightarrow> (u32 \<times> vmem) option" where
  "allocuvm_loop pgdir a oldsz newsz s =
     (if a < newsz then
        (case kalloc s of (mm, s) \<Rightarrow>
           if mm = 0 then do {
             (_, s) \<leftarrow> deallocuvm pgdir newsz oldsz (vprintf ''allocuvm out of memory'' s);
             Some (0, s)
           }
           else do {
             (r, s) \<leftarrow> mappages pgdir a PGSIZE (V2P mm) (PTE_W OR PTE_U) (memset mm 0 PGSIZE s);
             if r < 0 then do {
               (_, s) \<leftarrow> deallocuvm pgdir newsz oldsz (vprintf ''allocuvm out of memory (2)'' s);
               s \<leftarrow> kfree mm s;
               Some (0, s)
             }
             else allocuvm_loop pgdir (a + PGSIZE) oldsz newsz s
           })
      else Some (newsz, s))"

definition allocuvm :: "u32 \<Rightarrow> u32 \<Rightarrow> u32 \<Rightarrow> vmem \<Rightarrow> (u32 \<times> vmem) option" where
  "allocuvm pgdir oldsz newsz s =
     (if newsz \<ge> KERNBASE then Some (0, s)
      else if newsz < oldsz then Some (oldsz, s)
      else allocuvm_loop pgdir (PGROUNDUP oldsz) oldsz newsz s)"

subsection \<open>Lazy allocation\<close>

partial_function (option) unreserve :: "u32 \<Rightarrow> u32 \<Rightarrow> u32 \<Rightarrow> vmem \<Rightarrow> vmem option" where
  "unreserve pgdir a start s =
     (if a > start then
        let a = a - PGSIZE; pte = fst (walkpgdir pgdir a False s) in
        unreserve pgdir a start
          (if pte \<noteq> 0 \<and> load s pte AND PTE_SSU \<noteq> 0 \<and> \<not> load s pte AND PTE_P \<noteq> 0 then store pte 0 s else s)
      else Some s)"

partial_function (option) reserve_loop :: "u32 \<Rightarrow> u32 \<Rightarrow> u32 \<Rightarrow> u32 \<Rightarrow> vmem \<Rightarrow> (u32 \<times> vmem) option" where
  "reserve_loop pgdir a start newsz s =
     (if a < newsz then
        (case walkpgdir pgdir a True s of (pte, s) \<Rightarrow>
           if pte = 0 \<or> load s pte AND (PTE_P OR PTE_SSU) \<noteq> 0 then do {
             s \<leftarrow> unreserve pgdir a start s;
             Some (0, s)
           }
           else reserve_loop pgdir (a + PGSIZE) start newsz (store pte (PTE_W OR PTE_U OR PTE_SSU) s))
      else Some (newsz, s))"

definition reservessuvm :: "u32 \<Rightarrow> u32 \<Rightarrow> u32 \<Rightarrow> vmem \<Rightarrow> (u32 \<times> vmem) option" where
  "reservessuvm pgdir oldsz newsz s =
     (if newsz \<ge> KERNBASE \<or> newsz < oldsz then Some (0, s)
      else reserve_loop pgdir (PGROUNDUP oldsz) (PGROUNDUP oldsz) newsz s)"

definition allocssupage :: "u32 \<Rightarrow> u32 \<Rightarrow> vmem \<Rightarrow> int \<times> vmem" where
  "allocssupage pgdir va s =
     (let a = PGROUNDDOWN va in
      if a \<ge> KERNBASE then (- 1, s)
      else let pte = fst (walkpgdir pgdir a False s) in
        if pte = 0 \<or> load s pte AND PTE_P \<noteq> 0 \<or> \<not> load s pte AND PTE_SSU \<noteq> 0 then (- 1, s)
        else case kalloc s of (mm, s) \<Rightarrow>
          if mm = 0 then (- 1, s)
          else (0, store pte (V2P mm OR PTE_P OR PTE_W OR PTE_U) (memset mm 0 PGSIZE s)))"

partial_function (option) countphyspages_loop :: "u32 \<Rightarrow> u32 \<Rightarrow> u32 \<Rightarrow> nat \<Rightarrow> vmem \<Rightarrow> nat option" where
  "countphyspages_loop pgdir a sz cnt s =
     (if a < sz then
        let pte = fst (walkpgdir pgdir a False s) in
        countphyspages_loop pgdir (a + PGSIZE) sz
          (if pte \<noteq> 0 \<and> load s pte AND PTE_P \<noteq> 0 then cnt + 1 else cnt) s
      else Some cnt)"

definition countphyspages :: "u32 \<Rightarrow> u32 \<Rightarrow> vmem \<Rightarrow> nat option" where
  "countphyspages pgdir sz s = countphyspages_loop pgdir 0 sz 0 s"

definition clearpteu :: "u32 \<Rightarrow> u32 \<Rightarrow> vmem \<Rightarrow> vmem option" where
  "clearpteu pgdir uva s =
     (let pte = fst (walkpgdir pgdir uva False s) in
      if pte = 0 then None else Some (store pte (load s pte AND NOT PTE_U) s))"

subsection \<open>Copying\<close>

partial_function (option) copyuvm_loop :: "u32 \<Rightarrow> u32 \<Rightarrow> u32 \<Rightarrow> u32 \<Rightarrow> vmem \<Rightarrow> (u32 \<times> vmem) option" where
  "copyuvm_loop pgdir d i sz s =
     (if i < sz then
        let pte = fst (walkpgdir pgdir i False s) in
        if pte = 0 then copyuvm_loop pgdir d (i + PGSIZE) sz s
        else if load s pte AND PTE_P = 0 then
          (if load s pte AND PTE_SSU = 0 then copyuvm_loop pgdir d (i + PGSIZE) sz s
           else case walkpgdir d i True s of (dpte, s) \<Rightarrow>
             if dpte = 0 then do { s \<leftarrow> freevm d s; Some (0, s) }
             else copyuvm_loop pgdir d (i + PGSIZE) sz (store dpte (PTE_W OR PTE_U OR PTE_SSU) s))
        else
          let pa = PTE_ADDR (load s pte); flags = PTE_FLAGS (load s pte) in
          (case kalloc s of (mm, s) \<Rightarrow>
             if mm = 0 then do { s \<leftarrow> freevm d s; Some (0, s) }
             else do {
               (r, s) \<leftarrow> mappages d i PGSIZE (V2P mm) flags (memmove mm (P2V pa) PGSIZE s);
               if r < 0 then do { s \<leftarrow> kfree mm s; s \<leftarrow> freevm d s; Some (0, s) }
               else copyuvm_loop pgdir d (i + PGSIZE) sz s
             })
      else Some (d, s))"

definition copyuvm :: "u32 \<Rightarrow> u32 \<Rightarrow> vmem \<Rightarrow> (u32 \<times> vmem) option" where
  "copyuvm pgdir sz s = do {
     (d, s) \<leftarrow> setupkvm s;
     if d = 0 then Some (0, s) else copyuvm_loop pgdir d 0 sz s
   }"

definition uva2ka :: "u32 \<Rightarrow> u32 \<Rightarrow> vmem \<Rightarrow> u32" where
  "uva2ka pgdir uva s =
     (let pte = fst (walkpgdir pgdir uva False s) in
      if pte = 0 \<or> load s pte AND PTE_P = 0 then 0
      else if load s pte AND PTE_U = 0 then 0
      else P2V (PTE_ADDR (load s pte)))"

partial_function (option) copyout :: "u32 \<Rightarrow> u32 \<Rightarrow> u32 \<Rightarrow> u32 \<Rightarrow> vmem \<Rightarrow> (int \<times> vmem) option" where
  "copyout pgdir va buf len s =
     (if len > 0 then
        let va0 = PGROUNDDOWN va;
            (pa0, s) = (if uva2ka pgdir va0 s = 0 then
                          (case allocssupage pgdir va0 s of (r, s) \<Rightarrow>
                             (if r = 0 then uva2ka pgdir va0 s else 0, s))
                        else (uva2ka pgdir va0 s, s)) in
        if pa0 = 0 then Some (- 1, s)
        else
          let n = (if PGSIZE - (va - va0) > len then len else PGSIZE - (va - va0)) in
          copyout pgdir (va0 + PGSIZE) (buf + n) (len - n) (memmove (pa0 + (va - va0)) buf n s)
      else Some (0, s))"

subsection \<open>System calls and the page fault\<close>

text \<open>The fields of \<^verbatim>\<open>struct proc\<close> that the memory system calls use.\<close>

record uproc =
  psz :: u32
  ppgdir :: u32

text \<open>The argument is \<open>None\<close> when \<^verbatim>\<open>argint\<close> fails.  The remainder is C's, of a signed number.\<close>

definition sys_ssualloc :: "u32 option \<Rightarrow> uproc \<Rightarrow> vmem \<Rightarrow> (int \<times> uproc \<times> vmem) option" where
  "sys_ssualloc arg p s =
     (case arg of
        None \<Rightarrow> Some (- 1, p, s)
      | Some n \<Rightarrow>
          if sint n \<le> 0 \<or> sint n mod 4096 \<noteq> 0 then Some (- 1, p, s)
          else let base = PGROUNDUP (psz p); newsz = base + n in
            if base < psz p \<or> newsz < base \<or> newsz \<ge> KERNBASE then Some (- 1, p, s)
            else do {
              (r, s) \<leftarrow> reservessuvm (ppgdir p) base newsz s;
              if r = 0 then Some (- 1, p, s) else Some (sint base, p\<lparr>psz := newsz\<rparr>, s)
            })"

definition sys_getvp :: "uproc \<Rightarrow> u32" where
  "sys_getvp p = PGROUNDUP (psz p) div PGSIZE"

definition sys_getpp :: "uproc \<Rightarrow> vmem \<Rightarrow> nat option" where
  "sys_getpp p s = countphyspages (ppgdir p) (psz p) s"

definition growproc :: "int \<Rightarrow> uproc \<Rightarrow> vmem \<Rightarrow> (int \<times> uproc \<times> vmem) option" where
  "growproc n p s = do {
     (sz, s) \<leftarrow> (if n > 0 then allocuvm (ppgdir p) (psz p) (psz p + word_of_int n) s
                else if n < 0 then deallocuvm (ppgdir p) (psz p) (psz p + word_of_int n) s
                else Some (psz p, s));
     if n \<noteq> 0 \<and> sz = 0 then Some (- 1, p, s)
     else Some (0, p\<lparr>psz := sz\<rparr>, s\<lparr>cr3 := V2P (ppgdir p)\<rparr>)
   }"

definition sys_sbrk :: "u32 option \<Rightarrow> uproc \<Rightarrow> vmem \<Rightarrow> (int \<times> uproc \<times> vmem) option" where
  "sys_sbrk arg p s =
     (case arg of
        None \<Rightarrow> Some (- 1, p, s)
      | Some n \<Rightarrow> do {
          (r, p', s) \<leftarrow> growproc (sint n) p s;
          Some (if r < 0 then - 1 else sint (psz p), p', s)
        })"

text \<open>The page fault case of \<^verbatim>\<open>trap\<close>; the result says whether the fault was resolved.\<close>

definition trap_pgflt :: "uproc option \<Rightarrow> u32 \<Rightarrow> u32 \<Rightarrow> vmem \<Rightarrow> bool \<times> vmem" where
  "trap_pgflt p err cr2 s =
     (case p of
        None \<Rightarrow> (False, s)
      | Some p \<Rightarrow>
          if err AND 1 \<noteq> 0 then (False, s)
          else case allocssupage (ppgdir p) cr2 s of (r, s) \<Rightarrow>
            if r = 0 then (True, s\<lparr>cr3 := V2P (ppgdir p)\<rparr>) else (False, s))"

end
