(* ===== verification/Xv6_Paging.thy ===== *)
theory Xv6_Paging
  imports Xv6_VM
begin

text \<open>
  Correctness of the memory management of \<^verbatim>\<open>Xv6_VM\<close>: the free list threaded through the free pages is
  a stack of pages, a page directory with its tables is a flat map from virtual pages to entries, and
  reserving, faulting in and freeing pages are updates of that map.
\<close>

subsection \<open>Addresses\<close>

lemma mask12: "(4095 :: u32) = mask 12" "(0xFFF :: u32) = mask 12"
  by (simp_all add: mask_eq_decr_exp)

lemma rounddown_shift: "PGROUNDDOWN a = push_bit 12 (drop_bit 12 a)"
  unfolding PGROUNDDOWN_def by (rule bit_word_eqI) (auto simp: mask12 bit_simps)

lemma unat_u32_lt: "unat (a :: u32) < 4294967296"
  using unsigned_less [of a, where 'a = nat] by simp

lemma unat_rounddown: "unat (PGROUNDDOWN a) = unat a div 4096 * 4096"
proof -
  have "unat (drop_bit 12 a) * 4096 < 2 ^ 32"
    using unat_u32_lt [of a] div_times_less_eq_dividend [of "unat a" 4096]
    by (simp add: unat_drop_bit_div)
  then have "unat (push_bit 12 (drop_bit 12 a)) = unat (drop_bit 12 a) * 4096"
    by (simp add: push_bit_eq_mult unat_mult_nowrap)
  then show ?thesis by (simp add: rounddown_shift unat_drop_bit_div)
qed

lemma PTE_ADDR_rounddown: "PTE_ADDR = PGROUNDDOWN"
  by (simp add: fun_eq_iff PTE_ADDR_def PGROUNDDOWN_def)

lemma rounddown_idem [simp]: "PGROUNDDOWN (PGROUNDDOWN a) = PGROUNDDOWN a"
  by (simp add: PGROUNDDOWN_def and.assoc)

definition aligned :: "u32 \<Rightarrow> bool" where "aligned a \<longleftrightarrow> PGROUNDDOWN a = a"

lemma aligned_iff: "aligned a \<longleftrightarrow> unat a mod 4096 = 0"
proof -
  have "aligned a \<longleftrightarrow> unat a div 4096 * 4096 = unat a"
    by (metis aligned_def unat_rounddown word_unat_eq_iff)
  also have "\<dots> \<longleftrightarrow> unat a mod 4096 = 0"
    by (metis add.right_neutral add_left_cancel div_mult_mod_eq)
  finally show ?thesis .
qed

lemma aligned_mod: "aligned a \<longleftrightarrow> a mod 4096 = 0"
  by (simp add: aligned_iff unat_eq_zero_iff unat_mod_word)

lemma aligned_rounddown [simp]: "aligned (PGROUNDDOWN a)"
  by (simp add: aligned_def)

lemma alignedE: "aligned a \<Longrightarrow> (\<And>k. unat a = 4096 * k \<Longrightarrow> k < 1048576 \<Longrightarrow> P) \<Longrightarrow> P"
  using unat_u32_lt [of a] by (auto simp: aligned_iff mod_eq_0_iff_dvd elim!: dvdE)

lemma aligned_le: "aligned a \<Longrightarrow> unat a \<le> 4294963200"
  by (erule alignedE) simp

lemma div_eq_iff_range: "0 < m \<Longrightarrow> x div m = k \<longleftrightarrow> k * m \<le> x \<and> x < k * m + (m :: nat)"
  using dividend_less_div_times [of m x] div_times_less_eq_dividend [of x m]
  by (auto simp: algebra_simps intro: div_nat_eqI)

lemma in_page_iff: "aligned v \<Longrightarrow> x - v < 4096 \<longleftrightarrow> PGROUNDDOWN x = v"
proof -
  assume v: "aligned v"
  have vle: "unat v \<le> 4294963200" by (rule aligned_le [OF v])
  obtain k where k: "unat v = k * 4096" using v by (auto elim: alignedE)
  show ?thesis
  proof (cases "v \<le> x")
    case True
    then have "unat (x - v) = unat x - unat v" by (rule unat_sub_le)
    moreover have "unat v \<le> unat x" using True by (simp add: word_nat)
    ultimately have "x - v < 4096 \<longleftrightarrow> unat x div 4096 * 4096 = unat v"
      unfolding k using div_eq_iff_range [of 4096 "unat x" k] by (auto simp: word_nat k)
    then show ?thesis by (metis unat_rounddown word_unat_eq_iff)
  next
    case False
    then have lt: "unat x < unat v" by (simp add: word_nat)
    have "unat (x - v) = unat x + 2 ^ 32 - unat v"
      using lt unat_sub_if' [of x v] by simp
    then have "\<not> x - v < 4096" using vle lt by (simp add: word_nat)
    moreover have "unat (PGROUNDDOWN x) \<noteq> unat v"
      using lt unfolding unat_rounddown by (metis div_times_less_eq_dividend leD)
    ultimately show ?thesis by auto
  qed
qed

lemma unat_index: "i < 1024 \<Longrightarrow> unat (4 * i :: u32) = 4 * unat i"
  by (simp add: unat_mult_nowrap word_nat)

lemma unat_in_page:
  assumes "aligned v" "unat k < 4096"
  shows "unat (v + k) = unat v + unat k"
  using aligned_le [OF assms(1)] assms(2) by (intro unat_add_nowrap) simp

lemma rounddown_in_page:
  assumes "aligned v" "unat k < 4096"
  shows "PGROUNDDOWN (v + k) = v"
  using assms in_page_iff [of v "v + k"] by (simp add: word_nat)

lemma page_index:
  assumes "aligned v" "i < 1024"
  shows "PGROUNDDOWN (v + 4 * i) = v" "unat (v + 4 * i) mod 4 = 0"
    "unat (v + 4 * i) mod 4096 = 4 * unat i"
proof -
  have k: "unat (4 * i) < 4096" using assms(2) by (simp add: unat_index word_nat)
  show "PGROUNDDOWN (v + 4 * i) = v" by (rule rounddown_in_page [OF assms(1) k])
  have e: "unat (v + 4 * i) = unat v + 4 * unat i"
    using unat_in_page [OF assms(1) k] assms(2) by (simp add: unat_index)
  show "unat (v + 4 * i) mod 4096 = 4 * unat i"
    using assms k by (auto simp: e unat_index elim: alignedE)
  show "unat (v + 4 * i) mod 4 = 0" using assms(1) by (auto simp: e elim!: alignedE)
qed

lemma index_inj: "aligned v \<Longrightarrow> i < 1024 \<Longrightarrow> j < 1024 \<Longrightarrow> v + 4 * i = v + 4 * j \<longleftrightarrow> i = j"
  by (metis mult_cancel1 page_index(3) word_unat_eq_iff zero_neq_numeral)

lemma PDX_lt [simp]: "PDX va < 1024" and PTX_lt [simp]: "PTX va < 1024"
proof -
  have "unat (w AND 0x3FF) < 1024" for w :: u32
    using unat_and_mask [of w 10] by (simp add: mask_eq_decr_exp)
  then show "PDX va < 1024" "PTX va < 1024" by (simp_all add: PDX_def PTX_def word_nat)
qed

lemma unat_PDX: "unat (PDX va) = unat va div 4194304"
proof -
  have "unat va div 4194304 < 1024" using unat_u32_lt [of va] by (simp add: less_mult_imp_div_less)
  then show ?thesis
    using unat_and_mask [of "drop_bit 22 va" 10] by (simp add: PDX_def mask_eq_decr_exp unat_drop_bit_div)
qed

lemma unat_PTX: "unat (PTX va) = unat va div 4096 mod 1024"
  using unat_and_mask [of "drop_bit 12 va" 10] by (simp add: PTX_def mask_eq_decr_exp unat_drop_bit_div)

lemma same_index_iff:
  "PDX a = PDX b \<and> PTX a = PTX b \<longleftrightarrow> PGROUNDDOWN a = PGROUNDDOWN b"
proof -
  have "PDX a = PDX b \<and> PTX a = PTX b \<longleftrightarrow>
        unat a div 4096 div 1024 = unat b div 4096 div 1024 \<and> unat a div 4096 mod 1024 = unat b div 4096 mod 1024"
    by (simp add: word_unat_eq_iff unat_PDX unat_PTX div_mult2_eq [symmetric])
  also have "\<dots> \<longleftrightarrow> unat a div 4096 = unat b div 4096" by (metis div_mult_mod_eq)
  also have "\<dots> \<longleftrightarrow> PGROUNDDOWN a = PGROUNDDOWN b"
    by (simp add: word_unat_eq_iff unat_rounddown)
  finally show ?thesis .
qed

lemma index_rounddown [simp]: "PDX (PGROUNDDOWN a) = PDX a" "PTX (PGROUNDDOWN a) = PTX a"
  using same_index_iff [of "PGROUNDDOWN a" a] by simp_all

subsection \<open>Loads and stores\<close>

abbreviation word_al :: "u32 \<Rightarrow> bool" where "word_al a \<equiv> unat a mod 4 = 0"

lemma unat_byte_of_word: "word_al a \<Longrightarrow> unat k < 4 \<Longrightarrow> unat (a + k) = unat a + unat k"
  using unat_u32_lt [of a] by (intro unat_add_nowrap) (auto elim!: dvdE simp: mod_eq_0_iff_dvd)

lemma byte_of_word_inj:
  assumes "word_al a" "word_al b" "unat i < 4" "unat j < 4" "a + i = b + j"
  shows "a = b \<and> i = j"
proof -
  have "unat a + unat i = unat b + unat j"
    using assms unat_byte_of_word by metis
  moreover obtain k l where "unat a = 4 * k" "unat b = 4 * l"
    using assms(1,2) by (auto simp: mod_eq_0_iff_dvd elim!: dvdE)
  ultimately have "unat a = unat b \<and> unat i = unat j" using assms(3,4) by presburger
  then show ?thesis by (simp add: word_unat_eq_iff)
qed

lemma page_of_byte:
  assumes "word_al a" "unat i < 4"
  shows "PGROUNDDOWN (a + i) = PGROUNDDOWN a"
proof -
  obtain k where k: "unat a = 4 * k" using assms(1) by (auto simp: mod_eq_0_iff_dvd elim!: dvdE)
  have "(4 * k + unat i) div 4096 = (4 * k + unat i) div 4 div 1024" by (simp add: div_mult2_eq)
  also have "\<dots> = 4 * k div 4096" using assms(2) by (simp add: div_mult2_eq)
  finally have "unat (a + i) div 4096 = unat a div 4096"
    using unat_byte_of_word [OF assms] k by simp
  then show ?thesis by (simp add: word_unat_eq_iff unat_rounddown)
qed

lemma store_fields [simp]:
  "freelist (store a v s) = freelist s" "use_lock (store a v s) = use_lock s" "kend (store a v s) = kend s"
  "kdata (store a v s) = kdata s" "cr3 (store a v s) = cr3 s" "vout (store a v s) = vout s"
  by (simp_all add: store_def)

lemma memset_fields [simp]:
  "freelist (memset a c n s) = freelist s" "use_lock (memset a c n s) = use_lock s" "kend (memset a c n s) = kend s"
  "kdata (memset a c n s) = kdata s" "cr3 (memset a c n s) = cr3 s" "vout (memset a c n s) = vout s"
  by (simp_all add: memset_def)

lemma load_store_same [simp]: "load (store a v s) a = v"
  by (simp add: load_def store_def)

lemma load_cong:
  "word_al a \<Longrightarrow> (\<And>x. PGROUNDDOWN x = PGROUNDDOWN a \<Longrightarrow> mem s x = mem s' x) \<Longrightarrow> load s a = load s' a"
  using page_of_byte [of a 1] page_of_byte [of a 2] page_of_byte [of a 3] by (simp add: load_def)

lemma load_store_other:
  assumes "word_al a" "word_al b" "a \<noteq> b"
  shows "load (store a v s) b = load s b"
proof -
  have "a + i \<noteq> b + j" if "unat i < 4" "unat j < 4" for i j
    using byte_of_word_inj [OF assms(1,2) that] assms(3) by blast
  from this [of 0 0] this [of 0 1] this [of 0 2] this [of 0 3] this [of 1 0] this [of 1 1] this [of 1 2]
    this [of 1 3] this [of 2 0] this [of 2 1] this [of 2 2] this [of 2 3] this [of 3 0] this [of 3 1]
    this [of 3 2] this [of 3 3]
  show ?thesis by (simp add: load_def store_def)
qed

lemma mem_store_other:
  assumes "word_al a" "PGROUNDDOWN x \<noteq> PGROUNDDOWN a"
  shows "mem (store a v s) x = mem s x"
proof -
  have "x \<noteq> a + i" if "unat i < 4" for i using page_of_byte [OF assms(1) that] assms(2) by auto
  from this [of 0] this [of 1] this [of 2] this [of 3] show ?thesis by (simp add: store_def)
qed

lemma mem_memset: "aligned v \<Longrightarrow> mem (memset v c PGSIZE s) x = (if PGROUNDDOWN x = v then c else mem s x)"
  by (simp add: memset_def in_page_iff)

lemma load_memset_other:
  "aligned v \<Longrightarrow> word_al a \<Longrightarrow> PGROUNDDOWN a \<noteq> v \<Longrightarrow> load (memset v c PGSIZE s) a = load s a"
  by (rule load_cong) (auto simp: mem_memset)

lemma load_memset_zero:
  "aligned v \<Longrightarrow> word_al a \<Longrightarrow> PGROUNDDOWN a = v \<Longrightarrow> load (memset v 0 PGSIZE s) a = 0"
  using page_of_byte [of a 1] page_of_byte [of a 2] page_of_byte [of a 3] by (simp add: load_def mem_memset)

lemma aligned_word_al: "aligned a \<Longrightarrow> word_al a"
  by (erule alignedE) simp

subsection \<open>The free list\<close>

definition page_ok :: "vmem \<Rightarrow> u32 \<Rightarrow> bool" where
  "page_ok s v \<longleftrightarrow> aligned v \<and> kend s \<le> v \<and> KERNBASE < v \<and> V2P v < PHYSTOP"

fun chain :: "vmem \<Rightarrow> u32 \<Rightarrow> u32 list \<Rightarrow> bool" where
  "chain s p [] \<longleftrightarrow> p = 0"
| "chain s p (x # xs) \<longleftrightarrow> p = x \<and> page_ok s x \<and> chain s (load s x) xs"

definition free_pages :: "vmem \<Rightarrow> u32 list \<Rightarrow> bool" where
  "free_pages s xs \<longleftrightarrow> chain s (freelist s) xs \<and> distinct xs"

lemma page_ok_aligned: "page_ok s v \<Longrightarrow> aligned v" and page_ok_nonzero: "page_ok s v \<Longrightarrow> v \<noteq> 0"
  by (auto simp: page_ok_def)

lemma page_ok_cong: "kend s = kend s' \<Longrightarrow> page_ok s v \<longleftrightarrow> page_ok s' v"
  by (simp add: page_ok_def)

lemma chain_cong:
  "chain s p xs \<Longrightarrow> kend s' = kend s \<Longrightarrow> (\<And>x. PGROUNDDOWN x \<in> set xs \<Longrightarrow> mem s' x = mem s x) \<Longrightarrow> chain s' p xs"
proof (induction xs arbitrary: p)
  case (Cons x xs)
  have "page_ok s x" using Cons.prems by simp
  then have x: "aligned x" by (rule page_ok_aligned)
  have "load s' x = load s x"
    using x Cons.prems(3) by (intro load_cong) (simp_all add: aligned_word_al, simp add: aligned_def)
  then show ?case using Cons by (simp add: page_ok_def)
qed simp

lemma free_pages_cong:
  "free_pages s xs \<Longrightarrow> kend s' = kend s \<Longrightarrow> freelist s' = freelist s \<Longrightarrow>
   (\<And>x. PGROUNDDOWN x \<in> set xs \<Longrightarrow> mem s' x = mem s x) \<Longrightarrow> free_pages s' xs"
  unfolding free_pages_def by (metis chain_cong)

lemma chain_page_ok: "chain s p xs \<Longrightarrow> x \<in> set xs \<Longrightarrow> page_ok s x"
  by (induction xs arbitrary: p) auto

lemma chain_det: "chain s p xs \<Longrightarrow> chain s p ys \<Longrightarrow> xs = ys"
proof (induction xs arbitrary: p ys)
  case Nil
  then show ?case by (cases ys) (auto dest: page_ok_nonzero)
next
  case (Cons x xs)
  then show ?case by (cases ys) (auto dest: page_ok_nonzero)
qed

lemma free_pages_ok: "free_pages s xs \<Longrightarrow> x \<in> set xs \<Longrightarrow> page_ok s x"
  unfolding free_pages_def by (blast intro: chain_page_ok)

lemma kalloc_empty: "free_pages s [] \<Longrightarrow> kalloc s = (0, s)"
  by (simp add: free_pages_def kalloc_def Let_def)

lemma kalloc_page:
  assumes "free_pages s (x # xs)"
  shows "kalloc s = (x, s\<lparr>freelist := load s x\<rparr>)" "free_pages (s\<lparr>freelist := load s x\<rparr>) xs"
proof -
  have *: "freelist s = x" "page_ok s x" "chain s (load s x) xs" "distinct (x # xs)"
    using assms by (simp_all add: free_pages_def)
  then show "kalloc s = (x, s\<lparr>freelist := load s x\<rparr>)"
    by (simp add: kalloc_def Let_def page_ok_nonzero)
  show "free_pages (s\<lparr>freelist := load s x\<rparr>) xs"
    using * chain_cong [OF *(3), of "s\<lparr>freelist := load s x\<rparr>"] by (simp add: free_pages_def)
qed

lemma kfree_page:
  assumes fp: "free_pages s xs" and v: "page_ok s v" "v \<notin> set xs"
  obtains s' where "kfree v s = Some s'" "free_pages s' (v # xs)" "freelist s' = v"
    "use_lock s' = use_lock s" "kend s' = kend s" "kdata s' = kdata s" "cr3 s' = cr3 s" "vout s' = vout s"
    "\<And>x. PGROUNDDOWN x \<noteq> v \<Longrightarrow> mem s' x = mem s x"
proof -
  have al: "aligned v" using v(1) by (rule page_ok_aligned)
  then have pg: "PGROUNDDOWN v = v" by (simp add: aligned_def)
  let ?m = "store v (freelist s) (memset v 1 PGSIZE s)"
  let ?s = "?m\<lparr>freelist := v\<rparr>"
  have fr: "mem ?s x = mem s x" if "PGROUNDDOWN x \<noteq> v" for x
    using mem_store_other [OF aligned_word_al [OF al], of x "freelist s" "memset v 1 PGSIZE s"] that al
    by (simp add: pg mem_memset)
  have "kfree v s = Some ?s"
    using v(1) by (auto simp: kfree_def Let_def page_ok_def aligned_mod not_less not_le)
  moreover have "load ?s v = freelist s" using load_store_same [of v] by (simp add: load_def)
  moreover have "chain ?s (freelist s) xs"
  proof (rule chain_cong [of s])
    show "chain s (freelist s) xs" using fp by (simp add: free_pages_def)
    show "mem ?s x = mem s x" if "PGROUNDDOWN x \<in> set xs" for x using that v(2) by (intro fr) auto
  qed simp
  moreover have "page_ok ?s v" using v(1) by (simp add: page_ok_def)
  moreover have "distinct (v # xs)" using fp v(2) by (simp add: free_pages_def)
  moreover have "freelist ?s = v" by simp
  ultimately have fps: "free_pages ?s (v # xs)" unfolding free_pages_def chain.simps by (simp only:)
  show ?thesis by (rule that [OF \<open>kfree v s = Some ?s\<close> fps _ _ _ _ _ _ fr]) simp_all
qed

subsection \<open>Page tables as a flat map\<close>

abbreviation present :: "u32 \<Rightarrow> bool" where "present e \<equiv> e AND PTE_P \<noteq> 0"
abbreviation reserved :: "u32 \<Rightarrow> bool" where "reserved e \<equiv> e AND PTE_SSU \<noteq> 0"

definition has_tab :: "vmem \<Rightarrow> u32 \<Rightarrow> u32 \<Rightarrow> bool" where
  "has_tab s pgdir i \<longleftrightarrow> present (load s (pgdir + 4 * i))"

definition tab :: "vmem \<Rightarrow> u32 \<Rightarrow> u32 \<Rightarrow> u32" where
  "tab s pgdir i = P2V (PTE_ADDR (load s (pgdir + 4 * i)))"

definition entry :: "vmem \<Rightarrow> u32 \<Rightarrow> u32 \<Rightarrow> u32" where
  "entry s pgdir va = (if has_tab s pgdir (PDX va) then load s (tab s pgdir (PDX va) + 4 * PTX va) else 0)"

abbreviation frame_of :: "u32 \<Rightarrow> u32" where "frame_of e \<equiv> P2V (PTE_ADDR e)"

text \<open>The page directory and its tables are pages of their own, apart from each other and from the free pages.\<close>

definition tables :: "vmem \<Rightarrow> u32 \<Rightarrow> u32 list \<Rightarrow> bool" where
  "tables s pgdir xs \<longleftrightarrow> free_pages s xs \<and> page_ok s pgdir \<and> pgdir \<notin> set xs \<and>
     (\<forall>i. i < 1024 \<longrightarrow> has_tab s pgdir i \<longrightarrow>
        page_ok s (tab s pgdir i) \<and> tab s pgdir i \<notin> set xs \<and> tab s pgdir i \<noteq> pgdir \<and>
        (\<forall>j. j < 1024 \<longrightarrow> has_tab s pgdir j \<longrightarrow> tab s pgdir i = tab s pgdir j \<longrightarrow> i = j))"

text \<open>So are the frames of the mapped user pages, and an entry that is neither mapped nor reserved is 0.\<close>

definition frames :: "vmem \<Rightarrow> u32 \<Rightarrow> u32 list \<Rightarrow> bool" where
  "frames s pgdir xs \<longleftrightarrow>
     (\<forall>va. va < KERNBASE \<longrightarrow>
        (if present (entry s pgdir va) then
           page_ok s (frame_of (entry s pgdir va)) \<and> frame_of (entry s pgdir va) \<notin> set xs \<and>
           frame_of (entry s pgdir va) \<noteq> pgdir \<and>
           (\<forall>i. i < 1024 \<longrightarrow> has_tab s pgdir i \<longrightarrow> tab s pgdir i \<noteq> frame_of (entry s pgdir va)) \<and>
           (\<forall>vb. vb < KERNBASE \<longrightarrow> present (entry s pgdir vb) \<longrightarrow>
              frame_of (entry s pgdir vb) = frame_of (entry s pgdir va) \<longrightarrow> PGROUNDDOWN vb = PGROUNDDOWN va)
         else reserved (entry s pgdir va) \<or> entry s pgdir va = 0))"

lemma P2V_V2P [simp]: "P2V (V2P a) = a" "V2P (P2V a) = a"
  by (simp_all add: P2V_def V2P_def)

lemma aligned_V2P: "aligned (V2P a) \<longleftrightarrow> aligned a"
proof -
  have "V2P a = a + KERNBASE" unfolding V2P_def by simp
  then have "unat (V2P a) = (unat a + 2147483648) mod 4294967296" by (simp add: unat_word_ariths)
  moreover have "(unat a + 2147483648) mod 4294967296 mod 4096 = (unat a + 2147483648) mod 4096"
    by (rule mod_mod_cancel) simp
  moreover have "(unat a + 2147483648) mod 4096 = unat a mod 4096"
    using mod_mult_self1 [of "unat a" 524288 4096] by simp
  ultimately show ?thesis by (simp add: aligned_iff)
qed

lemma pte_addr_flags:
  assumes "aligned a" "f AND NOT 0xFFF = 0"
  shows "PTE_ADDR (a OR f) = a"
proof -
  have "PTE_ADDR (a OR f) = (a AND NOT 0xFFF) OR (f AND NOT 0xFFF)"
    by (simp add: PTE_ADDR_def bit.conj_disj_distrib2)
  moreover have "a AND NOT 0xFFF = a" using assms(1) by (simp add: aligned_def PGROUNDDOWN_def)
  ultimately show ?thesis using assms(2) by simp
qed

lemma present_or: "present (a OR f) \<longleftrightarrow> present a \<or> present f"
  by (simp add: bit.conj_disj_distrib2 or_eq_0_iff)

lemma tablesD:
  assumes "tables s pgdir xs"
  shows "free_pages s xs" "page_ok s pgdir" "aligned pgdir" "pgdir \<notin> set xs"
    "\<And>i. i < 1024 \<Longrightarrow> has_tab s pgdir i \<Longrightarrow> page_ok s (tab s pgdir i)"
    "\<And>i. i < 1024 \<Longrightarrow> has_tab s pgdir i \<Longrightarrow> aligned (tab s pgdir i)"
    "\<And>i. i < 1024 \<Longrightarrow> has_tab s pgdir i \<Longrightarrow> tab s pgdir i \<notin> set xs"
    "\<And>i. i < 1024 \<Longrightarrow> has_tab s pgdir i \<Longrightarrow> tab s pgdir i \<noteq> pgdir"
    "\<And>i j. i < 1024 \<Longrightarrow> j < 1024 \<Longrightarrow> has_tab s pgdir i \<Longrightarrow> has_tab s pgdir j \<Longrightarrow>
       tab s pgdir i = tab s pgdir j \<Longrightarrow> i = j"
  using assms unfolding tables_def by (blast intro: page_ok_aligned)+

definition slot :: "vmem \<Rightarrow> u32 \<Rightarrow> u32 \<Rightarrow> u32" where
  "slot s pgdir va = tab s pgdir (PDX va) + 4 * PTX va"

lemma entry_slot: "has_tab s pgdir (PDX va) \<Longrightarrow> entry s pgdir va = load s (slot s pgdir va)"
  by (simp add: entry_def slot_def)

lemma entry_no_tab: "\<not> has_tab s pgdir (PDX va) \<Longrightarrow> entry s pgdir va = 0"
  by (simp add: entry_def)

lemma entry_has_tab: "entry s pgdir va AND f \<noteq> 0 \<Longrightarrow> has_tab s pgdir (PDX va)"
  by (rule ccontr) (simp add: entry_no_tab)

lemma slot_facts:
  assumes "tables s pgdir xs" "has_tab s pgdir (PDX va)"
  shows "word_al (slot s pgdir va)" "PGROUNDDOWN (slot s pgdir va) = tab s pgdir (PDX va)" "slot s pgdir va \<noteq> 0"
proof -
  have t: "page_ok s (tab s pgdir (PDX va))" using tablesD(5) [OF assms(1) _ assms(2)] by simp
  then have "aligned (tab s pgdir (PDX va))" by (rule page_ok_aligned)
  then show "word_al (slot s pgdir va)" and pg: "PGROUNDDOWN (slot s pgdir va) = tab s pgdir (PDX va)"
    by (simp_all add: slot_def page_index)
  show "slot s pgdir va \<noteq> 0"
  proof
    assume "slot s pgdir va = 0"
    then have "tab s pgdir (PDX va) = 0" using pg by (simp add: PGROUNDDOWN_def)
    then show False using page_ok_nonzero [OF t] by simp
  qed
qed

lemma slot_inj:
  assumes T: "tables s pgdir xs" and h: "has_tab s pgdir (PDX va)" "has_tab s pgdir (PDX vb)"
  shows "slot s pgdir va = slot s pgdir vb \<longleftrightarrow> PGROUNDDOWN va = PGROUNDDOWN vb"
proof
  assume e: "slot s pgdir va = slot s pgdir vb"
  then have "tab s pgdir (PDX va) = tab s pgdir (PDX vb)"
    using slot_facts(2) [OF T h(1)] slot_facts(2) [OF T h(2)] by simp
  then have d: "PDX va = PDX vb" using tablesD(9) [OF T _ _ h] by simp
  then have "PTX va = PTX vb"
    using e index_inj [OF tablesD(6) [OF T _ h(2)] PTX_lt PTX_lt, of va vb] by (simp add: slot_def)
  with d show "PGROUNDDOWN va = PGROUNDDOWN vb" using same_index_iff by blast
next
  assume "PGROUNDDOWN va = PGROUNDDOWN vb"
  then show "slot s pgdir va = slot s pgdir vb" using same_index_iff [of va vb] by (simp add: slot_def)
qed

lemma walk_lookup:
  assumes "tables s pgdir xs"
  shows "walkpgdir pgdir va False s = (if has_tab s pgdir (PDX va) then slot s pgdir va else 0, s)"
  by (simp add: walkpgdir_def Let_def has_tab_def slot_def tab_def)

text \<open>Reading the entry through a walk gives the flat map.\<close>

lemma walk_entry:
  assumes "tables s pgdir xs"
  shows "fst (walkpgdir pgdir va False s) \<noteq> 0 \<longleftrightarrow> has_tab s pgdir (PDX va)"
    "fst (walkpgdir pgdir va False s) \<noteq> 0 \<Longrightarrow> load s (fst (walkpgdir pgdir va False s)) = entry s pgdir va"
  using slot_facts(3) [OF assms] by (auto simp: walk_lookup [OF assms] entry_slot split: if_splits)

lemma view_cong:
  assumes T: "tables s pgdir xs"
    and same: "\<And>x. PGROUNDDOWN x = pgdir \<or> (\<exists>i. i < 1024 \<and> has_tab s pgdir i \<and> PGROUNDDOWN x = tab s pgdir i) \<Longrightarrow>
      mem s' x = mem s x"
  shows "i < 1024 \<Longrightarrow> has_tab s' pgdir i \<longleftrightarrow> has_tab s pgdir i" "i < 1024 \<Longrightarrow> tab s' pgdir i = tab s pgdir i"
    "entry s' pgdir va = entry s pgdir va"
proof -
  have pde: "load s' (pgdir + 4 * i) = load s (pgdir + 4 * i)" if "i < 1024" for i
    using page_index [OF tablesD(3) [OF T] that] same by (intro load_cong) auto
  then show h: "i < 1024 \<Longrightarrow> has_tab s' pgdir i \<longleftrightarrow> has_tab s pgdir i"
    and t: "i < 1024 \<Longrightarrow> tab s' pgdir i = tab s pgdir i" for i
    by (simp_all add: has_tab_def tab_def)
  show "entry s' pgdir va = entry s pgdir va"
  proof (cases "has_tab s pgdir (PDX va)")
    case True
    have "load s' (slot s pgdir va) = load s (slot s pgdir va)"
      using slot_facts [OF T True] same True by (intro load_cong) (simp, metis PDX_lt)
    then show ?thesis using True by (simp add: entry_def h t slot_def)
  qed (simp add: entry_def h)
qed

lemma tables_cong:
  assumes T: "tables s pgdir xs" and fp: "free_pages s' ys" and k: "kend s' = kend s"
    and sub: "set ys \<subseteq> set xs"
    and h: "\<And>i. i < 1024 \<Longrightarrow> has_tab s' pgdir i \<longleftrightarrow> has_tab s pgdir i"
    and t: "\<And>i. i < 1024 \<Longrightarrow> tab s' pgdir i = tab s pgdir i"
  shows "tables s' pgdir ys"
  unfolding tables_def
proof (intro conjI allI impI)
  note ok = page_ok_cong [OF k]
  show "page_ok s' pgdir" using tablesD(2) [OF T] by (simp add: ok)
  show "pgdir \<notin> set ys" using tablesD(4) [OF T] sub by blast
  fix i assume i: "i < 1024" "has_tab s' pgdir i"
  then have i': "has_tab s pgdir i" by (simp add: h)
  show "page_ok s' (tab s' pgdir i)" using tablesD(5) [OF T i(1) i'] by (simp add: ok t i)
  show "tab s' pgdir i \<notin> set ys" using tablesD(7) [OF T i(1) i'] sub by (auto simp: t i)
  show "tab s' pgdir i \<noteq> pgdir" using tablesD(8) [OF T i(1) i'] by (simp add: t i)
  fix j assume "j < 1024" "has_tab s' pgdir j" "tab s' pgdir i = tab s' pgdir j"
  then show "i = j" using tablesD(9) [OF T i(1) _ i'] by (simp add: t h i)
qed (rule fp)

lemma store_entry:
  fixes e :: u32
  assumes T: "tables s pgdir xs" and va: "has_tab s pgdir (PDX va)"
  defines "s' \<equiv> store (slot s pgdir va) e s"
  shows "i < 1024 \<Longrightarrow> has_tab s' pgdir i \<longleftrightarrow> has_tab s pgdir i" "i < 1024 \<Longrightarrow> tab s' pgdir i = tab s pgdir i"
    "entry s' pgdir vb = (if PGROUNDDOWN vb = PGROUNDDOWN va then e else entry s pgdir vb)"
    "tables s' pgdir xs"
    "PGROUNDDOWN x \<noteq> tab s pgdir (PDX va) \<Longrightarrow> mem s' x = mem s x"
proof -
  note sl = slot_facts [OF T va]
  have fr: "mem s' x = mem s x" if "PGROUNDDOWN x \<noteq> tab s pgdir (PDX va)" for x
    unfolding s'_def by (rule mem_store_other) (use sl that in auto)
  then show "PGROUNDDOWN x \<noteq> tab s pgdir (PDX va) \<Longrightarrow> mem s' x = mem s x" .
  have pde: "load s' (pgdir + 4 * i) = load s (pgdir + 4 * i)" if "i < 1024" for i
  proof (rule load_cong)
    show "word_al (pgdir + 4 * i)" by (rule page_index [OF tablesD(3) [OF T] that])
    show "mem s' x = mem s x" if "PGROUNDDOWN x = PGROUNDDOWN (pgdir + 4 * i)" for x
      using that page_index(1) [OF tablesD(3) [OF T] \<open>i < 1024\<close>] tablesD(8) [OF T PDX_lt va] by (intro fr) auto
  qed
  show h: "has_tab s' pgdir i \<longleftrightarrow> has_tab s pgdir i" and t: "tab s' pgdir i = tab s pgdir i" if "i < 1024" for i
    using pde [OF that] by (simp_all add: has_tab_def tab_def)
  have slots: "slot s' pgdir vb = slot s pgdir vb" for vb by (simp add: slot_def t)
  show "entry s' pgdir vb = (if PGROUNDDOWN vb = PGROUNDDOWN va then e else entry s pgdir vb)"
  proof (cases "has_tab s pgdir (PDX vb)")
    case True
    have "load s' (slot s pgdir vb) = (if PGROUNDDOWN vb = PGROUNDDOWN va then e else load s (slot s pgdir vb))"
      using load_store_other [of "slot s pgdir va" "slot s pgdir vb" e s] slot_facts(1) [OF T True] sl(1)
        slot_inj [OF T True va] by (auto simp: s'_def)
    then show ?thesis using True by (simp add: entry_slot h slots)
  next
    case False
    then have "PGROUNDDOWN vb \<noteq> PGROUNDDOWN va" using va same_index_iff [of vb va] by auto
    then show ?thesis using False by (simp add: entry_no_tab h)
  qed
  have "free_pages s' xs"
    using tablesD(7) [OF T PDX_lt va]
    by (intro free_pages_cong [OF tablesD(1) [OF T]] fr) (auto simp: s'_def)
  then show "tables s' pgdir xs" by (rule tables_cong [OF T]) (simp_all add: s'_def [symmetric] h t, simp add: s'_def)
qed

lemma walk_new:
  assumes T: "tables s pgdir (t # xs)" and va: "\<not> has_tab s pgdir (PDX va)"
  obtains s' where "walkpgdir pgdir va True s = (t + 4 * PTX va, s')" "tables s' pgdir xs"
    "entry s' pgdir = entry s pgdir" "kend s' = kend s"
    "\<And>i. i < 1024 \<Longrightarrow> has_tab s' pgdir i \<longleftrightarrow> i = PDX va \<or> has_tab s pgdir i"
    "\<And>i. i < 1024 \<Longrightarrow> tab s' pgdir i = (if i = PDX va then t else tab s pgdir i)"
    "\<And>x. PGROUNDDOWN x \<noteq> pgdir \<Longrightarrow> PGROUNDDOWN x \<noteq> t \<Longrightarrow> mem s' x = mem s x"
proof -
  note al = tablesD(3) [OF T]
  have tok: "page_ok s t" using free_pages_ok [OF tablesD(1) [OF T]] by simp
  then have tal: "aligned t" by (rule page_ok_aligned)
  have tp: "t \<noteq> pgdir" using tablesD(4) [OF T] by auto
  let ?pde = "pgdir + 4 * PDX va"
  let ?v = "V2P t OR PTE_P OR PTE_W OR PTE_U"
  define m where "m = memset t 0 PGSIZE (s\<lparr>freelist := load s t\<rparr>)"
  define s' where "s' = store ?pde ?v m"
  note pi = page_index [OF al PDX_lt [of va]]
  have m: "mem m x = (if PGROUNDDOWN x = t then 0 else mem s x)" for x
    unfolding m_def by (simp add: mem_memset tal)
  have fr: "mem s' x = mem m x" if "PGROUNDDOWN x \<noteq> pgdir" for x
    unfolding s'_def by (rule mem_store_other) (use pi that in auto)
  have fr': "mem s' x = mem s x" if "PGROUNDDOWN x \<noteq> pgdir" "PGROUNDDOWN x \<noteq> t" for x
    using fr that m by simp
  have pde: "load s' (pgdir + 4 * i) = (if i = PDX va then ?v else load s (pgdir + 4 * i))" if "i < 1024" for i
  proof -
    have "load m (pgdir + 4 * i) = load s (pgdir + 4 * i)"
      by (rule load_cong) (use page_index [OF al that] tp m in auto)
    then show ?thesis
      using load_store_other [of ?pde "pgdir + 4 * i" ?v m] page_index(2) [OF al that] pi(2)
        index_inj [OF al PDX_lt that] by (auto simp: s'_def)
  qed
  have "aligned (V2P t)" using tal by (simp add: aligned_V2P)
  then have va_addr: "PTE_ADDR ?v = V2P t" by (intro pte_addr_flags) simp_all
  have h: "has_tab s' pgdir i \<longleftrightarrow> i = PDX va \<or> has_tab s pgdir i" if "i < 1024" for i
    using pde [OF that] by (auto simp: has_tab_def present_or)
  have t: "tab s' pgdir i = (if i = PDX va then t else tab s pgdir i)" if "i < 1024" for i
    using pde [OF that] va_addr by (simp add: tab_def)
  have ent: "entry s' pgdir vb = entry s pgdir vb" for vb
  proof (cases "PDX vb = PDX va")
    case True
    have "load s' (t + 4 * PTX vb) = load m (t + 4 * PTX vb)"
      by (rule load_cong) (use page_index [OF tal PTX_lt [of vb]] tp fr in auto)
    also have "\<dots> = 0" unfolding m_def
      by (rule load_memset_zero) (use page_index [OF tal PTX_lt [of vb]] tal in auto)
    finally show ?thesis using va True by (simp add: entry_def h t)
  next
    case False
    have "load s' (slot s pgdir vb) = load s (slot s pgdir vb)" if "has_tab s pgdir (PDX vb)"
      by (rule load_cong, rule slot_facts(1) [OF T that], rule fr')
        (use slot_facts(2) [OF T that] tablesD(7,8) [OF T PDX_lt that] in auto)
    then show ?thesis using False by (auto simp: entry_def h t slot_def)
  qed
  have k: "kend s' = kend s" by (simp add: s'_def m_def)
  have fp: "free_pages s' xs"
  proof (rule free_pages_cong [OF kalloc_page(2) [OF tablesD(1) [OF T]]])
    show "mem s' x = mem (s\<lparr>freelist := load s t\<rparr>) x" if x: "PGROUNDDOWN x \<in> set xs" for x
    proof -
      have "PGROUNDDOWN x \<noteq> pgdir" using x tablesD(4) [OF T] by auto
      moreover have "PGROUNDDOWN x \<noteq> t" using x tablesD(1) [OF T] by (auto simp: free_pages_def)
      ultimately show ?thesis using fr' by simp
    qed
  qed (simp_all add: s'_def m_def)
  have nt: "tab s pgdir i \<noteq> t \<and> t \<noteq> tab s pgdir i \<and> tab s pgdir i \<notin> set xs"
    if "i < 1024" "has_tab s pgdir i" for i
    using tablesD(7) [OF T that] by auto
  have "t \<notin> set xs" using tablesD(1) [OF T] by (simp add: free_pages_def)
  then have "tables s' pgdir xs"
    unfolding tables_def
    using fp tablesD(2,4) [OF T] tok tp tablesD(5,8,9) [OF T] nt
    by (auto simp: h t page_ok_cong [OF k])
  moreover have "walkpgdir pgdir va True s = (t + 4 * PTX va, s')"
    using va kalloc_page(1) [OF tablesD(1) [OF T]] page_ok_nonzero [OF tok]
    by (simp add: walkpgdir_def Let_def has_tab_def s'_def m_def)
  ultimately show ?thesis using ent k h t fr' by (intro that [of s']) auto
qed

definition space :: "vmem \<Rightarrow> u32 \<Rightarrow> u32 list \<Rightarrow> bool" where
  "space s pgdir xs \<longleftrightarrow> tables s pgdir xs \<and> frames s pgdir xs"

text \<open>The bytes of every mapped user page are the same in both states.\<close>

definition same_user :: "vmem \<Rightarrow> vmem \<Rightarrow> u32 \<Rightarrow> bool" where
  "same_user s s' pgdir \<longleftrightarrow>
     (\<forall>va x. va < KERNBASE \<longrightarrow> present (entry s pgdir va) \<longrightarrow> PGROUNDDOWN x = frame_of (entry s pgdir va) \<longrightarrow>
        mem s' x = mem s x)"

lemma framesD:
  assumes "frames s pgdir xs" "va < KERNBASE"
  shows "present (entry s pgdir va) \<Longrightarrow> page_ok s (frame_of (entry s pgdir va))"
    "present (entry s pgdir va) \<Longrightarrow> frame_of (entry s pgdir va) \<notin> set xs"
    "present (entry s pgdir va) \<Longrightarrow> frame_of (entry s pgdir va) \<noteq> pgdir"
    "present (entry s pgdir va) \<Longrightarrow> i < 1024 \<Longrightarrow> has_tab s pgdir i \<Longrightarrow> tab s pgdir i \<noteq> frame_of (entry s pgdir va)"
    "present (entry s pgdir va) \<Longrightarrow> vb < KERNBASE \<Longrightarrow> present (entry s pgdir vb) \<Longrightarrow>
       frame_of (entry s pgdir vb) = frame_of (entry s pgdir va) \<Longrightarrow> PGROUNDDOWN vb = PGROUNDDOWN va"
    "\<not> present (entry s pgdir va) \<Longrightarrow> \<not> reserved (entry s pgdir va) \<Longrightarrow> entry s pgdir va = 0"
  using assms unfolding frames_def by (metis+)

lemma framesI:
  assumes "\<And>va. va < KERNBASE \<Longrightarrow> present (entry s pgdir va) \<Longrightarrow>
      page_ok s (frame_of (entry s pgdir va)) \<and> frame_of (entry s pgdir va) \<notin> set xs \<and>
      frame_of (entry s pgdir va) \<noteq> pgdir"
    and "\<And>va i. va < KERNBASE \<Longrightarrow> present (entry s pgdir va) \<Longrightarrow> i < 1024 \<Longrightarrow> has_tab s pgdir i \<Longrightarrow>
      tab s pgdir i \<noteq> frame_of (entry s pgdir va)"
    and "\<And>va vb. va < KERNBASE \<Longrightarrow> present (entry s pgdir va) \<Longrightarrow> vb < KERNBASE \<Longrightarrow> present (entry s pgdir vb) \<Longrightarrow>
      frame_of (entry s pgdir vb) = frame_of (entry s pgdir va) \<Longrightarrow> PGROUNDDOWN vb = PGROUNDDOWN va"
    and "\<And>va. va < KERNBASE \<Longrightarrow> \<not> present (entry s pgdir va) \<Longrightarrow> reserved (entry s pgdir va) \<or> entry s pgdir va = 0"
  shows "frames s pgdir xs"
  unfolding frames_def using assms by (metis (no_types, lifting))

lemma frames_mono:
  assumes F: "frames s pgdir xs" and k: "kend s' = kend s" and sub: "set ys \<subseteq> set xs"
    and h: "\<And>i. i < 1024 \<Longrightarrow> has_tab s' pgdir i \<Longrightarrow>
      (has_tab s pgdir i \<and> tab s' pgdir i = tab s pgdir i) \<or> tab s' pgdir i \<in> set xs"
    and e: "\<And>va. va < KERNBASE \<Longrightarrow> entry s' pgdir va = entry s pgdir va \<or>
      (\<not> present (entry s' pgdir va) \<and> (reserved (entry s' pgdir va) \<or> entry s' pgdir va = 0))"
  shows "frames s' pgdir ys"
proof (rule framesI)
  have pr: "entry s' pgdir va = entry s pgdir va" if "va < KERNBASE" "present (entry s' pgdir va)" for va
    using e [OF that(1)] that(2) by auto
  fix va assume va: "va < KERNBASE"
  show "reserved (entry s' pgdir va) \<or> entry s' pgdir va = 0" if "\<not> present (entry s' pgdir va)"
    using e [OF va] framesD(6) [OF F va] that by auto
  assume p: "present (entry s' pgdir va)"
  then have p': "present (entry s pgdir va)" using pr [OF va] by simp
  show "page_ok s' (frame_of (entry s' pgdir va)) \<and> frame_of (entry s' pgdir va) \<notin> set ys \<and>
      frame_of (entry s' pgdir va) \<noteq> pgdir"
    using framesD(1,2,3) [OF F va p'] sub by (auto simp: pr [OF va p] page_ok_cong [OF k])
  show "tab s' pgdir i \<noteq> frame_of (entry s' pgdir va)" if "i < 1024" "has_tab s' pgdir i" for i
    using h [OF that] framesD(2) [OF F va p'] framesD(4) [OF F va p', of i] that by (auto simp: pr [OF va p])
  fix vb assume vb: "vb < KERNBASE" "present (entry s' pgdir vb)"
    "frame_of (entry s' pgdir vb) = frame_of (entry s' pgdir va)"
  then show "PGROUNDDOWN vb = PGROUNDDOWN va"
    using framesD(5) [OF F va p', of vb] by (simp add: pr [OF va p] pr [OF vb(1,2)])
qed

lemma entry_page: "PGROUNDDOWN va = PGROUNDDOWN vb \<Longrightarrow> entry s pgdir va = entry s pgdir vb"
  using same_index_iff [of va vb] by (simp add: entry_def)

lemma same_user_refl [simp]: "same_user s s pgdir"
  by (simp add: same_user_def)

lemma same_user_trans:
  assumes "same_user s s' pgdir" "same_user s' s'' pgdir"
    "\<And>va. va < KERNBASE \<Longrightarrow> present (entry s pgdir va) \<Longrightarrow> entry s' pgdir va = entry s pgdir va"
  shows "same_user s s'' pgdir"
  using assms unfolding same_user_def by (metis (no_types, lifting))

text \<open>Only the directory, its tables and free pages are written.\<close>

lemma same_userI:
  assumes F: "frames s pgdir xs"
    and fr: "\<And>x. PGROUNDDOWN x \<noteq> pgdir \<Longrightarrow> PGROUNDDOWN x \<notin> set xs \<Longrightarrow>
      (\<And>i. i < 1024 \<Longrightarrow> has_tab s pgdir i \<Longrightarrow> tab s pgdir i \<noteq> PGROUNDDOWN x) \<Longrightarrow> mem s' x = mem s x"
  shows "same_user s s' pgdir"
  unfolding same_user_def
proof (intro allI impI)
  fix va x assume va: "va < KERNBASE" "present (entry s pgdir va)" "PGROUNDDOWN x = frame_of (entry s pgdir va)"
  show "mem s' x = mem s x"
    using framesD(2,3,4) [OF F va(1,2)] va(3) by (intro fr) auto
qed

text \<open>A walk that may allocate a table leaves the flat map as it is.\<close>

lemma walk_alloc:
  assumes S: "space s pgdir xs"
  obtains "walkpgdir pgdir va True s = (0, s)" "xs = []" "\<not> has_tab s pgdir (PDX va)"
  | s' ys where "walkpgdir pgdir va True s = (slot s' pgdir va, s')" "space s' pgdir ys"
    "has_tab s' pgdir (PDX va)" "entry s' pgdir = entry s pgdir" "kend s' = kend s" "set ys \<subseteq> set xs"
    "same_user s s' pgdir"
proof (cases "has_tab s pgdir (PDX va)")
  case True
  then have "walkpgdir pgdir va True s = (slot s pgdir va, s)"
    by (simp add: walkpgdir_def Let_def has_tab_def slot_def tab_def)
  then show ?thesis using True S that(2) by simp
next
  case False
  have T: "tables s pgdir xs" and F: "frames s pgdir xs" using S by (simp_all add: space_def)
  show ?thesis
  proof (cases xs)
    case Nil
    then have "walkpgdir pgdir va True s = (0, s)"
      using False kalloc_empty tablesD(1) [OF T] by (simp add: walkpgdir_def Let_def has_tab_def)
    then show ?thesis using Nil False that(1) by simp
  next
    case (Cons t ys)
    obtain s' where s': "walkpgdir pgdir va True s = (t + 4 * PTX va, s')" "tables s' pgdir ys"
      "entry s' pgdir = entry s pgdir" "kend s' = kend s"
      and h: "\<And>i. i < 1024 \<Longrightarrow> has_tab s' pgdir i \<longleftrightarrow> i = PDX va \<or> has_tab s pgdir i"
      and t: "\<And>i. i < 1024 \<Longrightarrow> tab s' pgdir i = (if i = PDX va then t else tab s pgdir i)"
      and fr: "\<And>x. PGROUNDDOWN x \<noteq> pgdir \<Longrightarrow> PGROUNDDOWN x \<noteq> t \<Longrightarrow> mem s' x = mem s x"
      using walk_new [OF T [unfolded Cons] False] by metis
    have "frames s' pgdir ys"
      by (rule frames_mono [OF F s'(4)]) (use Cons in \<open>auto simp: s'(3) h t\<close>)
    moreover have "same_user s s' pgdir"
      by (rule same_userI [OF F]) (use Cons in \<open>auto intro: fr\<close>)
    moreover have "slot s' pgdir va = t + 4 * PTX va" by (simp add: slot_def t)
    ultimately show ?thesis using s' h Cons by (intro that(2) [of s' ys]) (auto simp: space_def)
  qed
qed

text \<open>Writing an entry that maps nothing.\<close>

lemma store_unmapped:
  assumes S: "space s pgdir xs" and va: "has_tab s pgdir (PDX va)"
    and e: "\<not> present e" "reserved e \<or> e = 0"
  shows "space (store (slot s pgdir va) e s) pgdir xs"
    "same_user s (store (slot s pgdir va) e s) pgdir"
proof -
  have T: "tables s pgdir xs" and F: "frames s pgdir xs" using S by (simp_all add: space_def)
  let ?s = "store (slot s pgdir va) e s"
  note st = store_entry [OF T va, where e = e]
  have "frames ?s pgdir xs"
    by (rule frames_mono [OF F]) (use e in \<open>auto simp: st(1,2,3)\<close>)
  then show "space ?s pgdir xs" using st(4) by (simp add: space_def)
  show "same_user s ?s pgdir"
    by (rule same_userI [OF F]) (use va st(5) PDX_lt in metis)
qed

subsection \<open>Reserving pages\<close>

abbreviation "RSV \<equiv> PTE_W OR PTE_U OR PTE_SSU"

lemma aligned_lt_next:
  assumes "aligned x" "aligned a" "unat b = unat a + 4096"
  shows "x < b \<longleftrightarrow> x \<le> a"
  using assms by (auto simp: word_nat elim!: alignedE)

lemma aligned_add_page: "aligned a \<Longrightarrow> a < KERNBASE \<Longrightarrow> aligned (a + PGSIZE) \<and> unat (a + PGSIZE) = unat a + 4096"
  using unat_add_nowrap [of a PGSIZE] by (simp add: word_nat aligned_iff)

lemma unreserve_spec:
  assumes "aligned a" "aligned start" "unat a = unat start + 4096 * k" "a \<le> KERNBASE" "space s pgdir xs"
    and "\<And>vb. entry s pgdir vb = (if start \<le> PGROUNDDOWN vb \<and> PGROUNDDOWN vb < a then RSV else e0 vb)"
    and "\<And>vb. start \<le> PGROUNDDOWN vb \<Longrightarrow> PGROUNDDOWN vb < a \<Longrightarrow> e0 vb = 0"
  shows "\<exists>s'. unreserve pgdir a start s = Some s' \<and> space s' pgdir xs \<and> entry s' pgdir = e0 \<and>
    same_user s s' pgdir \<and> kend s' = kend s"
  using assms
proof (induction k arbitrary: a s)
  case 0
  then have "a = start" by (simp add: word_unat_eq_iff)
  then have "unreserve pgdir a start s = Some s" by (subst unreserve.simps) simp
  moreover have "entry s pgdir = e0" using 0 \<open>a = start\<close> by (auto simp: fun_eq_iff)
  ultimately show ?case using 0 by simp
next
  case (Suc k)
  have gt: "start < a" using Suc.prems(3) by (simp add: word_nat)
  define b where "b = a - PGSIZE"
  have ub: "unat a = unat b + 4096" "unat b = unat start + 4096 * k"
    using Suc.prems(3) unat_sub_le [of PGSIZE a] by (simp_all add: b_def word_nat)
  have ba: "aligned b" using Suc.prems(1) by (simp add: aligned_iff ub(1))
  then have pb: "PGROUNDDOWN b = b" by (simp add: aligned_def)
  have T: "tables s pgdir xs" using Suc.prems(5) by (simp add: space_def)
  have eb: "entry s pgdir b = RSV"
    using Suc.prems(6) [of b] ub by (simp add: pb word_nat)
  have hb: "has_tab s pgdir (PDX b)" using eb by (intro entry_has_tab [where f = PTE_SSU]) simp
  define s1 where "s1 = store (slot s pgdir b) 0 s"
  note w = walk_entry [OF T, of b]
  have "fst (walkpgdir pgdir b False s) = slot s pgdir b" using hb by (simp add: walk_lookup [OF T])
  then have step: "unreserve pgdir a start s = unreserve pgdir b start s1"
    using gt hb eb slot_facts(3) [OF T hb]
    by (subst unreserve.simps) (simp add: Let_def b_def [symmetric] entry_slot s1_def)
  have e1: "entry s1 pgdir vb = (if PGROUNDDOWN vb = b then 0 else entry s pgdir vb)" for vb
    unfolding s1_def using store_entry(3) [OF T hb, where e = 0] by (simp add: pb)
  have lt: "PGROUNDDOWN vb < a \<longleftrightarrow> PGROUNDDOWN vb < b \<or> PGROUNDDOWN vb = b" for vb
    using aligned_lt_next [OF _ ba ub(1)] by (auto simp: order_le_less)
  have sp: "space s1 pgdir xs" and su: "same_user s s1 pgdir"
    using store_unmapped [OF Suc.prems(5) hb, of 0] by (simp_all add: s1_def)
  have "\<exists>s'. unreserve pgdir b start s1 = Some s' \<and> space s' pgdir xs \<and> entry s' pgdir = e0 \<and>
    same_user s1 s' pgdir \<and> kend s' = kend s1"
  proof (rule Suc.IH [OF ba Suc.prems(2) ub(2) _ sp])
    show "b \<le> KERNBASE" using Suc.prems(4) ub(1) by (simp add: word_nat)
    show "entry s1 pgdir vb = (if start \<le> PGROUNDDOWN vb \<and> PGROUNDDOWN vb < b then RSV else e0 vb)" for vb
    proof (cases "PGROUNDDOWN vb = b")
      case True
      then have "e0 vb = 0" using Suc.prems(7) [of vb] ub by (simp add: word_nat)
      then show ?thesis using True by (simp add: e1)
    qed (simp add: e1 Suc.prems(6) lt)
    show "e0 vb = 0" if "start \<le> PGROUNDDOWN vb" "PGROUNDDOWN vb < b" for vb
      using Suc.prems(7) that lt by blast
  qed
  then obtain s' where s': "unreserve pgdir b start s1 = Some s'" "space s' pgdir xs" "entry s' pgdir = e0"
    "same_user s1 s' pgdir" "kend s' = kend s1" by blast
  have "same_user s s' pgdir"
  proof (rule same_user_trans [OF su s'(4)])
    fix va assume "present (entry s pgdir va)"
    then have "PGROUNDDOWN va \<noteq> b" using eb entry_page [of va b s pgdir] pb by auto
    then show "entry s1 pgdir va = entry s pgdir va" by (simp add: e1)
  qed
  then show ?case using step s' by (simp add: s1_def)
qed

definition reserve_result :: "vmem \<Rightarrow> u32 \<Rightarrow> u32 \<Rightarrow> u32 \<Rightarrow> u32 \<Rightarrow> vmem \<Rightarrow> (u32 \<Rightarrow> u32) \<Rightarrow> bool" where
  "reserve_result s pgdir start newsz r s' e0 \<longleftrightarrow>
     (\<exists>ys. space s' pgdir ys \<and> same_user s s' pgdir \<and> kend s' = kend s \<and>
       (r = newsz \<and> (\<forall>vb. entry s' pgdir vb =
            (if start \<le> PGROUNDDOWN vb \<and> PGROUNDDOWN vb < newsz then RSV else e0 vb)) \<and>
          (\<forall>vb. start \<le> PGROUNDDOWN vb \<and> PGROUNDDOWN vb < newsz \<longrightarrow> e0 vb = 0) \<or>
        r = 0 \<and> entry s' pgdir = e0 \<and>
          ((\<exists>vb. start \<le> PGROUNDDOWN vb \<and> PGROUNDDOWN vb < newsz \<and> e0 vb \<noteq> 0) \<or> ys = [])))"

lemma reserve_result_trans:
  assumes "reserve_result s1 pgdir start newsz r s' e0" "same_user s s1 pgdir" "kend s1 = kend s"
    "\<And>va. va < KERNBASE \<Longrightarrow> present (entry s pgdir va) \<Longrightarrow> entry s1 pgdir va = entry s pgdir va"
  shows "reserve_result s pgdir start newsz r s' e0"
  using assms(1,3) same_user_trans [OF assms(2) _ assms(4)] unfolding reserve_result_def by fastforce

lemma aligned_between:
  assumes "aligned a" "aligned start" "start \<le> a"
  obtains k where "unat a = unat start + 4096 * k"
proof -
  obtain i where i: "unat a = 4096 * i" using assms(1) by (rule alignedE)
  obtain j where j: "unat start = 4096 * j" using assms(2) by (rule alignedE)
  have "j \<le> i" using assms(3) i j by (simp add: word_nat)
  then show ?thesis using i j by (intro that [of "i - j"]) simp
qed

lemma reserve_loop_spec:
  assumes "aligned a" "aligned start" "start \<le> a" "newsz < KERNBASE" "a \<le> KERNBASE" "space s pgdir xs"
    and "\<And>vb. entry s pgdir vb = (if start \<le> PGROUNDDOWN vb \<and> PGROUNDDOWN vb < a then RSV else e0 vb)"
    and "\<And>vb. start \<le> PGROUNDDOWN vb \<Longrightarrow> PGROUNDDOWN vb < a \<Longrightarrow> e0 vb = 0 \<and> PGROUNDDOWN vb < newsz"
  shows "\<exists>r s'. reserve_loop pgdir a start newsz s = Some (r, s') \<and> reserve_result s pgdir start newsz r s' e0"
  using assms
proof (induction "unat newsz - unat a" arbitrary: a s xs rule: less_induct)
  case less
  show ?case
  proof (cases "a < newsz")
    case False
    then have "PGROUNDDOWN vb < newsz \<Longrightarrow> PGROUNDDOWN vb < a" for vb by (simp add: word_nat)
    then have "entry s pgdir vb = (if start \<le> PGROUNDDOWN vb \<and> PGROUNDDOWN vb < newsz then RSV else e0 vb)" for vb
      using less.prems(7,8) by auto
    moreover have "start \<le> PGROUNDDOWN vb \<and> PGROUNDDOWN vb < newsz \<longrightarrow> e0 vb = 0" for vb
      using \<open>\<And>vb. _ \<Longrightarrow> PGROUNDDOWN vb < a\<close> less.prems(8) by blast
    ultimately have "reserve_result s pgdir start newsz newsz s e0"
      using less.prems(6) same_user_refl unfolding reserve_result_def by blast
    moreover have "reserve_loop pgdir a start newsz s = Some (newsz, s)"
      using False by (subst reserve_loop.simps) simp
    ultimately show ?thesis by blast
  next
    case True
    have ak: "a < KERNBASE" using True less.prems(4) by simp
    have pa: "PGROUNDDOWN a = a" using less.prems(1) by (simp add: aligned_def)
    obtain k where k: "unat a = unat start + 4096 * k"
      using aligned_between [OF less.prems(1,2,3)] .
    from less.prems(6) show ?thesis
    proof (cases rule: walk_alloc [where va = a])
      case 1
      obtain s' where s': "unreserve pgdir a start s = Some s'" "space s' pgdir xs" "entry s' pgdir = e0"
        "same_user s s' pgdir" "kend s' = kend s"
        using unreserve_spec [OF less.prems(1,2) k less.prems(5,6,7)] less.prems(8) by blast
      have "reserve_loop pgdir a start newsz s = Some (0, s')"
        using True 1 s'(1) by (subst reserve_loop.simps) simp
      moreover have "reserve_result s pgdir start newsz 0 s' e0"
        using s' 1(2) unfolding reserve_result_def by blast
      ultimately show ?thesis by blast
    next
      case (2 s1 ys)
      have T: "tables s1 pgdir ys" using 2(2) by (simp add: space_def)
      note sl = slot_facts [OF T 2(3)]
      have ent: "load s1 (slot s1 pgdir a) = entry s pgdir a" using 2(3,4) entry_slot by metis
      have ea: "entry s pgdir a = e0 a" using less.prems(7) [of a] by (simp add: pa)
      have e1: "entry s1 pgdir vb = (if start \<le> PGROUNDDOWN vb \<and> PGROUNDDOWN vb < a then RSV else e0 vb)" for vb
        using less.prems(7) [of vb] by (simp add: 2(4))
      show ?thesis
      proof (cases "e0 a AND (PTE_P OR PTE_SSU) = 0")
        case False
        obtain s' where s': "unreserve pgdir a start s1 = Some s'" "space s' pgdir ys" "entry s' pgdir = e0"
          "same_user s1 s' pgdir" "kend s' = kend s1"
          using unreserve_spec [OF less.prems(1,2) k less.prems(5) 2(2) e1] less.prems(8) by blast
        have "reserve_loop pgdir a start newsz s = Some (0, s')"
          using True 2(1) s'(1) False by (subst reserve_loop.simps) (simp add: ent ea)
        moreover have "e0 a \<noteq> 0" using False by auto
        then have "reserve_result s1 pgdir start newsz 0 s' e0"
          using s' True less.prems(3) pa unfolding reserve_result_def by metis
        then have "reserve_result s pgdir start newsz 0 s' e0"
          by (rule reserve_result_trans) (use 2 in auto)
        ultimately show ?thesis by blast
      next
        case ok: True
        have "\<not> present (e0 a) \<and> \<not> reserved (e0 a)"
          using ok unfolding bit.conj_disj_distrib or_eq_0_iff by simp
        then have z: "e0 a = 0"
          using framesD(6) [of s pgdir xs a] less.prems(6) ak by (simp add: space_def ea)
        define s2 where "s2 = store (slot s1 pgdir a) RSV s1"
        have sp: "space s2 pgdir ys" and su: "same_user s1 s2 pgdir"
          using store_unmapped [OF 2(2,3), of RSV] by (simp_all add: s2_def)
        note nx = aligned_add_page [OF less.prems(1) ak]
        have lt: "PGROUNDDOWN vb < a + PGSIZE \<longleftrightarrow> PGROUNDDOWN vb < a \<or> PGROUNDDOWN vb = a" for vb
          using aligned_lt_next [of "PGROUNDDOWN vb" a "a + PGSIZE"] nx less.prems(1) by (auto simp: order_le_less)
        have e2: "entry s2 pgdir vb = (if PGROUNDDOWN vb = a then RSV else entry s1 pgdir vb)" for vb
          unfolding s2_def using store_entry(3) [OF T 2(3), where e = RSV] by (simp add: pa)
        have z': "e0 vb = 0" if "PGROUNDDOWN vb = a" for vb
        proof -
          have "entry s pgdir vb = entry s pgdir a" using that pa by (intro entry_page) simp
          then show ?thesis using less.prems(7) [of vb] that ea z by simp
        qed
        have "\<exists>r s'. reserve_loop pgdir (a + PGSIZE) start newsz s2 = Some (r, s') \<and>
            reserve_result s2 pgdir start newsz r s' e0"
        proof (rule less.hyps [OF _ _ less.prems(2) _ less.prems(4) _ sp])
          show "unat newsz - unat (a + PGSIZE) < unat newsz - unat a" using nx True by (simp add: word_nat)
          show "aligned (a + PGSIZE)" using nx by simp
          show "start \<le> a + PGSIZE" using less.prems(3) nx by (simp add: word_nat)
          show "a + PGSIZE \<le> KERNBASE"
            using nx ak less.prems(1) by (auto simp: word_nat elim!: alignedE)
          show "entry s2 pgdir vb = (if start \<le> PGROUNDDOWN vb \<and> PGROUNDDOWN vb < a + PGSIZE then RSV else e0 vb)" for vb
            using less.prems(3) by (auto simp: e2 e1 lt)
          show "e0 vb = 0 \<and> PGROUNDDOWN vb < newsz"
            if "start \<le> PGROUNDDOWN vb" "PGROUNDDOWN vb < a + PGSIZE" for vb
            using that less.prems(8) [of vb] z' [of vb] True by (auto simp: lt)
        qed
        then obtain r s' where r: "reserve_loop pgdir (a + PGSIZE) start newsz s2 = Some (r, s')"
          "reserve_result s2 pgdir start newsz r s' e0" by blast
        have "reserve_loop pgdir a start newsz s = Some (r, s')"
          using True 2(1) r(1) ok sl(3) by (subst reserve_loop.simps) (simp add: ent ea s2_def)
        moreover have "reserve_result s1 pgdir start newsz r s' e0"
        proof (rule reserve_result_trans [OF r(2) su])
          show "kend s2 = kend s1" by (simp add: s2_def)
          fix va assume "present (entry s1 pgdir va)"
          then have "PGROUNDDOWN va \<noteq> a" using z' [of va] by (auto simp: e1 split: if_splits)
          then show "entry s2 pgdir va = entry s1 pgdir va" by (simp add: e2)
        qed
        then have "reserve_result s pgdir start newsz r s' e0"
          by (rule reserve_result_trans) (use 2 in auto)
        ultimately show ?thesis by blast
      qed
    qed
  qed
qed

subsection \<open>Counting pages and \<^verbatim>\<open>ssualloc\<close>\<close>

definition npages :: "u32 \<Rightarrow> nat" where
  "npages sz = (unat sz + 4095) div 4096"

lemma unat_roundup: "sz \<le> KERNBASE \<Longrightarrow> unat (PGROUNDUP sz) = npages sz * 4096"
proof -
  assume "sz \<le> KERNBASE"
  then have "unat (sz + 4095) = unat sz + 4095" by (subst unat_add_nowrap) (simp_all add: word_nat)
  moreover have "PGROUNDUP sz = PGROUNDDOWN (sz + 4095)" by (simp add: PGROUNDUP_def PGROUNDDOWN_def add.commute)
  ultimately show ?thesis by (simp add: unat_rounddown npages_def)
qed

lemma roundup_facts:
  assumes "sz \<le> KERNBASE"
  shows "aligned (PGROUNDUP sz)" "sz \<le> PGROUNDUP sz" "PGROUNDUP sz \<le> KERNBASE"
    "\<And>vb. PGROUNDDOWN vb < sz \<longleftrightarrow> PGROUNDDOWN vb < PGROUNDUP sz"
proof -
  note u = unat_roundup [OF assms]
  have n: "unat sz \<le> npages sz * 4096" "npages sz * 4096 < unat sz + 4096" "npages sz \<le> 524288"
    using assms div_times_less_eq_dividend [of "unat sz + 4095" 4096] dividend_less_div_times [of 4096 "unat sz + 4095"]
    by (simp_all add: npages_def word_nat)
  show "aligned (PGROUNDUP sz)" by (simp add: aligned_iff u)
  show "sz \<le> PGROUNDUP sz" "PGROUNDUP sz \<le> KERNBASE" using n by (simp_all add: word_nat u)
  show "PGROUNDDOWN vb < sz \<longleftrightarrow> PGROUNDDOWN vb < PGROUNDUP sz" for vb
    using n by (auto simp: word_nat u unat_rounddown)
qed

definition page_addr :: "nat \<Rightarrow> u32" where "page_addr i = word_of_nat (4096 * i)"

lemma unat_page_addr: "i < 1048576 \<Longrightarrow> unat (page_addr i) = 4096 * i"
  unfolding page_addr_def by (rule unat_of_nat_lt) simp

lemma page_addr_0 [simp]: "page_addr 0 = 0"
  by (simp add: page_addr_def)

lemma page_addr_Suc: "page_addr i + PGSIZE = page_addr (Suc i)"
  by (simp add: page_addr_def add.commute)

lemma countphyspages_loop_spec:
  assumes T: "tables s pgdir xs" and sz: "sz \<le> KERNBASE"
  shows "i \<le> npages sz \<Longrightarrow> countphyspages_loop pgdir (page_addr i) sz cnt s =
     Some (cnt + length (filter (\<lambda>i. present (entry s pgdir (page_addr i))) [i..<npages sz]))"
proof (induction "npages sz - i" arbitrary: i cnt)
  case 0
  then have "i = npages sz" by simp
  then have "page_addr i = PGROUNDUP sz" 
    using word_of_unat [OF unat_roundup [OF sz]] by (simp only: mult.commute page_addr_def)
  then have "\<not> page_addr i < sz" using roundup_facts(2) [OF sz] by simp
  then show ?case using \<open>i = npages sz\<close> by (subst countphyspages_loop.simps) simp
next
  case (Suc n)
  have i: "i < npages sz" using Suc(2) by simp
  have n: "npages sz \<le> 524288" using sz by (simp add: npages_def word_nat)
  have u: "unat (page_addr i) = 4096 * i" using i n by (simp add: unat_page_addr)
  have lt: "page_addr i < sz"
    using i dividend_less_div_times [of 4096 "unat sz + 4095"] div_times_less_eq_dividend [of "unat sz + 4095" 4096]
    by (simp add: word_nat u npages_def)
  have "countphyspages_loop pgdir (page_addr i) sz cnt s =
      countphyspages_loop pgdir (page_addr (Suc i)) sz (if present (entry s pgdir (page_addr i)) then cnt + 1 else cnt) s"
    using lt walk_entry [OF T, of "page_addr i"] entry_no_tab [of s pgdir "page_addr i"]
    by (subst countphyspages_loop.simps) (auto simp: Let_def page_addr_Suc)
  also have "\<dots> = Some ((if present (entry s pgdir (page_addr i)) then cnt + 1 else cnt) +
      length (filter (\<lambda>i. present (entry s pgdir (page_addr i))) [Suc i..<npages sz]))"
    by (rule Suc(1)) (use Suc(2) i in auto)
  finally show ?case using i by (simp add: upt_conv_Cons)
qed

lemma countphyspages_spec:
  assumes "tables s pgdir xs" "sz \<le> KERNBASE"
  shows "countphyspages pgdir sz s = Some (length (filter (\<lambda>i. present (entry s pgdir (page_addr i))) [0..<npages sz]))"
  using countphyspages_loop_spec [OF assms, of 0 0] by (simp add: countphyspages_def)

lemma reservessuvm_spec:
  assumes S: "space s pgdir xs" and sz: "oldsz \<le> KERNBASE"
  obtains r s' ys where "reservessuvm pgdir oldsz newsz s = Some (r, s')" "space s' pgdir ys" "same_user s s' pgdir"
    "r = 0 \<and> entry s' pgdir = entry s pgdir \<and>
       (newsz \<ge> KERNBASE \<or> newsz \<le> oldsz \<or> ys = [] \<or>
        (\<exists>vb. PGROUNDUP oldsz \<le> PGROUNDDOWN vb \<and> PGROUNDDOWN vb < newsz \<and> entry s pgdir vb \<noteq> 0)) \<or>
     r = newsz \<and> oldsz \<le> newsz \<and> newsz < KERNBASE \<and> (\<forall>vb. entry s' pgdir vb =
       (if PGROUNDUP oldsz \<le> PGROUNDDOWN vb \<and> PGROUNDDOWN vb < newsz then RSV else entry s pgdir vb)) \<and>
     (\<forall>vb. PGROUNDUP oldsz \<le> PGROUNDDOWN vb \<and> PGROUNDDOWN vb < newsz \<longrightarrow> entry s pgdir vb = 0)"
proof (cases "newsz \<ge> KERNBASE \<or> newsz < oldsz")
  case True
  then show ?thesis using S by (intro that [of 0 s xs]) (auto simp: reservessuvm_def)
next
  case False
  note ru = roundup_facts [OF sz]
  have "\<exists>r s'. reserve_loop pgdir (PGROUNDUP oldsz) (PGROUNDUP oldsz) newsz s = Some (r, s') \<and>
      reserve_result s pgdir (PGROUNDUP oldsz) newsz r s' (entry s pgdir)"
    by (rule reserve_loop_spec [OF ru(1) ru(1) order_refl _ ru(3) S]) (use False in auto)
  then obtain r s' where r: "reservessuvm pgdir oldsz newsz s = Some (r, s')"
    "reserve_result s pgdir (PGROUNDUP oldsz) newsz r s' (entry s pgdir)"
    using False by (auto simp: reservessuvm_def)
  from r(2) obtain ys where "space s' pgdir ys" "same_user s s' pgdir"
    "r = newsz \<and> (\<forall>vb. entry s' pgdir vb =
       (if PGROUNDUP oldsz \<le> PGROUNDDOWN vb \<and> PGROUNDDOWN vb < newsz then RSV else entry s pgdir vb)) \<and>
     (\<forall>vb. PGROUNDUP oldsz \<le> PGROUNDDOWN vb \<and> PGROUNDDOWN vb < newsz \<longrightarrow> entry s pgdir vb = 0) \<or>
     r = 0 \<and> entry s' pgdir = entry s pgdir \<and>
       ((\<exists>vb. PGROUNDUP oldsz \<le> PGROUNDDOWN vb \<and> PGROUNDDOWN vb < newsz \<and> entry s pgdir vb \<noteq> 0) \<or> ys = [])"
    unfolding reserve_result_def by blast
  then show ?thesis using False by (intro that [OF r(1)]) auto
qed

lemma npages_aligned: "aligned a \<Longrightarrow> npages a * 4096 = unat a"
  by (auto simp: npages_def elim!: alignedE)

lemma rounddown_page_addr: "i < 1048576 \<Longrightarrow> PGROUNDDOWN (page_addr i) = page_addr i"
  by (simp add: aligned_def [symmetric] aligned_iff unat_page_addr)

text \<open>The number of mapped pages is the same when only unmapped pages change.\<close>

lemma count_same:
  assumes "m \<le> n" "n \<le> 524288"
    and same: "\<And>i. i < m \<Longrightarrow> present (entry s' pgdir (page_addr i)) = present (entry s pgdir (page_addr i))"
    and new: "\<And>i. m \<le> i \<Longrightarrow> i < n \<Longrightarrow> \<not> present (entry s' pgdir (page_addr i))"
  shows "length (filter (\<lambda>i. present (entry s' pgdir (page_addr i))) [0..<n]) =
    length (filter (\<lambda>i. present (entry s pgdir (page_addr i))) [0..<m])"
proof -
  have "[0..<n] = [0..<m] @ [m..<n]" using assms(1) by (metis le_add_diff_inverse upt_add_eq_append zero_le)
  moreover have "filter (\<lambda>i. present (entry s' pgdir (page_addr i))) [m..<n] = []"
    using new by (simp add: filter_empty_conv)
  moreover have "filter (\<lambda>i. present (entry s' pgdir (page_addr i))) [0..<m] =
      filter (\<lambda>i. present (entry s pgdir (page_addr i))) [0..<m]"
    using same by (intro filter_cong) auto
  ultimately show ?thesis by simp
qed

lemma roundup_aligned: "aligned a \<Longrightarrow> a \<le> KERNBASE \<Longrightarrow> PGROUNDUP a = a"
  using unat_roundup [of a] npages_aligned [of a] by (simp add: word_unat_eq_iff)

lemma sint_negative: "0 < (n :: u32) \<Longrightarrow> n < KERNBASE \<Longrightarrow> sint (- n) < 0"
proof -
  assume n: "0 < n" "n < KERNBASE"
  then have u: "0 < uint n" "uint n < 2147483648" by (simp_all add: word_less_def)
  then have "uint (- n) = 4294967296 - uint n"
    by (simp add: uint_word_ariths zmod_zminus1_eq_if)
  moreover have "sint (- n) = (uint (- n) + 2147483648) mod 4294967296 - 2147483648"
    by (simp add: sint_uint signed_take_bit_eq_take_bit_shift take_bit_eq_mod)
  ultimately have "sint (- n) = (4294967296 + (2147483648 - uint n)) mod 4294967296 - 2147483648" by simp
  also have "\<dots> = - uint n" using u by (subst mod_add_self1) (simp add: mod_pos_pos_trivial)
  finally show ?thesis using u by simp
qed

lemma signed_positive:
  fixes n :: u32
  assumes "0 < sint n" "sint n mod 4096 = 0"
  shows "n < KERNBASE" "aligned n"
proof -
  have e: "sint n = (uint n + 2147483648) mod 4294967296 - 2147483648"
    by (simp add: sint_uint signed_take_bit_eq_take_bit_shift take_bit_eq_mod)
  have r: "0 \<le> uint n" "uint n < 4294967296" using uint_lt2p [of n] by simp_all
  have "uint n < 2147483648"
  proof (rule ccontr)
    assume "\<not> uint n < 2147483648"
    then have "(uint n + 2147483648) mod 4294967296 = uint n + 2147483648 - 4294967296"
      using r by (subst mod_pos_geq) (auto simp: mod_pos_pos_trivial)
    then show False using assms(1) e r by simp
  qed
  then have u: "sint n = uint n" using e r by simp
  show "n < KERNBASE" using \<open>uint n < 2147483648\<close> by (simp add: word_less_def)
  have "int (unat n mod 4096) = 0" using assms(2) u by (simp add: zmod_int)
  then show "aligned n" by (simp add: aligned_iff)
qed

lemma ssualloc_cases:
  assumes S: "space s (ppgdir p) xs" and sz: "psz p < KERNBASE"
  defines "base \<equiv> PGROUNDUP (psz p)"
  obtains "sys_ssualloc (Some n) p s = Some (- 1, p, s)"
      "sint n \<le> 0 \<or> sint n mod 4096 \<noteq> 0 \<or> unat base + unat n \<ge> unat KERNBASE"
  | s' ys where "sys_ssualloc (Some n) p s = Some (- 1, p, s')" "space s' (ppgdir p) ys" "same_user s s' (ppgdir p)"
      "entry s' (ppgdir p) = entry s (ppgdir p)"
      "ys = [] \<or> (\<exists>vb. base \<le> PGROUNDDOWN vb \<and> PGROUNDDOWN vb < base + n \<and> entry s (ppgdir p) vb \<noteq> 0)"
  | s' ys where "sys_ssualloc (Some n) p s = Some (sint base, p\<lparr>psz := base + n\<rparr>, s')" "space s' (ppgdir p) ys"
      "same_user s s' (ppgdir p)" "aligned n" "unat (base + n) = unat base + unat n" "base + n < KERNBASE"
      "\<And>vb. entry s' (ppgdir p) vb =
         (if base \<le> PGROUNDDOWN vb \<and> PGROUNDDOWN vb < base + n then RSV else entry s (ppgdir p) vb)"
proof (cases "sint n \<le> 0 \<or> sint n mod 4096 \<noteq> 0")
  case True
  then have "sys_ssualloc (Some n) p s = Some (- 1, p, s)" by (auto simp: sys_ssualloc_def)
  then show ?thesis using True that(1) by blast
next
  case False
  have sz': "psz p \<le> KERNBASE" using sz by simp
  note ru = roundup_facts [OF sz', folded base_def]
  have n: "n < KERNBASE" "aligned n" using False signed_positive [of n] by auto
  have un: "unat (base + n) = unat base + unat n"
    using n(1) ru(3) by (intro unat_add_nowrap) (simp add: word_nat)
  have pos: "0 < unat n" using False by (cases "n = 0") (auto simp: unat_gt_0)
  have nz: "base + n \<noteq> 0" "\<not> base + n \<le> base" "\<not> base + n < base" using un pos by (auto simp: word_nat)
  show ?thesis
  proof (cases "base + n \<ge> KERNBASE")
    case True
    then have "sys_ssualloc (Some n) p s = Some (- 1, p, s)"
      by (auto simp: sys_ssualloc_def Let_def base_def)
    moreover have "unat base + unat n \<ge> unat KERNBASE" using True un by (simp add: word_nat)
    ultimately show ?thesis using that(1) by blast
  next
    case lt: False
    obtain r s' ys where r: "reservessuvm (ppgdir p) base (base + n) s = Some (r, s')" "space s' (ppgdir p) ys"
      "same_user s s' (ppgdir p)"
      and res: "r = 0 \<and> entry s' (ppgdir p) = entry s (ppgdir p) \<and> (base + n \<ge> KERNBASE \<or> base + n \<le> base \<or> ys = [] \<or>
          (\<exists>vb. base \<le> PGROUNDDOWN vb \<and> PGROUNDDOWN vb < base + n \<and> entry s (ppgdir p) vb \<noteq> 0)) \<or>
        r = base + n \<and> base \<le> base + n \<and> base + n < KERNBASE \<and> (\<forall>vb. entry s' (ppgdir p) vb =
          (if base \<le> PGROUNDDOWN vb \<and> PGROUNDDOWN vb < base + n then RSV else entry s (ppgdir p) vb)) \<and>
        (\<forall>vb. base \<le> PGROUNDDOWN vb \<and> PGROUNDDOWN vb < base + n \<longrightarrow> entry s (ppgdir p) vb = 0)"
      by (rule reservessuvm_spec [OF S ru(3), of "base + n", unfolded roundup_aligned [OF ru(1,3)]])
    have call: "sys_ssualloc (Some n) p s =
        Some (if r = 0 then (- 1, p, s') else (sint base, p\<lparr>psz := base + n\<rparr>, s'))"
      using False lt nz(3) leD [OF ru(2)] r(1) by (simp add: sys_ssualloc_def Let_def base_def [symmetric])
    show ?thesis
    proof (cases "r = 0")
      case True
      then show ?thesis using res nz lt call r by (intro that(2) [of s' ys]) auto
    next
      case ok: False
      then have "base + n < KERNBASE" "\<forall>vb. entry s' (ppgdir p) vb =
          (if base \<le> PGROUNDDOWN vb \<and> PGROUNDDOWN vb < base + n then RSV else entry s (ppgdir p) vb)"
        using res by blast+
      then show ?thesis using call ok r n(2) un by (intro that(3) [of s' ys]) simp_all
    qed
  qed
qed

lemma reserved_counts:
  assumes T: "tables s pgdir xs" and T': "tables s' pgdir ys" and sz: "psz p < KERNBASE" "ppgdir p = pgdir"
    and n: "aligned n" "unat (PGROUNDUP (psz p) + n) = unat (PGROUNDUP (psz p)) + unat n"
      "PGROUNDUP (psz p) + n < KERNBASE"
    and upd: "\<And>vb. entry s' pgdir vb = (if PGROUNDUP (psz p) \<le> PGROUNDDOWN vb \<and>
      PGROUNDDOWN vb < PGROUNDUP (psz p) + n then RSV else entry s pgdir vb)"
  shows "sys_getpp (p\<lparr>psz := PGROUNDUP (psz p) + n\<rparr>) s' = sys_getpp p s"
    "unat (sys_getvp (p\<lparr>psz := PGROUNDUP (psz p) + n\<rparr>)) = unat (sys_getvp p) + unat n div 4096"
proof -
  define base where "base = PGROUNDUP (psz p)"
  note n' = n(2,3) [folded base_def]
  have sz': "psz p \<le> KERNBASE" using sz by simp
  have "aligned (base + n)"
    using roundup_facts(1) [OF sz'] n(1) unfolding aligned_iff n'(1)
    by (auto simp: base_def mod_eq_0_iff_dvd)
  then have np: "npages (base + n) * 4096 = unat base + unat n" "npages (psz p) * 4096 = unat base"
    using npages_aligned n'(1) unat_roundup [OF sz'] by (simp_all add: base_def)
  have le: "npages (base + n) \<le> 524288" using n' np by (simp add: word_nat)
  have "length (filter (\<lambda>i. present (entry s' pgdir (page_addr i))) [0..<npages (base + n)]) =
    length (filter (\<lambda>i. present (entry s pgdir (page_addr i))) [0..<npages (psz p)])"
  proof (rule count_same [OF _ le])
    show "npages (psz p) \<le> npages (base + n)" using np by simp
    show "present (entry s' pgdir (page_addr i)) = present (entry s pgdir (page_addr i))" if "i < npages (psz p)" for i
      using that np le by (simp add: upd [folded base_def] rounddown_page_addr word_nat unat_page_addr)
    show "\<not> present (entry s' pgdir (page_addr i))" if "npages (psz p) \<le> i" "i < npages (base + n)" for i
      using that np le n' by (simp add: upd [folded base_def] rounddown_page_addr word_nat unat_page_addr)
  qed
  then show "sys_getpp (p\<lparr>psz := PGROUNDUP (psz p) + n\<rparr>) s' = sys_getpp p s"
    using n' sz by (simp add: sys_getpp_def countphyspages_spec [OF T sz'] countphyspages_spec [OF T'] base_def)
  obtain k where k: "unat n = 4096 * k" using n(1) by (rule alignedE)
  have "unat (PGROUNDUP (base + n)) = npages (base + n) * 4096" using n' by (intro unat_roundup) simp
  then show "unat (sys_getvp (p\<lparr>psz := PGROUNDUP (psz p) + n\<rparr>)) = unat (sys_getvp p) + unat n div 4096"
    using np(1) k by (simp add: sys_getvp_def unat_div_word base_def [symmetric] np(2) [symmetric])
qed

text \<open>
  C10.  \<^verbatim>\<open>ssualloc\<close> on a process whose size is below \<^verbatim>\<open>KERNBASE\<close> and whose page tables are well formed
  always returns.  Either it returns -1 and neither the process nor its page map has changed, or it
  returns the first page boundary at or above the old size, the process has grown by exactly the
  requested bytes, every page of the new range is marked reserved and no other entry has changed.  It
  fails only for a size that is not a positive multiple of the page size, for a range that reaches
  \<^verbatim>\<open>KERNBASE\<close>, for a page of the range that is in use, or when the free pages are used up.  In all cases
  no user page is allocated: the bytes of the mapped pages and the count \<^verbatim>\<open>getpp\<close> stay the same, while
  \<^verbatim>\<open>getvp\<close> grows by the number of pages requested.
\<close>

theorem ssualloc_reserves:
  assumes S: "space s (ppgdir p) xs" and sz: "psz p < KERNBASE"
  shows "\<exists>r p' s' ys. sys_ssualloc (Some n) p s = Some (r, p', s') \<and> space s' (ppgdir p) ys \<and>
    same_user s s' (ppgdir p) \<and> sys_getpp p' s' = sys_getpp p s \<and>
    (if r = - 1 then
       p' = p \<and> entry s' (ppgdir p) = entry s (ppgdir p) \<and>
       (sint n \<le> 0 \<or> sint n mod 4096 \<noteq> 0 \<or> unat (PGROUNDUP (psz p)) + unat n \<ge> unat KERNBASE \<or> ys = [] \<or>
        (\<exists>vb. PGROUNDUP (psz p) \<le> PGROUNDDOWN vb \<and> PGROUNDDOWN vb < PGROUNDUP (psz p) + n \<and>
              entry s (ppgdir p) vb \<noteq> 0))
     else
       r = uint (PGROUNDUP (psz p)) \<and> p' = p\<lparr>psz := PGROUNDUP (psz p) + n\<rparr> \<and>
       unat (sys_getvp p') = unat (sys_getvp p) + unat n div 4096 \<and>
       (\<forall>vb. entry s' (ppgdir p) vb =
          (if PGROUNDUP (psz p) \<le> PGROUNDDOWN vb \<and> PGROUNDDOWN vb < psz p' then RSV else entry s (ppgdir p) vb)))"
proof -
  have T: "tables s (ppgdir p) xs" and sz': "psz p \<le> KERNBASE" using S sz by (simp_all add: space_def)
  show ?thesis
  proof (cases rule: ssualloc_cases [OF S sz, of n])
    case 1
    then show ?thesis using S by auto
  next
    case (2 s' ys)
    then have "sys_getpp p s' = sys_getpp p s"
      by (simp add: sys_getpp_def countphyspages_spec [OF T sz'] countphyspages_spec [of s' _ ys] space_def sz')
    then show ?thesis using 2 by auto
  next
    case (3 s' ys)
    have T': "tables s' (ppgdir p) ys" using 3(2) by (simp add: space_def)
    have "PGROUNDUP (psz p) < KERNBASE" using 3(5,6) by (simp add: word_nat)
    then have "sint (PGROUNDUP (psz p)) = uint (PGROUNDUP (psz p))" by (rule sint_below)
    moreover have "uint (PGROUNDUP (psz p)) \<noteq> - 1" using uint_ge_0 [of "PGROUNDUP (psz p)"] by linarith
    ultimately show ?thesis
      using 3 reserved_counts [OF T T' sz refl 3(4-7)] by (intro exI) auto
  qed
qed

lemma zero_directory:
  assumes "aligned pgdir" "i < 1024" "\<And>x. PGROUNDDOWN x = pgdir \<Longrightarrow> mem s x = 0"
  shows "\<not> has_tab s pgdir i"
proof -
  note pi = page_index [OF assms(1,2)]
  have "PGROUNDDOWN (pgdir + 4 * i + k) = pgdir" if "unat k < 4" for k
    using page_of_byte [OF pi(2) that] pi(1) by simp
  from this [of 1] this [of 2] this [of 3] have "load s (pgdir + 4 * i) = 0"
    using pi(1) by (simp add: load_def assms(3))
  then show ?thesis by (simp add: has_tab_def)
qed

lemma space_empty:
  assumes "free_pages s xs" "page_ok s pgdir" "pgdir \<notin> set xs" "\<And>x. PGROUNDDOWN x = pgdir \<Longrightarrow> mem s x = 0"
  shows "space s pgdir xs"
proof -
  have no: "\<not> has_tab s pgdir i" if "i < 1024" for i
    by (rule zero_directory [OF page_ok_aligned [OF assms(2)] that assms(4)])
  then have "tables s pgdir xs" using assms by (auto simp: tables_def)
  moreover have "entry s pgdir va = 0" for va using no by (simp add: entry_no_tab)
  then have "frames s pgdir xs" by (simp add: frames_def)
  ultimately show ?thesis by (simp add: space_def)
qed

text \<open>A machine with two free pages and a process with an empty page directory.\<close>

definition sample_vm :: vmem where
  "sample_vm = store 0x80102000 0x80103000
     \<lparr>mem = (\<lambda>x. 0), freelist = 0x80102000, use_lock = True, kend = 0x80100000, kdata = 0x80108000, cr3 = 0, vout = []\<rparr>"

definition sample_proc :: uproc where
  "sample_proc = \<lparr>psz = 0, ppgdir = 0x80101000\<rparr>"

lemma sample_dir_zero: "PGROUNDDOWN x = ppgdir sample_proc \<Longrightarrow> mem sample_vm x = 0"
  unfolding sample_vm_def by (subst mem_store_other) (auto simp: sample_proc_def PGROUNDDOWN_def)

lemma sample_space: "space sample_vm (ppgdir sample_proc) [0x80102000, 0x80103000]"
proof (rule space_empty)
  have "load sample_vm 0x80102000 = 0x80103000" by (simp add: sample_vm_def)
  moreover have "load sample_vm 0x80103000 = 0" by (simp add: sample_vm_def load_def store_def)
  ultimately show "free_pages sample_vm [0x80102000, 0x80103000]"
    by (simp add: free_pages_def page_ok_def V2P_def aligned_def PGROUNDDOWN_def) (simp add: sample_vm_def)
  show "page_ok sample_vm (ppgdir sample_proc)"
    by (simp add: sample_proc_def page_ok_def V2P_def aligned_def PGROUNDDOWN_def) (simp add: sample_vm_def)
qed (simp_all add: sample_proc_def sample_dir_zero [unfolded sample_proc_def uproc.simps])

theorem ssualloc_reserves_witness:
  "\<exists>r p' s' ys. sys_ssualloc (Some 0x2000) sample_proc sample_vm = Some (r, p', s') \<and>
    space s' (ppgdir sample_proc) ys \<and> same_user sample_vm s' (ppgdir sample_proc) \<and>
    sys_getpp p' s' = sys_getpp sample_proc sample_vm"
proof -
  have "psz sample_proc < KERNBASE" by (simp add: sample_proc_def)
  from ssualloc_reserves [OF sample_space this, of "0x2000"] show ?thesis by blast
qed

subsection \<open>Faulting in a reserved page\<close>

lemma rounddown_kernbase: "PGROUNDDOWN va \<ge> KERNBASE \<longleftrightarrow> va \<ge> KERNBASE"
proof -
  have "2147483648 \<le> unat va div 4096 * 4096 \<longleftrightarrow> 2147483648 \<le> unat va"
  proof
    assume "2147483648 \<le> unat va"
    then have "2147483648 div 4096 \<le> unat va div 4096" by (rule div_le_mono)
    then show "2147483648 \<le> unat va div 4096 * 4096" by simp
  next
    assume "2147483648 \<le> unat va div 4096 * 4096"
    then show "2147483648 \<le> unat va" using div_times_less_eq_dividend [of "unat va" 4096] by linarith
  qed
  then show ?thesis by (simp add: word_nat unat_rounddown)
qed

lemma load_cr3 [simp]: "load (s\<lparr>cr3 := c\<rparr>) a = load s a"
  by (simp add: load_def)

lemma entry_cr3 [simp]: "entry (s\<lparr>cr3 := c\<rparr>) = entry s"
  by (simp add: fun_eq_iff entry_def has_tab_def tab_def)

lemma chain_cr3 [simp]: "chain (s\<lparr>cr3 := c\<rparr>) p xs = chain s p xs"
  by (induction xs arbitrary: p) (simp_all add: page_ok_def)

lemma space_cr3 [simp]: "space (s\<lparr>cr3 := c\<rparr>) pgdir xs = space s pgdir xs"
  by (simp add: space_def tables_def frames_def free_pages_def has_tab_def tab_def page_ok_def)

lemma same_user_cr3 [simp]: "same_user s (s'\<lparr>cr3 := c\<rparr>) pgdir = same_user s s' pgdir"
  by (simp add: same_user_def)

text \<open>Writing an entry that maps a page taken from the free list.\<close>

lemma store_mapped:
  assumes S: "space s pgdir (t # ys)" and va: "has_tab s pgdir (PDX va)" "va < KERNBASE" "\<not> present (entry s pgdir va)"
    and e: "present e" "frame_of e = t"
  defines "m \<equiv> memset t 0 PGSIZE (s\<lparr>freelist := load s t\<rparr>)"
  defines "s' \<equiv> store (slot s pgdir va) e m"
  shows "space s' pgdir ys" "same_user s s' pgdir" "PGROUNDDOWN x = t \<Longrightarrow> mem s' x = 0"
    "entry s' pgdir vb = (if PGROUNDDOWN vb = PGROUNDDOWN va then e else entry s pgdir vb)"
proof -
  have T: "tables s pgdir (t # ys)" and F: "frames s pgdir (t # ys)" using S by (simp_all add: space_def)
  have tok: "page_ok s t" using free_pages_ok [OF tablesD(1) [OF T]] by simp
  have tal: "aligned t" by (rule page_ok_aligned [OF tok])
  have nt: "t \<noteq> pgdir" "t \<notin> set ys" using tablesD(1,4) [OF T] by (auto simp: free_pages_def)
  have nt3: "t \<noteq> tab s pgdir i" if "i < 1024" "has_tab s pgdir i" for i
    using tablesD(7) [OF T that] by auto
  have m: "mem m x = (if PGROUNDDOWN x = t then 0 else mem s x)" for x
    unfolding m_def by (simp add: mem_memset tal)
  have vw: "i < 1024 \<Longrightarrow> has_tab m pgdir i = has_tab s pgdir i" "i < 1024 \<Longrightarrow> tab m pgdir i = tab s pgdir i"
    "entry m pgdir vb = entry s pgdir vb" for i vb
    by (rule view_cong [OF T]; use nt nt3 m in auto)+
  have km: "kend m = kend s" by (simp add: m_def)
  have "free_pages m ys"
    by (rule free_pages_cong [OF kalloc_page(2) [OF tablesD(1) [OF T]]]) (use nt m in \<open>auto simp: m_def\<close>)
  then have Tm: "tables m pgdir ys" by (rule tables_cong [OF T _ km]) (auto simp: vw)
  have hm: "has_tab m pgdir (PDX va)" using va by (simp add: vw)
  have sl: "slot m pgdir va = slot s pgdir va" by (simp add: slot_def vw)
  note st = store_entry [OF Tm hm, where e = e, unfolded sl, folded s'_def]
  show ent: "entry s' pgdir vb = (if PGROUNDDOWN vb = PGROUNDDOWN va then e else entry s pgdir vb)" for vb
    using st(3) by (simp add: vw)
  have ks: "kend s' = kend s" by (simp add: s'_def km)
  show "PGROUNDDOWN x = t \<Longrightarrow> mem s' x = 0" for x
    using st(5) [of x] nt3 [OF PDX_lt va(1)] by (simp add: vw m)
  show "same_user s s' pgdir"
  proof (rule same_userI [OF F])
    fix x assume "PGROUNDDOWN x \<notin> set (t # ys)"
      "\<And>i. i < 1024 \<Longrightarrow> has_tab s pgdir i \<Longrightarrow> tab s pgdir i \<noteq> PGROUNDDOWN x"
    then show "mem s' x = mem s x" using st(5) [of x] va(1) PDX_lt [of va] by (metis list.set_intros(1) m vw(2))
  qed
  have "frames s' pgdir ys"
  proof (rule framesI)
    fix vb assume vb: "vb < KERNBASE"
    note Fb = framesD [OF F vb]
    show "reserved (entry s' pgdir vb) \<or> entry s' pgdir vb = 0" if "\<not> present (entry s' pgdir vb)"
      using that Fb(6) e(1) by (auto simp: ent split: if_splits)
    assume p: "present (entry s' pgdir vb)"
    show "page_ok s' (frame_of (entry s' pgdir vb)) \<and> frame_of (entry s' pgdir vb) \<notin> set ys \<and>
        frame_of (entry s' pgdir vb) \<noteq> pgdir"
      using p Fb(1,2,3) tok nt e(2) by (auto simp: ent page_ok_cong [OF ks] split: if_splits)
    show "tab s' pgdir i \<noteq> frame_of (entry s' pgdir vb)" if "i < 1024" "has_tab s' pgdir i" for i
      using that p Fb(4) [of i] nt3 [of i] e(2) by (auto simp: ent st(1,2) vw split: if_splits)
    fix vc assume vc: "vc < KERNBASE" "present (entry s' pgdir vc)"
      and f: "frame_of (entry s' pgdir vc) = frame_of (entry s' pgdir vb)"
    have fresh: "frame_of (entry s' pgdir v) = t \<longleftrightarrow> PGROUNDDOWN v = PGROUNDDOWN va"
      if "v < KERNBASE" "present (entry s' pgdir v)" for v
      using framesD(2) [OF F that(1)] that(2) e(2) by (simp add: ent split: if_splits)
    show "PGROUNDDOWN vc = PGROUNDDOWN vb"
    proof (cases "PGROUNDDOWN vb = PGROUNDDOWN va")
      case True
      then show ?thesis using fresh [OF vb p] fresh [OF vc] f by simp
    next
      case False
      then have "PGROUNDDOWN vc \<noteq> PGROUNDDOWN va" using fresh [OF vb p] fresh [OF vc] f by simp
      then show ?thesis using False Fb(5) [OF _ vc(1)] p vc(2) f by (simp add: ent)
    qed
  qed
  then show "space s' pgdir ys" using st(4) by (simp add: space_def)
qed

lemma rounddown_walk: "walkpgdir pgdir (PGROUNDDOWN va) al s = walkpgdir pgdir va al s"
  unfolding walkpgdir_def index_rounddown ..

abbreviation lazy_page :: "vmem \<Rightarrow> u32 \<Rightarrow> u32 \<Rightarrow> bool" where
  "lazy_page s pgdir va \<equiv> va < KERNBASE \<and> \<not> present (entry s pgdir va) \<and> reserved (entry s pgdir va)"

lemma allocssupage_fail:
  assumes "space s pgdir xs" "\<not> (lazy_page s pgdir va \<and> xs \<noteq> [])"
  shows "allocssupage pgdir va s = (- 1, s)"
proof -
  have T: "tables s pgdir xs" using assms(1) by (simp add: space_def)
  note w = walk_entry [OF T, of va]
  have "fst (walkpgdir pgdir va False s) = 0 \<or> present (load s (fst (walkpgdir pgdir va False s))) \<or>
      \<not> reserved (load s (fst (walkpgdir pgdir va False s))) \<or> va \<ge> KERNBASE \<or> kalloc s = (0, s)"
    using assms(2) w(2) kalloc_empty tablesD(1) [OF T] by (auto simp: not_less)
  then show ?thesis
    by (auto simp: allocssupage_def Let_def rounddown_walk rounddown_kernbase)
qed

lemma allocssupage_page:
  assumes S: "space s pgdir (t # ys)" and l: "lazy_page s pgdir va"
  defines "e \<equiv> V2P t OR PTE_P OR PTE_W OR PTE_U"
  defines "s' \<equiv> store (slot s pgdir va) e (memset t 0 PGSIZE (s\<lparr>freelist := load s t\<rparr>))"
  shows "allocssupage pgdir va s = (0, s')" "space s' pgdir ys" "same_user s s' pgdir"
    "PGROUNDDOWN x = t \<Longrightarrow> mem s' x = 0"
    "entry s' pgdir vb = (if PGROUNDDOWN vb = PGROUNDDOWN va then e else entry s pgdir vb)"
proof -
  have T: "tables s pgdir (t # ys)" using S by (simp add: space_def)
  have h: "has_tab s pgdir (PDX va)" using l by (auto intro: entry_has_tab)
  have tok: "page_ok s t" using free_pages_ok [OF tablesD(1) [OF T]] by simp
  have "aligned (V2P t)" using page_ok_aligned [OF tok] by (simp add: aligned_V2P)
  then have f: "frame_of e = t" unfolding e_def by (subst pte_addr_flags) simp_all
  have p: "present e" by (simp add: e_def present_or)
  have w: "walkpgdir pgdir va False s = (slot s pgdir va, s)" using h by (simp add: walk_lookup [OF T])
  show "allocssupage pgdir va s = (0, s')"
    using l slot_facts(3) [OF T h] entry_slot [OF h] kalloc_page(1) [OF tablesD(1) [OF T]] page_ok_nonzero [OF tok]
    by (simp add: allocssupage_def Let_def rounddown_walk w s'_def e_def rounddown_kernbase not_le)
  note sm = store_mapped [OF S h _ _ p f, folded s'_def]
  show "space s' pgdir ys" "same_user s s' pgdir" "PGROUNDDOWN x = t \<Longrightarrow> mem s' x = 0"
    "entry s' pgdir vb = (if PGROUNDDOWN vb = PGROUNDDOWN va then e else entry s pgdir vb)"
    using sm l by simp_all
qed

text \<open>
  C9.  A page fault is resolved exactly when it is not a protection fault, the address lies in a page
  below \<^verbatim>\<open>KERNBASE\<close> that was reserved and has no frame yet, and a free page is left.  Then the page is
  mapped, writable for the user, to the first free page, all of whose bytes are 0; every other
  entry and the bytes of every other mapped page are unchanged, and the tables stay well formed.  A
  fault that is not resolved changes nothing.
\<close>

theorem page_fault_lazy:
  assumes S: "space s (ppgdir p) xs"
  shows "case trap_pgflt (Some p) err cr2 s of (resolved, s') \<Rightarrow>
    resolved = (err AND 1 = 0 \<and> lazy_page s (ppgdir p) cr2 \<and> xs \<noteq> []) \<and>
    (if resolved then
       space s' (ppgdir p) (tl xs) \<and> same_user s s' (ppgdir p) \<and>
       (\<forall>vb. entry s' (ppgdir p) vb = (if PGROUNDDOWN vb = PGROUNDDOWN cr2
          then V2P (hd xs) OR PTE_P OR PTE_W OR PTE_U else entry s (ppgdir p) vb)) \<and>
       frame_of (entry s' (ppgdir p) cr2) = hd xs \<and> (\<forall>x. PGROUNDDOWN x = hd xs \<longrightarrow> mem s' x = 0)
     else s' = s)"
proof (cases "err AND 1 = 0 \<and> lazy_page s (ppgdir p) cr2 \<and> xs \<noteq> []")
  case True
  then obtain t ys where xs: "xs = t # ys" by (cases xs) auto
  note a = allocssupage_page [OF S [unfolded xs], of cr2]
  have "page_ok s t" 
    using S xs free_pages_ok [OF tablesD(1) [of s "ppgdir p" xs], of t] by (simp add: space_def)
  then have "frame_of (V2P t OR PTE_P OR PTE_W OR PTE_U) = t"
    by (subst pte_addr_flags) (simp_all add: aligned_V2P page_ok_aligned)
  then show ?thesis using True a xs by (simp add: trap_pgflt_def)
next
  case False
  then have "trap_pgflt (Some p) err cr2 s = (False, s)"
    using allocssupage_fail [OF S, of cr2] by (auto simp: trap_pgflt_def)
  then show ?thesis using False by auto
qed

text \<open>The sample process with its first page reserved; the page table took the first free page.\<close>

lemma sample_reserved:
  obtains s where "space s (ppgdir sample_proc) [0x80103000]" "lazy_page s (ppgdir sample_proc) 5"
proof -
  let ?d = "ppgdir sample_proc"
  have T: "tables sample_vm ?d [0x80102000, 0x80103000]" using sample_space by (simp add: space_def)
  have no: "\<not> has_tab sample_vm ?d (PDX 5)"
    by (rule zero_directory [OF tablesD(3) [OF T] PDX_lt sample_dir_zero])
  from sample_space show ?thesis
  proof (cases rule: walk_alloc [where va = 5])
    case (2 s ys)
    obtain s1 where s1: "walkpgdir ?d 5 True sample_vm = (0x80102000 + 4 * PTX 5, s1)" "tables s1 ?d [0x80103000]"
      by (rule walk_new [OF T no])
    have "s1 = s" using s1(1) 2(1) by simp
    have "ys = [0x80103000]" using 2(2) s1(2) \<open>s1 = s\<close> chain_det by (auto simp: space_def tables_def free_pages_def)
    let ?s = "store (slot s ?d 5) RSV s"
    have "space ?s ?d [0x80103000]" using store_unmapped(1) [OF 2(2,3), of RSV] \<open>ys = _\<close> by simp
    moreover have "entry ?s ?d 5 = RSV"
      using store_entry(3) [of s ?d ys 5 RSV] 2(2,3) by (simp add: space_def)
    ultimately show ?thesis by (intro that [of ?s]) simp_all
  qed simp
qed

theorem page_fault_lazy_witness:
  "\<exists>s s'. space s (ppgdir sample_proc) [0x80103000] \<and> trap_pgflt (Some sample_proc) 6 5 s = (True, s') \<and>
     frame_of (entry s' (ppgdir sample_proc) 5) = 0x80103000 \<and> (\<forall>x. PGROUNDDOWN x = 0x80103000 \<longrightarrow> mem s' x = 0)"
proof -
  obtain s where s: "space s (ppgdir sample_proc) [0x80103000]" "lazy_page s (ppgdir sample_proc) 5"
    by (rule sample_reserved)
  obtain resolved s' where call: "trap_pgflt (Some sample_proc) 6 5 s = (resolved, s')" by (cases "trap_pgflt (Some sample_proc) 6 5 s")
  note fault = page_fault_lazy [OF s(1), of 6 5, unfolded call prod.case list.sel]
  have "resolved" using fault s by simp
  have "frame_of (entry s' (ppgdir sample_proc) 5) = 0x80103000 \<and>
      (\<forall>x. PGROUNDDOWN x = 0x80103000 \<longrightarrow> mem s' x = 0)"
    using conjunct2 [OF fault, unfolded if_P [OF \<open>resolved\<close>]] by blast
  moreover have "trap_pgflt (Some sample_proc) 6 5 s = (True, s')" using call \<open>resolved\<close> by simp
  ultimately show ?thesis using s(1) by blast
qed

subsection \<open>Freeing pages\<close>

text \<open>The bytes of the pages that are still mapped are as before.\<close>

definition kept :: "vmem \<Rightarrow> vmem \<Rightarrow> u32 \<Rightarrow> bool" where
  "kept s s' pgdir \<longleftrightarrow>
     (\<forall>va x. va < KERNBASE \<longrightarrow> present (entry s' pgdir va) \<longrightarrow> PGROUNDDOWN x = frame_of (entry s' pgdir va) \<longrightarrow>
        mem s' x = mem s x)"

lemma kept_refl [simp]: "kept s s pgdir"
  by (simp add: kept_def)

lemma kept_trans:
  assumes "kept s s' pgdir" "kept s' s'' pgdir"
    "\<And>va. present (entry s'' pgdir va) \<Longrightarrow> entry s'' pgdir va = entry s' pgdir va"
  shows "kept s s'' pgdir"
  using assms unfolding kept_def by (metis (no_types, lifting))

lemma kept_same_user:
  assumes "same_user s s' pgdir" "\<And>va. present (entry s' pgdir va) \<Longrightarrow> entry s' pgdir va = entry s pgdir va"
  shows "kept s s' pgdir"
  using assms unfolding kept_def same_user_def by (metis (no_types, lifting))

lemma free_entry:
  assumes S: "space s pgdir xs" and va: "va < KERNBASE" "present (entry s pgdir va)"
  defines "f \<equiv> frame_of (entry s pgdir va)"
  obtains s1 where "kfree f s = Some s1" "space (store (slot s pgdir va) 0 s1) pgdir (f # xs)" "kend s1 = kend s"
    "\<And>vb. entry (store (slot s pgdir va) 0 s1) pgdir vb = (if PGROUNDDOWN vb = PGROUNDDOWN va then 0 else entry s pgdir vb)"
    "kept s (store (slot s pgdir va) 0 s1) pgdir"
proof -
  have T: "tables s pgdir xs" and F: "frames s pgdir xs" using S by (simp_all add: space_def)
  note Fv = framesD [OF F va(1), folded f_def]
  have f: "page_ok s f" "f \<notin> set xs" "f \<noteq> pgdir" using Fv(1-3) va(2) by simp_all
  have nt: "tab s pgdir i \<noteq> f" if "i < 1024" "has_tab s pgdir i" for i using Fv(4) va(2) that by blast
  obtain s1 where s1: "kfree f s = Some s1" "free_pages s1 (f # xs)" "kend s1 = kend s"
    and fr: "\<And>x. PGROUNDDOWN x \<noteq> f \<Longrightarrow> mem s1 x = mem s x"
    by (rule kfree_page [OF tablesD(1) [OF T] f(1,2)]) blast
  have vw: "i < 1024 \<Longrightarrow> has_tab s1 pgdir i = has_tab s pgdir i" "i < 1024 \<Longrightarrow> tab s1 pgdir i = tab s pgdir i"
    "entry s1 pgdir vb = entry s pgdir vb" for i vb
    by (rule view_cong [OF T]; use f(3) nt fr in auto)+
  have "tables s1 pgdir (f # xs)"
    unfolding tables_def using s1 f tablesD [OF T] nt by (auto simp: vw page_ok_cong [OF s1(3)])
  note T1 = this
  have h: "has_tab s1 pgdir (PDX va)" using va(2) entry_has_tab [of s pgdir va] by (simp add: vw)
  have sl: "slot s1 pgdir va = slot s pgdir va" by (simp add: slot_def vw)
  let ?s = "store (slot s pgdir va) 0 s1"
  note st = store_entry [OF T1 h, where e = 0, unfolded sl]
  have ent: "entry ?s pgdir vb = (if PGROUNDDOWN vb = PGROUNDDOWN va then 0 else entry s pgdir vb)" for vb
    using st(3) by (simp add: vw)
  have ks: "kend ?s = kend s" by (simp add: s1(3))
  have other: "frame_of (entry s pgdir vb) \<noteq> f"
    if "vb < KERNBASE" "present (entry s pgdir vb)" "PGROUNDDOWN vb \<noteq> PGROUNDDOWN va" for vb
    using Fv(5) va(2) that by (auto simp: f_def)
  have "frames ?s pgdir (f # xs)"
  proof (rule framesI)
    fix vb assume vb: "vb < KERNBASE"
    note Fb = framesD [OF F vb]
    show "reserved (entry ?s pgdir vb) \<or> entry ?s pgdir vb = 0" if "\<not> present (entry ?s pgdir vb)"
      using that Fb(6) by (auto simp: ent)
    assume p: "present (entry ?s pgdir vb)"
    then have ne: "PGROUNDDOWN vb \<noteq> PGROUNDDOWN va" and eq: "entry ?s pgdir vb = entry s pgdir vb"
      by (auto simp: ent split: if_splits)
    show "page_ok ?s (frame_of (entry ?s pgdir vb)) \<and> frame_of (entry ?s pgdir vb) \<notin> set (f # xs) \<and>
        frame_of (entry ?s pgdir vb) \<noteq> pgdir"
      using Fb(1-3) p other [OF vb _ ne] unfolding eq by (auto simp: page_ok_cong [OF ks])
    show "tab ?s pgdir i \<noteq> frame_of (entry ?s pgdir vb)" if "i < 1024" "has_tab ?s pgdir i" for i
      using Fb(4) [of i] p that unfolding eq by (simp add: st(1,2) vw)
    fix vc assume "vc < KERNBASE" "present (entry ?s pgdir vc)" "frame_of (entry ?s pgdir vc) = frame_of (entry ?s pgdir vb)"
    then show "PGROUNDDOWN vc = PGROUNDDOWN vb"
      using Fb(5) [of vc] p unfolding eq by (simp add: ent split: if_splits)
  qed
  then have sp: "space ?s pgdir (f # xs)" using st(4) by (simp add: space_def)
  have "kept s ?s pgdir"
    unfolding kept_def
  proof (intro allI impI)
    fix vb x assume vb: "vb < KERNBASE" "present (entry ?s pgdir vb)" "PGROUNDDOWN x = frame_of (entry ?s pgdir vb)"
    then have ne: "PGROUNDDOWN vb \<noteq> PGROUNDDOWN va" and eq: "entry ?s pgdir vb = entry s pgdir vb"
      by (auto simp: ent split: if_splits)
    have "PGROUNDDOWN x \<noteq> f" using other [OF vb(1) _ ne] vb(2,3) unfolding eq by simp
    moreover have "PGROUNDDOWN x \<noteq> tab s1 pgdir (PDX va)"
      using framesD(4) [OF F vb(1), of "PDX va"] vb(2,3) h unfolding eq by (simp add: vw)
    ultimately show "mem ?s x = mem s x" using st(5) fr by simp
  qed
  then show ?thesis using s1(1,3) sp ent by (intro that [of s1]) simp_all
qed

definition freed :: "vmem \<Rightarrow> u32 \<Rightarrow> u32 \<Rightarrow> u32 \<Rightarrow> u32 set" where
  "freed s pgdir a b =
     {frame_of (entry s pgdir vb) | vb. a \<le> PGROUNDDOWN vb \<and> PGROUNDDOWN vb < b \<and> present (entry s pgdir vb)}"

lemma freedI:
  "a \<le> PGROUNDDOWN vb \<Longrightarrow> PGROUNDDOWN vb < b \<Longrightarrow> present (entry s pgdir vb) \<Longrightarrow> frame_of (entry s pgdir vb) \<in> freed s pgdir a b"
  unfolding freed_def by blast

lemma freedE:
  assumes "f \<in> freed s pgdir a b"
  obtains vb where "f = frame_of (entry s pgdir vb)" "a \<le> PGROUNDDOWN vb" "PGROUNDDOWN vb < b" "present (entry s pgdir vb)"
  using assms unfolding freed_def by blast

definition unmapped :: "vmem \<Rightarrow> u32 \<Rightarrow> u32 \<Rightarrow> u32 \<Rightarrow> u32 list \<Rightarrow> vmem \<Rightarrow> u32 list \<Rightarrow> bool" where
  "unmapped s pgdir a b xs s' ys \<longleftrightarrow> space s' pgdir ys \<and> kend s' = kend s \<and> kept s s' pgdir \<and>
     (\<forall>vb. entry s' pgdir vb = (if a \<le> PGROUNDDOWN vb \<and> PGROUNDDOWN vb < b then 0 else entry s pgdir vb)) \<and>
     set ys = set xs \<union> freed s pgdir a b"

lemma unmapped_trans:
  assumes 1: "unmapped s pgdir a c xs s1 xs1" and 2: "unmapped s1 pgdir c b xs1 s' ys" and ac: "a \<le> c"
    and past: "\<And>vb. b \<le> PGROUNDDOWN vb \<Longrightarrow> PGROUNDDOWN vb < c \<Longrightarrow> entry s pgdir vb = 0"
  shows "unmapped s pgdir a b xs s' ys"
proof -
  note u = 1 [unfolded unmapped_def] 2 [unfolded unmapped_def]
  have e1: "entry s1 pgdir vb = (if a \<le> PGROUNDDOWN vb \<and> PGROUNDDOWN vb < c then 0 else entry s pgdir vb)" for vb
    using u(1) by blast
  have e2: "entry s' pgdir vb = (if c \<le> PGROUNDDOWN vb \<and> PGROUNDDOWN vb < b then 0 else entry s1 pgdir vb)" for vb
    using u(2) by blast
  have ent: "entry s' pgdir vb = (if a \<le> PGROUNDDOWN vb \<and> PGROUNDDOWN vb < b then 0 else entry s pgdir vb)" for vb
    using past [of vb] ac by (auto simp: e1 e2 not_le not_less)
  have "freed s pgdir a b = freed s pgdir a c \<union> freed s1 pgdir c b"
  proof (intro equalityI subsetI)
    fix f assume "f \<in> freed s pgdir a b"
    then obtain vb where vb: "f = frame_of (entry s pgdir vb)" "a \<le> PGROUNDDOWN vb" "PGROUNDDOWN vb < b"
      "present (entry s pgdir vb)" by (rule freedE)
    show "f \<in> freed s pgdir a c \<union> freed s1 pgdir c b"
    proof (cases "PGROUNDDOWN vb < c")
      case False
      then have "entry s1 pgdir vb = entry s pgdir vb" by (simp add: e1)
      then show ?thesis using False vb freedI [of c vb b s1 pgdir] by simp
    qed (use vb freedI in auto)
  next
    fix f assume "f \<in> freed s pgdir a c \<union> freed s1 pgdir c b"
    then show "f \<in> freed s pgdir a b"
    proof
      assume "f \<in> freed s pgdir a c"
      then obtain vb where vb: "f = frame_of (entry s pgdir vb)" "a \<le> PGROUNDDOWN vb" "PGROUNDDOWN vb < c"
        "present (entry s pgdir vb)" by (rule freedE)
      then have "PGROUNDDOWN vb < b" using past [of vb] by (metis and.left_neutral bit.conj_zero_left linorder_not_less)
      then show ?thesis using vb freedI by simp
    next
      assume "f \<in> freed s1 pgdir c b"
      then obtain vb where vb: "f = frame_of (entry s1 pgdir vb)" "c \<le> PGROUNDDOWN vb" "PGROUNDDOWN vb < b"
        "present (entry s1 pgdir vb)" by (rule freedE)
      then show ?thesis using ac freedI [of a vb b s pgdir] by (simp add: e1 not_less [symmetric])
    qed
  qed
  moreover have "kept s s' pgdir"
    by (rule kept_trans [of s s1]) (use u e2 in \<open>auto split: if_splits\<close>)
  ultimately show ?thesis using u ent unfolding unmapped_def by auto
qed

lemma unmapped_none:
  assumes S: "space s pgdir xs" and z: "\<And>vb. a \<le> PGROUNDDOWN vb \<Longrightarrow> PGROUNDDOWN vb < b \<Longrightarrow> entry s pgdir vb = 0"
  shows "unmapped s pgdir a b xs s xs"
proof -
  have "freed s pgdir a b = {}" using z by (auto simp: freed_def)
  then show ?thesis using S z by (auto simp: unmapped_def)
qed

text \<open>One page: \<open>freed\<close> and the new entries concern only it.\<close>

lemma unmapped_page:
  assumes "aligned a" "unat b = unat a + 4096"
    and "space s' pgdir ys" "kend s' = kend s" "kept s s' pgdir"
    and e: "\<And>vb. entry s' pgdir vb = (if PGROUNDDOWN vb = a then 0 else entry s pgdir vb)"
    and y: "set ys = (if present (entry s pgdir a) then insert (frame_of (entry s pgdir a)) (set xs) else set xs)"
  shows "unmapped s pgdir a b xs s' ys"
proof -
  have r: "a \<le> PGROUNDDOWN vb \<and> PGROUNDDOWN vb < b \<longleftrightarrow> PGROUNDDOWN vb = a" for vb
    using aligned_lt_next [OF _ assms(1,2), of "PGROUNDDOWN vb"] by auto
  have pa: "PGROUNDDOWN a = a" using assms(1) by (simp add: aligned_def)
  then have same: "PGROUNDDOWN vb = a \<Longrightarrow> entry s pgdir vb = entry s pgdir a" for vb
    by (intro entry_page) simp
  have "f \<in> freed s pgdir a b \<longleftrightarrow> present (entry s pgdir a) \<and> f = frame_of (entry s pgdir a)" for f
  proof
    assume "f \<in> freed s pgdir a b"
    then obtain vb where vb: "f = frame_of (entry s pgdir vb)" "a \<le> PGROUNDDOWN vb" "PGROUNDDOWN vb < b"
      "present (entry s pgdir vb)" by (rule freedE)
    then have "entry s pgdir vb = entry s pgdir a" using r same by blast
    then show "present (entry s pgdir a) \<and> f = frame_of (entry s pgdir a)" using vb by simp
  next
    assume "present (entry s pgdir a) \<and> f = frame_of (entry s pgdir a)"
    then show "f \<in> freed s pgdir a b" using freedI [of a a b s pgdir] r [of a] pa by simp
  qed
  then have "freed s pgdir a b = (if present (entry s pgdir a) then {frame_of (entry s pgdir a)} else {})" by auto
  then have "set ys = set xs \<union> freed s pgdir a b" using y by simp
  moreover have "\<forall>vb. entry s' pgdir vb =
      (if a \<le> PGROUNDDOWN vb \<and> PGROUNDDOWN vb < b then 0 else entry s pgdir vb)" by (simp only: r e simp_thms)
  ultimately show ?thesis using assms(3-5) unfolding unmapped_def by blast
qed

text \<open>Skipping a missing table: the address of the next one.\<close>

lemma next_table:
  assumes "aligned a" "a < KERNBASE"
  defines "b \<equiv> PGADDR (PDX a + 1) 0 0 - PGSIZE + PGSIZE"
  shows "aligned b" "a < b" "b \<le> KERNBASE" "\<And>v. a \<le> v \<Longrightarrow> v < b \<Longrightarrow> PDX v = PDX a"
proof -
  define q where "q = unat a div 4194304"
  have q: "q < 512" using assms(2) by (simp add: q_def word_nat less_mult_imp_div_less)
  have u1: "unat (PDX a + 1) = q + 1"
    using q unat_PDX [of a] by (subst unat_add_nowrap) (simp_all add: q_def)
  have "b = push_bit 22 (PDX a + 1)" by (simp add: b_def PGADDR_def)
  also have "\<dots> = (PDX a + 1) * 4194304" by (simp add: push_bit_eq_mult)
  finally have ub: "unat b = (q + 1) * 4194304"
    using unat_mult_nowrap [of "PDX a + 1" "4194304 :: u32"] u1 q by simp
  have lo: "q * 4194304 \<le> unat a" "unat a < (q + 1) * 4194304"
    using div_times_less_eq_dividend [of "unat a" 4194304] dividend_less_div_times [of 4194304 "unat a"]
    by (simp_all add: q_def)
  have "(q + 1) * 4194304 = (q + 1) * 1024 * 4096" by simp
  then show "aligned b" unfolding aligned_iff ub by (metis mod_mult_self2_is_0)
  show "a < b" "b \<le> KERNBASE" using lo q ub by (simp_all add: word_nat)
  fix v assume "a \<le> v" "v < b"
  then have "unat v div 4194304 = q"
    using lo ub div_eq_iff_range [of 4194304 "unat v" q] by (simp add: word_nat)
  then show "PDX v = PDX a" by (simp add: word_unat_eq_iff unat_PDX q_def)
qed

lemma deallocuvm_step:
  assumes S: "space s pgdir xs" and a: "aligned a" "a < KERNBASE" and lt: "a < oldsz" and h: "has_tab s pgdir (PDX a)"
  shows "\<exists>s1 xs1. deallocuvm_loop pgdir a oldsz s = deallocuvm_loop pgdir (a + PGSIZE) oldsz s1 \<and>
    unmapped s pgdir a (a + PGSIZE) xs s1 xs1"
proof -
  have T: "tables s pgdir xs" using S by (simp add: space_def)
  have pa: "PGROUNDDOWN a = a" using a(1) by (simp add: aligned_def)
  note nx = aligned_add_page [OF a]
  note page = unmapped_page [OF a(1), of "a + PGSIZE"]
  have w: "fst (walkpgdir pgdir a False s) = slot s pgdir a" "slot s pgdir a \<noteq> 0"
    using h slot_facts(3) [OF T h] by (simp_all add: walk_lookup [OF T])
  note unfold = deallocuvm_loop.simps [of pgdir a oldsz s, unfolded w(1) Let_def entry_slot [OF h, symmetric]]
  show ?thesis
  proof (cases "present (entry s pgdir a)")
    case p: True
    obtain s1 where s1: "kfree (frame_of (entry s pgdir a)) s = Some s1"
      "space (store (slot s pgdir a) 0 s1) pgdir (frame_of (entry s pgdir a) # xs)" "kend s1 = kend s"
      "\<And>vb. entry (store (slot s pgdir a) 0 s1) pgdir vb = (if PGROUNDDOWN vb = a then 0 else entry s pgdir vb)"
      "kept s (store (slot s pgdir a) 0 s1) pgdir"
      by (rule free_entry [OF S a(2) p, unfolded pa]) blast
    have "page_ok s (frame_of (entry s pgdir a))"
      using framesD(1) [of s pgdir xs a] S a(2) p by (simp add: space_def)
    then have "PTE_ADDR (entry s pgdir a) \<noteq> 0" by (auto simp: page_ok_def P2V_def)
    then have "deallocuvm_loop pgdir a oldsz s = deallocuvm_loop pgdir (a + PGSIZE) oldsz (store (slot s pgdir a) 0 s1)"
      using unfold lt w(2) p s1(1) by simp
    moreover have "unmapped s pgdir a (a + PGSIZE) xs (store (slot s pgdir a) 0 s1) (frame_of (entry s pgdir a) # xs)"
      using s1 nx p by (intro page) simp_all
    ultimately show ?thesis by blast
  next
    case np: False
    define s1 where "s1 = (if reserved (entry s pgdir a) then store (slot s pgdir a) 0 s else s)"
    have call: "deallocuvm_loop pgdir a oldsz s = deallocuvm_loop pgdir (a + PGSIZE) oldsz s1"
      using unfold lt w(2) np by (simp add: s1_def)
    have e1: "entry s1 pgdir vb = (if PGROUNDDOWN vb = a then 0 else entry s pgdir vb)" for vb
    proof (cases "reserved (entry s pgdir a)")
      case False
      then have "entry s pgdir a = 0" using framesD(6) [of s pgdir xs a] S a(2) np by (simp add: space_def)
      then have "PGROUNDDOWN vb = a \<Longrightarrow> entry s pgdir vb = 0" using entry_page [of vb a s pgdir] pa by simp
      then show ?thesis using False by (simp add: s1_def)
    qed (use store_entry(3) [OF T h, where e = 0] pa in \<open>simp add: s1_def\<close>)
    have sp: "space s1 pgdir xs" "same_user s s1 pgdir"
      using store_unmapped [OF S h, of 0] S by (simp_all add: s1_def)
    have "kept s s1 pgdir" by (rule kept_same_user [OF sp(2)]) (auto simp: e1 split: if_splits)
    then have "unmapped s pgdir a (a + PGSIZE) xs s1 xs"
      using sp nx np e1 by (intro page) (simp_all add: s1_def)
    then show ?thesis using call by blast
  qed
qed

lemma deallocuvm_loop_spec:
  assumes "aligned a" "a \<le> KERNBASE" "oldsz \<le> KERNBASE" "space s pgdir xs"
  shows "\<exists>s' ys. deallocuvm_loop pgdir a oldsz s = Some s' \<and> unmapped s pgdir a oldsz xs s' ys"
  using assms
proof (induction "unat oldsz - unat a" arbitrary: a s xs rule: less_induct)
  case less
  have T: "tables s pgdir xs" using less.prems(4) by (simp add: space_def)
  show ?case
  proof (cases "a < oldsz")
    case False
    then have "unmapped s pgdir a oldsz xs s xs" using less.prems(4) by (intro unmapped_none) auto
    then show ?thesis using False by (subst deallocuvm_loop.simps) auto
  next
    case True
    have ak: "a < KERNBASE" using True less.prems(3) by simp
    have step: ?thesis
      if call: "deallocuvm_loop pgdir a oldsz s = deallocuvm_loop pgdir b oldsz s1"
        and u: "unmapped s pgdir a b xs s1 xs1" and b: "aligned b" "a < b" "b \<le> KERNBASE"
        and past: "\<And>vb. oldsz \<le> PGROUNDDOWN vb \<Longrightarrow> PGROUNDDOWN vb < b \<Longrightarrow> entry s pgdir vb = 0" for b s1 xs1
    proof -
      have "unat oldsz - unat b < unat oldsz - unat a" using b(2) True by (simp add: word_nat)
      moreover have "space s1 pgdir xs1" using u by (simp add: unmapped_def)
      ultimately obtain s' ys where "deallocuvm_loop pgdir b oldsz s1 = Some s'" "unmapped s1 pgdir b oldsz xs1 s' ys"
        using less.hyps [OF _ b(1,3) less.prems(3)] by blast
      moreover from this have "unmapped s pgdir a oldsz xs s' ys"
        by (intro unmapped_trans [OF u _ less_imp_le [OF b(2)] past])
      ultimately show ?thesis using call by auto
    qed
    note nx = aligned_add_page [OF less.prems(1) ak]
    have nxt: "aligned (a + PGSIZE)" "a < a + PGSIZE" "a + PGSIZE \<le> KERNBASE"
      "\<And>vb. oldsz \<le> PGROUNDDOWN vb \<Longrightarrow> PGROUNDDOWN vb < a + PGSIZE \<Longrightarrow> entry s pgdir vb = 0"
      using nx ak less.prems(1) True aligned_lt_next [OF aligned_rounddown less.prems(1), of "a + PGSIZE"]
      by (auto simp: word_nat elim!: alignedE)
    show ?thesis
    proof (cases "has_tab s pgdir (PDX a)")
      case False
      note nt = next_table [OF less.prems(1) ak]
      have z: "entry s pgdir vb = 0" if "a \<le> PGROUNDDOWN vb" "PGROUNDDOWN vb < PGADDR (PDX a + 1) 0 0 - PGSIZE + PGSIZE" for vb
        using nt(4) [OF that] False by (intro entry_no_tab) simp
      have "deallocuvm_loop pgdir a oldsz s = deallocuvm_loop pgdir (PGADDR (PDX a + 1) 0 0 - PGSIZE + PGSIZE) oldsz s"
        using True False by (subst deallocuvm_loop.simps) (simp add: Let_def walk_lookup [OF T])
      then show ?thesis
        using True by (intro step [OF _ unmapped_none [OF less.prems(4) z] nt(1-3)] z) auto
    next
      case h: True
      obtain s1 xs1 where "deallocuvm_loop pgdir a oldsz s = deallocuvm_loop pgdir (a + PGSIZE) oldsz s1"
        "unmapped s pgdir a (a + PGSIZE) xs s1 xs1"
        using deallocuvm_step [OF less.prems(4,1) ak True h] by blast
      then show ?thesis using nxt by (intro step)
    qed
  qed
qed

lemma deallocuvm_spec:
  assumes "space s pgdir xs" "oldsz \<le> KERNBASE" "newsz < oldsz"
  obtains s' ys where "deallocuvm pgdir oldsz newsz s = Some (newsz, s')" "unmapped s pgdir (PGROUNDUP newsz) oldsz xs s' ys"
proof -
  have "newsz \<le> KERNBASE" using assms(2,3) by simp
  note ru = roundup_facts [OF this]
  from deallocuvm_loop_spec [OF ru(1,3) assms(2,1)] obtain s' ys
    where "deallocuvm_loop pgdir (PGROUNDUP newsz) oldsz s = Some s'" "unmapped s pgdir (PGROUNDUP newsz) oldsz xs s' ys"
    by blast
  then show ?thesis using assms(3) by (intro that [of s' ys]) (auto simp: deallocuvm_def)
qed

text \<open>
  C22.  Shrinking a process always returns.  When the new size is smaller, every page from the first page
  boundary at or above it up to the old size is unmapped and its reservation removed, its frame is
  put on the free list, nothing else is freed, all other entries and the bytes of the pages that
  remain mapped are unchanged, and the tables stay well formed.
\<close>

theorem deallocuvm_frees:
  assumes S: "space s pgdir xs" and sz: "oldsz \<le> KERNBASE"
  shows "\<exists>s' ys. deallocuvm pgdir oldsz newsz s = Some (min newsz oldsz, s') \<and> space s' pgdir ys \<and> kept s s' pgdir \<and>
    (\<forall>vb. entry s' pgdir vb =
       (if newsz < oldsz \<and> PGROUNDUP newsz \<le> PGROUNDDOWN vb \<and> PGROUNDDOWN vb < oldsz then 0 else entry s pgdir vb)) \<and>
    set ys = set xs \<union> (if newsz < oldsz then freed s pgdir (PGROUNDUP newsz) oldsz else {})"
proof (cases "newsz < oldsz")
  case True
  obtain s' ys where "deallocuvm pgdir oldsz newsz s = Some (newsz, s')" "unmapped s pgdir (PGROUNDUP newsz) oldsz xs s' ys"
    by (rule deallocuvm_spec [OF S sz True])
  then show ?thesis using True unfolding unmapped_def by (intro exI [of _ s'] exI [of _ ys]) auto
next
  case False
  then have "deallocuvm pgdir oldsz newsz s = Some (oldsz, s)" by (simp add: deallocuvm_def not_less)
  then show ?thesis using S False by (intro exI [of _ s] exI [of _ xs]) auto
qed

theorem deallocuvm_frees_witness:
  "\<exists>s' ys. deallocuvm 0x80101000 0x3000 1 sample_vm = Some (1, s') \<and> space s' 0x80101000 ys"
proof -
  have "space sample_vm 0x80101000 [0x80102000, 0x80103000]" using sample_space by (simp add: sample_proc_def)
  from deallocuvm_frees [OF this, of "0x3000" 1] show ?thesis by (auto simp: min_def)
qed

text \<open>
  Giving all memory back with \<^verbatim>\<open>sbrk\<close> does not work: \<^verbatim>\<open>growproc\<close> reads the new size 0 that
  \<^verbatim>\<open>deallocuvm\<close> returns as a failure.  The call returns -1 and leaves the size of the process as it was,
  although every page of the process has been unmapped and freed.
\<close>

theorem sbrk_all_inconsistent:
  assumes S: "space s (ppgdir p) xs" and sz: "0 < psz p" "psz p < KERNBASE"
  shows "\<exists>s' ys. sys_sbrk (Some (- psz p)) p s = Some (- 1, p, s') \<and> space s' (ppgdir p) ys \<and>
    (\<forall>va < psz p. entry s' (ppgdir p) va = 0) \<and> set ys = set xs \<union> freed s (ppgdir p) 0 (psz p) \<and>
    sys_getpp p s' = Some 0 \<and> unat (sys_getvp p) = npages (psz p) \<and> 0 < npages (psz p)"
proof -
  have sz': "psz p \<le> KERNBASE" using sz by simp
  obtain s' ys where d: "deallocuvm (ppgdir p) (psz p) 0 s = Some (0, s')" "unmapped s (ppgdir p) (PGROUNDUP 0) (psz p) xs s' ys"
    by (rule deallocuvm_spec [OF S sz' sz(1)])
  have neg: "sint (- psz p) < 0" by (rule sint_negative [OF sz])
  have "sys_sbrk (Some (- psz p)) p s = Some (- 1, p, s')"
    using neg d(1) by (simp add: sys_sbrk_def growproc_def)
  moreover have z: "entry s' (ppgdir p) va = 0" if "va < psz p" for va
  proof -
    have "PGROUNDDOWN va < psz p"
      using that div_times_less_eq_dividend [of "unat va" 4096] by (simp add: word_nat unat_rounddown)
    then show ?thesis using d(2) by (simp add: unmapped_def PGROUNDUP_def)
  qed
  moreover have "sys_getpp p s' = Some 0"
  proof -
    have T: "tables s' (ppgdir p) ys" using d(2) by (simp add: unmapped_def space_def)
    have "page_addr i < psz p" if "i < npages (psz p)" for i
    proof -
      have "i < 1048576" using that sz(2) by (simp add: npages_def word_nat)
      moreover have "i * 4096 < unat (psz p)"
        using that div_times_less_eq_dividend [of "unat (psz p) + 4095" 4096] by (simp add: npages_def)
      ultimately show ?thesis by (simp add: word_nat unat_page_addr)
    qed
    then show ?thesis using z by (simp add: sys_getpp_def countphyspages_spec [OF T sz'] filter_empty_conv)
  qed
  moreover have "unat (sys_getvp p) = npages (psz p)"
    by (simp add: sys_getvp_def unat_div_word unat_roundup [OF sz'])
  moreover have "0 < npages (psz p)" using sz(1) by (simp add: npages_def word_nat div_greater_zero_iff)
  ultimately show ?thesis using d(2) by (auto simp: unmapped_def PGROUNDUP_def)
qed

theorem sbrk_all_inconsistent_witness:
  "\<exists>s' ys. sys_sbrk (Some (- 0x3000)) (sample_proc\<lparr>psz := 0x3000\<rparr>) sample_vm =
       Some (- 1, sample_proc\<lparr>psz := 0x3000\<rparr>, s') \<and> space s' (ppgdir sample_proc) ys"
proof -
  have "space sample_vm (ppgdir (sample_proc\<lparr>psz := 0x3000\<rparr>)) [0x80102000, 0x80103000]" using sample_space by simp
  from sbrk_all_inconsistent [OF this] show ?thesis by auto
qed

subsection \<open>The allocator as a stack of pages\<close>

text \<open>What the page tables rely on: allocation takes the page freed last, and reports when none is left.\<close>

locale page_stack =
  fixes alloc :: "'s \<Rightarrow> 'p \<times> 's" and release :: "'p \<Rightarrow> 's \<Rightarrow> 's option" and null :: 'p
    and holds :: "'s \<Rightarrow> 'p list \<Rightarrow> bool" and ok :: "'s \<Rightarrow> 'p \<Rightarrow> bool"
  assumes alloc_none: "holds s [] \<Longrightarrow> alloc s = (null, s)"
    and alloc_top: "holds s (x # xs) \<Longrightarrow> fst (alloc s) = x \<and> x \<noteq> null \<and> holds (snd (alloc s)) xs"
    and release_push: "holds s xs \<Longrightarrow> ok s v \<Longrightarrow> v \<notin> set xs \<Longrightarrow>
      \<exists>s'. release v s = Some s' \<and> holds s' (v # xs) \<and> (\<forall>w. ok s' w \<longleftrightarrow> ok s w)"
begin

text \<open>A page that was released is the next one allocated.\<close>

lemma release_alloc:
  assumes "holds s xs" "ok s v" "v \<notin> set xs"
  shows "\<exists>s' s''. release v s = Some s' \<and> alloc s' = (v, s'') \<and> holds s'' xs"
proof -
  obtain s' where "release v s = Some s'" "holds s' (v # xs)" using release_push [OF assms] by blast
  moreover obtain w s'' where "alloc s' = (w, s'')" by (cases "alloc s'")
  ultimately show ?thesis using alloc_top [of s' v xs] by auto
qed

text \<open>Releasing a sequence of distinct pages stacks them in reverse order.\<close>

lemma release_list:
  assumes "holds s xs" "distinct vs" "\<And>v. v \<in> set vs \<Longrightarrow> ok s v \<and> v \<notin> set xs"
    and run: "\<And>s. f [] s = Some s" "\<And>v vs s. f (v # vs) s = Option.bind (release v s) (f vs)"
  shows "\<exists>s'. f vs s = Some s' \<and> holds s' (rev vs @ xs)"
  using assms(1-3)
proof (induction vs arbitrary: s xs)
  case Nil
  then show ?case by (simp add: run)
next
  case (Cons v vs)
  obtain s1 where s1: "release v s = Some s1" "holds s1 (v # xs)" "\<forall>w. ok s1 w \<longleftrightarrow> ok s w"
    using release_push [OF Cons.prems(1)] Cons.prems(3) by (metis list.set_intros(1))
  have "\<exists>s'. f vs s1 = Some s' \<and> holds s' (rev vs @ v # xs)"
    by (rule Cons.IH [OF s1(2)]) (use Cons.prems s1(3) in auto)
  then show ?case by (simp add: run s1(1))
qed

end

interpretation km: page_stack kalloc kfree 0 free_pages page_ok
proof
  fix s :: vmem and xs :: "u32 list" and x v :: u32
  show "free_pages s [] \<Longrightarrow> kalloc s = (0, s)" by (rule kalloc_empty)
  show "free_pages s (x # xs) \<Longrightarrow> fst (kalloc s) = x \<and> x \<noteq> 0 \<and> free_pages (snd (kalloc s)) xs"
    using kalloc_page [of s x xs] free_pages_ok [of s "x # xs" x] page_ok_nonzero by auto
  assume "free_pages s xs" "page_ok s v" "v \<notin> set xs"
  then show "\<exists>s'. kfree v s = Some s' \<and> free_pages s' (v # xs) \<and> (\<forall>w. page_ok s' w \<longleftrightarrow> page_ok s w)"
    by (rule kfree_page) (metis page_ok_cong)
qed

fun kfree_each :: "u32 list \<Rightarrow> vmem \<Rightarrow> vmem option" where
  "kfree_each [] s = Some s"
| "kfree_each (v # vs) s = Option.bind (kfree v s) (kfree_each vs)"

fun pages_from :: "u32 \<Rightarrow> nat \<Rightarrow> u32 list" where
  "pages_from p 0 = []"
| "pages_from p (Suc n) = p # pages_from (p + PGSIZE) n"

abbreviation whole_pages :: "u32 \<Rightarrow> u32 \<Rightarrow> nat" where
  "whole_pages p vend \<equiv> (unat vend - unat p) div 4096"

lemma freerange_loop_each:
  assumes "unat p \<le> 4000000000" "unat vend \<le> 4000000000"
  shows "freerange_loop p vend s = kfree_each (pages_from p (whole_pages p vend)) s"
  using assms
proof (induction "whole_pages p vend" arbitrary: p s)
  case 0
  have "unat vend - unat p < 4096" using 0(1) by (simp add: div_eq_0_iff)
  moreover have "unat (p + PGSIZE) = unat p + 4096" using 0(2) by (subst unat_add_nowrap) simp_all
  ultimately have "\<not> p + PGSIZE \<le> vend" by (simp add: word_nat)
  then show ?case using 0(1) [symmetric] by (subst freerange_loop.simps) simp
next
  case (Suc n)
  have "4096 \<le> unat vend - unat p"
  proof (rule ccontr)
    assume "\<not> ?thesis"
    then have "whole_pages p vend = 0" by (simp add: div_eq_0_iff)
    then show False using Suc(2) by simp
  qed
  then have le: "unat p + 4096 \<le> unat vend" by simp
  then have u: "unat (p + PGSIZE) = unat p + 4096" using Suc(4) by (subst unat_add_nowrap) simp_all
  then have n: "n = whole_pages (p + PGSIZE) vend"
    using Suc(2) le le_div_geq [of 4096 "unat vend - unat p"] by simp
  have lt: "p + PGSIZE \<le> vend" using le u by (simp add: word_nat)
  have "freerange_loop (p + PGSIZE) vend = kfree_each (pages_from (p + PGSIZE) n)"
    using Suc(1) [OF n _ Suc(4)] n le u Suc(4) by (simp add: fun_eq_iff)
  then show ?case using lt unfolding Suc(2) [symmetric] by (subst freerange_loop.simps) simp
qed

lemma pages_from_range:
  assumes "unat p + 4096 * n < 4294967296" "aligned p"
  shows "v \<in> set (pages_from p n) \<Longrightarrow> aligned v \<and> p \<le> v \<and> unat v + 4096 \<le> unat p + 4096 * n"
  using assms
proof (induction n arbitrary: p)
  case (Suc n)
  have u: "unat (p + PGSIZE) = unat p + 4096" using Suc.prems by (subst unat_add_nowrap) simp_all
  have al: "aligned (p + PGSIZE)" using Suc.prems(3) by (simp add: aligned_iff u)
  show ?case using Suc.IH [of "p + PGSIZE"] Suc.prems u al by (auto simp: word_nat)
qed simp

lemma pages_from_distinct:
  assumes "unat p + 4096 * n < 4294967296" "aligned p"
  shows "distinct (pages_from p n)"
  using assms
proof (induction n arbitrary: p)
  case (Suc n)
  have u: "unat (p + PGSIZE) = unat p + 4096" using Suc.prems by (subst unat_add_nowrap) simp_all
  have al: "aligned (p + PGSIZE)" using Suc.prems(2) by (simp add: aligned_iff u)
  have "p \<notin> set (pages_from (p + PGSIZE) n)"
    using pages_from_range [of "p + PGSIZE" n p] Suc.prems u al by (auto simp: word_nat)
  then show ?case using Suc.IH [of "p + PGSIZE"] Suc.prems u al by simp
qed simp

text \<open>
  The initialisation of the page allocator ends without panic for every range above the kernel's
  end and below \<^verbatim>\<open>PHYSTOP\<close>, whose pages are not free already: exactly the whole pages of the range are
  pushed on the free list, in increasing order, above the pages that were there.
\<close>

theorem kinit_builds_pool:
  assumes fp: "free_pages s xs" and r: "kend s \<le> vstart" "KERNBASE < vstart" "vstart \<le> vend" "vend \<le> P2V PHYSTOP"
    and new: "\<forall>x \<in> set xs. x < vstart \<or> vend \<le> x"
  shows "\<exists>s'. kinit1 vstart vend s = Some s' \<and>
    free_pages s' (rev (pages_from (PGROUNDUP vstart) (whole_pages (PGROUNDUP vstart) vend)) @ xs)"
proof -
  define p where "p = PGROUNDUP vstart"
  define n where "n = whole_pages p vend"
  have ve: "unat vend \<le> 2382364672" using r(4) by (simp add: word_nat P2V_def)
  then have "unat (vstart + 4095) = unat vstart + 4095"
    using r(3) by (subst unat_add_nowrap) (simp_all add: word_nat)
  moreover have down: "PGROUNDUP vstart = PGROUNDDOWN (vstart + 4095)"
    by (simp add: PGROUNDUP_def PGROUNDDOWN_def add.commute)
  ultimately have up: "unat p = (unat vstart + 4095) div 4096 * 4096" by (simp add: p_def unat_rounddown)
  have lo: "unat vstart \<le> unat p" "unat p \<le> unat vstart + 4095"
    using dividend_less_div_times [of 4096 "unat vstart + 4095"] div_times_less_eq_dividend [of "unat vstart + 4095" 4096]
    by (simp_all add: up)
  have al: "aligned p" by (simp add: p_def down)
  have n: "n = 0 \<or> unat p + 4096 * n \<le> unat vend"
    using div_times_less_eq_dividend [of "unat vend - unat p" 4096] by (auto simp: n_def)
  have small: "unat p + 4096 * n < 4294967296" using n lo ve r(3) by (auto simp: word_nat)
  have ok: "page_ok s v \<and> v \<notin> set xs" if "v \<in> set (pages_from p n)" for v
  proof -
    note v = pages_from_range [OF small al that]
    have "n \<noteq> 0" using that by (cases n) auto
    then have "unat vstart \<le> unat v" "unat v < unat vend" using v n lo by (auto simp: word_nat)
    then have b: "vstart \<le> v" "v < vend" by (simp_all add: word_nat)
    moreover have "V2P v < PHYSTOP"
      using b(1) r(2) \<open>unat v < unat vend\<close> ve unat_sub_le [of KERNBASE v] by (simp add: V2P_def word_nat)
    ultimately show ?thesis using new r(1,2) v unfolding page_ok_def by (auto simp: not_less)
  qed
  have fp0: "free_pages (s\<lparr>use_lock := False\<rparr>) xs" using fp by (rule free_pages_cong) simp_all
  have "\<exists>s'. kfree_each (pages_from p n) (s\<lparr>use_lock := False\<rparr>) = Some s' \<and> free_pages s' (rev (pages_from p n) @ xs)"
    by (rule km.release_list [OF fp0 pages_from_distinct [OF small al]])
      (use ok in \<open>simp_all add: page_ok_def\<close>)
  moreover have "kinit1 vstart vend s = kfree_each (pages_from p n) (s\<lparr>use_lock := False\<rparr>)"
    using freerange_loop_each [of p vend] lo ve r(3)
    by (simp add: kinit1_def freerange_def p_def [symmetric] n_def word_nat)
  ultimately show ?thesis by (simp add: p_def n_def)
qed

theorem kinit_builds_pool_witness:
  "\<exists>s'. kinit1 0x80200001 0x80202000 sample_vm = Some s' \<and>
    free_pages s' (rev (pages_from (PGROUNDUP 0x80200001) (whole_pages (PGROUNDUP 0x80200001) 0x80202000)) @
      [0x80102000, 0x80103000])"
proof -
  have "free_pages sample_vm [0x80102000, 0x80103000]" using sample_space by (simp add: space_def tables_def)
  then show ?thesis
    by (rule kinit_builds_pool) (simp_all add: P2V_def, simp add: sample_vm_def)
qed

subsection \<open>Copying overlapping ranges\<close>

lemma copy_up_spec:
  assumes "unat d + n \<le> 4294967296" "unat p + n \<le> 4294967296" "unat d \<le> unat p \<or> unat p + n \<le> unat d"
  shows "mem (copy_up d p n s) x =
    (if unat d \<le> unat x \<and> unat x < unat d + n then mem s (p + (x - d)) else mem s x)"
  using assms
proof (induction n arbitrary: d p s)
  case (Suc n)
  show ?case
  proof (cases n)
    case 0
    have "unat d \<le> unat x \<and> unat x < unat d + Suc 0 \<longleftrightarrow> x = d" by (auto simp: word_unat_eq_iff)
    then show ?thesis using 0 by simp
  next
    case Suc': (Suc m)
    have d: "unat (d + 1) = unat d + 1" and p: "unat (p + 1) = unat p + 1"
      using Suc.prems Suc' by (subst unat_add_nowrap; simp)+
    let ?s = "s\<lparr>mem := (mem s)(d := mem s p)\<rparr>"
    have IH: "mem (copy_up (d + 1) (p + 1) n ?s) x =
      (if unat (d + 1) \<le> unat x \<and> unat x < unat (d + 1) + n then mem ?s (p + 1 + (x - (d + 1))) else mem ?s x)"
      by (rule Suc.IH) (use Suc.prems d p in auto)
    have "p + 1 + (x - (d + 1)) = p + (x - d)" by simp
    moreover have "p + (x - d) \<noteq> d" if "unat d + 1 \<le> unat x" "unat x < unat d + Suc n"
    proof
      assume e: "p + (x - d) = d"
      have "unat (x - d) = unat x - unat d" using that by (intro unat_sub_le) (simp add: word_nat)
      then have "unat (p + (x - d)) = unat p + (unat x - unat d)"
        using Suc.prems(2) that by (subst unat_add_nowrap) auto
      then show False using e Suc.prems(3) that by auto
    qed
    moreover have "x = d \<longleftrightarrow> unat x = unat d" by (simp add: word_unat_eq_iff)
    ultimately show ?thesis using IH d by auto
  qed
qed auto

lemma copy_down_spec:
  assumes "n \<le> unat d" "n \<le> unat p" "unat p \<le> unat d"
  shows "mem (copy_down d p n s) x =
    (if unat d \<le> unat x + n \<and> unat x < unat d then mem s (p + (x - d)) else mem s x)"
  using assms
proof (induction n arbitrary: d p s)
  case (Suc n)
  have d: "unat (d - 1) = unat d - 1" and p: "unat (p - 1) = unat p - 1"
    using Suc.prems unat_sub_le [of 1 d] unat_sub_le [of 1 p] by (simp_all add: word_nat)
  let ?s = "s\<lparr>mem := (mem s)(d - 1 := mem s (p - 1))\<rparr>"
  have IH: "mem (copy_down (d - 1) (p - 1) n ?s) x =
    (if unat (d - 1) \<le> unat x + n \<and> unat x < unat (d - 1) then mem ?s (p - 1 + (x - (d - 1))) else mem ?s x)"
    by (rule Suc.IH) (use Suc.prems d p in auto)
  have e: "p - 1 + (x - (d - 1)) = p + (x - d)" by simp
  have ne: "p + (x - d) \<noteq> d - 1" if "unat d \<le> unat x + Suc n" "unat x < unat d - 1"
  proof
    assume eq: "p + (x - d) = d - 1"
    have "unat (d - x) = unat d - unat x" using that by (intro unat_sub_le) (simp add: word_nat)
    moreover have "p + (x - d) = p - (d - x)" by simp
    moreover have "d - x \<le> p" using calculation(1) that Suc.prems by (simp add: word_nat)
    ultimately have "unat (p + (x - d)) = unat p - (unat d - unat x)" using unat_sub_le [of "d - x" p] by metis
    then show False using eq d that Suc.prems by simp
  qed
  have x: "x = d - 1 \<longleftrightarrow> unat x = unat d - 1" using d by (simp add: word_unat_eq_iff)
  consider "x = d - 1" | "unat x < unat d - 1" | "unat d \<le> unat x" using x by linarith
  then show ?case
  proof cases
    case 1
    then show ?thesis using IH d Suc.prems by simp
  next
    case 2
    then show ?thesis using IH d e ne x Suc.prems by auto
  next
    case 3
    then show ?thesis using IH d x Suc.prems by auto
  qed
qed auto

text \<open>
  \<^verbatim>\<open>memmove\<close> copies as if all bytes were read before any is written, for source and destination
  ranges that end below the top of the address space, however they overlap.
\<close>

theorem memmove_simultaneous:
  assumes "unat dst + unat n < 4294967296" "unat src + unat n < 4294967296"
  shows "mem (memmove dst src n s) x =
    (if unat dst \<le> unat x \<and> unat x < unat dst + unat n then mem s (src + (x - dst)) else mem s x)"
proof -
  have us: "unat (src + n) = unat src + unat n" and ud: "unat (dst + n) = unat dst + unat n"
    using assms by (auto intro!: unat_add_nowrap)
  have e: "src + n + (x - (dst + n)) = src + (x - dst)" by simp
  show ?thesis
  proof (cases "src < dst \<and> src + n > dst")
    case True
    then have "memmove dst src n s = copy_down (dst + n) (src + n) (unat n) s" by (simp add: memmove_def)
    then show ?thesis using True by (simp add: copy_down_spec us ud word_nat e)
  next
    case False
    then have "memmove dst src n s = copy_up dst src (unat n) s" by (auto simp: memmove_def)
    moreover have "unat dst \<le> unat src \<or> unat src + unat n \<le> unat dst" using False us by (auto simp: word_nat)
    ultimately show ?thesis using assms by (simp add: copy_up_spec)
  qed
qed

theorem memmove_simultaneous_witness:
  "mem (memmove 0x1001 0x1000 4 sample_vm) 0x1003 = mem sample_vm 0x1002"
  using memmove_simultaneous [of "0x1001" 4 "0x1000" sample_vm "0x1003"] by simp

end
