(* ===== verification/Xv6_Pipe.thy ===== *)
theory Xv6_Pipe
  imports Prelude
begin

text \<open>
  Pipes, \<^verbatim>\<open>pipe.c\<close>: a ring buffer of 512 bytes with two 32-bit counters that are never reset.  Each
  operation is modelled from taking the pipe's lock to releasing it: a call that has to wait gives
  \<open>PSleep\<close> with what is left to do, and is run again on the pipe it finds when it wakes up.  The
  channels passed to \<^verbatim>\<open>wakeup\<close> are part of every result.
\<close>

abbreviation "PIPESIZE \<equiv> (512 :: nat)"

record pipe =
  pdata :: "u8 list"
  nread :: u32
  nwrite :: u32
  readopen :: bool
  writeopen :: bool

datatype chan = ChanRead | ChanWrite

text \<open>The new pipe of \<^verbatim>\<open>pipealloc\<close>; the bytes of its buffer are those of the page it was given.\<close>

definition new_pipe :: "u8 list \<Rightarrow> pipe" where
  "new_pipe bytes = \<lparr>pdata = bytes, nread = 0, nwrite = 0, readopen = True, writeopen = True\<rparr>"

text \<open>The result says whether both ends are closed, so that the page of the pipe is freed.\<close>

definition pipeclose :: "bool \<Rightarrow> pipe \<Rightarrow> pipe \<times> chan list \<times> bool" where
  "pipeclose writable p =
     (let (p, ws) = (if writable then (p\<lparr>writeopen := False\<rparr>, [ChanRead])
                     else (p\<lparr>readopen := False\<rparr>, [ChanWrite])) in
      (p, ws, \<not> readopen p \<and> \<not> writeopen p))"

subsection \<open>Writing\<close>

datatype wresult = WSleep pipe "u8 list" "chan list" | WFail pipe | WDone pipe "chan list"

definition pipe_full :: "pipe \<Rightarrow> bool" where
  "pipe_full p \<longleftrightarrow> nwrite p = nread p + 512"

definition put_byte :: "u8 \<Rightarrow> pipe \<Rightarrow> pipe" where
  "put_byte c p = p\<lparr>pdata := (pdata p)[unat (nwrite p) mod PIPESIZE := c], nwrite := nwrite p + 1\<rparr>"

fun pipewrite :: "bool \<Rightarrow> u8 list \<Rightarrow> pipe \<Rightarrow> wresult" where
  "pipewrite killed [] p = WDone p [ChanRead]"
| "pipewrite killed (c # cs) p =
     (if pipe_full p then
        (if \<not> readopen p \<or> killed then WFail p else WSleep p (c # cs) [ChanRead])
      else pipewrite killed cs (put_byte c p))"

subsection \<open>Reading\<close>

datatype rresult = RSleep | RFail | RDone "u8 list" pipe "chan list"

fun pipe_copy :: "nat \<Rightarrow> pipe \<Rightarrow> u8 list \<times> pipe" where
  "pipe_copy 0 p = ([], p)"
| "pipe_copy (Suc n) p =
     (if nread p = nwrite p then ([], p)
      else case pipe_copy n (p\<lparr>nread := nread p + 1\<rparr>) of (bs, p') \<Rightarrow>
        (pdata p ! (unat (nread p) mod PIPESIZE) # bs, p'))"

definition piperead :: "bool \<Rightarrow> nat \<Rightarrow> pipe \<Rightarrow> rresult" where
  "piperead killed n p =
     (if nread p = nwrite p \<and> writeopen p then (if killed then RFail else RSleep)
      else case pipe_copy n p of (bs, p') \<Rightarrow> RDone bs p' [ChanWrite])"

subsection \<open>The ring buffer is a queue\<close>

definition pipe_wf :: "pipe \<Rightarrow> bool" where
  "pipe_wf p \<longleftrightarrow> length (pdata p) = PIPESIZE \<and> unat (nwrite p - nread p) \<le> PIPESIZE"

definition pqueue :: "pipe \<Rightarrow> u8 list" where
  "pqueue p = map (\<lambda>i. pdata p ! (unat (nread p + word_of_nat i) mod PIPESIZE)) [0..<unat (nwrite p - nread p)]"

text \<open>A bounded queue of bytes: what a pipe promises to its readers and writers.\<close>

locale bounded_queue =
  fixes wf :: "'q \<Rightarrow> bool" and items :: "'q \<Rightarrow> 'a list" and cap :: nat
    and full :: "'q \<Rightarrow> bool" and empty :: "'q \<Rightarrow> bool"
    and put :: "'a \<Rightarrow> 'q \<Rightarrow> 'q" and front :: "'q \<Rightarrow> 'a" and drop_front :: "'q \<Rightarrow> 'q"
  assumes full_iff: "wf q \<Longrightarrow> full q \<longleftrightarrow> length (items q) = cap"
    and len: "wf q \<Longrightarrow> length (items q) \<le> cap"
    and empty_iff: "wf q \<Longrightarrow> empty q \<longleftrightarrow> items q = []"
    and put: "wf q \<Longrightarrow> \<not> full q \<Longrightarrow> wf (put x q) \<and> items (put x q) = items q @ [x]"
    and get: "wf q \<Longrightarrow> \<not> empty q \<Longrightarrow> wf (drop_front q) \<and> items q = front q # items (drop_front q)"
begin

lemma put_get_order: "wf q \<Longrightarrow> \<not> full q \<Longrightarrow> \<not> empty q \<Longrightarrow> front (put x q) = front q"
  using put [of q x] get [of q] get [of "put x q"] empty_iff [of "put x q"] by fastforce

text \<open>A writer that stores items until the queue is full or it has none left.\<close>

lemma store_run:
  assumes "wf q" and
    run: "\<And>q. f [] q = (q, [])" "\<And>x xs q. f (x # xs) q = (if full q then (q, x # xs) else f xs (put x q))"
  shows "case f xs q of (q', rest) \<Rightarrow>
    wf q' \<and> (\<exists>done. xs = done @ rest \<and> items q' = items q @ done) \<and> (rest = [] \<or> full q')"
  using assms(1)
proof (induction xs arbitrary: q)
  case (Cons x xs)
  show ?case
  proof (cases "full q")
    case False
    then have w: "wf (put x q)" "items (put x q) = items q @ [x]" using put Cons.prems by auto
    obtain q' rest where f: "f xs (put x q) = (q', rest)" by (cases "f xs (put x q)")
    have "wf q' \<and> (\<exists>done. xs = done @ rest \<and> items q' = items (put x q) @ done) \<and> (rest = [] \<or> full q')"
      using Cons.IH [OF w(1)] f by simp
    then show ?thesis using False f w(2) by (auto simp: run)
  qed (use Cons.prems in \<open>auto simp: run\<close>)
qed (auto simp: run assms)

text \<open>A reader that takes at most a number of items.\<close>

lemma take_run:
  assumes "wf q" and
    run: "\<And>q. g 0 q = ([], q)"
      "\<And>n q. g (Suc n) q = (if empty q then ([], q) else case g n (drop_front q) of (bs, q') \<Rightarrow> (front q # bs, q'))"
  shows "case g n q of (bs, q') \<Rightarrow> wf q' \<and> bs = take n (items q) \<and> items q' = drop n (items q)"
  using assms(1)
proof (induction n arbitrary: q)
  case (Suc n)
  show ?case
  proof (cases "empty q")
    case True
    then show ?thesis using Suc.prems empty_iff by (simp add: run)
  next
    case False
    then have w: "wf (drop_front q)" "items q = front q # items (drop_front q)" using get Suc.prems by auto
    obtain bs q' where g: "g n (drop_front q) = (bs, q')" by (cases "g n (drop_front q)")
    then show ?thesis using Suc.IH [OF w(1)] w False by (simp add: run)
  qed
qed (simp add: run)

end

lemma counter_mod: "unat (a + word_of_nat i :: u32) mod 512 = (unat a + i) mod 512"
proof -
  have "unat (a + word_of_nat i :: u32) = (unat a + i) mod 4294967296"
    by (simp add: unat_word_ariths unat_of_nat take_bit_eq_mod mod_simps)
  then show ?thesis by (simp add: mod_mod_cancel)
qed

lemma slots_distinct:
  assumes "i < 512" "j < 512"
  shows "(n + i) mod 512 = (n + j) mod (512 :: nat) \<longleftrightarrow> i = j"
proof
  assume "(n + i) mod 512 = (n + j) mod 512"
  then obtain q1 q2 where "n + i + 512 * q1 = n + j + 512 * q2" by (auto simp: nat_mod_eq_iff)
  then have "(i + 512 * q1) mod 512 = (j + 512 * q2) mod 512" by simp
  then show "i = j" using assms by simp
qed simp

lemma pipe_put:
  assumes "pipe_wf p" "\<not> pipe_full p"
  shows "pipe_wf (put_byte c p) \<and> pqueue (put_byte c p) = pqueue p @ [c]"
proof -
  define k where "k = unat (nwrite p - nread p)"
  have k: "k \<le> 512" "length (pdata p) = 512" using assms(1) by (simp_all add: pipe_wf_def k_def)
  have nw: "nwrite p = nread p + word_of_nat k" by (simp add: k_def)
  have "k \<noteq> 512" using assms(2) by (auto simp: pipe_full_def nw)
  then have lt: "k < 512" using k by simp
  have nx: "nwrite p + 1 - nread p = word_of_nat (Suc k)" by (simp add: nw)
  have sz: "unat (nwrite p + 1 - nread p) = Suc k" unfolding nx using lt by (intro unat_of_nat_lt) simp
  have keep: "(pdata p)[unat (nwrite p) mod 512 := c] ! (unat (nread p + word_of_nat i) mod 512) =
      (if i = k then c else pdata p ! (unat (nread p + word_of_nat i) mod 512))" if "i \<le> k" for i
    using slots_distinct [of i k "unat (nread p)"] that lt k by (auto simp: nw counter_mod nth_list_update)
  have "pqueue (put_byte c p) = map (\<lambda>i. if i = k then c else pdata p ! (unat (nread p + word_of_nat i) mod 512)) [0..<Suc k]"
    unfolding pqueue_def put_byte_def using sz keep by (auto intro!: map_cong simp: less_Suc_eq_le simp del: upt_Suc)
  also have "\<dots> = pqueue p @ [c]" by (simp add: pqueue_def k_def [symmetric])
  finally show ?thesis using k lt sz by (simp add: pipe_wf_def put_byte_def)
qed

lemma pipe_get:
  assumes "pipe_wf p" "nread p \<noteq> nwrite p"
  shows "pipe_wf (p\<lparr>nread := nread p + 1\<rparr>) \<and>
    pqueue p = pdata p ! (unat (nread p) mod PIPESIZE) # pqueue (p\<lparr>nread := nread p + 1\<rparr>)"
proof -
  define k where "k = unat (nwrite p - nread p)"
  have "k \<noteq> 0" using assms(2) by (simp add: k_def unat_eq_0)
  then obtain j where j: "k = Suc j" by (cases k) auto
  have "k \<le> 512" using assms(1) by (simp add: pipe_wf_def k_def)
  have nw: "nwrite p = nread p + word_of_nat k" by (simp add: k_def)
  have nx: "nwrite p - (nread p + 1) = word_of_nat j" by (simp add: nw j)
  have sz: "unat (nwrite p - (nread p + 1)) = j" unfolding nx using j \<open>k \<le> 512\<close> by (intro unat_of_nat_lt) simp
  have "pqueue p = map (\<lambda>i. pdata p ! (unat (nread p + word_of_nat i) mod 512)) [0..<Suc j]"
    by (simp add: pqueue_def k_def [symmetric] j)
  also have "\<dots> = pdata p ! (unat (nread p) mod 512) #
      map (\<lambda>i. pdata p ! (unat (nread p + 1 + word_of_nat i) mod 512)) [0..<j]"
    by (simp add: upt_conv_Cons map_Suc_upt [symmetric] comp_def ac_simps del: upt_Suc)
  finally show ?thesis using sz j \<open>k \<le> 512\<close> assms(1) by (simp add: pqueue_def pipe_wf_def)
qed

interpretation pq: bounded_queue pipe_wf pqueue PIPESIZE pipe_full "\<lambda>p. nread p = nwrite p" put_byte
  "\<lambda>p. pdata p ! (unat (nread p) mod PIPESIZE)" "\<lambda>p. p\<lparr>nread := nread p + 1\<rparr>"
proof
  fix p c
  assume wf: "pipe_wf p"
  then show "length (pqueue p) \<le> PIPESIZE" by (simp add: pqueue_def pipe_wf_def)
  show "(nread p = nwrite p) = (pqueue p = [])" by (auto simp: pqueue_def unat_eq_0)
  show "pipe_full p \<longleftrightarrow> length (pqueue p) = PIPESIZE"
  proof
    assume "pipe_full p"
    then show "length (pqueue p) = PIPESIZE" by (simp add: pipe_full_def pqueue_def)
  next
    assume "length (pqueue p) = PIPESIZE"
    then have "unat (nwrite p - nread p) = 512" by (simp add: pqueue_def)
    then have "nwrite p - nread p = 512" by (simp add: word_unat_eq_iff)
    then show "pipe_full p" by (simp add: pipe_full_def diff_eq_eq add.commute)
  qed
  show "\<not> pipe_full p \<Longrightarrow> pipe_wf (put_byte c p) \<and> pqueue (put_byte c p) = pqueue p @ [c]" by (rule pipe_put [OF wf])
  show "nread p \<noteq> nwrite p \<Longrightarrow> pipe_wf (p\<lparr>nread := nread p + 1\<rparr>) \<and>
      pqueue p = pdata p ! (unat (nread p) mod PIPESIZE) # pqueue (p\<lparr>nread := nread p + 1\<rparr>)" by (rule pipe_get [OF wf])
qed

subsection \<open>Calls on a pipe\<close>

text \<open>The bytes a writer stores before it returns or waits, with those left over.\<close>

fun fill :: "u8 list \<Rightarrow> pipe \<Rightarrow> pipe \<times> u8 list" where
  "fill [] p = (p, [])"
| "fill (c # cs) p = (if pipe_full p then (p, c # cs) else fill cs (put_byte c p))"

lemma pipewrite_fill:
  "pipewrite killed cs p = (case fill cs p of (p', rest) \<Rightarrow>
     if rest = [] then WDone p' [ChanRead]
     else if \<not> readopen p \<or> killed then WFail p' else WSleep p' rest [ChanRead])"
  by (induction cs arbitrary: p) (auto simp: put_byte_def split: prod.splits)

lemma fill_frame: "fill cs p = (p', rest) \<Longrightarrow>
   nread p' = nread p \<and> readopen p' = readopen p \<and> writeopen p' = writeopen p \<and>
   nwrite p' = nwrite p + word_of_nat (length cs - length rest) \<and> length rest \<le> length cs"
proof (induction cs arbitrary: p)
  case (Cons c cs)
  show ?case
  proof (cases "pipe_full p")
    case False
    then have "fill cs (put_byte c p) = (p', rest)" using Cons.prems by simp
    from Cons.IH [OF this] show ?thesis by (simp add: put_byte_def Suc_diff_le)
  qed (use Cons.prems in auto)
qed auto

lemma fill_spec:
  assumes "pipe_wf p" "fill cs p = (p', rest)"
  shows "pipe_wf p'" "pqueue p' = pqueue p @ take (length cs - length rest) cs" "rest = [] \<or> pipe_full p'"
proof -
  have "pipe_wf p' \<and> (\<exists>done. cs = done @ rest \<and> pqueue p' = pqueue p @ done) \<and> (rest = [] \<or> pipe_full p')"
    using pq.store_run [of p fill cs] assms by simp
  then show "pipe_wf p'" "pqueue p' = pqueue p @ take (length cs - length rest) cs" "rest = [] \<or> pipe_full p'"
    by auto
qed

text \<open>How many bytes a call stored, read off the counter.\<close>

abbreviation stored :: "pipe \<Rightarrow> pipe \<Rightarrow> nat" where "stored p p' \<equiv> unat (nwrite p' - nwrite p)"

lemma fill_stored:
  assumes "pipe_wf p" "fill cs p = (p', rest)"
  shows "stored p p' = length cs - length rest"
proof -
  note q = fill_spec [OF assms]
  have "length (pqueue p') \<le> 512" using pq.len [OF q(1)] .
  then have "length cs - length rest \<le> 512" using q(2) by simp
  moreover have "nwrite p' - nwrite p = word_of_nat (length cs - length rest)"
    using fill_frame [OF assms(2)] by simp
  ultimately show ?thesis by (simp only: unat_of_nat_lt) (subst unat_of_nat_lt, simp_all)
qed

text \<open>
  The state of a pipe with the bytes stored in it and the bytes taken from it so far.  Each step is one
  critical section of a reader, a writer or a close, in any order.
\<close>

inductive pipe_step :: "pipe \<times> u8 list \<times> u8 list \<Rightarrow> pipe \<times> u8 list \<times> u8 list \<Rightarrow> bool" where
  step_wdone: "pipewrite killed cs p = WDone p' ws \<Longrightarrow> pipe_step (p, w, g) (p', w @ cs, g)"
| step_wsleep: "pipewrite killed cs p = WSleep p' rest ws \<Longrightarrow>
    pipe_step (p, w, g) (p', w @ take (length cs - length rest) cs, g)"
| step_wfail: "pipewrite killed cs p = WFail p' \<Longrightarrow> pipe_step (p, w, g) (p', w @ take (stored p p') cs, g)"
| step_read: "piperead killed n p = RDone bs p' ws \<Longrightarrow> pipe_step (p, w, g) (p', w, g @ bs)"
| step_close: "pipeclose writable p = (p', ws, freed) \<Longrightarrow> pipe_step (p, w, g) (p', w, g)"

inductive_cases pipe_stepE: "pipe_step (p, w, g) (p', w', g')"

lemma pipewrite_cases:
  assumes "pipe_wf p" "fill cs p = (p', rest)"
  shows "pipewrite killed cs p = WDone p1 ws \<Longrightarrow> p1 = p' \<and> rest = []"
    "pipewrite killed cs p = WSleep p1 rest1 ws \<Longrightarrow> p1 = p' \<and> rest1 = rest"
    "pipewrite killed cs p = WFail p1 \<Longrightarrow> p1 = p'"
  using assms by (auto simp: pipewrite_fill split: if_splits)

lemma piperead_spec:
  assumes "pipe_wf p" "piperead killed n p = RDone bs p' ws"
  shows "pipe_wf p'" "bs = take n (pqueue p)" "pqueue p' = drop n (pqueue p)"
proof -
  have "pipe_copy n p = (bs, p')"
    using assms(2) by (auto simp: piperead_def split: if_splits prod.splits)
  then show "pipe_wf p'" "bs = take n (pqueue p)" "pqueue p' = drop n (pqueue p)"
    using pq.take_run [of p pipe_copy n] assms(1) by simp_all
qed

lemma pipeclose_frame:
  "pipeclose writable p = (p', ws, freed) \<Longrightarrow> pipe_wf p' = pipe_wf p \<and> pqueue p' = pqueue p"
  by (auto simp: pipeclose_def Let_def pipe_wf_def pqueue_def split: if_splits)

lemma pipe_step_inv:
  assumes "pipe_step (p, w, g) (p', w', g')" "pipe_wf p" "w = g @ pqueue p"
  shows "pipe_wf p' \<and> w' = g' @ pqueue p'"
proof -
  have fills: "pipe_wf q \<and> w @ take (length cs - length rest) cs = g @ pqueue q" "stored p q = length cs - length rest"
    if "fill cs p = (q, rest)" for cs q rest
    using fill_spec [OF assms(2) that] fill_stored [OF assms(2) that] assms(3) by auto
  from assms(1) show ?thesis
  proof (rule pipe_stepE)
    fix killed cs ws assume s: "w' = w @ cs" "g' = g" "pipewrite killed cs p = WDone p' ws"
    obtain q rest where f: "fill cs p = (q, rest)" by (cases "fill cs p")
    from pipewrite_cases(1) [OF assms(2) f s(3)] fills(1) [OF f] show ?thesis using s by simp
  next
    fix killed cs rest ws
    assume s: "w' = w @ take (length cs - length rest) cs" "g' = g" "pipewrite killed cs p = WSleep p' rest ws"
    obtain q rest' where f: "fill cs p = (q, rest')" by (cases "fill cs p")
    from pipewrite_cases(2) [OF assms(2) f s(3)] fills(1) [OF f] show ?thesis using s by simp
  next
    fix killed cs assume s: "w' = w @ take (stored p p') cs" "g' = g" "pipewrite killed cs p = WFail p'"
    obtain q rest where f: "fill cs p = (q, rest)" by (cases "fill cs p")
    from pipewrite_cases(3) [OF assms(2) f s(3)] fills [OF f] show ?thesis using s by simp
  next
    fix killed n bs ws assume "w' = w" "g' = g @ bs" and r: "piperead killed n p = RDone bs p' ws"
    with piperead_spec [OF assms(2) r] show ?thesis using assms(3) by simp
  next
    fix writable ws freed assume "w' = w" "g' = g" and r: "pipeclose writable p = (p', ws, freed)"
    with pipeclose_frame [OF r] show ?thesis using assms(2,3) by simp
  qed
qed

text \<open>
  C7.  Whatever readers, writers and closes are interleaved on a new pipe, the buffer holds at most 512
  bytes, and the bytes taken so far followed by the bytes in the buffer are exactly the bytes
  stored, in order: none is lost, duplicated or reordered, also when the 32-bit counters wrap around.
\<close>

theorem pipe_fifo:
  assumes "pipe_step\<^sup>*\<^sup>* (new_pipe bytes, [], []) (p, w, g)" "length bytes = PIPESIZE"
  shows "pipe_wf p \<and> length (pqueue p) \<le> PIPESIZE \<and> w = g @ pqueue p"
proof -
  have "pipe_wf (fst c) \<and> fst (snd c) = snd (snd c) @ pqueue (fst c)"
    if "pipe_step\<^sup>*\<^sup>* (new_pipe bytes, [], []) c" for c
    using that
  proof (induction rule: rtranclp_induct)
    case base
    then show ?case using assms(2) by (simp add: new_pipe_def pipe_wf_def pqueue_def)
  next
    case (step c c')
    obtain p w g where c: "c = (p, w, g)" by (rule prod_cases3)
    obtain p' w' g' where c': "c' = (p', w', g')" by (rule prod_cases3)
    from pipe_step_inv [OF step.hyps(2) [unfolded c c']] step.IH show ?case by (simp add: c c')
  qed
  from this [OF assms(1)] show ?thesis using pq.len by auto
qed

theorem pipe_fifo_witness:
  "\<exists>p. pipe_step\<^sup>*\<^sup>* (new_pipe (replicate PIPESIZE 0), [], []) (p, [7, 8], [7]) \<and> pipe_wf p \<and> [7, 8] = [7] @ pqueue p"
proof -
  let ?p = "new_pipe (replicate PIPESIZE 0)"
  obtain p1 where p1: "p1 = put_byte 8 (put_byte 7 ?p)" by blast
  have "pipewrite False [7, 8] ?p = WDone p1 [ChanRead]"
    by (simp add: p1 pipe_full_def put_byte_def new_pipe_def)
  then have s1: "pipe_step (?p, [], []) (p1, [] @ [7, 8], [])" by (rule step_wdone)
  have "piperead False 1 p1 = RDone [7] (p1\<lparr>nread := 1\<rparr>) [ChanWrite]"
    by (simp add: p1 piperead_def put_byte_def new_pipe_def)
  then have "pipe_step (p1, [7, 8], []) (p1\<lparr>nread := 1\<rparr>, [7, 8], [] @ [7])" by (rule step_read)
  with s1 have run: "pipe_step\<^sup>*\<^sup>* (?p, [], []) (p1\<lparr>nread := 1\<rparr>, [7, 8], [7])"
    by (simp add: rtranclp.rtrancl_into_rtrancl r_into_rtranclp)
  from pipe_fifo [OF this] run show ?thesis by auto
qed

text \<open>
  A writer that has been killed can leave a full pipe without waking the readers: when a reader
  waits on an empty pipe and a killed process writes more than 512 bytes, \<^verbatim>\<open>pipewrite\<close> stores 512 bytes
  and returns -1 without a call of \<^verbatim>\<open>wakeup\<close>.
\<close>

theorem pipewrite_killed_no_wakeup:
  assumes "pipe_wf p" "piperead False n p = RSleep" "length cs > PIPESIZE"
  shows "\<exists>p'. pipewrite True cs p = WFail p' \<and> pqueue p' = take PIPESIZE cs \<and> length (pqueue p') = PIPESIZE"
proof -
  obtain p' rest where f: "fill cs p = (p', rest)" by (cases "fill cs p")
  have "nread p = nwrite p" using assms(2) by (auto simp: piperead_def split: if_splits prod.splits)
  then have e: "pqueue p = []" by (simp add: pqueue_def)
  note wf = fill_spec(1) [OF assms(1) f] and q = fill_spec(2,3) [OF assms(1) f]
  have le: "length cs - length rest \<le> 512" using q(1) e pq.len [OF wf] by simp
  then have ne: "rest \<noteq> []" using assms(3) by auto
  then have "length (pqueue p') = PIPESIZE" using q(2) pq.full_iff [OF wf] by simp
  then have "pqueue p' = take PIPESIZE cs" using q(1) e le by simp
  moreover have "pipewrite True cs p = WFail p'" using f ne by (simp add: pipewrite_fill)
  ultimately show ?thesis using \<open>length (pqueue p') = PIPESIZE\<close> by blast
qed

theorem pipewrite_killed_no_wakeup_witness:
  "\<exists>p'. pipewrite True (replicate 513 1) (new_pipe (replicate PIPESIZE 0)) = WFail p' \<and> length (pqueue p') = PIPESIZE"
proof -
  have "pipe_wf (new_pipe (replicate PIPESIZE 0))" by (simp add: pipe_wf_def new_pipe_def)
  moreover have "piperead False 1 (new_pipe (replicate PIPESIZE 0)) = RSleep" by (simp add: piperead_def new_pipe_def)
  ultimately show ?thesis using pipewrite_killed_no_wakeup [of _ 1 "replicate 513 1"] by fastforce
qed

end
