(* ===== verification/Xv6_Syscalls.thy ===== *)
theory Xv6_Syscalls
  imports Xv6_Inodes Xv6_Pipe Xv6_VM
begin

text \<open>
  The file system calls of the continuous-sector kernel: fetching arguments from user memory
  (\<^verbatim>\<open>syscall.c\<close>), the open file table (\<^verbatim>\<open>file.c\<close>), the calls themselves (\<^verbatim>\<open>sysfile.c\<close>) and the
  formatted printing of \<^verbatim>\<open>console.c\<close> that \<^verbatim>\<open>printinfo\<close> uses.

  The state of the kernel is the file system, the open file table, the page allocator and the pipes,
  addressed by the page they live in.  The calling process has its memory, its file descriptors and
  its current directory.  \<open>None\<close> is a \<^verbatim>\<open>panic\<close>, or a call that does not return before another process
  acts: a lock that is held, a full log, an empty or full pipe.
\<close>

abbreviation "NOFILE \<equiv> (16 :: nat)"

datatype fd_type = FD_NONE | FD_PIPE | FD_INODE

record file_entry =
  ftype :: fd_type
  fref :: int
  readable :: bool
  writable :: bool
  fpipe :: u32
  fip :: nat
  foff :: u32
  fname :: "u8 list"

record kern =
  fs :: fsys
  ftable :: "file_entry list"
  kvm :: vmem
  pipes :: "u32 \<Rightarrow> pipe"
  wakes :: "(u32 \<times> chan) list"

record task =
  tsz :: u32
  tesp :: u32
  umem :: "u32 \<Rightarrow> u8"
  ofile :: "nat option list"
  cwd :: nat
  tkilled :: bool

subsection \<open>System call arguments\<close>

text \<open>\<open>None\<close> is the result -1.\<close>

definition fetchint :: "u32 \<Rightarrow> task \<Rightarrow> u32 option" where
  "fetchint addr t =
     (if addr \<ge> tsz t \<or> addr + 4 > tsz t then None
      else Some (of_le32 (umem t addr) (umem t (addr + 1)) (umem t (addr + 2)) (umem t (addr + 3))))"

function fetchstr_loop :: "u32 \<Rightarrow> task \<Rightarrow> u8 list option" where
  "fetchstr_loop a t =
     (if a < tsz t then
        (if umem t a = 0 then Some []
         else map_option (\<lambda>s. umem t a # s) (fetchstr_loop (a + 1) t))
      else None)"
  by pat_completeness auto
termination
proof (relation "measure (\<lambda>(a, t). 4294967296 - unat a)")
  fix a :: u32 and t :: task
  assume "a < tsz t" "umem t a \<noteq> 0"
  then have "unat a < 4294967295" using unsigned_less [of "tsz t", where 'a = nat] by (simp add: word_nat)
  then have "unat (a + 1) = unat a + 1" by (subst unat_add_nowrap) simp_all
  then show "((a + 1, t), (a, t)) \<in> measure (\<lambda>(a, t). 4294967296 - unat a)" using \<open>unat a < 4294967295\<close> by simp
qed simp

declare fetchstr_loop.simps [simp del]

definition fetchstr :: "u32 \<Rightarrow> task \<Rightarrow> u8 list option" where
  "fetchstr addr t = (if addr \<ge> tsz t then None else fetchstr_loop addr t)"

definition argint :: "u32 \<Rightarrow> task \<Rightarrow> u32 option" where
  "argint n t = fetchint (tesp t + 4 + 4 * n) t"

definition argptr :: "u32 \<Rightarrow> int \<Rightarrow> task \<Rightarrow> u32 option" where
  "argptr n sz t = do {
     i \<leftarrow> argint n t;
     if sz < 0 \<or> i \<ge> tsz t \<or> i + word_of_int sz > tsz t then None else Some i
   }"

definition argstr :: "u32 \<Rightarrow> task \<Rightarrow> u8 list option" where
  "argstr n t = do { addr \<leftarrow> argint n t; fetchstr addr t }"

definition argfd :: "u32 \<Rightarrow> task \<Rightarrow> (nat \<times> nat) option" where
  "argfd n t = do {
     fd \<leftarrow> argint n t;
     if sint fd < 0 \<or> sint fd \<ge> int NOFILE then None
     else do { f \<leftarrow> ofile t ! nat (sint fd); Some (nat (sint fd), f) }
   }"

text \<open>Storing bytes into user memory.\<close>

fun poke :: "u32 \<Rightarrow> u8 list \<Rightarrow> task \<Rightarrow> task" where
  "poke a [] t = t"
| "poke a (b # bs) t = poke (a + 1) bs (t\<lparr>umem := (umem t)(a := b)\<rparr>)"

definition peek :: "u32 \<Rightarrow> nat \<Rightarrow> task \<Rightarrow> u8 list" where
  "peek a n t = map (\<lambda>i. umem t (a + word_of_nat i)) [0..<n]"

subsection \<open>Printing\<close>

function digits_of :: "nat \<Rightarrow> nat \<Rightarrow> string" where
  "digits_of base x = (if base < 2 then [] else
     (if x div base = 0 then [] else digits_of base (x div base)) @ [''0123456789abcdef'' ! (x mod base)])"
  by pat_completeness auto
termination
  by (relation "measure snd") (auto simp: div_greater_zero_iff intro: div_less_dividend)

declare digits_of.simps [simp del]

definition printint :: "u32 \<Rightarrow> nat \<Rightarrow> bool \<Rightarrow> string" where
  "printint xx base sg =
     (if sg \<and> sint xx < 0 then CHR ''-'' # digits_of base (unat (- xx)) else digits_of base (unat xx))"

datatype parg = PInt u32 | PStr "string option"

text \<open>\<open>None\<close> when the arguments do not match the format, where C reads other words of the stack.\<close>

fun cformat :: "string \<Rightarrow> parg list \<Rightarrow> string option" where
  "cformat [] args = Some []"
| "cformat [c] args = (if c = CHR ''%'' then Some [] else Some [c])"
| "cformat (c # d # rest) args =
     (if c \<noteq> CHR ''%'' then map_option (\<lambda>s. c # s) (cformat (d # rest) args)
      else if d = CHR ''d'' then
        (case args of PInt x # args \<Rightarrow> map_option ((@) (printint x 10 True)) (cformat rest args) | _ \<Rightarrow> None)
      else if d = CHR ''x'' \<or> d = CHR ''p'' then
        (case args of PInt x # args \<Rightarrow> map_option ((@) (printint x 16 False)) (cformat rest args) | _ \<Rightarrow> None)
      else if d = CHR ''s'' then
        (case args of PStr p # args \<Rightarrow>
           map_option ((@) (case p of None \<Rightarrow> ''(null)'' | Some s \<Rightarrow> s)) (cformat rest args) | _ \<Rightarrow> None)
      else if d = CHR ''%'' then map_option (\<lambda>s. CHR ''%'' # s) (cformat rest args)
      else map_option (\<lambda>s. CHR ''%'' # d # s) (cformat rest args))"

definition cprint :: "string \<Rightarrow> parg list \<Rightarrow> fsys \<Rightarrow> fsys option" where
  "cprint fmt args st = do { s \<leftarrow> cformat fmt args; Some (cprintf s st) }"

subsection \<open>The open file table\<close>

definition set_file :: "kern \<Rightarrow> nat \<Rightarrow> file_entry \<Rightarrow> kern" where
  "set_file k i f = k\<lparr>ftable := (ftable k)[i := f]\<rparr>"

definition filealloc :: "kern \<Rightarrow> nat option \<times> kern" where
  "filealloc k =
     (case find (\<lambda>i. fref (ftable k ! i) = 0) [0..<length (ftable k)] of
        None \<Rightarrow> (None, k)
      | Some i \<Rightarrow> (Some i, set_file k i ((ftable k ! i)\<lparr>fref := 1, fname := []\<rparr>)))"

definition filedup :: "kern \<Rightarrow> nat \<Rightarrow> kern option" where
  "filedup k i =
     (if fref (ftable k ! i) < 1 then None
      else Some (set_file k i ((ftable k ! i)\<lparr>fref := fref (ftable k ! i) + 1\<rparr>)))"

definition op_begin :: "kern \<Rightarrow> kern option" where
  "op_begin k = (case begin_op (fs k) of Sleeps \<Rightarrow> None | Goes st \<Rightarrow> Some (k\<lparr>fs := st\<rparr>))"

definition op_end :: "kern \<Rightarrow> kern option" where
  "op_end k = do { st \<leftarrow> end_op (fs k); Some (k\<lparr>fs := st\<rparr>) }"

definition pipe_close :: "kern \<Rightarrow> u32 \<Rightarrow> bool \<Rightarrow> kern option" where
  "pipe_close k a wr =
     (case pipeclose wr (pipes k a) of (p, ws, both) \<Rightarrow>
        let k = k\<lparr>pipes := (pipes k)(a := p), wakes := wakes k @ map (Pair a) ws\<rparr> in
        if both then do { vm \<leftarrow> kfree a (kvm k); Some (k\<lparr>kvm := vm\<rparr>) } else Some k)"

definition fileclose :: "kern \<Rightarrow> nat \<Rightarrow> kern option" where
  "fileclose k i =
     (let f = ftable k ! i in
      if fref f < 1 then None
      else if fref f - 1 > 0 then Some (set_file k i (f\<lparr>fref := fref f - 1\<rparr>))
      else let k = set_file k i (f\<lparr>fref := 0, ftype := FD_NONE\<rparr>) in
        case ftype f of
          FD_PIPE \<Rightarrow> pipe_close k (fpipe f) (writable f)
        | FD_INODE \<Rightarrow> do {
            k \<leftarrow> op_begin k;
            st \<leftarrow> iput (fs k) (fip f);
            op_end (k\<lparr>fs := st\<rparr>)
          }
        | FD_NONE \<Rightarrow> Some k)"

definition filestat :: "kern \<Rightarrow> nat \<Rightarrow> (stat option \<times> kern) option" where
  "filestat k i =
     (let f = ftable k ! i in
      if ftype f = FD_INODE then do {
        st \<leftarrow> ilock (fs k) (fip f);
        (let s = stati (icache st ! fip f) in do {
          st \<leftarrow> iunlock st (fip f);
          Some (Some s, k\<lparr>fs := st\<rparr>)
        })
      } else Some (None, k))"

definition fileread :: "kern \<Rightarrow> nat \<Rightarrow> u32 \<Rightarrow> bool \<Rightarrow> (int \<times> u8 list \<times> kern) option" where
  "fileread k i n killed =
     (let f = ftable k ! i in
      if \<not> readable f then Some (- 1, [], k)
      else case ftype f of
        FD_PIPE \<Rightarrow>
          (case piperead killed (nat (sint n)) (pipes k (fpipe f)) of
             RSleep \<Rightarrow> None
           | RFail \<Rightarrow> Some (- 1, [], k)
           | RDone bs p ws \<Rightarrow>
               Some (int (length bs), bs,
                 k\<lparr>pipes := (pipes k)(fpipe f := p), wakes := wakes k @ map (Pair (fpipe f)) ws\<rparr>))
      | FD_INODE \<Rightarrow> do {
          st \<leftarrow> ilock (fs k) (fip f);
          (r, bs, st) \<leftarrow> readi_at st (fip f) (foff f) n;
          (let k = (if r > 0 then set_file k i (f\<lparr>foff := foff f + word_of_int r\<rparr>) else k) in do {
            st \<leftarrow> iunlock st (fip f);
            Some (r, bs, k\<lparr>fs := st\<rparr>)
          })
        }
      | FD_NONE \<Rightarrow> None)"

abbreviation "MAX_WRITE \<equiv> (1536 :: nat)"

text \<open>One transaction of \<^verbatim>\<open>filewrite\<close>.\<close>

definition write_chunk :: "kern \<Rightarrow> nat \<Rightarrow> u8 list \<Rightarrow> (int \<times> kern) option" where
  "write_chunk k j chunk = do {
     k \<leftarrow> op_begin k;
     (let f = ftable k ! j in do {
       st \<leftarrow> ilock (fs k) (fip f);
       (r, st) \<leftarrow> writei_at st (fip f) chunk (foff f);
       (let k = (if r > 0 then set_file k j (f\<lparr>foff := foff f + word_of_int r\<rparr>) else k) in do {
         st \<leftarrow> iunlock st (fip f);
         k \<leftarrow> op_end (k\<lparr>fs := st\<rparr>);
         Some (r, k)
       })
     })
   }"

function filewrite_loop :: "kern \<Rightarrow> nat \<Rightarrow> u8 list \<Rightarrow> nat \<Rightarrow> (nat \<times> kern) option" where
  "filewrite_loop k j src i =
     (if i < length src then
        let chunk = take MAX_WRITE (drop i src) in do {
          (r, k) \<leftarrow> write_chunk k j chunk;
          if r < 0 then Some (i, k)
          else if r \<noteq> int (length chunk) then Some (i + nat r, k)
          else filewrite_loop k j src (i + length chunk)
        }
      else Some (i, k))"
  by pat_completeness auto
termination
  by (relation "measure (\<lambda>(k, j, src, i). length src - i)") auto

declare filewrite_loop.simps [simp del]

definition filewrite :: "kern \<Rightarrow> nat \<Rightarrow> u8 list \<Rightarrow> bool \<Rightarrow> (int \<times> kern) option" where
  "filewrite k j src killed =
     (let f = ftable k ! j in
      if \<not> writable f then Some (- 1, k)
      else case ftype f of
        FD_PIPE \<Rightarrow>
          (case pipewrite killed src (pipes k (fpipe f)) of
             WSleep p rest ws \<Rightarrow> None
           | WFail p \<Rightarrow> Some (- 1, k\<lparr>pipes := (pipes k)(fpipe f := p)\<rparr>)
           | WDone p ws \<Rightarrow> Some (int (length src),
               k\<lparr>pipes := (pipes k)(fpipe f := p), wakes := wakes k @ map (Pair (fpipe f)) ws\<rparr>))
      | FD_INODE \<Rightarrow> do {
          (i, k) \<leftarrow> filewrite_loop k j src 0;
          Some (if i = length src then int (length src) else if i > 0 then int i else - 1, k)
        }
      | FD_NONE \<Rightarrow> None)"

subsection \<open>Descriptors\<close>

definition fdalloc :: "nat \<Rightarrow> task \<Rightarrow> nat option \<times> task" where
  "fdalloc f t =
     (case find (\<lambda>fd. ofile t ! fd = None) [0..<NOFILE] of
        None \<Rightarrow> (None, t)
      | Some fd \<Rightarrow> (Some fd, t\<lparr>ofile := (ofile t)[fd := Some f]\<rparr>))"

definition savefilename :: "u8 list \<Rightarrow> u8 list" where
  "savefilename path =
     (let trimmed = rev (dropWhile (\<lambda>c. c = 47) (rev path)) in
      take DIRSIZ (rev (takeWhile (\<lambda>c. c \<noteq> 47) (rev trimmed))))"

definition sys_dup :: "task \<Rightarrow> kern \<Rightarrow> (int \<times> task \<times> kern) option" where
  "sys_dup t k =
     (case argfd 0 t of
        None \<Rightarrow> Some (- 1, t, k)
      | Some (_, f) \<Rightarrow>
          (case fdalloc f t of
             (None, t) \<Rightarrow> Some (- 1, t, k)
           | (Some fd, t) \<Rightarrow> do { k \<leftarrow> filedup k f; Some (int fd, t, k) }))"

definition sys_read :: "task \<Rightarrow> kern \<Rightarrow> (int \<times> task \<times> kern) option" where
  "sys_read t k =
     (case (argfd 0 t, argint 2 t) of
        (Some (_, f), Some n) \<Rightarrow>
          (case argptr 1 (sint n) t of
             None \<Rightarrow> Some (- 1, t, k)
           | Some p \<Rightarrow> do {
               (r, bs, k) \<leftarrow> fileread k f n (tkilled t);
               Some (r, poke p bs t, k)
             })
      | _ \<Rightarrow> Some (- 1, t, k))"

definition sys_write :: "task \<Rightarrow> kern \<Rightarrow> (int \<times> task \<times> kern) option" where
  "sys_write t k =
     (case (argfd 0 t, argint 2 t) of
        (Some (_, f), Some n) \<Rightarrow>
          (case argptr 1 (sint n) t of
             None \<Rightarrow> Some (- 1, t, k)
           | Some p \<Rightarrow> do {
               (r, k) \<leftarrow> filewrite k f (peek p (nat (sint n)) t) (tkilled t);
               Some (r, t, k)
             })
      | _ \<Rightarrow> Some (- 1, t, k))"

definition sys_close :: "task \<Rightarrow> kern \<Rightarrow> (int \<times> task \<times> kern) option" where
  "sys_close t k =
     (case argfd 0 t of
        None \<Rightarrow> Some (- 1, t, k)
      | Some (fd, f) \<Rightarrow>
          let t = t\<lparr>ofile := (ofile t)[fd := None]\<rparr> in do {
            k \<leftarrow> fileclose k f;
            Some (0, t, k)
          })"

definition sys_fstat :: "task \<Rightarrow> kern \<Rightarrow> (int \<times> task \<times> kern) option" where
  "sys_fstat t k =
     (case (argfd 0 t, argptr 1 20 t) of
        (Some (_, f), Some p) \<Rightarrow> do {
          (s, k) \<leftarrow> filestat k f;
          (case s of
             None \<Rightarrow> Some (- 1, t, k)
           | Some s \<Rightarrow> Some (0,
               poke (p + 16) (le32_bytes (st_size s)) (poke (p + 12) (le16_bytes (st_nlink s))
                 (poke (p + 8) (le32_bytes (st_ino s)) (poke (p + 4) (le32_bytes (st_dev s))
                   (poke p (le16_bytes (st_type s)) t)))), k))
        }
      | _ \<Rightarrow> Some (- 1, t, k))"

definition text_of :: "u8 list \<Rightarrow> string" where
  "text_of bs = map (\<lambda>b. char_of (unat b)) bs"

fun print_direct :: "bool \<Rightarrow> nat \<Rightarrow> u32 list \<Rightarrow> fsys \<Rightarrow> fsys option" where
  "print_direct is_cs i [] st = Some st"
| "print_direct is_cs i (e # es) st =
     (if e = 0 then print_direct is_cs (i + 1) es st
      else do {
        st \<leftarrow> (if is_cs then cprint ''[%d] %d (num: %d, length: %d)''
                  [PInt (word_of_nat i), PInt e, PInt (drop_bit 8 e), PInt (e AND 0xFF)] st
               else cprint ''[%d] %d'' [PInt (word_of_nat i), PInt e] st);
        print_direct is_cs (i + 1) es st
      })"

definition sys_printinfo :: "task \<Rightarrow> kern \<Rightarrow> (int \<times> kern) option" where
  "sys_printinfo t k =
     (case argfd 0 t of
        None \<Rightarrow> Some (- 1, k)
      | Some (_, i) \<Rightarrow>
          let f = ftable k ! i in
          if ftype f \<noteq> FD_INODE then Some (- 1, k)
          else do {
            st \<leftarrow> ilock (fs k) (fip f);
            (let ip = icache st ! fip f in
             if itype ip \<noteq> T_FILE \<and> itype ip \<noteq> T_CS then do {
               st \<leftarrow> iunlock st (fip f);
               Some (- 1, k\<lparr>fs := st\<rparr>)
             } else do {
               st \<leftarrow> cprint ''FILE NAME: %s''
                      [PStr (Some (if fname f \<noteq> [] then text_of (fname f) else ''(unknown)''))] st;
               st \<leftarrow> cprint ''INODE NUM: %d'' [PInt (inum ip)] st;
               st \<leftarrow> cprint ''FILE TYPE: %s'' [PStr (Some (if itype ip = T_CS then ''CS'' else ''FILE''))] st;
               st \<leftarrow> cprint ''FILE SIZE: %d Bytes'' [PInt (isize ip)] st;
               st \<leftarrow> cprint ''DIRECT BLOCK INFO:'' [] st;
               st \<leftarrow> print_direct (itype ip = T_CS) 0 (take NDIRECT (addrs ip)) st;
               st \<leftarrow> cprint [] [] st;
               st \<leftarrow> iunlock st (fip f);
               Some (0, k\<lparr>fs := st\<rparr>)
             })
          })"

subsection \<open>Directory operations\<close>

definition set_nlink :: "fsys \<Rightarrow> nat \<Rightarrow> u16 \<Rightarrow> fsys option" where
  "set_nlink st i d =
     (let ip = (icache st ! i)\<lparr>nlink := nlink (icache st ! i) + d\<rparr> in iupdate (put_inode st i ip) ip)"

text \<open>The body of \<^verbatim>\<open>sys_link\<close> between \<^verbatim>\<open>begin_op\<close> and \<^verbatim>\<open>end_op\<close>.\<close>

definition link_body :: "nat \<Rightarrow> u8 list \<Rightarrow> u8 list \<Rightarrow> fsys \<Rightarrow> (int \<times> fsys) option" where
  "link_body cw old new st = do {
     (r, st) \<leftarrow> namei st cw old;
     (case r of
        None \<Rightarrow> Some (- 1, st)
      | Some ip \<Rightarrow> do {
          st \<leftarrow> ilock st ip;
          if itype (icache st ! ip) = T_DIR then do { st \<leftarrow> iunlockput st ip; Some (- 1, st) }
          else do {
            st \<leftarrow> set_nlink st ip 1;
            st \<leftarrow> iunlock st ip;
            (r, st) \<leftarrow> nameiparent st cw new;
            (ok, st) \<leftarrow> (case r of
                None \<Rightarrow> Some (False, st)
              | Some (dp, name) \<Rightarrow> do {
                  st \<leftarrow> ilock st dp;
                  (r, st) \<leftarrow> (if dev (icache st ! dp) \<noteq> dev (icache st ! ip) then Some (- 1, st)
                             else dirlink st dp name (inum (icache st ! ip)));
                  st \<leftarrow> iunlockput st dp;
                  Some (r \<ge> 0, st)
                });
            if ok then do { st \<leftarrow> iput st ip; Some (0, st) }
            else do {
              st \<leftarrow> ilock st ip;
              st \<leftarrow> set_nlink st ip (- 1);
              st \<leftarrow> iunlockput st ip;
              Some (- 1, st)
            }
          }
        })
   }"

definition sys_link :: "task \<Rightarrow> kern \<Rightarrow> (int \<times> kern) option" where
  "sys_link t k =
     (case (argstr 0 t, argstr 1 t) of
        (Some old, Some new) \<Rightarrow> do {
          k \<leftarrow> op_begin k;
          (r, st) \<leftarrow> link_body (cwd t) old new (fs k);
          k \<leftarrow> op_end (k\<lparr>fs := st\<rparr>);
          Some (r, k)
        }
      | _ \<Rightarrow> Some (- 1, k))"

definition isdirempty :: "fsys \<Rightarrow> nat \<Rightarrow> (bool \<times> fsys) option" where
  "isdirempty st dp = do {
     (r, st) \<leftarrow> dir_scan st dp (\<lambda>i _. i \<noteq> 0) 32 (unat (isize (icache st ! dp)));
     Some (r = None, st)
   }"

definition unlink_body :: "nat \<Rightarrow> u8 list \<Rightarrow> fsys \<Rightarrow> (int \<times> fsys) option" where
  "unlink_body cw path st = do {
     (r, st) \<leftarrow> nameiparent st cw path;
     (case r of
        None \<Rightarrow> Some (- 1, st)
      | Some (dp, name) \<Rightarrow> do {
          st \<leftarrow> ilock st dp;
          if namecmp name [46] = 0 \<or> namecmp name [46, 46] = 0 then do { st \<leftarrow> iunlockput st dp; Some (- 1, st) }
          else do {
            (r, st) \<leftarrow> dirlookup st dp name;
            (case r of
               None \<Rightarrow> do { st \<leftarrow> iunlockput st dp; Some (- 1, st) }
             | Some (ip, off) \<Rightarrow> do {
                 st \<leftarrow> ilock st ip;
                 if sint (nlink (icache st ! ip)) < 1 then None
                 else do {
                   (busy, st) \<leftarrow> (if itype (icache st ! ip) = T_DIR then do {
                        (e, st) \<leftarrow> isdirempty st ip;
                        Some (\<not> e, st)
                      } else Some (False, st));
                   if busy then do {
                     st \<leftarrow> iunlockput st ip;
                     st \<leftarrow> iunlockput st dp;
                     Some (- 1, st)
                   } else do {
                     (r, st) \<leftarrow> writei_at st dp (replicate 16 0) (word_of_nat off);
                     if r \<noteq> 16 then None
                     else do {
                       st \<leftarrow> (if itype (icache st ! ip) = T_DIR then set_nlink st dp (- 1) else Some st);
                       st \<leftarrow> iunlockput st dp;
                       st \<leftarrow> set_nlink st ip (- 1);
                       st \<leftarrow> iunlockput st ip;
                       Some (0, st)
                     }
                   }
                 }
               })
          }
        })
   }"

definition sys_unlink :: "task \<Rightarrow> kern \<Rightarrow> (int \<times> kern) option" where
  "sys_unlink t k =
     (case argstr 0 t of
        None \<Rightarrow> Some (- 1, k)
      | Some path \<Rightarrow> do {
          k \<leftarrow> op_begin k;
          (r, st) \<leftarrow> unlink_body (cwd t) path (fs k);
          k \<leftarrow> op_end (k\<lparr>fs := st\<rparr>);
          Some (r, k)
        })"

definition create :: "nat \<Rightarrow> u8 list \<Rightarrow> u16 \<Rightarrow> u16 \<Rightarrow> u16 \<Rightarrow> fsys \<Rightarrow> (nat option \<times> fsys) option" where
  "create cw path ty maj mnr st = do {
     (r, st) \<leftarrow> nameiparent st cw path;
     (case r of
        None \<Rightarrow> Some (None, st)
      | Some (dp, name) \<Rightarrow> do {
          st \<leftarrow> ilock st dp;
          (r, st) \<leftarrow> dirlookup st dp name;
          (case r of
             Some (ip, _) \<Rightarrow> do {
               st \<leftarrow> iunlockput st dp;
               st \<leftarrow> ilock st ip;
               if (ty = T_FILE \<and> itype (icache st ! ip) = T_FILE) \<or> (ty = T_CS \<and> itype (icache st ! ip) = T_CS)
               then Some (Some ip, st)
               else do { st \<leftarrow> iunlockput st ip; Some (None, st) }
             }
           | None \<Rightarrow> do {
               (ip, st) \<leftarrow> ialloc st (dev (icache st ! dp)) ty;
               st \<leftarrow> ilock st ip;
               (let x = (icache st ! ip)\<lparr>major := maj, minor := mnr, nlink := 1\<rparr> in do {
                 st \<leftarrow> iupdate (put_inode st ip x) x;
                 st \<leftarrow> (if ty = T_DIR then do {
                         st \<leftarrow> set_nlink st dp 1;
                         (r, st) \<leftarrow> dirlink st ip [46] (inum (icache st ! ip));
                         if r < 0 then None
                         else do {
                           (r, st) \<leftarrow> dirlink st ip [46, 46] (inum (icache st ! dp));
                           if r < 0 then None else Some st
                         }
                       } else Some st);
                 (r, st) \<leftarrow> dirlink st dp name (inum (icache st ! ip));
                 if r < 0 then None
                 else do { st \<leftarrow> iunlockput st dp; Some (Some ip, st) }
               })
             })
        })
   }"

subsection \<open>Opening files\<close>

abbreviation "O_WRONLY \<equiv> (0x001 :: u32)"
abbreviation "O_RDWR \<equiv> (0x002 :: u32)"
abbreviation "O_CS \<equiv> (0x020 :: u32)"
abbreviation "O_CREATE \<equiv> (0x200 :: u32)"

text \<open>The inode of \<^verbatim>\<open>sys_open\<close>, locked, or \<open>None\<close> when the call fails.\<close>

definition open_inode :: "nat \<Rightarrow> u8 list \<Rightarrow> u32 \<Rightarrow> fsys \<Rightarrow> (nat option \<times> fsys) option" where
  "open_inode cw path omode st =
     (if omode AND O_CREATE \<noteq> 0 then create cw path (if omode AND O_CS \<noteq> 0 then T_CS else T_FILE) 0 0 st
      else do {
        (r, st) \<leftarrow> namei st cw path;
        (case r of
           None \<Rightarrow> Some (None, st)
         | Some ip \<Rightarrow> do {
             st \<leftarrow> ilock st ip;
             if itype (icache st ! ip) = T_DIR \<and> omode \<noteq> 0 then do { st \<leftarrow> iunlockput st ip; Some (None, st) }
             else Some (Some ip, st)
           })
      })"

definition open_file :: "u8 list \<Rightarrow> u32 \<Rightarrow> nat \<Rightarrow> nat \<Rightarrow> kern \<Rightarrow> kern" where
  "open_file path omode ip i k =
     set_file k i ((ftable k ! i)\<lparr>ftype := FD_INODE, fip := ip, foff := 0,
       readable := (omode AND O_WRONLY = 0),
       writable := (omode AND O_WRONLY \<noteq> 0 \<or> omode AND O_RDWR \<noteq> 0),
       fname := savefilename path\<rparr>)"

definition sys_open :: "task \<Rightarrow> kern \<Rightarrow> (int \<times> task \<times> kern) option" where
  "sys_open t k =
     (case (argstr 0 t, argint 1 t) of
        (Some path, Some omode) \<Rightarrow> do {
          k \<leftarrow> op_begin k;
          (r, st) \<leftarrow> open_inode (cwd t) path omode (fs k);
          (let k = k\<lparr>fs := st\<rparr> in
           case r of
             None \<Rightarrow> do { k \<leftarrow> op_end k; Some (- 1, t, k) }
           | Some ip \<Rightarrow>
               (case filealloc k of
                  (None, k) \<Rightarrow> do {
                    st \<leftarrow> iunlockput (fs k) ip;
                    k \<leftarrow> op_end (k\<lparr>fs := st\<rparr>);
                    Some (- 1, t, k)
                  }
                | (Some f, k) \<Rightarrow>
                    (case fdalloc f t of
                       (None, t) \<Rightarrow> do {
                         k \<leftarrow> fileclose k f;
                         st \<leftarrow> iunlockput (fs k) ip;
                         k \<leftarrow> op_end (k\<lparr>fs := st\<rparr>);
                         Some (- 1, t, k)
                       }
                     | (Some fd, t) \<Rightarrow> do {
                         st \<leftarrow> iunlock (fs k) ip;
                         k \<leftarrow> op_end (k\<lparr>fs := st\<rparr>);
                         Some (int fd, t, open_file path omode ip f k)
                       })))
        }
      | _ \<Rightarrow> Some (- 1, t, k))"

text \<open>Creating an inode that is released at once, for \<^verbatim>\<open>sys_mkdir\<close> and \<^verbatim>\<open>sys_mknod\<close>.\<close>

definition create_only :: "nat \<Rightarrow> u8 list \<Rightarrow> u16 \<Rightarrow> u16 \<Rightarrow> u16 \<Rightarrow> kern \<Rightarrow> (int \<times> kern) option" where
  "create_only cw path ty maj mnr k = do {
     (r, st) \<leftarrow> create cw path ty maj mnr (fs k);
     (case r of
        None \<Rightarrow> do { k \<leftarrow> op_end (k\<lparr>fs := st\<rparr>); Some (- 1, k) }
      | Some ip \<Rightarrow> do {
          st \<leftarrow> iunlockput st ip;
          k \<leftarrow> op_end (k\<lparr>fs := st\<rparr>);
          Some (0, k)
        })
   }"

definition sys_mkdir :: "task \<Rightarrow> kern \<Rightarrow> (int \<times> kern) option" where
  "sys_mkdir t k = do {
     k \<leftarrow> op_begin k;
     (case argstr 0 t of
        None \<Rightarrow> do { k \<leftarrow> op_end k; Some (- 1, k) }
      | Some path \<Rightarrow> create_only (cwd t) path T_DIR 0 0 k)
   }"

definition sys_mknod :: "task \<Rightarrow> kern \<Rightarrow> (int \<times> kern) option" where
  "sys_mknod t k = do {
     k \<leftarrow> op_begin k;
     (case (argstr 0 t, argint 1 t, argint 2 t) of
        (Some path, Some maj, Some mnr) \<Rightarrow> create_only (cwd t) path T_DEV (ucast maj) (ucast mnr) k
      | _ \<Rightarrow> do { k \<leftarrow> op_end k; Some (- 1, k) })
   }"

definition sys_chdir :: "task \<Rightarrow> kern \<Rightarrow> (int \<times> task \<times> kern) option" where
  "sys_chdir t k = do {
     k \<leftarrow> op_begin k;
     (case argstr 0 t of
        None \<Rightarrow> do { k \<leftarrow> op_end k; Some (- 1, t, k) }
      | Some path \<Rightarrow> do {
          (r, st) \<leftarrow> namei (fs k) (cwd t) path;
          (case r of
             None \<Rightarrow> do { k \<leftarrow> op_end (k\<lparr>fs := st\<rparr>); Some (- 1, t, k) }
           | Some ip \<Rightarrow> do {
               st \<leftarrow> ilock st ip;
               if itype (icache st ! ip) \<noteq> T_DIR then do {
                 st \<leftarrow> iunlockput st ip;
                 k \<leftarrow> op_end (k\<lparr>fs := st\<rparr>);
                 Some (- 1, t, k)
               } else do {
                 st \<leftarrow> iunlock st ip;
                 st \<leftarrow> iput st (cwd t);
                 k \<leftarrow> op_end (k\<lparr>fs := st\<rparr>);
                 Some (0, t\<lparr>cwd := ip\<rparr>, k)
               }
             })
        })
   }"

subsection \<open>Pipes\<close>

definition pipe_file :: "bool \<Rightarrow> u32 \<Rightarrow> file_entry \<Rightarrow> file_entry" where
  "pipe_file wr a f = f\<lparr>ftype := FD_PIPE, readable := \<not> wr, writable := wr, fpipe := a\<rparr>"

text \<open>The bytes of the buffer follow the 52 bytes of the spin lock in the page.\<close>

definition pipealloc :: "kern \<Rightarrow> ((nat \<times> nat) option \<times> kern) option" where
  "pipealloc k =
     (case filealloc k of
        (None, k) \<Rightarrow> Some (None, k)
      | (Some f0, k) \<Rightarrow>
          (case filealloc k of
             (None, k) \<Rightarrow> do { k \<leftarrow> fileclose k f0; Some (None, k) }
           | (Some f1, k) \<Rightarrow>
               (case kalloc (kvm k) of (a, vm) \<Rightarrow>
                  let k = k\<lparr>kvm := vm\<rparr> in
                  if a = 0 then do {
                    k \<leftarrow> fileclose k f0;
                    k \<leftarrow> fileclose k f1;
                    Some (None, k)
                  }
                  else
                    let k = k\<lparr>pipes := (pipes k)(a := new_pipe (map (\<lambda>i. mem vm (a + 52 + word_of_nat i)) [0..<PIPESIZE]))\<rparr>;
                        k = set_file k f0 (pipe_file False a (ftable k ! f0));
                        k = set_file k f1 (pipe_file True a (ftable k ! f1)) in
                    Some (Some (f0, f1), k))))"

definition sys_pipe :: "task \<Rightarrow> kern \<Rightarrow> (int \<times> task \<times> kern) option" where
  "sys_pipe t k =
     (case argptr 0 8 t of
        None \<Rightarrow> Some (- 1, t, k)
      | Some p \<Rightarrow> do {
          (r, k) \<leftarrow> pipealloc k;
          (case r of
             None \<Rightarrow> Some (- 1, t, k)
           | Some (rfl, wfl) \<Rightarrow>
               (case fdalloc rfl t of
                  (None, _) \<Rightarrow> do { k \<leftarrow> fileclose k rfl; k \<leftarrow> fileclose k wfl; Some (- 1, t, k) }
                | (Some fd0, t0) \<Rightarrow>
                    (case fdalloc wfl t0 of
                       (None, _) \<Rightarrow> do {
                         k \<leftarrow> fileclose k rfl;
                         k \<leftarrow> fileclose k wfl;
                         Some (- 1, t0\<lparr>ofile := (ofile t0)[fd0 := None]\<rparr>, k)
                       }
                     | (Some fd1, t1) \<Rightarrow>
                         Some (0, poke (p + 4) (le32_bytes (word_of_nat fd1)) (poke p (le32_bytes (word_of_nat fd0)) t1), k))))
        })"

subsection \<open>The table of calls\<close>

text \<open>The file system calls by their numbers; the calls on processes and memory are not in this table.\<close>

definition file_syscall :: "nat \<Rightarrow> task \<Rightarrow> kern \<Rightarrow> (int \<times> task \<times> kern) option" where
  "file_syscall num t k =
     (let keep = map_option (\<lambda>(r, k). (r, t, k)) in
      if num = 4 then sys_pipe t k else if num = 5 then sys_read t k else if num = 8 then sys_fstat t k
      else if num = 9 then sys_chdir t k else if num = 10 then sys_dup t k else if num = 15 then sys_open t k
      else if num = 16 then sys_write t k else if num = 17 then keep (sys_mknod t k)
      else if num = 18 then keep (sys_unlink t k) else if num = 19 then keep (sys_link t k)
      else if num = 20 then keep (sys_mkdir t k) else if num = 21 then sys_close t k
      else if num = 22 then keep (sys_printinfo t k) else None)"

end
