(* ===== verification/Xv6_Descriptors.thy ===== *)
theory Xv6_Descriptors
  imports Xv6_Syscalls
begin

text \<open>
  Properties of the system call layer of \<^verbatim>\<open>Xv6_Syscalls\<close>: buffers and strings fetched from a process lie
  inside its memory, the reference counts of the open file table agree with the descriptors of the
  processes, and the file name kept by \<^verbatim>\<open>open\<close> is the last element of the path.
\<close>

subsection \<open>Arguments\<close>

lemma fetchint_range:
  assumes "fetchint a t = Some v" "tsz t \<le> KERNBASE"
  shows "unat a + 4 \<le> unat (tsz t)"
proof -
  have "a < tsz t" "a + 4 \<le> tsz t" using assms(1) by (auto simp: fetchint_def split: if_splits)
  moreover have "unat (a + 4) = unat a + 4"
    using calculation(1) assms(2) by (subst unat_add_nowrap) (simp_all add: word_nat)
  ultimately show ?thesis by (simp add: word_nat)
qed

lemma fetchstr_loop_range:
  "fetchstr_loop a t = Some s \<Longrightarrow> tsz t \<le> KERNBASE \<Longrightarrow>
   unat a + length s < unat (tsz t) \<and> (\<forall>i < length s. s ! i = umem t (a + word_of_nat i)) \<and>
   umem t (a + word_of_nat (length s)) = 0 \<and> 0 \<notin> set s"
proof (induction a t arbitrary: s rule: fetchstr_loop.induct)
  case (1 a t)
  have lt: "a < tsz t" using 1(2) by (subst (asm) fetchstr_loop.simps) (auto split: if_splits)
  have u: "unat (a + 1) = unat a + 1"
    using lt 1(3) by (subst unat_add_nowrap) (simp_all add: word_nat)
  show ?case
  proof (cases "umem t a = 0")
    case True
    then have "s = []" using 1(2) lt by (subst (asm) fetchstr_loop.simps) simp
    then show ?thesis using lt True by (simp add: word_nat)
  next
    case False
    then obtain s' where s: "fetchstr_loop (a + 1) t = Some s'" "s = umem t a # s'"
      using 1(2) lt by (subst (asm) fetchstr_loop.simps) auto
    from 1(1) [OF lt False s(1) 1(3)] s(2) u False show ?thesis
      by (auto simp: nth_Cons add.assoc split: nat.split)
  qed
qed

text \<open>
  The kernel reads and writes user memory only inside the process: an integer argument, a buffer
  accepted by \<^verbatim>\<open>argptr\<close> and a string accepted by \<^verbatim>\<open>argstr\<close> with its terminator lie below the size of
  the process, whatever 32-bit values the process passes, and the string is what the memory holds.
\<close>

theorem arguments_in_process:
  assumes "tsz t \<le> KERNBASE"
  shows "(\<forall>n v. argint n t = Some v \<longrightarrow> unat (tesp t + 4 + 4 * n) + 4 \<le> unat (tsz t)) \<and>
    (\<forall>n len p. - 2147483648 \<le> len \<longrightarrow> len < 2147483648 \<longrightarrow> argptr n len t = Some p \<longrightarrow>
       0 \<le> len \<and> unat p + nat len \<le> unat (tsz t)) \<and>
    (\<forall>n s. argstr n t = Some s \<longrightarrow> (\<exists>a. argint n t = Some a \<and> unat a + length s + 1 \<le> unat (tsz t) \<and>
       s = peek a (length s) t \<and> umem t (a + word_of_nat (length s)) = 0 \<and> 0 \<notin> set s))"
proof (intro conjI allI impI)
  fix n v assume "argint n t = Some v"
  then show "unat (tesp t + 4 + 4 * n) + 4 \<le> unat (tsz t)" using fetchint_range [OF _ assms] by (simp add: argint_def)
next
  fix n len p assume len: "- 2147483648 \<le> len" "len < 2147483648" and "argptr n len t = Some p"
  then have p: "\<not> len < 0" "p < tsz t" "p + word_of_int len \<le> tsz t"
    by (auto simp: argptr_def bind_Some_iff split: if_splits)
  then show "0 \<le> len" by simp
  have "unat (word_of_int len :: u32) = nat len"
    using p(1) len by (simp add: unat_eq_nat_uint uint_word_of_int)
  moreover from this have "unat (p + word_of_int len) = unat p + nat len"
    using p(1,2) len assms by (subst unat_add_nowrap) (simp_all add: word_nat)
  ultimately show "unat p + nat len \<le> unat (tsz t)" using p(3) by (simp add: word_nat)
next
  fix n s assume "argstr n t = Some s"
  then obtain a where a: "argint n t = Some a" "fetchstr_loop a t = Some s"
    by (auto simp: argstr_def bind_Some_iff fetchstr_def split: if_splits)
  note r = fetchstr_loop_range [OF a(2) assms]
  then have "s = peek a (length s) t" by (intro nth_equalityI) (auto simp: peek_def)
  then show "\<exists>a. argint n t = Some a \<and> unat a + length s + 1 \<le> unat (tsz t) \<and>
      s = peek a (length s) t \<and> umem t (a + word_of_nat (length s)) = 0 \<and> 0 \<notin> set s"
    using a(1) r by auto
qed

definition sample_task :: task where
  "sample_task = \<lparr>tsz = 0x2000, tesp = 0x1000, umem = (\<lambda>a. if a = 0x1005 then 0x10 else 0),
     ofile = replicate NOFILE None, cwd = 0, tkilled = False\<rparr>"

theorem arguments_in_process_witness:
  "argptr 0 8 sample_task = Some 0x1000 \<and> 0x1000 + nat 8 \<le> unat (tsz sample_task)"
proof -
  have sz: "tsz sample_task \<le> KERNBASE" by (simp add: sample_task_def)
  have arg: "argptr 0 8 sample_task = Some 0x1000"
    by (simp add: argptr_def argint_def fetchint_def sample_task_def of_le32_def)
  from arguments_in_process [OF sz] arg have "unat (0x1000 :: u32) + nat 8 \<le> unat (tsz sample_task)"
    by (elim conjE allE [of _ 0] allE [of _ "8"] allE [of _ "0x1000"]) simp
  with arg show ?thesis by simp
qed

subsection \<open>Reference counts\<close>

text \<open>\<open>shifted d k k'\<close>: the counts of \<open>k'\<close> are those of \<open>k\<close> plus \<open>d\<close>.\<close>

definition shifted :: "(nat \<Rightarrow> int) \<Rightarrow> kern \<Rightarrow> kern \<Rightarrow> bool" where
  "shifted d k k' \<longleftrightarrow> length (ftable k') = length (ftable k) \<and>
     (\<forall>i < length (ftable k). fref (ftable k' ! i) = fref (ftable k ! i) + d i)"

abbreviation same_refs :: "kern \<Rightarrow> kern \<Rightarrow> bool" where "same_refs \<equiv> shifted (\<lambda>i. 0)"

lemma shifted_refl [simp]: "same_refs k k"
  by (simp add: shifted_def)

lemma shifted_trans: "shifted d k k' \<Longrightarrow> shifted e k' k'' \<Longrightarrow> shifted (\<lambda>i. d i + e i) k k''"
  by (simp add: shifted_def)

lemma same_refs_trans: "same_refs k k' \<Longrightarrow> same_refs k' k'' \<Longrightarrow> same_refs k k''"
  using shifted_trans [of "\<lambda>i. 0" k k' "\<lambda>i. 0" k''] by simp

lemma same_refs_ftable: "ftable k' = ftable k \<Longrightarrow> same_refs k k'"
  by (simp add: shifted_def)

lemma ftable_set_file: "ftable (set_file k i f) = (ftable k)[i := f]"
  by (simp add: set_file_def)

lemma op_begin_ftable: "op_begin k = Some k' \<Longrightarrow> ftable k' = ftable k"
  by (auto simp: op_begin_def split: wait.splits)

lemma op_end_ftable: "op_end k = Some k' \<Longrightarrow> ftable k' = ftable k"
  by (auto simp: op_end_def bind_Some_iff)

lemma pipe_close_ftable: "pipe_close k a wr = Some k' \<Longrightarrow> ftable k' = ftable k"
  by (auto simp: pipe_close_def Let_def bind_Some_iff split: prod.splits if_splits)

lemmas op_ftable = op_begin_ftable op_end_ftable pipe_close_ftable

lemma set_file_same:
  assumes "fref f = fref (ftable k ! i)"
  shows "same_refs k (set_file k i f)"
proof -
  have "fref ((ftable k)[i := f] ! j) = fref (ftable k ! j)" if "j < length (ftable k)" for j
    using assms that by (cases "j = i") auto
  then show ?thesis by (simp add: shifted_def ftable_set_file)
qed

lemma shifted_fields [simp]:
  "shifted d k (k'\<lparr>fs := x\<rparr>) = shifted d k k'" "shifted d k (k'\<lparr>kvm := vm\<rparr>) = shifted d k k'"
  "shifted d k (k'\<lparr>pipes := p\<rparr>) = shifted d k k'" "shifted d k (k'\<lparr>wakes := ws\<rparr>) = shifted d k k'"
  "shifted d (k\<lparr>fs := x\<rparr>) k' = shifted d k k'" "shifted d (k\<lparr>kvm := vm\<rparr>) k' = shifted d k k'"
  by (simp_all add: shifted_def)

lemma fileclose_shifted:
  assumes "fileclose k i = Some k'" "i < length (ftable k)"
  shows "shifted (\<lambda>j. if j = i then - 1 else 0) k k'" "1 \<le> fref (ftable k ! i)"
proof -
  show ge: "1 \<le> fref (ftable k ! i)" using assms by (auto simp: fileclose_def Let_def split: if_splits)
  have "ftable k' = (ftable k)[i := (ftable k ! i)\<lparr>fref := fref (ftable k ! i) - 1\<rparr>] \<or>
      (fref (ftable k ! i) = 1 \<and> ftable k' = (ftable k)[i := (ftable k ! i)\<lparr>fref := 0, ftype := FD_NONE\<rparr>])"
    using assms(1) ge
    by (auto simp: fileclose_def Let_def bind_Some_iff ftable_set_file split: if_splits fd_type.splits dest!: op_ftable)
  then show "shifted (\<lambda>j. if j = i then - 1 else 0) k k'"
    using assms(2) by (auto simp: shifted_def nth_list_update)
qed

lemma filedup_shifted:
  "filedup k i = Some k' \<Longrightarrow> i < length (ftable k) \<Longrightarrow> shifted (\<lambda>j. if j = i then 1 else 0) k k'"
  by (auto simp: filedup_def shifted_def ftable_set_file nth_list_update split: if_splits)

lemma filealloc_shifted:
  assumes "filealloc k = (Some i, k')"
  shows "i < length (ftable k)" "fref (ftable k ! i) = 0" "shifted (\<lambda>j. if j = i then 1 else 0) k k'"
proof -
  have f: "find (\<lambda>i. fref (ftable k ! i) = 0) [0..<length (ftable k)] = Some i"
    and k': "k' = set_file k i ((ftable k ! i)\<lparr>fref := 1, fname := []\<rparr>)"
    using assms by (auto simp: filealloc_def split: option.splits)
  from f show "i < length (ftable k)" "fref (ftable k ! i) = 0" by (auto simp: find_Some_iff)
  then show "shifted (\<lambda>j. if j = i then 1 else 0) k k'"
    by (auto simp: k' shifted_def ftable_set_file nth_list_update)
qed

lemma filealloc_None: "filealloc k = (None, k') \<Longrightarrow> k' = k"
  by (auto simp: filealloc_def split: option.splits)

lemma fileread_same: "fileread k i n killed = Some (r, bs, k') \<Longrightarrow> same_refs k k'"
  by (auto simp: fileread_def Let_def bind_Some_iff set_file_same
      split: if_splits fd_type.splits rresult.splits)

lemma write_chunk_same:
  assumes "write_chunk k j chunk = Some (r, k')"
  shows "same_refs k k'"
proof -
  obtain k1 where k1: "op_begin k = Some k1" using assms by (cases "op_begin k") (simp_all add: write_chunk_def)
  obtain st where st: "ilock (fs k1) (fip (ftable k1 ! j)) = Some st"
    using assms k1 by (cases "ilock (fs k1) (fip (ftable k1 ! j))") (simp_all add: write_chunk_def Let_def)
  obtain r' st' where w: "writei_at st (fip (ftable k1 ! j)) chunk (foff (ftable k1 ! j)) = Some (r', st')"
    using assms k1 st by (cases "writei_at st (fip (ftable k1 ! j)) chunk (foff (ftable k1 ! j))") (auto simp: write_chunk_def Let_def)
  obtain st'' where u: "iunlock st' (fip (ftable k1 ! j)) = Some st''"
    using assms k1 st w by (cases "iunlock st' (fip (ftable k1 ! j))") (simp_all add: write_chunk_def Let_def)
  define k2 where "k2 = (if r' > 0 then set_file k1 j ((ftable k1 ! j)\<lparr>foff := foff (ftable k1 ! j) + word_of_int r'\<rparr>) else k1)"
  have "op_end (k2\<lparr>fs := st''\<rparr>) = Some k'"
    using assms unfolding write_chunk_def k1 Let_def by (simp add: st w u k2_def [symmetric] bind_Some_iff)
  then have "same_refs k2 k'" using op_end_ftable by (intro same_refs_ftable) fastforce
  moreover have "same_refs k1 k2" by (simp add: k2_def set_file_same)
  ultimately have "same_refs k1 k'" by (rule same_refs_trans [rotated])
  then show ?thesis by (rule same_refs_trans [OF same_refs_ftable [OF op_begin_ftable [OF k1]]])
qed

lemma filewrite_loop_same: "filewrite_loop k j src i = Some (n, k') \<Longrightarrow> same_refs k k'"
proof (induction k j src i arbitrary: n k' rule: filewrite_loop.induct)
  case (1 k j src i)
  show ?case
  proof (cases "i < length src")
    case False
    then show ?thesis using "1.prems" by (subst (asm) filewrite_loop.simps) simp
  next
    case True
    let ?c = "take MAX_WRITE (drop i src)"
    note unfold = "1.prems" [unfolded filewrite_loop.simps [of k j src i] if_P [OF True] Let_def]
    obtain r k1 where c: "write_chunk k j ?c = Some (r, k1)"
      using unfold by (cases "write_chunk k j ?c") auto
    have rest: "k' = k1 \<or> (\<not> r < 0 \<and> r = int (length ?c) \<and> filewrite_loop k1 j src (i + length ?c) = Some (n, k'))"
      using unfold unfolding c by (simp del: length_take split: if_splits)
    note w = write_chunk_same [OF c]
    from rest show ?thesis
    proof
      assume "\<not> r < 0 \<and> r = int (length ?c) \<and> filewrite_loop k1 j src (i + length ?c) = Some (n, k')"
      then have "same_refs k1 k'" using "1.IH" [OF True refl c refl] by blast
      then show ?thesis by (rule same_refs_trans [OF w])
    qed (use w in simp)
  qed
qed

lemma filewrite_same: "filewrite k j src killed = Some (r, k') \<Longrightarrow> same_refs k k'"
  by (auto simp: filewrite_def Let_def bind_Some_iff split: if_splits fd_type.splits wresult.splits
      dest: filewrite_loop_same)

text \<open>
  The invariant: every open file is counted once for each descriptor of the calling process and once
  for each of the \<open>others i\<close> references that the rest of the system holds.
\<close>

definition fd_inv :: "(nat \<Rightarrow> nat) \<Rightarrow> task \<Rightarrow> kern \<Rightarrow> bool" where
  "fd_inv others t k \<longleftrightarrow> length (ofile t) = NOFILE \<and> (\<forall>i. Some i \<in> set (ofile t) \<longrightarrow> i < length (ftable k)) \<and>
     (\<forall>i < length (ftable k). fref (ftable k ! i) = int (count_list (ofile t) (Some i)) + int (others i))"

lemma count_list_update:
  assumes "i < length xs"
  shows "int (count_list (xs[i := v]) y) = int (count_list xs y) - (if xs ! i = y then 1 else 0) + (if v = y then 1 else 0)"
proof -
  have "xs ! i \<in># mset xs" using assms by simp
  then have "Suc 0 \<le> count (mset xs) (xs ! i)" by (metis One_nat_def Suc_leI count_greater_zero_iff)
  then show ?thesis
    using assms by (auto simp: count_mset [symmetric] mset_update of_nat_diff simp del: count_mset)
qed

lemma fd_inv_shifted:
  assumes "fd_inv others t k" "shifted d k k'" "length (ofile t') = NOFILE"
    and "\<And>i. Some i \<in> set (ofile t') \<Longrightarrow> Some i \<in> set (ofile t) \<or> i < length (ftable k)"
    and "\<And>i. i < length (ftable k) \<Longrightarrow> int (count_list (ofile t') (Some i)) = int (count_list (ofile t) (Some i)) + d i"
  shows "fd_inv others t' k'"
  using assms unfolding fd_inv_def shifted_def by auto

lemma fd_inv_same: "fd_inv others t k \<Longrightarrow> same_refs k k' \<Longrightarrow> ofile t' = ofile t \<Longrightarrow> fd_inv others t' k'"
  by (auto simp: fd_inv_def shifted_def)

lemma ofile_poke [simp]: "ofile (poke a bs t) = ofile t"
  by (induction bs arbitrary: a t) auto

lemma argfd_open:
  assumes "argfd n t = Some (fd, f)"
  shows "fd < NOFILE" "ofile t ! fd = Some f"
  using assms by (auto simp: argfd_def bind_Some_iff split: if_splits)

lemma fd_inv_argfd:
  assumes "fd_inv others t k" "argfd n t = Some (fd, f)"
  shows "f < length (ftable k)"
  using assms argfd_open [OF assms(2)] nth_mem [of fd "ofile t"] by (auto simp: fd_inv_def)

lemma fdalloc_free:
  assumes "fdalloc f t = (Some fd, t')"
  shows "fd < NOFILE" "ofile t ! fd = None" "t' = t\<lparr>ofile := (ofile t)[fd := Some f]\<rparr>"
  using assms by (auto simp: fdalloc_def find_Some_iff split: option.splits)

lemma fdalloc_None: "fdalloc f t = (None, t') \<Longrightarrow> t' = t"
  by (auto simp: fdalloc_def split: option.splits)

text \<open>A descriptor for a file whose count has been raised by one.\<close>

lemma fd_inv_fdalloc:
  assumes "fd_inv others t k" "shifted (\<lambda>j. if j = f then 1 else 0) k k'" "f < length (ftable k)"
    "fdalloc f t = (Some fd, t')"
  shows "fd_inv others t' k'"
proof -
  note fd = fdalloc_free [OF assms(4)]
  have len: "length (ofile t) = NOFILE" using assms(1) by (simp add: fd_inv_def)
  show ?thesis
    by (rule fd_inv_shifted [OF assms(1,2)])
      (use fd len assms(3) set_update_subset_insert [of "ofile t" fd "Some f"] in \<open>auto simp: count_list_update\<close>)
qed

lemma sys_dup_inv: "fd_inv others t k \<Longrightarrow> sys_dup t k = Some (r, t', k') \<Longrightarrow> fd_inv others t' k'"
  by (auto simp: sys_dup_def bind_Some_iff split: option.splits prod.splits
      dest: fdalloc_None fd_inv_fdalloc filedup_shifted fd_inv_argfd)

lemma sys_close_inv:
  assumes inv: "fd_inv others t k" and call: "sys_close t k = Some (r, t', k')"
  shows "fd_inv others t' k'"
proof (cases "argfd 0 t")
  case None
  then show ?thesis using assms by (simp add: sys_close_def)
next
  case (Some p)
  then obtain fd f where a: "argfd 0 t = Some (fd, f)" by (cases p) auto
  have c: "fileclose k f = Some k'" and t': "t' = t\<lparr>ofile := (ofile t)[fd := None]\<rparr>"
    using call a by (auto simp: sys_close_def Let_def bind_Some_iff)
  note fd = argfd_open [OF a]
  have len: "length (ofile t) = NOFILE" using inv by (simp add: fd_inv_def)
  show ?thesis
    by (rule fd_inv_shifted [OF inv fileclose_shifted(1) [OF c fd_inv_argfd [OF inv a]]])
      (use fd len t' set_update_subset_insert [of "ofile t" fd None] in \<open>auto simp: count_list_update\<close>)
qed

lemma sys_read_inv: "fd_inv others t k \<Longrightarrow> sys_read t k = Some (r, t', k') \<Longrightarrow> fd_inv others t' k'"
  by (auto simp: sys_read_def bind_Some_iff split: option.splits elim!: fd_inv_same dest!: fileread_same)

lemma sys_write_inv: "fd_inv others t k \<Longrightarrow> sys_write t k = Some (r, t', k') \<Longrightarrow> fd_inv others t' k'"
  by (auto simp: sys_write_def bind_Some_iff split: option.splits elim!: fd_inv_same dest!: filewrite_same)

lemma filestat_same: "filestat k i = Some (s, k') \<Longrightarrow> same_refs k k'"
  by (auto simp: filestat_def Let_def bind_Some_iff split: if_splits)

lemma sys_fstat_inv: "fd_inv others t k \<Longrightarrow> sys_fstat t k = Some (r, t', k') \<Longrightarrow> fd_inv others t' k'"
  by (auto simp: sys_fstat_def bind_Some_iff split: option.splits elim!: fd_inv_same dest!: filestat_same)

lemma op_end_same: "op_end (k\<lparr>fs := st\<rparr>) = Some k' \<Longrightarrow> same_refs k k'" "op_end k = Some k' \<Longrightarrow> same_refs k k'"
  using op_end_ftable by (intro same_refs_ftable; fastforce)+

lemma op_begin_same: "op_begin k = Some k' \<Longrightarrow> same_refs k k'"
  by (intro same_refs_ftable op_begin_ftable)

lemma create_only_same: "create_only cw path ty maj mnr k = Some (r, k') \<Longrightarrow> same_refs k k'"
  by (auto simp: create_only_def bind_Some_iff split: option.splits dest: op_end_same)

lemma sys_mkdir_same: "sys_mkdir t k = Some (r, k') \<Longrightarrow> same_refs k k'"
  by (auto simp: sys_mkdir_def bind_Some_iff split: option.splits
      intro: same_refs_trans dest!: op_begin_same op_end_same create_only_same)

lemma sys_mknod_same: "sys_mknod t k = Some (r, k') \<Longrightarrow> same_refs k k'"
  by (auto simp: sys_mknod_def bind_Some_iff split: option.splits prod.splits
      intro: same_refs_trans dest!: op_begin_same op_end_same create_only_same)

lemma sys_link_same: "sys_link t k = Some (r, k') \<Longrightarrow> same_refs k k'"
  by (auto simp: sys_link_def bind_Some_iff split: option.splits
      intro: same_refs_trans dest!: op_begin_same op_end_same)

lemma sys_unlink_same: "sys_unlink t k = Some (r, k') \<Longrightarrow> same_refs k k'"
  by (auto simp: sys_unlink_def bind_Some_iff split: option.splits
      intro: same_refs_trans dest!: op_begin_same op_end_same)

lemma sys_chdir_inv:
  assumes "fd_inv others t k" "sys_chdir t k = Some (r, t', k')"
  shows "fd_inv others t' k'"
proof (rule fd_inv_same [OF assms(1)])
  show "same_refs k k'" "ofile t' = ofile t"
    using assms(2) by (auto simp: sys_chdir_def bind_Some_iff split: option.splits if_splits
      dest!: op_begin_same op_end_same) (erule (1) same_refs_trans)+
qed

lemma sys_printinfo_same: "sys_printinfo t k = Some (r, k') \<Longrightarrow> same_refs k k'"
  by (auto simp: sys_printinfo_def Let_def bind_Some_iff split: option.splits if_splits)

text \<open>Opening and closing the same new entry leaves the counts as they were.\<close>

lemma alloc_close_same:
  assumes "shifted (\<lambda>j. if j = f then 1 else 0) k k1" "fileclose k1 f = Some k2" "f < length (ftable k)"
  shows "same_refs k k2"
proof -
  have "f < length (ftable k1)" using assms(1,3) by (simp add: shifted_def)
  from shifted_trans [OF assms(1) fileclose_shifted(1) [OF assms(2) this]]
  show ?thesis by (auto simp: shifted_def)
qed

lemma open_file_same: "same_refs k (open_file path omode ip i k)"
  by (simp add: open_file_def set_file_same)

lemma sys_open_inv:
  assumes inv: "fd_inv others t k" and call: "sys_open t k = Some (r, t', k')"
  shows "fd_inv others t' k'"
proof (cases "\<exists>path omode. argstr 0 t = Some path \<and> argint 1 t = Some omode")
  case False
  then show ?thesis using inv call by (auto simp: sys_open_def split: option.splits)
next
  case True
  then obtain path omode where a: "argstr 0 t = Some path" "argint 1 t = Some omode" by blast
  obtain k1 res st where k1: "op_begin k = Some k1" "open_inode (cwd t) path omode (fs k1) = Some (res, st)"
    using call a by (auto simp: sys_open_def bind_Some_iff)
  define k2 where "k2 = k1\<lparr>fs := st\<rparr>"
  have inv2: "fd_inv others t k2"
    by (rule fd_inv_same [OF inv]) (use op_begin_same [OF k1(1)] in \<open>simp_all add: k2_def\<close>)
  note call' = call [unfolded sys_open_def a prod.case option.case k1 bind.simps Let_def, folded k2_def]
  show ?thesis
  proof (cases res)
    case None
    then show ?thesis using call' by (auto simp: bind_Some_iff elim!: fd_inv_same [OF inv2] dest!: op_end_same)
  next
    case (Some ip)
    obtain f k3 where fa: "filealloc k2 = (f, k3)" by (cases "filealloc k2")
    show ?thesis
    proof (cases f)
      case None
      then have "k3 = k2" using fa filealloc_None by simp
      then show ?thesis using call' Some fa None
        by (auto simp: bind_Some_iff elim!: fd_inv_same [OF inv2] dest!: op_end_same)
    next
      case f: (Some i)
      note sh = filealloc_shifted [OF fa [unfolded f]]
      obtain fd t1 where da: "fdalloc i t = (fd, t1)" by (cases "fdalloc i t")
      show ?thesis
      proof (cases fd)
        case None
        then have "t1 = t" using da fdalloc_None by simp
        obtain k4 st2 where k4: "fileclose k3 i = Some k4" "op_end (k4\<lparr>fs := st2\<rparr>) = Some k'" "t' = t"
          using call' Some fa f da None \<open>t1 = t\<close> by (auto simp: bind_Some_iff)
        have "same_refs k2 k'"
          by (rule same_refs_trans [OF alloc_close_same [OF sh(3) k4(1) sh(1)] op_end_same(1) [OF k4(2)]])
        then show ?thesis using fd_inv_same [OF inv2] k4(3) by simp
      next
        case (Some d)
        obtain st2 k4 where k4: "op_end (k3\<lparr>fs := st2\<rparr>) = Some k4" "t' = t1" "k' = open_file path omode ip i k4"
          using call' \<open>res = Some ip\<close> fa f da Some by (auto simp: bind_Some_iff)
        have "fd_inv others t1 k3" using fd_inv_fdalloc [OF inv2 sh(3,1)] da Some by simp
        moreover have "same_refs k3 k'"
          using same_refs_trans [OF op_end_same(1) [OF k4(1)] open_file_same] k4(3) by simp
        ultimately show ?thesis using fd_inv_same k4(2) by blast
      qed
    qed
  qed
qed

lemma close_two_same:
  assumes "shifted (\<lambda>j. (if j = f0 then 1 else 0) + (if j = f1 then 1 else 0)) k k1"
    "f0 < length (ftable k)" "f1 < length (ftable k)"
    "fileclose k1 f0 = Some k2" "fileclose k2 f1 = Some k3"
  shows "same_refs k k3"
proof -
  have "f0 < length (ftable k1)" using assms(1,2) by (simp add: shifted_def)
  note c0 = fileclose_shifted(1) [OF assms(4) this]
  have "f1 < length (ftable k2)" using c0 assms(1,3) by (simp add: shifted_def)
  note c1 = fileclose_shifted(1) [OF assms(5) this]
  from shifted_trans [OF assms(1) shifted_trans [OF c0 c1]] show ?thesis by (auto simp: shifted_def)
qed

lemma pipealloc_shifted:
  assumes "pipealloc k = Some (res, k')"
  shows "res = None \<Longrightarrow> same_refs k k'"
    "res = Some (f0, f1) \<Longrightarrow> f0 < length (ftable k) \<and> f1 < length (ftable k) \<and> f0 \<noteq> f1 \<and>
       shifted (\<lambda>j. (if j = f0 then 1 else 0) + (if j = f1 then 1 else 0)) k k'"
proof -
  obtain a k1 where a: "filealloc k = (a, k1)" by (cases "filealloc k")
  have "(res = None \<longrightarrow> same_refs k k') \<and> (res = Some (f0, f1) \<longrightarrow> f0 < length (ftable k) \<and> f1 < length (ftable k) \<and>
      f0 \<noteq> f1 \<and> shifted (\<lambda>j. (if j = f0 then 1 else 0) + (if j = f1 then 1 else 0)) k k')"
  proof (cases a)
    case None
    then show ?thesis using assms a filealloc_None [of k k1] by (auto simp: pipealloc_def)
  next
    case (Some g0)
    note s0 = filealloc_shifted [OF a [unfolded Some]]
    obtain b k2 where b: "filealloc k1 = (b, k2)" by (cases "filealloc k1")
    show ?thesis
    proof (cases b)
      case None
      then have "k2 = k1" using b filealloc_None by simp
      then have "fileclose k1 g0 = Some k'" "res = None"
        using assms a Some b None by (auto simp: pipealloc_def bind_Some_iff)
      then show ?thesis using alloc_close_same [OF s0(3) _ s0(1)] by simp
    next
      case b': (Some g1)
      note s1 = filealloc_shifted [OF b [unfolded b']]
      have len: "length (ftable k1) = length (ftable k)" and one: "fref (ftable k1 ! g0) = 1"
        using s0 by (simp_all add: shifted_def)
      have ne: "g0 \<noteq> g1" using one s1(2) by auto
      note sh = shifted_trans [OF s0(3) s1(3)]
      obtain p vm where p: "kalloc (kvm k2) = (p, vm)" by (cases "kalloc (kvm k2)")
      show ?thesis
      proof (cases "p = 0")
        case True
        obtain k3 where c: "fileclose (k2\<lparr>kvm := vm\<rparr>) g0 = Some k3" "fileclose k3 g1 = Some k'" "res = None"
          using assms a Some b b' p True by (auto simp: pipealloc_def bind_Some_iff)
        have "same_refs k k'"
          by (rule close_two_same [OF _ s0(1) _ c(1,2)]) (use sh s1(1) len in simp_all)
        then show ?thesis using c(3) by simp
      next
        case False
        define k3 where "k3 = k2\<lparr>kvm := vm, pipes := (pipes k2)(p := new_pipe (map (\<lambda>i. mem vm (p + 52 + word_of_nat i)) [0..<PIPESIZE]))\<rparr>"
        have r: "res = Some (g0, g1)" and k': "k' = set_file (set_file k3 g0 (pipe_file False p (ftable k3 ! g0))) g1
            (pipe_file True p (ftable (set_file k3 g0 (pipe_file False p (ftable k3 ! g0))) ! g1))"
          using assms a Some b b' p False by (auto simp: pipealloc_def Let_def k3_def)
        have "same_refs k2 k3" by (simp add: k3_def shifted_def)
        moreover have "same_refs k3 k'"
          unfolding k' by (rule same_refs_trans; rule set_file_same) (simp_all add: pipe_file_def)
        ultimately have "same_refs k2 k'" by (rule same_refs_trans)
        from shifted_trans [OF sh this] show ?thesis using r s0(1) s1(1) len ne by auto
      qed
    qed
  qed
  then show "res = None \<Longrightarrow> same_refs k k'"
    "res = Some (f0, f1) \<Longrightarrow> f0 < length (ftable k) \<and> f1 < length (ftable k) \<and> f0 \<noteq> f1 \<and>
       shifted (\<lambda>j. (if j = f0 then 1 else 0) + (if j = f1 then 1 else 0)) k k'" by blast+
qed

lemma sys_pipe_inv:
  assumes inv: "fd_inv others t k" and call: "sys_pipe t k = Some (r, t', k')"
  shows "fd_inv others t' k'"
proof (cases "argptr 0 8 t")
  case None
  then show ?thesis using inv call by (simp add: sys_pipe_def)
next
  case (Some p)
  obtain res k1 where pa: "pipealloc k = Some (res, k1)" using call Some by (auto simp: sys_pipe_def bind_Some_iff)
  note sh = pipealloc_shifted [OF pa]
  note call' = call [unfolded sys_pipe_def Some option.case pa bind.simps prod.case]
  show ?thesis
  proof (cases res)
    case None
    then show ?thesis using call' fd_inv_same [OF inv sh(1)] by simp
  next
    case res: (Some fs)
    obtain f0 f1 where f: "fs = (f0, f1)" by (cases fs)
    note sh2 = sh(2) [OF res [unfolded f]]
    have closed: "fd_inv others t' k'" if "fileclose k1 f0 = Some k2" "fileclose k2 f1 = Some k'" "ofile t' = ofile t" for k2
      using fd_inv_same [OF inv close_two_same [OF _ _ _ that(1,2)] that(3)] sh2 by blast
    obtain a t0 where a: "fdalloc f0 t = (a, t0)" by (cases "fdalloc f0 t")
    show ?thesis
    proof (cases a)
      case None
      then show ?thesis using call' res f a by (auto simp: bind_Some_iff intro: closed)
    next
      case a0: (Some fd0)
      note d0 = fdalloc_free [OF a [unfolded a0]]
      have len: "length (ofile t) = NOFILE" using inv by (simp add: fd_inv_def)
      obtain b t1 where b: "fdalloc f1 t0 = (b, t1)" by (cases "fdalloc f1 t0")
      show ?thesis
      proof (cases b)
        case None
        have "(ofile t)[fd0 := None] = ofile t" using d0(2) by (metis list_update_id)
        then show ?thesis using call' res f a a0 b None d0(3) by (auto simp: bind_Some_iff intro!: closed)
      next
        case b1: (Some fd1)
        note d1 = fdalloc_free [OF b [unfolded b1]]
        have t': "ofile t' = (ofile t)[fd0 := Some f0, fd1 := Some f1]" "k' = k1"
          using call' res f a a0 b b1 d0(3) d1(3) by auto
        have fr: "(ofile t)[fd0 := Some f0] ! fd1 = None" using d1(2) d0(3) by simp
        show ?thesis
        proof (rule fd_inv_shifted [OF inv, where d = "\<lambda>j. (if j = f0 then 1 else 0) + (if j = f1 then 1 else 0)"])
          show "length (ofile t') = NOFILE" using len t' by simp
          fix i
          show "Some i \<in> set (ofile t') \<Longrightarrow> Some i \<in> set (ofile t) \<or> i < length (ftable k)"
            using set_update_subset_insert [of "ofile t" fd0 "Some f0"] sh2
              set_update_subset_insert [of "(ofile t)[fd0 := Some f0]" fd1 "Some f1"] unfolding t' by blast
          show "int (count_list (ofile t') (Some i)) = int (count_list (ofile t) (Some i)) +
              ((if i = f0 then 1 else 0) + (if i = f1 then 1 else 0))"
            using d0 d1(1) fr len unfolding t' by (auto simp: count_list_update)
        qed (use sh2 t' in simp)
      qed
    qed
  qed
qed

lemmas call_same = sys_mkdir_same sys_mknod_same sys_link_same sys_unlink_same sys_printinfo_same
lemmas call_inv = sys_dup_inv sys_close_inv sys_read_inv sys_write_inv sys_fstat_inv sys_chdir_inv sys_open_inv sys_pipe_inv

lemma file_syscall_inv:
  assumes "fd_inv others t k" "file_syscall num t k = Some (r, t', k')"
  shows "fd_inv others t' k'"
  using assms(2) unfolding file_syscall_def Let_def
  by (auto split: if_splits intro: call_inv [OF assms(1)] fd_inv_same [OF assms(1)] dest: call_same)

text \<open>
  A process runs user code, which changes its memory and stack as it likes but not its descriptors, and
  makes file system calls.
\<close>

inductive task_step :: "task \<times> kern \<Rightarrow> task \<times> kern \<Rightarrow> bool" where
  user_code: "ofile t' = ofile t \<Longrightarrow> task_step (t, k) (t', k)"
| calls: "file_syscall num t k = Some (r, t', k') \<Longrightarrow> task_step (t, k) (t', k')"

text \<open>
  C11.  From a state in which the count of every open file is the number of references to it, any
  sequence of user code and file system calls keeps it so: the count is the number of descriptors of the
  process for the file plus the references held elsewhere.  So a file that a descriptor names is
  never free, and never reused for another open.
\<close>

theorem descriptors_counted:
  assumes "task_step\<^sup>*\<^sup>* (t, k) (t', k')" "fd_inv others t k"
  shows "fd_inv others t' k' \<and> (\<forall>fd < NOFILE. \<forall>f. ofile t' ! fd = Some f \<longrightarrow> 1 \<le> fref (ftable k' ! f))"
proof -
  have inv: "fd_inv others t' k'"
    using assms
  proof (induction "(t', k')" arbitrary: t' k' rule: rtranclp_induct)
    case (step y)
    obtain t1 k1 where y: "y = (t1, k1)" by (cases y)
    have "fd_inv others t1 k1" using step.hyps(3) y step.prems by blast
    with step.hyps(2) show ?case
      unfolding y by cases (auto elim: fd_inv_same file_syscall_inv)
  qed
  have "1 \<le> fref (ftable k' ! f)" if "fd < NOFILE" "ofile t' ! fd = Some f" for fd f
  proof -
    have m: "Some f \<in> set (ofile t')" using that inv nth_mem [of fd "ofile t'"] by (simp add: fd_inv_def)
    then have "count_list (ofile t') (Some f) \<noteq> 0" by (simp add: count_list_0_iff)
    then show ?thesis using inv m unfolding fd_inv_def by fastforce
  qed
  with inv show ?thesis by blast
qed

definition sample_kern :: kern where
  "sample_kern = \<lparr>fs = sample_st,
     ftable = [\<lparr>ftype = FD_INODE, fref = 1, readable = True, writable = False, fpipe = 0, fip = 0, foff = 0, fname = [97]\<rparr>],
     kvm = \<lparr>mem = (\<lambda>a. 0), freelist = 0, use_lock = True, kend = 0x80100000, kdata = 0x80108000, cr3 = 0, vout = []\<rparr>,
     pipes = (\<lambda>a. new_pipe []), wakes = []\<rparr>"

definition dup_task :: task where
  "dup_task = sample_task\<lparr>umem := (\<lambda>a. 0), ofile := Some 0 # replicate 15 None\<rparr>"

theorem descriptors_counted_witness:
  "\<exists>t' k'. file_syscall 10 dup_task sample_kern = Some (1, t', k') \<and> fd_inv (\<lambda>i. 0) t' k' \<and> fref (ftable k' ! 0) = 2"
proof -
  let ?t = "dup_task\<lparr>ofile := Some 0 # Some 0 # replicate 14 None\<rparr>"
  let ?k = "set_file sample_kern 0 ((ftable sample_kern ! 0)\<lparr>fref := 2\<rparr>)"
  have inv: "fd_inv (\<lambda>i. 0) dup_task sample_kern"
    by (auto simp: fd_inv_def dup_task_def sample_kern_def less_Suc_eq numeral_eq_Suc)
  have arg: "argfd 0 dup_task = Some (0, 0)"
    by (simp add: argfd_def argint_def fetchint_def dup_task_def sample_task_def)
  have fd: "fdalloc 0 dup_task = (Some 1, ?t)"
    by (simp add: fdalloc_def dup_task_def upt_conv_Cons numeral_eq_Suc)
  have call: "file_syscall 10 dup_task sample_kern = Some (1, ?t, ?k)"
    by (simp add: file_syscall_def sys_dup_def arg fd filedup_def) (simp add: sample_kern_def)
  have "task_step\<^sup>*\<^sup>* (dup_task, sample_kern) (?t, ?k)" by (intro r_into_rtranclp calls [OF call])
  from descriptors_counted [OF this inv] call show ?thesis
    by (auto simp: ftable_set_file sample_kern_def)
qed

subsection \<open>The name of an open file\<close>

text \<open>The elements of a path, as \<^verbatim>\<open>namex\<close> reads them.\<close>

function path_elems :: "u8 list \<Rightarrow> u8 list list" where
  "path_elems path = (case skipelem path of None \<Rightarrow> [] | Some (rest, name) \<Rightarrow> name # path_elems rest)"
  by pat_completeness auto
termination
  by (relation "measure length") (auto dest: skipelem_shorter)

declare path_elems.simps [simp del]

lemma skipelem_split:
  assumes "skipelem path = Some (rest, name)"
  obtains pre elem mid where "path = pre @ elem @ mid @ rest" "set pre \<subseteq> {47}" "set mid \<subseteq> {47}"
    "elem \<noteq> []" "47 \<notin> set elem" "name = take DIRSIZ elem" "rest \<noteq> [] \<longrightarrow> hd rest \<noteq> 47 \<and> mid \<noteq> []"
proof -
  define s where "s = dropWhile (\<lambda>c. c = 47) path"
  define u where "u = dropWhile (\<lambda>c. c \<noteq> 47) s"
  have s: "s \<noteq> []" "name = take DIRSIZ (takeWhile (\<lambda>c. c \<noteq> 47) s)" "rest = dropWhile (\<lambda>c. c = 47) u"
    using assms by (auto simp: skipelem_def Let_def s_def u_def split: if_splits)
  show ?thesis
  proof (rule that [of "takeWhile (\<lambda>c. c = 47) path" "takeWhile (\<lambda>c. c \<noteq> 47) s" "takeWhile (\<lambda>c. c = 47) u"])
    show "path = takeWhile (\<lambda>c. c = 47) path @ takeWhile (\<lambda>c. c \<noteq> 47) s @ takeWhile (\<lambda>c. c = 47) u @ rest"
      by (simp add: s(3) u_def) (simp add: s_def)
    show "set (takeWhile (\<lambda>c. c = 47) path) \<subseteq> {47}" "set (takeWhile (\<lambda>c. c = 47) u) \<subseteq> {47}"
      "47 \<notin> set (takeWhile (\<lambda>c. c \<noteq> 47) s)" by (auto dest: set_takeWhileD)
    have "hd s \<noteq> 47" using s(1) hd_dropWhile [of "\<lambda>c. c = 47" path] by (simp add: s_def)
    then show "takeWhile (\<lambda>c. c \<noteq> 47) s \<noteq> []" using s(1) by (cases s) auto
    show "rest \<noteq> [] \<longrightarrow> hd rest \<noteq> 47 \<and> takeWhile (\<lambda>c. c = 47) u \<noteq> []"
    proof
      assume r: "rest \<noteq> []"
      then have "u \<noteq> []" by (auto simp: s(3))
      then have "hd u = 47" using hd_dropWhile [of "\<lambda>c. c \<noteq> 47" s] by (simp add: u_def)
      then show "hd rest \<noteq> 47 \<and> takeWhile (\<lambda>c. c = 47) u \<noteq> []"
        using r hd_dropWhile [of "\<lambda>c. c = 47" u] \<open>u \<noteq> []\<close> by (cases u) (auto simp: s(3))
    qed
  qed (use s in simp_all)
qed

lemma drop_slashes: "set xs \<subseteq> {47} \<Longrightarrow> dropWhile (\<lambda>c. c = 47) (xs @ ys) = dropWhile (\<lambda>c. c = 47) ys"
  by (rule dropWhile_append2) auto

lemma take_to_slash: "47 \<notin> set xs \<Longrightarrow> takeWhile (\<lambda>c. c \<noteq> 47) (xs @ ys) = xs @ takeWhile (\<lambda>c. c \<noteq> 47) ys"
  by (rule takeWhile_append2) auto

lemma savefilename_last:
  assumes "set pre \<subseteq> {47}" "set mid \<subseteq> {47}" "elem \<noteq> []" "47 \<notin> set elem"
  shows "savefilename (pre @ elem @ mid) = take DIRSIZ elem"
proof -
  have "last elem \<noteq> 47" using assms(3,4) last_in_set by metis
  then have "dropWhile (\<lambda>c. c = 47) (rev mid @ rev elem @ rev pre) = rev elem @ rev pre"
    using assms by (subst drop_slashes) (auto simp: dropWhile_eq_self_iff hd_rev)
  moreover have "takeWhile (\<lambda>c. c \<noteq> 47) (rev elem @ rev pre) = rev elem"
    using assms(1,4) by (cases "rev pre") (auto simp: take_to_slash takeWhile_eq_all_conv)
  ultimately show ?thesis by (simp add: savefilename_def)
qed

lemma savefilename_rest:
  assumes "set mid \<subseteq> {47}" "mid \<noteq> []" "rest \<noteq> []" "hd rest \<noteq> 47"
  shows "savefilename (xs @ mid @ rest) = savefilename rest"
proof -
  let ?d = "dropWhile (\<lambda>c. c = 47) (rev rest)"
  have "\<exists>c \<in> set (rev rest). c \<noteq> 47" using assms(3,4) by (metis hd_in_set set_rev)
  then have d: "dropWhile (\<lambda>c. c = 47) (rev rest @ rev mid @ rev xs) = ?d @ rev mid @ rev xs"
    by (auto simp: dropWhile_append1)
  have "takeWhile (\<lambda>c. c \<noteq> 47) (?d @ rev mid @ rev xs) = takeWhile (\<lambda>c. c \<noteq> 47) ?d"
  proof (cases "\<exists>c \<in> set ?d. c = 47")
    case True
    then show ?thesis by (auto intro: takeWhile_append1)
  next
    case False
    moreover have "last mid \<in> {47}" using assms(1,2) last_in_set by (metis subsetD)
    then have "hd (rev mid @ rev xs) = 47" using assms(2) by (simp add: hd_rev)
    moreover have "rev mid @ rev xs \<noteq> []" using assms(2) by simp
    ultimately obtain ys where ys: "rev mid @ rev xs = 47 # ys" by (cases "rev mid @ rev xs") auto
    have nm: "47 \<notin> set ?d" using False by blast
    have "takeWhile (\<lambda>c. c \<noteq> 47) (?d @ 47 # ys) = ?d" 
      using take_to_slash [OF nm, of "47 # ys"] by (simp only: takeWhile.simps simp_thms if_False append_Nil2)
    moreover have "takeWhile (\<lambda>c. c \<noteq> 47) ?d = ?d" 
      using take_to_slash [OF nm, of "[]"] by (simp only: takeWhile.simps append_Nil2)
    ultimately show ?thesis unfolding ys by (rule trans [OF _ sym])
  qed
  then show ?thesis using d by (simp add: savefilename_def Let_def)
qed

text \<open>
  The name that \<^verbatim>\<open>open\<close> keeps for \<^verbatim>\<open>printinfo\<close>, computed from the end of the path backwards, is the last
  of the elements that the path lookup reads from the front, cut to \<^verbatim>\<open>DIRSIZ\<close> bytes as there, and is
  empty exactly for a path with no element.
\<close>

theorem savefilename_last_elem:
  "savefilename path = (if path_elems path = [] then [] else last (path_elems path)) \<and>
   (savefilename path = [] \<longleftrightarrow> path_elems path = [])"
proof (induction path rule: path_elems.induct)
  case (1 path)
  show ?case
  proof (cases "skipelem path")
    case None
    then have "dropWhile (\<lambda>c. c = 47) path = []" by (auto simp: skipelem_def Let_def split: if_splits)
    then have "\<forall>c \<in> set (rev path). c = 47" by (simp add: dropWhile_eq_Nil_conv)
    then have "dropWhile (\<lambda>c. c = 47) (rev path) = []" unfolding dropWhile_eq_Nil_conv .
    then have "savefilename path = []" by (simp only: savefilename_def Let_def) simp
    then show ?thesis using None by (simp add: path_elems.simps [of path])
  next
    case (Some p)
    obtain rest name where sk: "skipelem path = Some (rest, name)" using Some by (cases p) auto
    obtain pre elem mid where sp: "path = pre @ elem @ mid @ rest" "set pre \<subseteq> {47}" "set mid \<subseteq> {47}"
      "elem \<noteq> []" "47 \<notin> set elem" "name = take DIRSIZ elem" "rest \<noteq> [] \<longrightarrow> hd rest \<noteq> 47 \<and> mid \<noteq> []"
      by (rule skipelem_split [OF sk])
    have es: "path_elems path = name # path_elems rest" using sk by (simp add: path_elems.simps [of path])
    show ?thesis
    proof (cases "rest = []")
      case True
      then have "path_elems rest = []" by (simp add: path_elems.simps skipelem_def)
      moreover have "savefilename path = name" using savefilename_last [OF sp(2-5)] sp True by simp
      ultimately show ?thesis using es sp(4,6) by simp
    next
      case False
      then have "savefilename path = savefilename rest"
        using savefilename_rest [of mid rest "pre @ elem"] sp by simp
      moreover have "path_elems rest \<noteq> []"
        using False sp(7) by (cases rest) (simp_all add: path_elems.simps [of "_ # _"] skipelem_def Let_def)
      ultimately show ?thesis using 1 [OF sk refl] es by (metis last_ConsR list.distinct(1))
    qed
  qed
qed

end
