(* ===== verification/Xv6_Proc.thy ===== *)
theory Xv6_Proc
  imports Xv6_Syscalls
begin

text \<open>
  The processes of the continuous-sector kernel: \<^verbatim>\<open>proc.c\<close>, the process calls of \<^verbatim>\<open>sysproc.c\<close> and the parts of
  its \<^verbatim>\<open>vm.c\<close> that differ from the other kernel's.

  The process table is a list of \<^verbatim>\<open>NPROC\<close> entries, a process pointer is an index of it and the null pointer is \<open>None\<close>.
  \<open>cpus\<close> has the process each processor runs (\<^verbatim>\<open>c->proc\<close>).  \<^verbatim>\<open>swtch\<close> stores the registers of a kernel thread in
  \<^verbatim>\<open>context\<close>; \<open>ctx\<close> names the place where it goes on when it is switched to again, and \<open>kpc\<close> says how far a
  process is in a call that gives up \<^verbatim>\<open>ptable.lock\<close> before it is done.  What the code does while it holds
  \<^verbatim>\<open>ptable.lock\<close> is one operation here.  \<open>None\<close> is a \<^verbatim>\<open>panic\<close>, a file system call that has to wait, or an overflow of
  \<^verbatim>\<open>nextpid\<close>, which C leaves undefined.
\<close>

abbreviation "NPROC \<equiv> (64 :: nat)"

datatype procstate = UNUSED | EMBRYO | SLEEPING | RUNNABLE | RUNNING | ZOMBIE

datatype wchan = ProcChan nat | OtherChan u32

datatype resume = AtForkret | AtSleep | AtYield

datatype kpc = Idle | Forking nat bool | Exiting | Waiting

record proc =
  sz :: u32
  pgdir :: u32
  kstack :: u32
  state :: procstate
  pid :: int
  parent :: "nat option"
  tf :: u32
  pcontext :: u32
  chan :: "wchan option"
  killed :: bool
  pofile :: "nat option list"
  pcwd :: "nat option"
  name :: "u8 list"
  ctx :: resume
  kpc :: kpc

text \<open>\<open>trapret\<close> and \<open>forkret_sym\<close> are the addresses of the two functions; \<open>first_ret\<close> is the static flag of \<^verbatim>\<open>forkret\<close>.\<close>

record sys =
  kn :: kern
  procs :: "proc list"
  nextpid :: int
  initproc :: "nat option"
  cpus :: "nat option list"
  trapret :: u32
  forkret_sym :: u32
  first_ret :: bool

definition upd :: "nat \<Rightarrow> (proc \<Rightarrow> proc) \<Rightarrow> sys \<Rightarrow> sys" where
  "upd i f s = s\<lparr>procs := (procs s)[i := f (procs s ! i)]\<rparr>"

definition on_vm :: "(vmem \<Rightarrow> vmem) \<Rightarrow> sys \<Rightarrow> sys" where
  "on_vm f s = s\<lparr>kn := (kn s)\<lparr>kvm := f (kvm (kn s))\<rparr>\<rparr>"

definition try_vm :: "(vmem \<Rightarrow> vmem option) \<Rightarrow> sys \<Rightarrow> sys option" where
  "try_vm f s = do { vm \<leftarrow> f (kvm (kn s)); Some (on_vm (\<lambda>_. vm) s) }"

subsection \<open>Address spaces of this kernel\<close>

partial_function (option) cs_deallocuvm_loop :: "u32 \<Rightarrow> u32 \<Rightarrow> u32 \<Rightarrow> vmem \<Rightarrow> vmem option" where
  "cs_deallocuvm_loop pgd a oldsz s =
     (if a < oldsz then
        let pte = fst (walkpgdir pgd a False s) in
        if pte = 0 then cs_deallocuvm_loop pgd (PGADDR (PDX a + 1) 0 0 - PGSIZE + PGSIZE) oldsz s
        else if load s pte AND PTE_P \<noteq> 0 then
          (let pa = PTE_ADDR (load s pte) in
           if pa = 0 then None
           else do {
             s \<leftarrow> kfree (P2V pa) s;
             cs_deallocuvm_loop pgd (a + PGSIZE) oldsz (store pte 0 s)
           })
        else cs_deallocuvm_loop pgd (a + PGSIZE) oldsz s
      else Some s)"

definition cs_deallocuvm :: "u32 \<Rightarrow> u32 \<Rightarrow> u32 \<Rightarrow> vmem \<Rightarrow> (u32 \<times> vmem) option" where
  "cs_deallocuvm pgd oldsz newsz s =
     (if newsz \<ge> oldsz then Some (oldsz, s)
      else do {
        s \<leftarrow> cs_deallocuvm_loop pgd (PGROUNDUP newsz) oldsz s;
        Some (newsz, s)
      })"

definition cs_freevm :: "u32 \<Rightarrow> vmem \<Rightarrow> vmem option" where
  "cs_freevm pgd s =
     (if pgd = 0 then None
      else do {
        (_, s) \<leftarrow> cs_deallocuvm pgd KERNBASE 0 s;
        s \<leftarrow> free_tables pgd [0..<1024] s;
        kfree pgd s
      })"

fun cs_setupkvm_loop :: "u32 \<Rightarrow> (u32 \<times> u32 \<times> u32 \<times> u32) list \<Rightarrow> vmem \<Rightarrow> (u32 \<times> vmem) option" where
  "cs_setupkvm_loop pgd [] s = Some (pgd, s)"
| "cs_setupkvm_loop pgd ((virt, phys_start, phys_end, perm) # ks) s = do {
     (r, s) \<leftarrow> mappages pgd virt (phys_end - phys_start) phys_start perm s;
     if r < 0 then do { s \<leftarrow> cs_freevm pgd s; Some (0, s) }
     else cs_setupkvm_loop pgd ks s
   }"

definition cs_setupkvm :: "vmem \<Rightarrow> (u32 \<times> vmem) option" where
  "cs_setupkvm s =
     (case kalloc s of (pgd, s) \<Rightarrow>
        if pgd = 0 then Some (0, s)
        else let s = memset pgd 0 PGSIZE s in
          if P2V PHYSTOP > DEVSPACE then None
          else cs_setupkvm_loop pgd (kmap s) s)"

partial_function (option) cs_copyuvm_loop :: "u32 \<Rightarrow> u32 \<Rightarrow> u32 \<Rightarrow> u32 \<Rightarrow> vmem \<Rightarrow> (u32 \<times> vmem) option" where
  "cs_copyuvm_loop pgd d i n s =
     (if i < n then
        let pte = fst (walkpgdir pgd i False s) in
        if pte = 0 then None
        else if load s pte AND PTE_P = 0 then None
        else
          let pa = PTE_ADDR (load s pte); flags = PTE_FLAGS (load s pte) in
          (case kalloc s of (mm, s) \<Rightarrow>
             if mm = 0 then do { s \<leftarrow> cs_freevm d s; Some (0, s) }
             else do {
               (r, s) \<leftarrow> mappages d i PGSIZE (V2P mm) flags (memmove mm (P2V pa) PGSIZE s);
               if r < 0 then do { s \<leftarrow> kfree mm s; s \<leftarrow> cs_freevm d s; Some (0, s) }
               else cs_copyuvm_loop pgd d (i + PGSIZE) n s
             })
      else Some (d, s))"

definition cs_copyuvm :: "u32 \<Rightarrow> u32 \<Rightarrow> vmem \<Rightarrow> (u32 \<times> vmem) option" where
  "cs_copyuvm pgd n s = do {
     (d, s) \<leftarrow> cs_setupkvm s;
     if d = 0 then Some (0, s) else cs_copyuvm_loop pgd d 0 n s
   }"

definition switchuvm :: "nat \<Rightarrow> sys \<Rightarrow> sys option" where
  "switchuvm i s =
     (let p = procs s ! i in
      if kstack p = 0 then None
      else if pgdir p = 0 then None
      else Some (on_vm (\<lambda>vm. vm\<lparr>cr3 := V2P (pgdir p)\<rparr>) s))"

subsection \<open>Creating processes\<close>

definition safestrcpy :: "u8 list \<Rightarrow> nat \<Rightarrow> u8 list" where
  "safestrcpy t n = take (n - 1) t"

text \<open>A trap frame takes 76 bytes and a context 20, with \<^verbatim>\<open>eip\<close> last; they lie at the top of the kernel stack.\<close>

definition allocproc :: "sys \<Rightarrow> (nat option \<times> sys) option" where
  "allocproc s =
     (case find (\<lambda>i. state (procs s ! i) = UNUSED) [0..<length (procs s)] of
        None \<Rightarrow> Some (None, s)
      | Some i \<Rightarrow>
          if nextpid s \<ge> 2 ^ 31 - 1 then None
          else
            let n = nextpid s;
                s = upd i (\<lambda>p. p\<lparr>state := EMBRYO, pid := n\<rparr>) (s\<lparr>nextpid := n + 1\<rparr>);
                (a, vm) = kalloc (kvm (kn s));
                s = upd i (\<lambda>p. p\<lparr>kstack := a\<rparr>) (on_vm (\<lambda>_. vm) s) in
            if a = 0 then Some (None, upd i (\<lambda>p. p\<lparr>state := UNUSED\<rparr>) s)
            else
              let t = a + PGSIZE - 76;
                  cx = t - 4 - 20;
                  s = on_vm (\<lambda>vm. store (cx + 16) (forkret_sym s) (memset cx 0 20 (store (t - 4) (trapret s) vm))) s in
              Some (Some i, upd i (\<lambda>p. p\<lparr>tf := t, pcontext := cx, ctx := AtForkret, kpc := Idle\<rparr>) s))"

definition store16 :: "u32 \<Rightarrow> u16 \<Rightarrow> vmem \<Rightarrow> vmem" where
  "store16 a v s = s\<lparr>mem := (mem s)(a := ucast v, a + 1 := ucast (drop_bit 8 v))\<rparr>"

text \<open>The segment selectors and flags of a process about to enter user mode at address 0.\<close>

definition init_tf :: "u32 \<Rightarrow> vmem \<Rightarrow> vmem" where
  "init_tf t vm =
     (let vm = memset t 0 76 vm;
          vm = store16 (t + 60) (3 * 8 OR 3) vm;
          vm = store16 (t + 44) (4 * 8 OR 3) vm;
          vm = store16 (t + 40) (4 * 8 OR 3) vm;
          vm = store16 (t + 72) (4 * 8 OR 3) vm;
          vm = store (t + 64) 0x200 vm;
          vm = store (t + 68) PGSIZE vm in
      store (t + 56) 0 vm)"

definition userinit :: "u32 \<Rightarrow> u32 \<Rightarrow> sys \<Rightarrow> sys option" where
  "userinit code len s = do {
     (r, s) \<leftarrow> allocproc s;
     i \<leftarrow> r;
     (d, vm) \<leftarrow> cs_setupkvm (kvm (kn s));
     if d = 0 then None
     else do {
       vm \<leftarrow> inituvm d code len vm;
       (let s = on_vm (\<lambda>_. init_tf (tf (procs s ! i)) vm) (s\<lparr>initproc := Some i\<rparr>) in do {
         (ip, st) \<leftarrow> namei (fs (kn s)) 0 [47];
         Some (upd i (\<lambda>p. p\<lparr>pgdir := d, sz := PGSIZE, name := safestrcpy (bytes_of ''initcode'') 16,
             pcwd := ip, state := RUNNABLE\<rparr>) (s\<lparr>kn := (kn s)\<lparr>fs := st\<rparr>\<rparr>))
       })
     }
   }"

fun dup_files :: "nat option list \<Rightarrow> kern \<Rightarrow> kern option" where
  "dup_files [] k = Some k"
| "dup_files (None # fds) k = dup_files fds k"
| "dup_files (Some f # fds) k = do { k \<leftarrow> filedup k f; dup_files fds k }"

text \<open>The part of \<^verbatim>\<open>fork\<close> between \<^verbatim>\<open>allocproc\<close> and the change of state; the result is whether the copy was made.\<close>

definition fork_copy :: "nat \<Rightarrow> nat \<Rightarrow> sys \<Rightarrow> (bool \<times> sys) option" where
  "fork_copy i j s =
     (let cur = procs s ! i; np = procs s ! j in do {
        (d, vm) \<leftarrow> cs_copyuvm (pgdir cur) (sz cur) (kvm (kn s));
        (let s = upd j (\<lambda>p. p\<lparr>pgdir := d\<rparr>) (on_vm (\<lambda>_. vm) s) in
         if d = 0 then do {
           s \<leftarrow> try_vm (kfree (kstack np)) s;
           Some (False, upd j (\<lambda>p. p\<lparr>kstack := 0, state := UNUSED\<rparr>) s)
         }
         else
           let s = upd j (\<lambda>p. p\<lparr>sz := sz cur, parent := Some i\<rparr>) s;
               s = on_vm (\<lambda>vm. store (tf np + 28) 0 (memmove (tf np) (tf cur) 76 vm)) s in do {
             k \<leftarrow> dup_files (pofile cur) (kn s);
             c \<leftarrow> pcwd cur;
             Some (True, upd j (\<lambda>p. p\<lparr>pofile := map2 (\<lambda>old f. if f = None then old else f) (pofile p) (pofile cur),
                 pcwd := Some c, name := safestrcpy (name cur) 16\<rparr>)
               (s\<lparr>kn := k\<lparr>fs := idup (fs k) c\<rparr>\<rparr>))
           })
      })"

definition fork_run :: "nat \<Rightarrow> sys \<Rightarrow> sys" where
  "fork_run j s = upd j (\<lambda>p. p\<lparr>state := RUNNABLE\<rparr>) s"

definition fork :: "nat \<Rightarrow> sys \<Rightarrow> (int \<times> sys) option" where
  "fork i s = do {
     (r, s) \<leftarrow> allocproc s;
     (case r of
        None \<Rightarrow> Some (- 1, s)
      | Some j \<Rightarrow> do {
          (ok, s) \<leftarrow> fork_copy i j s;
          Some (if ok then (pid (procs s ! j), fork_run j s) else (- 1, s))
        })
   }"

subsection \<open>Sleeping and waking\<close>

text \<open>\<^verbatim>\<open>sched\<close> on processor \<open>c\<close>; the panics on locks and interrupts are not modelled.\<close>

definition sched :: "nat \<Rightarrow> nat \<Rightarrow> resume \<Rightarrow> sys \<Rightarrow> sys option" where
  "sched c i r s =
     (if state (procs s ! i) = RUNNING then None
      else Some ((upd i (\<lambda>p. p\<lparr>ctx := r\<rparr>) s)\<lparr>cpus := (cpus s)[c := None]\<rparr>))"

definition yield :: "nat \<Rightarrow> nat \<Rightarrow> sys \<Rightarrow> sys option" where
  "yield c i s = sched c i AtYield (upd i (\<lambda>p. p\<lparr>state := RUNNABLE\<rparr>) s)"

definition sleep :: "nat \<Rightarrow> nat \<Rightarrow> wchan \<Rightarrow> sys \<Rightarrow> sys option" where
  "sleep c i ch s = sched c i AtSleep (upd i (\<lambda>p. p\<lparr>chan := Some ch, state := SLEEPING\<rparr>) s)"

definition wakeup1 :: "wchan option \<Rightarrow> sys \<Rightarrow> sys" where
  "wakeup1 ch s = s\<lparr>procs := map (\<lambda>p. if state p = SLEEPING \<and> chan p = ch then p\<lparr>state := RUNNABLE\<rparr> else p) (procs s)\<rparr>"

definition wakeup :: "wchan \<Rightarrow> sys \<Rightarrow> sys" where
  "wakeup ch s = wakeup1 (Some ch) s"

definition kill :: "int \<Rightarrow> sys \<Rightarrow> int \<times> sys" where
  "kill n s =
     (case find (\<lambda>i. pid (procs s ! i) = n) [0..<length (procs s)] of
        None \<Rightarrow> (- 1, s)
      | Some i \<Rightarrow> (0, upd i (\<lambda>p. p\<lparr>killed := True, state := if state p = SLEEPING then RUNNABLE else state p\<rparr>) s))"

subsection \<open>The scheduler\<close>

definition forkret :: "sys \<Rightarrow> sys option" where
  "forkret s =
     (if first_ret s then do {
        b \<leftarrow> readsb (fs (kn s));
        st \<leftarrow> initlog ((fs (kn s))\<lparr>sb := b\<rparr>);
        Some (s\<lparr>first_ret := False, kn := (kn s)\<lparr>fs := st\<rparr>\<rparr>)
      } else Some s)"

text \<open>What the process does first when it runs again.\<close>

definition resume :: "nat \<Rightarrow> sys \<Rightarrow> sys option" where
  "resume i s =
     (case ctx (procs s ! i) of
        AtForkret \<Rightarrow> forkret s
      | AtSleep \<Rightarrow> Some (upd i (\<lambda>p. p\<lparr>chan := None\<rparr>) s)
      | AtYield \<Rightarrow> Some s)"

definition scheduler :: "nat \<Rightarrow> nat \<Rightarrow> sys \<Rightarrow> sys option" where
  "scheduler c i s =
     (if state (procs s ! i) \<noteq> RUNNABLE then Some s
      else do {
        s \<leftarrow> switchuvm i (s\<lparr>cpus := (cpus s)[c := Some i]\<rparr>);
        resume i (upd i (\<lambda>p. p\<lparr>state := RUNNING\<rparr>) s)
      })"

subsection \<open>Ending and waiting\<close>

fun close_files :: "nat option list \<Rightarrow> kern \<Rightarrow> kern option" where
  "close_files [] k = Some k"
| "close_files (None # fds) k = close_files fds k"
| "close_files (Some f # fds) k = do { k \<leftarrow> fileclose k f; close_files fds k }"

definition exit_files :: "nat \<Rightarrow> sys \<Rightarrow> sys option" where
  "exit_files i s =
     (if initproc s = Some i then None
      else do {
        k \<leftarrow> close_files (pofile (procs s ! i)) (kn s);
        c \<leftarrow> pcwd (procs s ! i);
        k \<leftarrow> op_begin k;
        st \<leftarrow> iput (fs k) c;
        k \<leftarrow> op_end (k\<lparr>fs := st\<rparr>);
        Some (upd i (\<lambda>p. p\<lparr>pofile := map (\<lambda>_. None) (pofile p), pcwd := None\<rparr>) (s\<lparr>kn := k\<rparr>))
      })"

fun abandon :: "nat \<Rightarrow> nat list \<Rightarrow> sys \<Rightarrow> sys" where
  "abandon i [] s = s"
| "abandon i (j # js) s =
     abandon i js
       (if parent (procs s ! j) = Some i then
          let s = upd j (\<lambda>p. p\<lparr>parent := initproc s\<rparr>) s in
          if state (procs s ! j) = ZOMBIE then wakeup1 (map_option ProcChan (initproc s)) s else s
        else s)"

definition exit_zombie :: "nat \<Rightarrow> nat \<Rightarrow> sys \<Rightarrow> sys option" where
  "exit_zombie c i s =
     (let s = wakeup1 (map_option ProcChan (parent (procs s ! i))) s;
          s = abandon i [0..<length (procs s)] s in
      sched c i AtYield (upd i (\<lambda>p. p\<lparr>state := ZOMBIE\<rparr>) s))"

definition exit :: "nat \<Rightarrow> nat \<Rightarrow> sys \<Rightarrow> sys option" where
  "exit c i s = do { s \<leftarrow> exit_files i s; exit_zombie c i s }"

definition reap :: "nat \<Rightarrow> sys \<Rightarrow> sys option" where
  "reap j s =
     (let p = procs s ! j in do {
        s \<leftarrow> try_vm (kfree (kstack p)) s;
        s \<leftarrow> try_vm (cs_freevm (pgdir p)) s;
        Some (upd j (\<lambda>p. p\<lparr>kstack := 0, pid := 0, parent := None, name := [], killed := False, state := UNUSED\<rparr>) s)
      })"

text \<open>One round of the loop of \<^verbatim>\<open>wait\<close>: its result, or \<open>None\<close> when the process went to sleep.\<close>

definition wait_round :: "nat \<Rightarrow> nat \<Rightarrow> sys \<Rightarrow> (int option \<times> sys) option" where
  "wait_round c i s =
     (case find (\<lambda>j. parent (procs s ! j) = Some i \<and> state (procs s ! j) = ZOMBIE) [0..<length (procs s)] of
        Some j \<Rightarrow> do { s' \<leftarrow> reap j s; Some (Some (pid (procs s ! j)), s') }
      | None \<Rightarrow>
          if (\<forall>p \<in> set (procs s). parent p \<noteq> Some i) \<or> killed (procs s ! i) then Some (Some (- 1), s)
          else do { s \<leftarrow> sleep c i (ProcChan i) s; Some (None, s) })"

subsection \<open>Process calls\<close>

definition sys_kill :: "task \<Rightarrow> sys \<Rightarrow> int \<times> sys" where
  "sys_kill t s = (case argint 0 t of None \<Rightarrow> (- 1, s) | Some n \<Rightarrow> kill (sint n) s)"

definition sys_getpid :: "nat \<Rightarrow> sys \<Rightarrow> int" where
  "sys_getpid i s = pid (procs s ! i)"

end
