(* ===== verification/Xv6_Processes.thy ===== *)
theory Xv6_Processes
  imports Xv6_Proc
begin

text \<open>
  The process table under interleaving.  A step is what a process, the scheduler of a processor or an interrupt
  does without giving up \<^verbatim>\<open>ptable.lock\<close>; steps of all processes mix in any order.  The invariant of the table holds in
  every state that can be reached from the first process: processes have different numbers, run on one processor,
  have a living parent, and no parent sleeps in \<^verbatim>\<open>wait\<close> while a child of it is a zombie.
\<close>

definition running :: "nat \<Rightarrow> nat \<Rightarrow> sys \<Rightarrow> bool" where
  "running c i s \<longleftrightarrow> c < length (cpus s) \<and> cpus s ! c = Some i"

text \<open>
  After a wakeup, \<^verbatim>\<open>wait\<close> scans the table again under the lock; here that is a step of its own, so there are more
  interleavings than in the code.  Other calls of a process may change its memory, its files and the rest of the kernel,
  but not the table; they are the last rule.
\<close>

inductive pstep :: "sys \<Rightarrow> sys \<Rightarrow> bool" where
  dispatch: "c < length (cpus s) \<Longrightarrow> cpus s ! c = None \<Longrightarrow> i < length (procs s) \<Longrightarrow> scheduler c i s = Some s' \<Longrightarrow> pstep s s'"
| preempt: "running c i s \<Longrightarrow> yield c i s = Some s' \<Longrightarrow> pstep s s'"
| block: "running c i s \<Longrightarrow> kpc (procs s ! i) \<noteq> Waiting \<Longrightarrow> sleep c i (OtherChan a) s = Some s' \<Longrightarrow> pstep s s'"
| wake: "pstep s (wakeup ch s)"
| kills: "pstep s (snd (kill n s))"
| noalloc: "allocproc s = Some (None, s') \<Longrightarrow> pstep s s'"
| alloc: "running c i s \<Longrightarrow> kpc (procs s ! i) = Idle \<Longrightarrow> allocproc s = Some (Some j, s') \<Longrightarrow>
    pstep s (upd i (\<lambda>p. p\<lparr>kpc := Forking j False\<rparr>) s')"
| copy: "running c i s \<Longrightarrow> kpc (procs s ! i) = Forking j False \<Longrightarrow> fork_copy i j s = Some (ok, s') \<Longrightarrow>
    pstep s (upd i (\<lambda>p. p\<lparr>kpc := if ok then Forking j True else Idle\<rparr>) s')"
| run: "running c i s \<Longrightarrow> kpc (procs s ! i) = Forking j True \<Longrightarrow> pstep s (upd i (\<lambda>p. p\<lparr>kpc := Idle\<rparr>) (fork_run j s))"
| close: "running c i s \<Longrightarrow> kpc (procs s ! i) = Idle \<Longrightarrow> exit_files i s = Some s' \<Longrightarrow> pstep s (upd i (\<lambda>p. p\<lparr>kpc := Exiting\<rparr>) s')"
| zombie: "running c i s \<Longrightarrow> kpc (procs s ! i) = Exiting \<Longrightarrow> exit_zombie c i s = Some s' \<Longrightarrow> pstep s s'"
| waits: "running c i s \<Longrightarrow> kpc (procs s ! i) \<in> {Idle, Waiting} \<Longrightarrow> wait_round c i s = Some (r, s') \<Longrightarrow>
    pstep s (upd i (\<lambda>p. p\<lparr>kpc := if r = None then Waiting else Idle\<rparr>) s')"
| call: "running c i s \<Longrightarrow> kpc (procs s ! i) = Idle \<Longrightarrow>
    pstep s (upd i (\<lambda>p. p\<lparr>sz := n, pgdir := d, pofile := fds, pcwd := w, name := nm\<rparr>) (s\<lparr>kn := k\<rparr>))"

subsection \<open>What the operations do to the table\<close>

text \<open>Most operations change one entry and leave the rest of the control state alone.\<close>

definition one :: "nat \<Rightarrow> proc \<Rightarrow> sys \<Rightarrow> sys \<Rightarrow> bool" where
  "one j q s s' \<longleftrightarrow> procs s' = (procs s)[j := q] \<and> nextpid s' = nextpid s \<and> initproc s' = initproc s \<and> cpus s' = cpus s"

lemma upd_simps [simp]:
  "procs (upd i f s) = (procs s)[i := f (procs s ! i)]" "nextpid (upd i f s) = nextpid s" "initproc (upd i f s) = initproc s"
  "cpus (upd i f s) = cpus s" "kn (upd i f s) = kn s"
  by (simp_all add: upd_def)

lemma on_vm_simps [simp]:
  "procs (on_vm g s) = procs s" "nextpid (on_vm g s) = nextpid s" "initproc (on_vm g s) = initproc s" "cpus (on_vm g s) = cpus s"
  by (simp_all add: on_vm_def)

lemma try_vm_simps:
  "try_vm g s = Some s' \<Longrightarrow> procs s' = procs s \<and> nextpid s' = nextpid s \<and> initproc s' = initproc s \<and> cpus s' = cpus s"
  by (auto simp: try_vm_def bind_Some_iff)

lemma sched_eq:
  "sched c i r s = Some s' \<Longrightarrow> state (procs s ! i) \<noteq> RUNNING \<and> procs s' = (procs s)[i := (procs s ! i)\<lparr>ctx := r\<rparr>] \<and>
     nextpid s' = nextpid s \<and> initproc s' = initproc s \<and> cpus s' = (cpus s)[c := None]"
  by (auto simp: sched_def split: if_splits)

lemma find_upt: "find P [0..<n] = Some i \<Longrightarrow> i < n \<and> P i"
  by (auto simp: find_Some_iff)

lemma allocproc_cases:
  assumes "allocproc s = Some (r, s')"
  shows "s' = s \<and> r = None \<or>
    (\<exists>j q. j < length (procs s) \<and> state (procs s ! j) = UNUSED \<and> procs s' = (procs s)[j := q] \<and> pid q = nextpid s \<and>
      nextpid s' = nextpid s + 1 \<and> initproc s' = initproc s \<and> cpus s' = cpus s \<and> parent q = parent (procs s ! j) \<and>
      killed q = killed (procs s ! j) \<and> chan q = chan (procs s ! j) \<and>
      (r = None \<and> state q = UNUSED \<and> kpc q = kpc (procs s ! j) \<or> r = Some j \<and> state q = EMBRYO \<and> kpc q = Idle))"
proof (cases "find (\<lambda>i. state (procs s ! i) = UNUSED) [0..<length (procs s)]")
  case None
  then show ?thesis using assms by (simp add: allocproc_def)
next
  case (Some j)
  note j = find_upt [OF Some]
  obtain a vm where k: "kalloc (kvm (kn s)) = (a, vm)" by (cases "kalloc (kvm (kn s))")
  let ?p = "(procs s ! j)\<lparr>pid := nextpid s, kstack := a\<rparr>"
  have n: "\<not> nextpid s \<ge> 2 ^ 31 - 1" using assms Some by (auto simp: allocproc_def)
  show ?thesis
  proof (cases "a = 0")
    case True
    then have "r = None" "procs s' = (procs s)[j := ?p\<lparr>state := UNUSED\<rparr>]" "nextpid s' = nextpid s + 1" "initproc s' = initproc s" "cpus s' = cpus s"
      using assms Some n k j by (auto simp: allocproc_def Let_def)
    then show ?thesis using j by (intro disjI2 exI [of _ j] exI [of _ "?p\<lparr>state := UNUSED\<rparr>"]) simp
  next
    case False
    let ?q = "(procs s ! j)\<lparr>state := EMBRYO, pid := nextpid s, kstack := a, tf := a + PGSIZE - 76, pcontext := a + PGSIZE - 76 - 4 - 20, ctx := AtForkret, kpc := Idle\<rparr>"
    have "r = Some j" "procs s' = (procs s)[j := ?q]" "nextpid s' = nextpid s + 1" "initproc s' = initproc s" "cpus s' = cpus s"
      using assms Some n k j False by (auto simp: allocproc_def Let_def)
    then show ?thesis using j by (intro disjI2 exI [of _ j] exI [of _ ?q]) simp
  qed
qed

lemma fork_copy_one:
  assumes "fork_copy i j s = Some (ok, s')"
  shows "\<exists>q. one j q s s' \<and> pid q = pid (procs s ! j) \<and> chan q = chan (procs s ! j) \<and> kpc q = kpc (procs s ! j) \<and>
    killed q = killed (procs s ! j) \<and>
    (if ok then parent q = Some i \<and> state q = state (procs s ! j) else parent q = parent (procs s ! j) \<and> state q = UNUSED)"
proof -
  obtain d vm where d: "cs_copyuvm (pgdir (procs s ! i)) (sz (procs s ! i)) (kvm (kn s)) = Some (d, vm)"
    using assms by (auto simp: fork_copy_def Let_def bind_Some_iff)
  show ?thesis
  proof (cases "d = 0")
    case True
    then obtain s1 where s1: "try_vm (kfree (kstack (procs s ! j))) (upd j (\<lambda>p. p\<lparr>pgdir := d\<rparr>) (on_vm (\<lambda>_. vm) s)) = Some s1"
      "ok = False" "s' = upd j (\<lambda>p. p\<lparr>kstack := 0, state := UNUSED\<rparr>) s1"
      using assms d by (auto simp: fork_copy_def Let_def bind_Some_iff)
    note t = try_vm_simps [OF s1(1)]
    have "one j ((procs s ! j)\<lparr>pgdir := d, kstack := 0, state := UNUSED\<rparr>) s s'"
      using t s1(3) by (cases "j < length (procs s)") (auto simp: one_def list_update_beyond)
    then show ?thesis using s1(2) by (intro exI) auto
  next
    case False
    then obtain k c where ok: "ok = True" and s': "s' = upd j (\<lambda>p. p\<lparr>pofile := map2 (\<lambda>old f. if f = None then old else f) (pofile p) (pofile (procs s ! i)),
                 pcwd := Some c, name := safestrcpy (name (procs s ! i)) 16\<rparr>)
       ((on_vm (\<lambda>vm. store (tf (procs s ! j) + 28) 0 (memmove (tf (procs s ! j)) (tf (procs s ! i)) 76 vm))
          (upd j (\<lambda>p. p\<lparr>sz := sz (procs s ! i), parent := Some i\<rparr>) (upd j (\<lambda>p. p\<lparr>pgdir := d\<rparr>) (on_vm (\<lambda>_. vm) s))))\<lparr>kn := k\<lparr>fs := idup (fs k) c\<rparr>\<rparr>)"
      using assms d by (auto simp: fork_copy_def Let_def bind_Some_iff)
    show ?thesis
      by (rule exI [of _ "(procs s ! j)\<lparr>pgdir := d, sz := sz (procs s ! i), parent := Some i,
          pofile := map2 (\<lambda>old f. if f = None then old else f) (pofile (procs s ! j)) (pofile (procs s ! i)),
          pcwd := Some c, name := safestrcpy (name (procs s ! i)) 16\<rparr>"])
        (cases "j < length (procs s)"; simp add: one_def s' ok list_update_beyond)
  qed
qed

lemma reap_one:
  assumes "reap j s = Some s'"
  shows "one j ((procs s ! j)\<lparr>kstack := 0, pid := 0, parent := None, name := [], killed := False, state := UNUSED\<rparr>) s s'"
  using assms by (auto simp: reap_def Let_def bind_Some_iff one_def dest!: try_vm_simps)

lemma exit_files_one:
  assumes "exit_files i s = Some s'"
  shows "initproc s \<noteq> Some i \<and> one i ((procs s ! i)\<lparr>pofile := map (\<lambda>_. None) (pofile (procs s ! i)), pcwd := None\<rparr>) s s'"
  using assms by (auto simp: exit_files_def bind_Some_iff one_def split: if_splits)

lemma scheduler_cases:
  assumes "scheduler c i s = Some s'"
  shows "s' = s \<or> state (procs s ! i) = RUNNABLE \<and> nextpid s' = nextpid s \<and> initproc s' = initproc s \<and> cpus s' = (cpus s)[c := Some i] \<and>
    (\<exists>q. procs s' = (procs s)[i := q] \<and> state q = RUNNING \<and> pid q = pid (procs s ! i) \<and> parent q = parent (procs s ! i) \<and> kpc q = kpc (procs s ! i))"
proof (cases "state (procs s ! i) = RUNNABLE")
  case True
  have fr: "forkret u = Some u' \<Longrightarrow> procs u' = procs u \<and> nextpid u' = nextpid u \<and> initproc u' = initproc u \<and> cpus u' = cpus u" for u u'
    by (auto simp: forkret_def bind_Some_iff split: if_splits)
  obtain s1 where s1: "switchuvm i (s\<lparr>cpus := (cpus s)[c := Some i]\<rparr>) = Some s1" "resume i (upd i (\<lambda>p. p\<lparr>state := RUNNING\<rparr>) s1) = Some s'"
    using assms True by (auto simp: scheduler_def bind_Some_iff)
  then have f1: "procs s1 = procs s" "nextpid s1 = nextpid s" "initproc s1 = initproc s" "cpus s1 = (cpus s)[c := Some i]"
    by (auto simp: switchuvm_def Let_def split: if_splits)
  let ?q = "(procs s ! i)\<lparr>state := RUNNING\<rparr>"
  have "procs s' = (procs s)[i := ?q] \<or> procs s' = (procs s)[i := ?q\<lparr>chan := None\<rparr>]"
    using s1(2) f1 fr [of "upd i (\<lambda>p. p\<lparr>state := RUNNING\<rparr>) s1" s']
    by (cases "i < length (procs s)") (auto simp: resume_def list_update_beyond split: resume.splits)
  moreover have "nextpid s' = nextpid s" "initproc s' = initproc s" "cpus s' = (cpus s)[c := Some i]"
    using s1(2) f1 fr [of "upd i (\<lambda>p. p\<lparr>state := RUNNING\<rparr>) s1" s'] by (auto simp: resume_def split: resume.splits)
  ultimately show ?thesis using True by fastforce
qed (use assms in \<open>simp add: scheduler_def\<close>)

lemma wakeup1_simps [simp]:
  "length (procs (wakeup1 ch s)) = length (procs s)" "nextpid (wakeup1 ch s) = nextpid s" "initproc (wakeup1 ch s) = initproc s"
  "cpus (wakeup1 ch s) = cpus s"
  by (simp_all add: wakeup1_def)

lemma wakeup1_nth:
  "k < length (procs s) \<Longrightarrow> procs (wakeup1 ch s) ! k =
     (if state (procs s ! k) = SLEEPING \<and> chan (procs s ! k) = ch then (procs s ! k)\<lparr>state := RUNNABLE\<rparr> else procs s ! k)"
  by (simp add: wakeup1_def)

text \<open>The entries after the children of \<open>i\<close> have been given away: a sleeper may have been woken.\<close>

definition woken :: "proc \<Rightarrow> proc \<Rightarrow> bool" where
  "woken p q \<longleftrightarrow> pid q = pid p \<and> chan q = chan p \<and> kpc q = kpc p \<and> (state q = state p \<or> state p = SLEEPING \<and> state q = RUNNABLE)"

lemma woken_refl: "woken p p"
  by (simp add: woken_def)

lemma woken_trans: "woken p q \<Longrightarrow> woken q r \<Longrightarrow> woken p r"
  by (auto simp: woken_def)

definition abandoned :: "nat \<Rightarrow> nat set \<Rightarrow> sys \<Rightarrow> sys \<Rightarrow> bool" where
  "abandoned i J s s' \<longleftrightarrow> length (procs s') = length (procs s) \<and> nextpid s' = nextpid s \<and> initproc s' = initproc s \<and> cpus s' = cpus s \<and>
     (\<forall>k < length (procs s). woken (procs s ! k) (procs s' ! k) \<and>
        parent (procs s' ! k) = (if k \<in> J \<and> parent (procs s ! k) = Some i then initproc s else parent (procs s ! k)) \<and>
        (state (procs s' ! k) = SLEEPING \<longrightarrow> chan (procs s ! k) = map_option ProcChan (initproc s) \<longrightarrow>
           (\<forall>j \<in> J. parent (procs s ! j) = Some i \<longrightarrow> state (procs s ! j) \<noteq> ZOMBIE)))"

lemma abandon_abandoned:
  assumes "distinct js" "\<And>j. j \<in> set js \<Longrightarrow> j < length (procs s)"
  shows "abandoned i (set js) s (abandon i js s)"
  using assms
proof (induction js arbitrary: s)
  case Nil
  then show ?case by (simp add: abandoned_def woken_refl)
next
  case (Cons j js)
  let ?c = "parent (procs s ! j) = Some i"
  let ?u = "upd j (\<lambda>p. p\<lparr>parent := initproc s\<rparr>) s"
  define s1 where "s1 = (if ?c then if state (procs s ! j) = ZOMBIE then wakeup1 (map_option ProcChan (initproc s)) ?u else ?u else s)"
  have j: "j < length (procs s)" using Cons.prems(2) by simp
  have eq: "abandon i (j # js) s = abandon i js s1" using j by (simp add: s1_def Let_def)
  have len: "length (procs s1) = length (procs s)" "nextpid s1 = nextpid s" "initproc s1 = initproc s" "cpus s1 = cpus s"
    by (simp_all add: s1_def)
  have e1: "woken (procs s ! k) (procs s1 ! k) \<and> parent (procs s1 ! k) = (if k = j \<and> ?c then initproc s else parent (procs s ! k)) \<and>
      (?c \<longrightarrow> state (procs s ! j) = ZOMBIE \<longrightarrow> chan (procs s ! k) = map_option ProcChan (initproc s) \<longrightarrow> state (procs s1 ! k) \<noteq> SLEEPING)"
    if "k < length (procs s)" for k
    using that j by (auto simp: s1_def woken_def wakeup1_nth nth_list_update)
  have zom: "state (procs s1 ! k) = ZOMBIE \<longleftrightarrow> state (procs s ! k) = ZOMBIE" if "k < length (procs s)" for k
    using e1 [OF that] by (auto simp: woken_def)
  have "abandoned i (set js) s1 (abandon i js s1)" using Cons.IH [of s1] Cons.prems len by auto
  then have IH: "length (procs (abandon i js s1)) = length (procs s)" "nextpid (abandon i js s1) = nextpid s"
    "initproc (abandon i js s1) = initproc s" "cpus (abandon i js s1) = cpus s"
    "\<And>k. k < length (procs s) \<Longrightarrow> woken (procs s1 ! k) (procs (abandon i js s1) ! k) \<and>
        parent (procs (abandon i js s1) ! k) = (if k \<in> set js \<and> parent (procs s1 ! k) = Some i then initproc s else parent (procs s1 ! k)) \<and>
        (state (procs (abandon i js s1) ! k) = SLEEPING \<longrightarrow> chan (procs s1 ! k) = map_option ProcChan (initproc s) \<longrightarrow>
           (\<forall>j \<in> set js. parent (procs s1 ! j) = Some i \<longrightarrow> state (procs s1 ! j) \<noteq> ZOMBIE))"
    unfolding abandoned_def len by auto
  show ?case
    unfolding eq abandoned_def
  proof (intro conjI allI impI IH(1-4))
    fix k assume k: "k < length (procs s)"
    note e = e1 [OF k] and i5 = IH(5) [OF k]
    show "woken (procs s ! k) (procs (abandon i js s1) ! k)" using e i5 woken_trans by blast
    show "parent (procs (abandon i js s1) ! k) =
        (if k \<in> set (j # js) \<and> parent (procs s ! k) = Some i then initproc s else parent (procs s ! k))"
      using e i5 Cons.prems(1) by auto
    assume sl: "state (procs (abandon i js s1) ! k) = SLEEPING" "chan (procs s ! k) = map_option ProcChan (initproc s)"
    have s1k: "state (procs s1 ! k) = SLEEPING" "chan (procs s1 ! k) = map_option ProcChan (initproc s)"
      using sl i5 e by (auto simp: woken_def)
    show "\<forall>l \<in> set (j # js). parent (procs s ! l) = Some i \<longrightarrow> state (procs s ! l) \<noteq> ZOMBIE"
    proof (intro ballI impI)
      fix l assume l: "l \<in> set (j # js)" "parent (procs s ! l) = Some i"
      then have ll: "l < length (procs s)" using Cons.prems(2) by simp
      show "state (procs s ! l) \<noteq> ZOMBIE"
      proof (cases "l = j")
        case True
        then show ?thesis using e s1k(1) sl(2) l(2) by blast
      next
        case False
        then have "parent (procs s1 ! l) = Some i" "l \<in> set js" using e1 [OF ll] l by auto
        then show ?thesis using i5 sl(1) s1k(2) zom [OF ll] by blast
      qed
    qed
  qed
qed

subsection \<open>The invariant\<close>

definition alive :: "proc \<Rightarrow> bool" where
  "alive p \<longleftrightarrow> state p \<in> {SLEEPING, RUNNABLE, RUNNING}"

text \<open>A processor runs a running process, and no two processors the same.\<close>

definition cpu_ok :: "sys \<Rightarrow> bool" where
  "cpu_ok s \<longleftrightarrow> (\<forall>c i. running c i s \<longrightarrow> i < NPROC \<and> state (procs s ! i) = RUNNING \<and> (\<forall>d. running d i s \<longrightarrow> d = c))"

definition pid_ok :: "sys \<Rightarrow> bool" where
  "pid_ok s \<longleftrightarrow> 0 < nextpid s \<and> (\<forall>i < NPROC. 0 \<le> pid (procs s ! i) \<and> pid (procs s ! i) < nextpid s \<and>
     (state (procs s ! i) \<noteq> UNUSED \<longrightarrow> pid (procs s ! i) \<noteq> 0) \<and>
     (\<forall>j < NPROC. pid (procs s ! j) = pid (procs s ! i) \<longrightarrow> pid (procs s ! i) \<noteq> 0 \<longrightarrow> j = i))"

definition family_ok :: "sys \<Rightarrow> bool" where
  "family_ok s \<longleftrightarrow> (\<exists>i < NPROC. initproc s = Some i \<and> alive (procs s ! i)) \<and>
     (\<forall>j < NPROC. (\<forall>i. parent (procs s ! j) = Some i \<longrightarrow> i < NPROC \<and> alive (procs s ! i)) \<and>
        (state (procs s ! j) = UNUSED \<longrightarrow> parent (procs s ! j) = None) \<and>
        (state (procs s ! j) = ZOMBIE \<or> alive (procs s ! j) \<longrightarrow> initproc s = Some j \<or> parent (procs s ! j) \<noteq> None) \<and>
        parent (procs s ! j) \<noteq> Some j \<and> (initproc s = Some j \<longrightarrow> parent (procs s ! j) = None))"

lemma family_okD:
  assumes "family_ok s" "j < NPROC"
  shows "parent (procs s ! j) = Some i \<Longrightarrow> i < NPROC \<and> alive (procs s ! i)" "state (procs s ! j) = UNUSED \<Longrightarrow> parent (procs s ! j) = None"
    "state (procs s ! j) = ZOMBIE \<or> alive (procs s ! j) \<Longrightarrow> initproc s = Some j \<or> parent (procs s ! j) \<noteq> None"
    "parent (procs s ! j) \<noteq> Some j" "initproc s = Some j \<Longrightarrow> parent (procs s ! j) = None"
  using assms unfolding family_ok_def by blast+

lemma family_keep:
  assumes f: "family_ok s" and "initproc s' = initproc s"
    and e: "\<And>m. m < NPROC \<Longrightarrow> (alive (procs s ! m) \<longrightarrow> alive (procs s' ! m)) \<and>
      (parent (procs s' ! m) = parent (procs s ! m) \<and> (state (procs s' ! m) = UNUSED \<longrightarrow> parent (procs s ! m) = None) \<and>
         (state (procs s' ! m) = ZOMBIE \<or> alive (procs s' ! m) \<longrightarrow> state (procs s ! m) = ZOMBIE \<or> alive (procs s ! m)) \<or>
       parent (procs s' ! m) = None \<and> state (procs s' ! m) \<noteq> ZOMBIE \<and> \<not> alive (procs s' ! m))"
  shows "family_ok s'"
  unfolding family_ok_def
proof (intro conjI allI impI)
  show "\<exists>i < NPROC. initproc s' = Some i \<and> alive (procs s' ! i)" using f assms(2) e unfolding family_ok_def by metis
  fix j assume j: "j < NPROC"
  note fj = family_okD [OF f j]
  show "i < NPROC" "alive (procs s' ! i)" if "parent (procs s' ! j) = Some i" for i
    using fj(1) [of i] e [OF j] e [of i] that by auto
  show "state (procs s' ! j) = UNUSED \<Longrightarrow> parent (procs s' ! j) = None" using e [OF j] by auto
  show "state (procs s' ! j) = ZOMBIE \<or> alive (procs s' ! j) \<Longrightarrow> initproc s' = Some j \<or> parent (procs s' ! j) \<noteq> None"
    using e [OF j] fj(3) assms(2) by metis
  show "parent (procs s' ! j) \<noteq> Some j" using e [OF j] fj(4) by auto
  show "initproc s' = Some j \<Longrightarrow> parent (procs s' ! j) = None" using e [OF j] fj(5) assms(2) by auto
qed

lemma family_okI:
  assumes "n < NPROC" "initproc s = Some n" "alive (procs s ! n)"
    "\<And>j i. j < NPROC \<Longrightarrow> parent (procs s ! j) = Some i \<Longrightarrow> i < NPROC \<and> alive (procs s ! i)"
    "\<And>j. j < NPROC \<Longrightarrow> state (procs s ! j) = UNUSED \<Longrightarrow> parent (procs s ! j) = None"
    "\<And>j. j < NPROC \<Longrightarrow> state (procs s ! j) = ZOMBIE \<or> alive (procs s ! j) \<Longrightarrow> n = j \<or> parent (procs s ! j) \<noteq> None"
    "\<And>j. j < NPROC \<Longrightarrow> parent (procs s ! j) \<noteq> Some j" "parent (procs s ! n) = None"
  shows "family_ok s"
  unfolding family_ok_def
proof (intro conjI allI impI)
  show "\<exists>i < NPROC. initproc s = Some i \<and> alive (procs s ! i)" using assms(1-3) by blast
qed (use assms in auto)

lemma initprocE:
  assumes "family_ok s"
  obtains n where "n < NPROC" "initproc s = Some n" "alive (procs s ! n)" "parent (procs s ! n) = None"
  using assms unfolding family_ok_def by blast

definition fork_ok :: "sys \<Rightarrow> bool" where
  "fork_ok s \<longleftrightarrow> (\<forall>i < NPROC. \<forall>j b. kpc (procs s ! i) = Forking j b \<longrightarrow> alive (procs s ! i) \<and> j < NPROC \<and> state (procs s ! j) = EMBRYO \<and>
     parent (procs s ! j) = (if b then Some i else None) \<and>
     (\<forall>k < NPROC. \<forall>c. kpc (procs s ! k) = Forking j c \<longrightarrow> k = i))"

text \<open>A process that sleeps in \<^verbatim>\<open>wait\<close> waits for itself as channel and has no zombie child.\<close>

definition wait_ok :: "sys \<Rightarrow> bool" where
  "wait_ok s \<longleftrightarrow> (\<forall>i < NPROC. state (procs s ! i) = SLEEPING \<longrightarrow> kpc (procs s ! i) = Waiting \<longrightarrow>
     chan (procs s ! i) = Some (ProcChan i) \<and> (\<forall>j < NPROC. parent (procs s ! j) = Some i \<longrightarrow> state (procs s ! j) \<noteq> ZOMBIE))"

definition table_ok :: "sys \<Rightarrow> bool" where
  "table_ok s \<longleftrightarrow> length (procs s) = NPROC \<and> cpu_ok s \<and> pid_ok s \<and> family_ok s \<and> fork_ok s \<and> wait_ok s"

lemmas table_defs = cpu_ok_def pid_ok_def family_ok_def fork_ok_def wait_ok_def

lemma table_okD:
  "table_ok s \<Longrightarrow> length (procs s) = NPROC" "table_ok s \<Longrightarrow> cpu_ok s" "table_ok s \<Longrightarrow> pid_ok s" "table_ok s \<Longrightarrow> family_ok s"
  "table_ok s \<Longrightarrow> fork_ok s" "table_ok s \<Longrightarrow> wait_ok s"
  by (simp_all add: table_ok_def)

text \<open>A step that moves entries within the live states, and keeps what the invariant speaks about.\<close>

definition calm :: "sys \<Rightarrow> sys \<Rightarrow> bool" where
  "calm s s' \<longleftrightarrow> length (procs s') = length (procs s) \<and> nextpid s' = nextpid s \<and> initproc s' = initproc s \<and>
     (\<forall>i < length (procs s). pid (procs s' ! i) = pid (procs s ! i) \<and> parent (procs s' ! i) = parent (procs s ! i) \<and>
        (alive (procs s ! i) \<and> alive (procs s' ! i) \<or> state (procs s' ! i) = state (procs s ! i)) \<and>
        (kpc (procs s' ! i) = kpc (procs s ! i) \<or> (\<forall>j b. kpc (procs s ! i) \<noteq> Forking j b \<and> kpc (procs s' ! i) \<noteq> Forking j b)))"

lemma calm_ok:
  assumes ok: "table_ok s" and c: "calm s s'" and cpu: "cpu_ok s'" and w: "wait_ok s'"
  shows "table_ok s'"
proof -
  note [simp] = table_okD(1) [OF ok]
  have e: "pid (procs s' ! i) = pid (procs s ! i)" "parent (procs s' ! i) = parent (procs s ! i)"
    "alive (procs s' ! i) = alive (procs s ! i)" "state (procs s' ! i) = UNUSED \<longleftrightarrow> state (procs s ! i) = UNUSED"
    "state (procs s' ! i) = ZOMBIE \<longleftrightarrow> state (procs s ! i) = ZOMBIE" "state (procs s' ! i) = EMBRYO \<longleftrightarrow> state (procs s ! i) = EMBRYO"
    "kpc (procs s' ! i) = Forking j b \<longleftrightarrow> kpc (procs s ! i) = Forking j b" if "i < NPROC" for i j b
    using c that by (auto simp: calm_def alive_def)
  have r: "nextpid s' = nextpid s" "initproc s' = initproc s" "length (procs s') = NPROC" using c by (auto simp: calm_def)
  have "pid_ok s'" using table_okD(3) [OF ok] by (simp add: pid_ok_def e r)
  moreover have "family_ok s'"
    by (rule family_keep [OF table_okD(4) [OF ok] r(2)]) (use e family_okD(2) [OF table_okD(4) [OF ok]] in blast)
  moreover have "fork_ok s'"
    unfolding fork_ok_def
  proof (intro allI impI)
    fix i j b assume i: "i < NPROC" "kpc (procs s' ! i) = Forking j b"
    have f: "alive (procs s ! i) \<and> j < NPROC \<and> state (procs s ! j) = EMBRYO \<and> parent (procs s ! j) = (if b then Some i else None) \<and>
        (\<forall>k < NPROC. \<forall>c. kpc (procs s ! k) = Forking j c \<longrightarrow> k = i)"
      using table_okD(5) [OF ok] i e(7) [OF i(1)] unfolding fork_ok_def by blast
    then show "alive (procs s' ! i) \<and> j < NPROC \<and> state (procs s' ! j) = EMBRYO \<and> parent (procs s' ! j) = (if b then Some i else None) \<and>
        (\<forall>k < NPROC. \<forall>c. kpc (procs s' ! k) = Forking j c \<longrightarrow> k = i)"
      using e(3) [OF i(1)] e(2,6) [of j] e(7) by auto
  qed
  ultimately show ?thesis using cpu w r by (simp add: table_ok_def)
qed

lemma running_ok:
  assumes "table_ok s" "running c i s"
  shows "i < NPROC" "i < length (procs s)" "state (procs s ! i) = RUNNING" "c < length (cpus s)" "alive (procs s ! i)"
    "\<And>d. running d i s \<Longrightarrow> d = c"
  using assms table_okD(1) [OF assms(1)] table_okD(2) [OF assms(1)] by (auto simp: cpu_ok_def running_def alive_def)

lemma wait_calm:
  assumes ok: "table_ok s" and c: "calm s s'"
    and w: "\<And>i. i < NPROC \<Longrightarrow> state (procs s' ! i) = SLEEPING \<Longrightarrow> kpc (procs s' ! i) = Waiting \<Longrightarrow>
      state (procs s ! i) = SLEEPING \<and> kpc (procs s ! i) = Waiting \<and> chan (procs s' ! i) = chan (procs s ! i)"
  shows "wait_ok s'"
  unfolding wait_ok_def
proof (intro allI impI)
  fix i assume i: "i < NPROC" "state (procs s' ! i) = SLEEPING" "kpc (procs s' ! i) = Waiting"
  have "parent (procs s' ! j) = parent (procs s ! j) \<and> (state (procs s' ! j) = ZOMBIE \<longrightarrow> state (procs s ! j) = ZOMBIE)" if "j < NPROC" for j
    using c table_okD(1) [OF ok] that by (auto simp: calm_def alive_def)
  then show "chan (procs s' ! i) = Some (ProcChan i) \<and> (\<forall>j < NPROC. parent (procs s' ! j) = Some i \<longrightarrow> state (procs s' ! j) \<noteq> ZOMBIE)"
    using table_okD(6) [OF ok] w [OF i] i(1) unfolding wait_ok_def by metis
qed

lemma cpu_same:
  assumes ok: "table_ok s" and "cpus s' = cpus s" "\<And>i. i < NPROC \<Longrightarrow> state (procs s ! i) = RUNNING \<Longrightarrow> state (procs s' ! i) = RUNNING"
  shows "cpu_ok s'"
  using table_okD(2) [OF ok] assms(2,3) by (auto simp: cpu_ok_def running_def)

lemma cpu_leave:
  assumes ok: "table_ok s" and r: "running c i s" and "cpus s' = (cpus s)[c := None]"
    and "\<And>k. k < NPROC \<Longrightarrow> k \<noteq> i \<Longrightarrow> state (procs s ! k) = RUNNING \<Longrightarrow> state (procs s' ! k) = RUNNING"
  shows "cpu_ok s'"
proof -
  have "running d k s \<and> k \<noteq> i" if "running d k s'" for d k
    using that assms(3) running_ok(6) [OF ok r, of d] running_ok(4) [OF ok r] by (cases "d = c") (auto simp: running_def)
  then show ?thesis using table_okD(2) [OF ok] assms(4) unfolding cpu_ok_def by blast
qed

lemma cpu_enter:
  assumes ok: "table_ok s" and "c < length (cpus s)" "cpus s ! c = None" "i < NPROC" "state (procs s ! i) \<noteq> RUNNING" "state (procs s' ! i) = RUNNING"
    and "cpus s' = (cpus s)[c := Some i]"
    and "\<And>k. k < NPROC \<Longrightarrow> k \<noteq> i \<Longrightarrow> state (procs s ! k) = RUNNING \<Longrightarrow> state (procs s' ! k) = RUNNING"
  shows "cpu_ok s'"
proof -
  have d: "d = c \<and> k = i \<or> d \<noteq> c \<and> k \<noteq> i \<and> running d k s" if "running d k s'" for d k
  proof (cases "d = c")
    case True
    then show ?thesis using that assms(2,7) by (auto simp: running_def)
  next
    case False
    then have "running d k s" using that assms(7) by (auto simp: running_def)
    moreover then have "k \<noteq> i" using running_ok(3) [OF ok] assms(5) by blast
    ultimately show ?thesis using False by blast
  qed
  show ?thesis
    unfolding cpu_ok_def
  proof (intro allI impI conjI)
    fix d k assume r: "running d k s'"
    then show "k < NPROC" "state (procs s' ! k) = RUNNING" using d [OF r] running_ok(1,3) [OF ok] assms(4,6,8) by blast+
    fix e assume "running e k s'"
    then show "e = d" using d [OF r] d running_ok(6) [OF ok] by blast
  qed
qed

lemma dispatch_ok:
  assumes ok: "table_ok s" and c: "c < length (cpus s)" "cpus s ! c = None" and i: "i < length (procs s)" and s': "scheduler c i s = Some s'"
  shows "table_ok s'"
proof -
  note [simp] = table_okD(1) [OF ok]
  consider "s' = s" | q where "state (procs s ! i) = RUNNABLE" "nextpid s' = nextpid s" "initproc s' = initproc s" "cpus s' = (cpus s)[c := Some i]"
    "procs s' = (procs s)[i := q]" "state q = RUNNING" "pid q = pid (procs s ! i)" "parent q = parent (procs s ! i)" "kpc q = kpc (procs s ! i)"
    using scheduler_cases [OF s'] by blast
  then show ?thesis
  proof cases
    case (2 q)
    have calm: "calm s s'" using 2 i by (auto simp: calm_def nth_list_update alive_def)
    moreover have "cpu_ok s'" by (rule cpu_enter [OF ok c, of i]) (use 2 i in auto)
    moreover have "wait_ok s'" by (rule wait_calm [OF ok calm]) (use 2 i in \<open>auto simp: nth_list_update split: if_splits\<close>)
    ultimately show ?thesis using calm_ok [OF ok] by blast
  qed (simp add: ok)
qed

lemma leave_ok:
  assumes ok: "table_ok s" and r: "running c i s" and q: "procs s' = (procs s)[i := q]" "alive q" "state q \<noteq> RUNNING"
    "pid q = pid (procs s ! i)" "parent q = parent (procs s ! i)" "kpc q = kpc (procs s ! i)"
    and s': "nextpid s' = nextpid s" "initproc s' = initproc s" "cpus s' = (cpus s)[c := None]"
    and w: "state q = SLEEPING \<longrightarrow> kpc q \<noteq> Waiting"
  shows "table_ok s'"
proof -
  note [simp] = table_okD(1) [OF ok] and rk = running_ok [OF ok r]
  have calm: "calm s s'" using q s' rk by (auto simp: calm_def nth_list_update)
  moreover have "cpu_ok s'" by (rule cpu_leave [OF ok r s'(3)]) (use q in simp)
  moreover have "wait_ok s'" by (rule wait_calm [OF ok calm]) (use q w rk in \<open>auto simp: nth_list_update split: if_splits\<close>)
  ultimately show ?thesis using calm_ok [OF ok] by blast
qed

lemma preempt_ok:
  assumes ok: "table_ok s" and r: "running c i s" and s': "yield c i s = Some s'"
  shows "table_ok s'"
  by (rule leave_ok [OF ok r, of s' "(procs s ! i)\<lparr>state := RUNNABLE, ctx := AtYield\<rparr>"])
    (use sched_eq [OF s' [unfolded yield_def]] running_ok(2) [OF ok r] in \<open>simp_all add: alive_def\<close>)

lemma block_ok:
  assumes ok: "table_ok s" and r: "running c i s" and w: "kpc (procs s ! i) \<noteq> Waiting" and s': "sleep c i ch s = Some s'"
  shows "table_ok s'"
  by (rule leave_ok [OF ok r, of s' "(procs s ! i)\<lparr>chan := Some ch, state := SLEEPING, ctx := AtSleep\<rparr>"])
    (use sched_eq [OF s' [unfolded sleep_def]] running_ok(2) [OF ok r] w in \<open>simp_all add: alive_def\<close>)

lemma wake_ok:
  assumes ok: "table_ok s"
  shows "table_ok (wakeup1 ch s)"
proof (rule calm_ok [OF ok])
  note [simp] = table_okD(1) [OF ok]
  show calm: "calm s (wakeup1 ch s)" by (auto simp: calm_def wakeup1_nth alive_def)
  show "cpu_ok (wakeup1 ch s)" by (rule cpu_same [OF ok]) (simp_all add: wakeup1_nth)
  show "wait_ok (wakeup1 ch s)" by (rule wait_calm [OF ok calm]) (auto simp: wakeup1_nth split: if_splits)
qed

lemma kills_ok:
  assumes ok: "table_ok s"
  shows "table_ok (snd (kill n s))"
proof (cases "find (\<lambda>i. pid (procs s ! i) = n) [0..<length (procs s)]")
  case None
  then show ?thesis using ok by (simp add: kill_def)
next
  case (Some i)
  note [simp] = table_okD(1) [OF ok]
  let ?s = "snd (kill n s)" and ?q = "(procs s ! i)\<lparr>killed := True, state := if state (procs s ! i) = SLEEPING then RUNNABLE else state (procs s ! i)\<rparr>"
  have q: "procs ?s = (procs s)[i := ?q]" "nextpid ?s = nextpid s" "initproc ?s = initproc s" "cpus ?s = cpus s" "i < NPROC"
    using Some find_upt [OF Some] by (simp_all add: kill_def)
  have calm: "calm s ?s" using q by (auto simp: calm_def nth_list_update alive_def)
  moreover have "cpu_ok ?s" by (rule cpu_same [OF ok]) (use q in \<open>auto simp: nth_list_update\<close>)
  moreover have "wait_ok ?s" by (rule wait_calm [OF ok calm]) (use q in \<open>auto simp: nth_list_update split: if_splits\<close>)
  ultimately show ?thesis using calm_ok [OF ok] by blast
qed

text \<open>A step of a running process that changes nothing the invariant speaks about, but its own progress.\<close>

lemma stay_ok:
  assumes ok: "table_ok s" and r: "running c i s" and q: "procs s' = (procs s)[i := q]" "state q = RUNNING" "pid q = pid (procs s ! i)"
    "parent q = parent (procs s ! i)" "\<And>j b. kpc (procs s ! i) \<noteq> Forking j b \<and> kpc q \<noteq> Forking j b"
    and s': "nextpid s' = nextpid s" "initproc s' = initproc s" "cpus s' = cpus s"
  shows "table_ok s'"
proof -
  note [simp] = table_okD(1) [OF ok] and rk = running_ok [OF ok r]
  have calm: "calm s s'" using q s' rk by (auto simp: calm_def nth_list_update)
  moreover have "cpu_ok s'" by (rule cpu_same [OF ok s'(3)]) (use q rk in \<open>auto simp: nth_list_update\<close>)
  moreover have "wait_ok s'" by (rule wait_calm [OF ok calm]) (use q rk in \<open>auto simp: nth_list_update split: if_splits\<close>)
  ultimately show ?thesis using calm_ok [OF ok] by blast
qed

lemma fork_okD:
  assumes "table_ok s" "m < NPROC" "kpc (procs s ! m) = Forking l a"
  shows "alive (procs s ! m) \<and> l < NPROC \<and> state (procs s ! l) = EMBRYO \<and> parent (procs s ! l) = (if a then Some m else None) \<and>
    (\<forall>n < NPROC. \<forall>c. kpc (procs s ! n) = Forking l c \<longrightarrow> n = m)"
  using table_okD(5) [OF assms(1)] assms(2,3) unfolding fork_ok_def by blast

lemma pid_keep:
  assumes "pid_ok s" "nextpid s' = nextpid s"
    and e: "\<And>i. i < NPROC \<Longrightarrow> pid (procs s' ! i) = pid (procs s ! i) \<and> (state (procs s ! i) = UNUSED \<longrightarrow> state (procs s' ! i) = UNUSED) \<or>
      pid (procs s' ! i) = 0 \<and> state (procs s' ! i) = UNUSED"
  shows "pid_ok s'"
  unfolding pid_ok_def
proof (intro conjI allI impI)
  note p = assms(1) [unfolded pid_ok_def]
  show "0 < nextpid s'" using p assms(2) by simp
  fix i :: nat assume i: "i < NPROC"
  have pi: "0 \<le> pid (procs s ! i) \<and> pid (procs s ! i) < nextpid s \<and> (state (procs s ! i) \<noteq> UNUSED \<longrightarrow> pid (procs s ! i) \<noteq> 0)" using p i by blast
  show "0 \<le> pid (procs s' ! i)" "pid (procs s' ! i) < nextpid s'" "state (procs s' ! i) \<noteq> UNUSED \<Longrightarrow> pid (procs s' ! i) \<noteq> 0"
    using pi p e [OF i] assms(2) by auto
  fix k :: nat assume k: "k < NPROC" "pid (procs s' ! k) = pid (procs s' ! i)" "pid (procs s' ! i) \<noteq> 0"
  then have "pid (procs s ! k) = pid (procs s ! i)" "pid (procs s ! i) \<noteq> 0" using e [OF i] e [OF k(1)] by auto
  then show "k = i" using p i k(1) by blast
qed

text \<open>A new entry, with \<open>q'\<close> the entry of the process that forks.\<close>

lemma pid_alloc:
  assumes ok: "pid_ok s" and "j < NPROC" "length (procs s) = NPROC" "procs s' = (procs s)[j := q]" "pid q = nextpid s" "nextpid s' = nextpid s + 1"
  shows "pid_ok s'"
  unfolding pid_ok_def
proof (intro conjI allI impI)
  note p = ok [unfolded pid_ok_def]
  show "0 < nextpid s'" using p assms by simp
  fix i :: nat assume i: "i < NPROC"
  have pi: "0 \<le> pid (procs s ! i) \<and> pid (procs s ! i) < nextpid s \<and> (state (procs s ! i) \<noteq> UNUSED \<longrightarrow> pid (procs s ! i) \<noteq> 0)" using p i by blast
  show "0 \<le> pid (procs s' ! i)" "pid (procs s' ! i) < nextpid s'"
    using pi p assms i by (auto simp: nth_list_update)
  show "state (procs s' ! i) \<noteq> UNUSED \<Longrightarrow> pid (procs s' ! i) \<noteq> 0" using pi p assms i by (cases "i = j") auto
  fix k :: nat assume k: "k < NPROC" "pid (procs s' ! k) = pid (procs s' ! i)" "pid (procs s' ! i) \<noteq> 0"
  have "pid (procs s ! k) < nextpid s" using p k by blast
  then show "k = i" using p pi assms i k by (cases "i = j"; cases "k = j") auto
qed

lemma noalloc_ok:
  assumes ok: "table_ok s" and s': "allocproc s = Some (None, s')"
  shows "table_ok s'"
proof (cases "s' = s")
  case False
  note [simp] = table_okD(1) [OF ok]
  obtain j q where q: "j < NPROC" "state (procs s ! j) = UNUSED" "procs s' = (procs s)[j := q]" "pid q = nextpid s" "nextpid s' = nextpid s + 1"
    "initproc s' = initproc s" "cpus s' = cpus s" "parent q = parent (procs s ! j)" "state q = UNUSED" "kpc q = kpc (procs s ! j)"
    using allocproc_cases [OF s'] False by auto
  have e: "state (procs s' ! i) = state (procs s ! i)" "parent (procs s' ! i) = parent (procs s ! i)" "kpc (procs s' ! i) = kpc (procs s ! i)"
    "alive (procs s' ! i) = alive (procs s ! i)" for i
    by (cases "i = j"; simp add: q alive_def)+
  have "chan (procs s' ! i) = chan (procs s ! i)" if "state (procs s ! i) = SLEEPING" for i using q that by (cases "i = j") auto
  then have "wait_ok s'" using table_okD(6) [OF ok] by (simp add: wait_ok_def e)
  moreover have "cpu_ok s'" using cpu_same [OF ok q(7)] by (simp add: e)
  moreover have "family_ok s'" using table_okD(4) [OF ok] unfolding family_ok_def e q(6) .
  moreover have "fork_ok s'" using table_okD(5) [OF ok] unfolding fork_ok_def e .
  ultimately show ?thesis using pid_alloc [OF table_okD(3) [OF ok] q(1) _ q(3-5)] q(3) by (simp add: table_ok_def)
qed (simp add: ok)

lemma alloc_ok:
  assumes ok: "table_ok s" and r: "running c i s" and idle: "kpc (procs s ! i) = Idle" and s': "allocproc s = Some (Some j, s')"
  shows "table_ok (upd i (\<lambda>p. p\<lparr>kpc := Forking j False\<rparr>) s')"
proof -
  note [simp] = table_okD(1) [OF ok] and rk = running_ok [OF ok r]
  obtain q where q: "j < NPROC" "state (procs s ! j) = UNUSED" "procs s' = (procs s)[j := q]" "pid q = nextpid s" "nextpid s' = nextpid s + 1"
    "initproc s' = initproc s" "cpus s' = cpus s" "parent q = parent (procs s ! j)" "state q = EMBRYO" "kpc q = Idle"
    using allocproc_cases [OF s'] by auto
  let ?t = "upd i (\<lambda>p. p\<lparr>kpc := Forking j False\<rparr>) s'"
  have ij: "i \<noteq> j" using q(2) rk(3) by auto
  have t: "procs ?t = (procs s)[j := q, i := (procs s ! i)\<lparr>kpc := Forking j False\<rparr>]" using q(3) ij by simp
  have nj: "kpc (procs s ! k) \<noteq> Forking j b" if k: "k < NPROC" for k b
  proof
    assume "kpc (procs s ! k) = Forking j b"
    then show False using fork_okD [OF ok k] q(2) by fastforce
  qed
  have pj: "parent (procs s ! j) = None" using table_okD(4) [OF ok] q(1,2) unfolding family_ok_def by blast
  have al: "alive (procs ?t ! k) = alive (procs s ! k)" "parent (procs ?t ! k) = parent (procs s ! k)"
    "state (procs ?t ! k) = (if k = j then EMBRYO else state (procs s ! k))" if "k < NPROC" for k
    unfolding t using q ij rk(1) by (cases "k = j"; cases "k = i"; simp add: alive_def)+
  have kp: "kpc (procs ?t ! k) = (if k = i then Forking j False else if k = j then Idle else kpc (procs s ! k))"
    "chan (procs ?t ! k) = (if k = j then chan q else chan (procs s ! k))" if "k < NPROC" for k
    unfolding t using q ij rk(1) by (cases "k = j"; cases "k = i"; simp)+
  have pid: "pid_ok ?t"
  proof -
    have "pid_ok s'" by (rule pid_alloc [OF table_okD(3) [OF ok] q(1) _ q(3-5)]) simp
    moreover have "pid (procs ?t ! k) = pid (procs s' ! k)" "state (procs ?t ! k) = state (procs s' ! k)" for k
      using q(3) rk(1) by (auto simp: nth_list_update)
    ultimately show ?thesis unfolding pid_ok_def by simp
  qed
  have "family_ok ?t"
    by (rule family_keep [OF table_okD(4) [OF ok]]) (use q(6) al pj family_okD(2) [OF table_okD(4) [OF ok]] in \<open>auto simp del: upd_simps(1) split: if_splits\<close>)
  moreover have "fork_ok ?t"
    unfolding fork_ok_def
  proof (intro allI impI)
    fix k l b assume k: "k < NPROC" "kpc (procs ?t ! k) = Forking l b"
    show "alive (procs ?t ! k) \<and> l < NPROC \<and> state (procs ?t ! l) = EMBRYO \<and> parent (procs ?t ! l) = (if b then Some k else None) \<and>
        (\<forall>m < NPROC. \<forall>c. kpc (procs ?t ! m) = Forking l c \<longrightarrow> m = k)"
    proof (cases "k = i")
      case True
      then have "l = j" "\<not> b" using k by (auto simp: kp simp del: upd_simps(1))
      then show ?thesis using True al rk q(1) pj nj kp by (auto simp del: upd_simps(1) split: if_splits)
    next
      case False
      then have kk: "kpc (procs s ! k) = Forking l b" "k \<noteq> j" using k by (auto simp: kp simp del: upd_simps(1) split: if_splits)
      note fork_okD [OF ok k(1) kk(1)]
      moreover have "l \<noteq> j" using nj [OF k(1)] kk(1) by blast
      ultimately show ?thesis using al k(1) kp by (auto simp del: upd_simps(1) split: if_splits)
    qed
  qed
  moreover have "wait_ok ?t"
    unfolding wait_ok_def
  proof (intro allI impI)
    fix k assume k: "k < NPROC" "state (procs ?t ! k) = SLEEPING" "kpc (procs ?t ! k) = Waiting"
    then have kk: "k \<noteq> j" "k \<noteq> i" "state (procs s ! k) = SLEEPING" "kpc (procs s ! k) = Waiting"
      using al(3) [OF k(1)] kp(1) [OF k(1)] by (auto simp del: upd_simps(1) split: if_splits)
    then have "chan (procs s ! k) = Some (ProcChan k) \<and> (\<forall>l < NPROC. parent (procs s ! l) = Some k \<longrightarrow> state (procs s ! l) \<noteq> ZOMBIE)"
      using table_okD(6) [OF ok] k(1) unfolding wait_ok_def by blast
    then show "chan (procs ?t ! k) = Some (ProcChan k) \<and> (\<forall>l < NPROC. parent (procs ?t ! l) = Some k \<longrightarrow> state (procs ?t ! l) \<noteq> ZOMBIE)"
      using al kp k(1) kk(1) by (auto simp del: upd_simps(1))
  qed
  moreover have "cpu_ok ?t" by (rule cpu_same [OF ok]) (use q(2,7) al(3) in \<open>auto simp del: upd_simps(1)\<close>)
  ultimately show ?thesis using pid q(3) by (simp add: table_ok_def)
qed

text \<open>The later steps of \<^verbatim>\<open>fork\<close>: \<open>q\<close> is the new entry of the child and \<open>k\<close> the progress of the parent.\<close>

lemma fork_step:
  assumes ok: "table_ok s" and r: "running c i s" and f: "kpc (procs s ! i) = Forking j b"
    and t: "procs t = (procs s)[j := q, i := (procs s ! i)\<lparr>kpc := k\<rparr>]" "nextpid t = nextpid s" "initproc t = initproc s" "cpus t = cpus s"
    and q: "pid q = pid (procs s ! j)" "kpc q = kpc (procs s ! j)"
    and fam: "parent q = Some i \<and> state q \<in> {EMBRYO, RUNNABLE} \<or> parent q = None \<and> state q = UNUSED"
    and k: "k = Idle \<or> k = Forking j True \<and> state q = EMBRYO \<and> parent q = Some i"
  shows "table_ok t"
proof -
  note [simp] = table_okD(1) [OF ok] and rk = running_ok [OF ok r]
  note F = fork_okD [OF ok]
  note Fj = F [OF rk(1) f]
  have j: "j < NPROC" "state (procs s ! j) = EMBRYO" using Fj by blast+
  have ij: "i \<noteq> j" using j rk(3) by auto
  have nf: "kpc (procs s ! j) \<noteq> Forking l a" for l a using F [OF j(1), of l a] j(2) by (auto simp: alive_def)
  have e: "state (procs t ! m) = (if m = j then state q else state (procs s ! m))" "parent (procs t ! m) = (if m = j then parent q else parent (procs s ! m))"
    "pid (procs t ! m) = pid (procs s ! m)" "kpc (procs t ! m) = (if m = i then k else kpc (procs s ! m))"
    "m \<noteq> j \<Longrightarrow> chan (procs t ! m) = chan (procs s ! m)" for m
    unfolding t using q ij rk(1) j(1) by (cases "m = j"; cases "m = i"; simp)+
  have al: "alive (procs s ! m) \<Longrightarrow> alive (procs t ! m)" "m \<noteq> j \<Longrightarrow> alive (procs t ! m) = alive (procs s ! m)" for m
    using j(2) by (auto simp: alive_def e)
  have "pid_ok t" by (rule pid_keep [OF table_okD(3) [OF ok] t(2)]) (use j(2) in \<open>auto simp: e\<close>)
  moreover have "cpu_ok t" by (rule cpu_same [OF ok t(4)]) (use j(2) in \<open>auto simp: e\<close>)
  moreover have "family_ok t"
  proof -
    note fa = family_okD [OF table_okD(4) [OF ok]]
    obtain n where n: "n < NPROC" "initproc s = Some n" "alive (procs s ! n)" "parent (procs s ! n) = None"
      using table_okD(4) [OF ok] by (rule initprocE)
    have nj: "n \<noteq> j" using n(3) j(2) by (auto simp: alive_def)
    show ?thesis
    proof (rule family_okI)
      show "n < NPROC" "initproc t = Some n" "alive (procs t ! n)" "parent (procs t ! n) = None" using n t(3) al(1) nj by (simp_all add: e)
      fix m l assume m: "m < NPROC" "parent (procs t ! m) = Some l"
      then show "l < NPROC \<and> alive (procs t ! l)" using fa(1) [OF m(1), of l] fam rk al(1) by (auto simp: e split: if_splits)
    next
      fix m assume m: "m < NPROC"
      show "state (procs t ! m) = UNUSED \<Longrightarrow> parent (procs t ! m) = None" using fa(2) [OF m] fam by (auto simp: e split: if_splits)
      show "parent (procs t ! m) \<noteq> Some m" using fa(4) [OF m] fam ij by (auto simp: e)
      show "state (procs t ! m) = ZOMBIE \<or> alive (procs t ! m) \<Longrightarrow> n = m \<or> parent (procs t ! m) \<noteq> None"
        using fa(3) [OF m] fam n(2) al(2) [of m] by (cases "m = j") (auto simp: e alive_def)
    qed
  qed
  moreover have "fork_ok t"
    unfolding fork_ok_def
  proof (intro allI impI)
    fix m l a assume m: "m < NPROC" "kpc (procs t ! m) = Forking l a"
    show "alive (procs t ! m) \<and> l < NPROC \<and> state (procs t ! l) = EMBRYO \<and> parent (procs t ! l) = (if a then Some m else None) \<and>
        (\<forall>n < NPROC. \<forall>c. kpc (procs t ! n) = Forking l c \<longrightarrow> n = m)"
    proof (cases "m = i")
      case True
      then show ?thesis using m k Fj al(1) [OF rk(5)] by (auto simp: e split: if_splits)
    next
      case False
      then have "kpc (procs s ! m) = Forking l a" using m by (simp add: e)
      note Fm = F [OF m(1) this]
      have "l \<noteq> j" using Fj m(1) \<open>kpc (procs s ! m) = Forking l a\<close> False by blast
      then show ?thesis using Fm False k al(1) [of m] by (auto simp: e split: if_splits)
    qed
  qed
  moreover have "wait_ok t"
    unfolding wait_ok_def
  proof (intro allI impI)
    fix m assume m: "m < NPROC" "state (procs t ! m) = SLEEPING" "kpc (procs t ! m) = Waiting"
    have mi: "m \<noteq> j" "m \<noteq> i" using m fam rk(3) j(2) ij by (auto simp: e split: if_splits)
    then have "chan (procs s ! m) = Some (ProcChan m) \<and> (\<forall>l < NPROC. parent (procs s ! l) = Some m \<longrightarrow> state (procs s ! l) \<noteq> ZOMBIE)"
      using table_okD(6) [OF ok] m unfolding wait_ok_def by (simp add: e)
    then show "chan (procs t ! m) = Some (ProcChan m) \<and> (\<forall>l < NPROC. parent (procs t ! l) = Some m \<longrightarrow> state (procs t ! l) \<noteq> ZOMBIE)"
      using mi fam by (auto simp: e)
  qed
  ultimately show ?thesis using t(1) by (simp add: table_ok_def)
qed

lemma copy_ok:
  assumes ok: "table_ok s" and r: "running c i s" and f: "kpc (procs s ! i) = Forking j False" and s': "fork_copy i j s = Some (b, s')"
  shows "table_ok (upd i (\<lambda>p. p\<lparr>kpc := if b then Forking j True else Idle\<rparr>) s')"
proof -
  note [simp] = table_okD(1) [OF ok] and rk = running_ok [OF ok r]
  obtain q where q: "one j q s s'" "pid q = pid (procs s ! j)" "kpc q = kpc (procs s ! j)"
    "if b then parent q = Some i \<and> state q = state (procs s ! j) else parent q = parent (procs s ! j) \<and> state q = UNUSED"
    using fork_copy_one [OF s'] by blast
  have j: "state (procs s ! j) = EMBRYO" "parent (procs s ! j) = None" using fork_okD [OF ok rk(1) f] by auto
  have ij: "i \<noteq> j" using j rk(3) by auto
  show ?thesis
    by (rule fork_step [OF ok r f, of _ q "if b then Forking j True else Idle"])
      (use q j ij in \<open>auto simp: one_def split: if_splits\<close>)
qed

lemma run_ok:
  assumes ok: "table_ok s" and r: "running c i s" and f: "kpc (procs s ! i) = Forking j True"
  shows "table_ok (upd i (\<lambda>p. p\<lparr>kpc := Idle\<rparr>) (fork_run j s))"
proof -
  note rk = running_ok [OF ok r]
  have j: "state (procs s ! j) = EMBRYO" "parent (procs s ! j) = Some i" using fork_okD [OF ok rk(1) f] by auto
  have ij: "i \<noteq> j" using j rk(3) by auto
  show ?thesis
    by (rule fork_step [OF ok r f, of _ "(procs s ! j)\<lparr>state := RUNNABLE\<rparr>" Idle]) (use j ij in \<open>auto simp: fork_run_def\<close>)
qed

lemma reap_ok:
  assumes ok: "table_ok s" and z: "j < NPROC" "state (procs s ! j) = ZOMBIE" and s': "reap j s = Some s'"
  shows "table_ok s'"
proof -
  note [simp] = table_okD(1) [OF ok]
  let ?q = "(procs s ! j)\<lparr>kstack := 0, pid := 0, parent := None, name := [], killed := False, state := UNUSED\<rparr>"
  note o = reap_one [OF s', unfolded one_def]
  have e: "state (procs s' ! m) = (if m = j then UNUSED else state (procs s ! m))" "parent (procs s' ! m) = (if m = j then None else parent (procs s ! m))"
    "pid (procs s' ! m) = (if m = j then 0 else pid (procs s ! m))" "kpc (procs s' ! m) = kpc (procs s ! m)" "chan (procs s' ! m) = chan (procs s ! m)"
    "alive (procs s' ! m) = alive (procs s ! m)" for m
    using o z by (cases "m = j"; simp add: alive_def)+
  have i: "initproc s' = initproc s" "length (procs s') = NPROC" "nextpid s' = nextpid s" "cpus s' = cpus s" using o by simp_all
  have "pid_ok s'" by (rule pid_keep [OF table_okD(3) [OF ok] i(3)]) (auto simp: e)
  moreover have "cpu_ok s'" by (rule cpu_same [OF ok i(4)]) (use z in \<open>auto simp: e\<close>)
  moreover have "family_ok s'"
    by (rule family_keep [OF table_okD(4) [OF ok] i(1)]) (use z family_okD(2) [OF table_okD(4) [OF ok]] e(6) in \<open>auto simp: e(1,2) alive_def\<close>)
  moreover have "fork_ok s'"
    unfolding fork_ok_def e(4,6)
  proof (intro allI impI)
    fix m l a assume m: "m < NPROC" "kpc (procs s ! m) = Forking l a"
    note F = fork_okD [OF ok m]
    then have "l \<noteq> j" using z by auto
    then show "alive (procs s ! m) \<and> l < NPROC \<and> state (procs s' ! l) = EMBRYO \<and> parent (procs s' ! l) = (if a then Some m else None) \<and>
      (\<forall>n < NPROC. \<forall>c. kpc (procs s ! n) = Forking l c \<longrightarrow> n = m)" using F unfolding e by simp
  qed
  moreover have "wait_ok s'" using table_okD(6) [OF ok] unfolding wait_ok_def by (simp add: e)
  ultimately show ?thesis using i by (simp add: table_ok_def)
qed


text \<open>
  Leaving as a zombie.  The parent is awake, and so is the first process if it inherits a zombie.  \<open>s\<close> is the table
  after the parent has been woken.
\<close>

definition left :: "nat \<Rightarrow> sys \<Rightarrow> sys \<Rightarrow> bool" where
  "left i s t \<longleftrightarrow> length (procs t) = NPROC \<and> nextpid t = nextpid s \<and> initproc t = initproc s \<and>
     (\<forall>m < NPROC. pid (procs t ! m) = pid (procs s ! m) \<and> kpc (procs t ! m) = kpc (procs s ! m) \<and> chan (procs t ! m) = chan (procs s ! m) \<and>
        parent (procs t ! m) = (if parent (procs s ! m) = Some i then initproc s else parent (procs s ! m)) \<and>
        (if m = i then state (procs t ! m) = ZOMBIE
         else state (procs t ! m) = state (procs s ! m) \<or> state (procs s ! m) = SLEEPING \<and> state (procs t ! m) = RUNNABLE) \<and>
        (state (procs t ! m) = SLEEPING \<longrightarrow> chan (procs s ! m) = map_option ProcChan (initproc s) \<longrightarrow>
           (\<forall>j < NPROC. parent (procs s ! j) = Some i \<longrightarrow> state (procs s ! j) \<noteq> ZOMBIE)))"

lemma leftD:
  assumes "left i s t"
  shows "length (procs t) = NPROC" "nextpid t = nextpid s" "initproc t = initproc s"
    "\<And>m. m < NPROC \<Longrightarrow> pid (procs t ! m) = pid (procs s ! m)" "\<And>m. m < NPROC \<Longrightarrow> kpc (procs t ! m) = kpc (procs s ! m)"
    "\<And>m. m < NPROC \<Longrightarrow> chan (procs t ! m) = chan (procs s ! m)"
    "\<And>m. m < NPROC \<Longrightarrow> parent (procs t ! m) = (if parent (procs s ! m) = Some i then initproc s else parent (procs s ! m))"
    "i < NPROC \<Longrightarrow> state (procs t ! i) = ZOMBIE"
    "\<And>m. m < NPROC \<Longrightarrow> m \<noteq> i \<Longrightarrow> state (procs t ! m) = state (procs s ! m) \<or> state (procs s ! m) = SLEEPING \<and> state (procs t ! m) = RUNNABLE"
    "\<And>m j. m < NPROC \<Longrightarrow> j < NPROC \<Longrightarrow> state (procs t ! m) = SLEEPING \<Longrightarrow> chan (procs s ! m) = map_option ProcChan (initproc s) \<Longrightarrow>
       parent (procs s ! j) = Some i \<Longrightarrow> state (procs s ! j) \<noteq> ZOMBIE"
    "\<And>m. m < NPROC \<Longrightarrow> m \<noteq> i \<Longrightarrow> alive (procs t ! m) = alive (procs s ! m)"
proof -
  show "alive (procs t ! m) = alive (procs s ! m)" if "m < NPROC" "m \<noteq> i" for m
    using assms that unfolding left_def by (auto simp: alive_def)
qed (use assms in \<open>simp_all add: left_def\<close>)

lemma left_pid:
  assumes ok: "table_ok s" and r: "running c i s" and l: "left i s t"
  shows "pid_ok t"
proof (rule pid_keep [OF table_okD(3) [OF ok] leftD(2) [OF l]])
  fix m assume m: "m < NPROC"
  show "pid (procs t ! m) = pid (procs s ! m) \<and> (state (procs s ! m) = UNUSED \<longrightarrow> state (procs t ! m) = UNUSED) \<or>
      pid (procs t ! m) = 0 \<and> state (procs t ! m) = UNUSED"
    using leftD(4,9) [OF l m] running_ok(3) [OF ok r] by (cases "m = i") auto
qed

lemma left_family:
  assumes ok: "table_ok s" and r: "running c i s" and l: "left i s t" and ni: "initproc s \<noteq> Some i"
  shows "family_ok t"
proof -
  note rk = running_ok [OF ok r] and d = leftD [OF l] and fa = family_okD [OF table_okD(4) [OF ok]]
  obtain n where n: "n < NPROC" "initproc s = Some n" "alive (procs s ! n)" "parent (procs s ! n) = None"
    using table_okD(4) [OF ok] by (rule initprocE)
  have nn: "n \<noteq> i" using n(2) ni by auto
  show ?thesis
  proof (rule family_okI)
    show "n < NPROC" "initproc t = Some n" "alive (procs t ! n)" "parent (procs t ! n) = None" using n d(3) d(11) [OF n(1) nn] d(7) [OF n(1)] by simp_all
  next
    fix m l assume m: "m < NPROC" "parent (procs t ! m) = Some l"
    then have "l = n \<or> l \<noteq> i \<and> parent (procs s ! m) = Some l" using d(7) [OF m(1)] n(2) by (auto split: if_splits)
    then show "l < NPROC \<and> alive (procs t ! l)" using fa(1) [OF m(1), of l] d(11) [of l] n nn by auto
  next
    fix m assume m: "m < NPROC"
    show "parent (procs t ! m) = None" if "state (procs t ! m) = UNUSED"
      using that d(7,9) [OF m] d(8) fa(2) [OF m] m by (cases "m = i") (auto split: if_splits)
    show "parent (procs t ! m) \<noteq> Some m" using fa(4) [OF m] d(7) [OF m] n(2,4) by (auto split: if_splits)
    assume zm: "state (procs t ! m) = ZOMBIE \<or> alive (procs t ! m)"
    have "state (procs s ! m) = ZOMBIE \<or> alive (procs s ! m)"
      using zm d(9,11) [OF m] rk(5) by (cases "m = i") auto
    then show "n = m \<or> parent (procs t ! m) \<noteq> None" using fa(3) [OF m] d(7) [OF m] n(2) by (auto split: if_splits)
  qed
qed

lemma left_fork:
  assumes ok: "table_ok s" and r: "running c i s" and l: "left i s t" and x: "kpc (procs s ! i) = Exiting"
  shows "fork_ok t"
  unfolding fork_ok_def
proof (intro allI impI)
  note d = leftD [OF l]
  fix m l a assume m: "m < NPROC" "kpc (procs t ! m) = Forking l a"
  then have k: "kpc (procs s ! m) = Forking l a" by (simp add: d(5))
  note F = fork_okD [OF ok m(1) k]
  have mi: "m \<noteq> i" "l \<noteq> i" using k x F running_ok(3) [OF ok r] by auto
  have "\<forall>x < NPROC. \<forall>c. kpc (procs t ! x) = Forking l c \<longrightarrow> x = m" using F d(5) by auto
  then show "alive (procs t ! m) \<and> l < NPROC \<and> state (procs t ! l) = EMBRYO \<and> parent (procs t ! l) = (if a then Some m else None) \<and>
      (\<forall>x < NPROC. \<forall>c. kpc (procs t ! x) = Forking l c \<longrightarrow> x = m)"
    using F mi d(11) [OF m(1) mi(1)] d(7,9) [of l] by auto
qed

lemma left_wait:
  assumes ok: "table_ok s" and r: "running c i s" and l: "left i s t"
    and awake: "\<And>m. m < NPROC \<Longrightarrow> state (procs s ! m) \<noteq> SLEEPING \<or> chan (procs s ! m) \<noteq> map_option ProcChan (parent (procs s ! i))"
  shows "wait_ok t"
  unfolding wait_ok_def
proof (intro allI impI)
  note rk = running_ok [OF ok r] and d = leftD [OF l]
  fix m assume m: "m < NPROC" "state (procs t ! m) = SLEEPING" "kpc (procs t ! m) = Waiting"
  then have sl: "m \<noteq> i" "state (procs s ! m) = SLEEPING" "kpc (procs s ! m) = Waiting"
    using d(5,9) [OF m(1)] d(8) m by (cases "m = i"; auto)+
  have w: "chan (procs s ! m) = Some (ProcChan m)" "\<And>j. j < NPROC \<Longrightarrow> parent (procs s ! j) = Some m \<Longrightarrow> state (procs s ! j) \<noteq> ZOMBIE"
    using table_okD(6) [OF ok] m(1) sl(2,3) unfolding wait_ok_def by blast+
  have "state (procs t ! j) \<noteq> ZOMBIE" if j: "j < NPROC" "parent (procs t ! j) = Some m" for j
  proof (cases "j = i")
    case True
    then have "parent (procs s ! i) = Some m"
      using d(7) [OF j(1)] j(2) family_okD(4) [OF table_okD(4) [OF ok] rk(1)] by (auto split: if_splits)
    then show ?thesis using awake [OF m(1)] sl(2) w(1) by simp
  next
    case False
    then have "state (procs t ! j) = ZOMBIE \<Longrightarrow> state (procs s ! j) = ZOMBIE" using d(9) [OF j(1)] by auto
    moreover have "parent (procs s ! j) = Some m \<or> parent (procs s ! j) = Some i \<and> initproc s = Some m"
      using d(7) [OF j(1)] j(2) by (auto split: if_splits)
    ultimately show ?thesis using w(2) [OF j(1)] d(10) [OF m(1) j(1) m(2)] w(1) by auto
  qed
  then show "chan (procs t ! m) = Some (ProcChan m) \<and> (\<forall>j < NPROC. parent (procs t ! j) = Some m \<longrightarrow> state (procs t ! j) \<noteq> ZOMBIE)"
    using w(1) d(6) [OF m(1)] by simp
qed

lemma zombie_ok:
  assumes ok0: "table_ok s0" and r0: "running c i s0" and x: "kpc (procs s0 ! i) = Exiting" and ni: "initproc s0 \<noteq> Some i"
    and s': "exit_zombie c i s0 = Some t"
  shows "table_ok t"
proof -
  define s where "s = wakeup1 (map_option ProcChan (parent (procs s0 ! i))) s0"
  define u where "u = abandon i [0..<length (procs s)] s"
  have ok: "table_ok s" unfolding s_def by (rule wake_ok [OF ok0])
  have r: "running c i s" using r0 by (simp add: running_def s_def)
  note [simp] = table_okD(1) [OF ok] and rk = running_ok [OF ok r]
  have l0: "length (procs s0) = NPROC" using table_okD(1) [OF ok0] .
  have ctl: "initproc s \<noteq> Some i" "kpc (procs s ! i) = Exiting" "parent (procs s ! i) = parent (procs s0 ! i)"
    using ni x rk(1) l0 by (simp_all add: s_def wakeup1_nth)
  have awake: "state (procs s ! m) \<noteq> SLEEPING \<or> chan (procs s ! m) \<noteq> map_option ProcChan (parent (procs s ! i))" if "m < NPROC" for m
    using that l0 ctl(3) by (auto simp: s_def wakeup1_nth)
  have u: "abandoned i (set [0..<length (procs s)]) s u" unfolding u_def by (rule abandon_abandoned) auto
  then have ul: "length (procs u) = NPROC" by (simp add: abandoned_def)
  have t: "procs t = (procs u)[i := (procs u ! i)\<lparr>state := ZOMBIE, ctx := AtYield\<rparr>]" "nextpid t = nextpid s" "initproc t = initproc s" "cpus t = (cpus s)[c := None]"
    using sched_eq [OF s' [unfolded exit_zombie_def Let_def, folded s_def, folded u_def]] u ul rk(1) by (auto simp: abandoned_def)
  have l: "left i s t" using u rk(1) t(2,3) unfolding left_def abandoned_def t(1) by (auto simp: nth_list_update woken_def)
  have "cpu_ok t"
  proof (rule cpu_leave [OF ok r t(4)])
    fix m assume "m < NPROC" "m \<noteq> i" "state (procs s ! m) = RUNNING"
    then show "state (procs t ! m) = RUNNING" using leftD(9) [OF l, of m] by auto
  qed
  then show ?thesis
    using left_pid [OF ok r l] left_family [OF ok r l ctl(1)] left_fork [OF ok r l ctl(2)] left_wait [OF ok r l awake] leftD(1) [OF l]
    by (simp add: table_ok_def)
qed

text \<open>A round of \<^verbatim>\<open>wait\<close> goes to sleep only when it has just found no zombie among the children.\<close>

lemma waits_ok:
  assumes ok: "table_ok s" and r: "running c i s" and k: "kpc (procs s ! i) \<in> {Idle, Waiting}" and s': "wait_round c i s = Some (v, s')"
  shows "table_ok (upd i (\<lambda>p. p\<lparr>kpc := if v = None then Waiting else Idle\<rparr>) s')"
proof -
  note [simp] = table_okD(1) [OF ok] and rk = running_ok [OF ok r]
  let ?Z = "find (\<lambda>j. parent (procs s ! j) = Some i \<and> state (procs s ! j) = ZOMBIE) [0..<length (procs s)]"
  show ?thesis
  proof (cases ?Z)
    case (Some j)
    have j: "j < NPROC" "state (procs s ! j) = ZOMBIE" using find_upt [OF Some] by auto
    then have ij: "i \<noteq> j" using rk(3) by auto
    have re: "reap j s = Some s'" "v \<noteq> None" using s' Some by (auto simp: wait_round_def bind_Some_iff)
    note o = reap_one [OF re(1), unfolded one_def]
    have "running c i s'" using r o by (simp add: running_def)
    then show ?thesis
      by (rule stay_ok [OF reap_ok [OF ok j re(1)], of c i _ "(procs s' ! i)\<lparr>kpc := Idle\<rparr>"]) (use o ij re(2) k rk(3) in auto)
  next
    case None
    then have noz: "state (procs s ! j) \<noteq> ZOMBIE" if "j < NPROC" "parent (procs s ! j) = Some i" for j
      using that by (auto simp: find_None_iff)
    show ?thesis
    proof (cases v)
      case (Some n)
      then have "s' = s" using s' None by (auto simp: wait_round_def bind_Some_iff split: if_splits)
      then show ?thesis
        by (intro stay_ok [OF ok r, of _ "(procs s ! i)\<lparr>kpc := Idle\<rparr>"]) (use Some k rk(3) in auto)
    next
      case v: None
      let ?q = "(procs s ! i)\<lparr>chan := Some (ProcChan i), state := SLEEPING, ctx := AtSleep, kpc := Waiting\<rparr>"
      let ?t = "upd i (\<lambda>p. p\<lparr>kpc := Waiting\<rparr>) s'"
      have "sleep c i (ProcChan i) s = Some s'" using s' None v by (auto simp: wait_round_def bind_Some_iff split: if_splits)
      note sc = sched_eq [OF this [unfolded sleep_def]]
      have t: "procs ?t = (procs s)[i := ?q]" "nextpid ?t = nextpid s" "initproc ?t = initproc s" "cpus ?t = (cpus s)[c := None]" using sc rk(1) by auto
      have calm: "calm s ?t" using t k rk by (auto simp: calm_def nth_list_update alive_def simp del: upd_simps(1))
      have "cpu_ok ?t" by (rule cpu_leave [OF ok r t(4)]) (use t(1) in \<open>simp del: upd_simps(1)\<close>)
      moreover have "wait_ok ?t"
        unfolding wait_ok_def
      proof (intro allI impI)
        fix m assume m: "m < NPROC" "state (procs ?t ! m) = SLEEPING" "kpc (procs ?t ! m) = Waiting"
        have z: "parent (procs ?t ! j) = parent (procs s ! j) \<and> (state (procs ?t ! j) = ZOMBIE \<longrightarrow> state (procs s ! j) = ZOMBIE)" for j
          unfolding t using rk(1) by (cases "j = i") auto
        show "chan (procs ?t ! m) = Some (ProcChan m) \<and> (\<forall>j < NPROC. parent (procs ?t ! j) = Some m \<longrightarrow> state (procs ?t ! j) \<noteq> ZOMBIE)"
        proof (cases "m = i")
          case True
          then show ?thesis using z noz rk(1) t(1) by (auto simp del: upd_simps(1))
        next
          case False
          then have "procs ?t ! m = procs s ! m" unfolding t by simp
          then show ?thesis using table_okD(6) [OF ok] m z unfolding wait_ok_def by metis
        qed
      qed
      ultimately show ?thesis using calm_ok [OF ok calm] v by simp
    qed
  qed
qed

text \<open>The first process never starts to exit.\<close>

definition exit_ok :: "sys \<Rightarrow> bool" where
  "exit_ok s \<longleftrightarrow> (\<forall>i < NPROC. kpc (procs s ! i) = Exiting \<longrightarrow> initproc s \<noteq> Some i)"

lemma exit_keep:
  assumes "exit_ok s" "initproc s' = initproc s" "\<And>i. i < NPROC \<Longrightarrow> kpc (procs s' ! i) = Exiting \<Longrightarrow> kpc (procs s ! i) = Exiting"
  shows "exit_ok s'"
  using assms by (auto simp: exit_ok_def)

lemma kpc_update_same: "kpc q = kpc (ps ! i) \<Longrightarrow> kpc (ps[i := q] ! m) = kpc (ps ! m)"
  by (cases "i < length ps"; cases "m = i") (auto simp: list_update_beyond)

lemma exit_progress:
  assumes "exit_ok s" "k \<noteq> Exiting"
  shows "exit_ok (upd i (\<lambda>p. p\<lparr>kpc := k\<rparr>) s)"
proof (rule exit_keep [OF assms(1)])
  fix m assume "kpc (procs (upd i (\<lambda>p. p\<lparr>kpc := k\<rparr>) s) ! m) = Exiting"
  then show "kpc (procs s ! m) = Exiting"
    using assms(2) by (cases "i < length (procs s)"; cases "m = i") (auto simp: list_update_beyond)
qed simp

lemma pstep_exit:
  assumes "pstep s s'" and ok: "table_ok s" and x: "exit_ok s"
  shows "exit_ok s'"
  using assms(1)
proof cases
  case (dispatch c i)
  show ?thesis by (rule exit_keep [OF x]) (use scheduler_cases [OF dispatch(4)] dispatch(3) table_okD(1) [OF ok] in \<open>auto simp: nth_list_update split: if_splits\<close>)
next
  case (preempt c i)
  note sc = sched_eq [OF preempt(2) [unfolded yield_def]]
  show ?thesis by (rule exit_keep [OF x]) (use sc running_ok(2) [OF ok preempt(1)] in \<open>auto simp: nth_list_update split: if_splits\<close>)
next
  case (block c i a)
  note sc = sched_eq [OF block(3) [unfolded sleep_def]]
  show ?thesis by (rule exit_keep [OF x]) (use sc running_ok(2) [OF ok block(1)] in \<open>auto simp: nth_list_update split: if_splits\<close>)
next
  case (wake ch)
  show ?thesis by (rule exit_keep [OF x]) (use wake table_okD(1) [OF ok] in \<open>auto simp: wakeup_def wakeup1_nth split: if_splits\<close>)
next
  case (kills n)
  show ?thesis
    by (rule exit_keep [OF x]) (use kills table_okD(1) [OF ok] in \<open>auto simp: kill_def nth_list_update dest: find_upt split: option.splits if_splits\<close>)
next
  case noalloc
  show ?thesis by (rule exit_keep [OF x]) (use allocproc_cases [OF noalloc] table_okD(1) [OF ok] in \<open>auto simp: nth_list_update split: if_splits\<close>)
next
  case (alloc c i j s1)
  show ?thesis
    by (rule exit_keep [OF x]) (use alloc(1) allocproc_cases [OF alloc(4)] table_okD(1) [OF ok] running_ok(1) [OF ok alloc(2)] in
        \<open>auto simp: nth_list_update split: if_splits\<close>)
next
  case (copy c i j b s1)
  show ?thesis
    by (rule exit_keep [OF x]) (use copy(1) fork_copy_one [OF copy(4)] table_okD(1) [OF ok] running_ok(1) [OF ok copy(2)] in
        \<open>auto simp: one_def kpc_update_same nth_list_update [of i] split: if_splits\<close>)
next
  case (run c i j)
  show ?thesis
    by (rule exit_keep [OF x]) (use run(1) table_okD(1) [OF ok] running_ok(1) [OF ok run(2)] in
        \<open>auto simp: fork_run_def kpc_update_same nth_list_update [of i] split: if_splits\<close>)
next
  case (close c i s1)
  show ?thesis
    using x close(1) exit_files_one [OF close(4)] table_okD(1) [OF ok] running_ok(1) [OF ok close(2)]
    by (auto simp: exit_ok_def one_def nth_list_update split: if_splits)
next
  case (zombie c i)
  define s1 where "s1 = wakeup1 (map_option ProcChan (parent (procs s ! i))) s"
  have "abandoned i (set [0..<length (procs s1)]) s1 (abandon i [0..<length (procs s1)] s1)" by (rule abandon_abandoned) auto
  note u = this [unfolded abandoned_def] and sc = sched_eq [OF zombie(3) [unfolded exit_zombie_def Let_def, folded s1_def]]
  show ?thesis
  proof (rule exit_keep [OF x])
    show "initproc s' = initproc s" using u sc by (simp add: s1_def)
    fix m assume m: "m < NPROC" "kpc (procs s' ! m) = Exiting"
    have l: "length (procs s1) = NPROC" using table_okD(1) [OF ok] by (simp add: s1_def)
    have "kpc (procs s1 ! m) = Exiting" using u sc m running_ok(1) [OF ok zombie(1)] l by (auto simp: woken_def nth_list_update split: if_splits)
    then show "kpc (procs s ! m) = Exiting" using m table_okD(1) [OF ok] by (auto simp: s1_def wakeup1_nth split: if_splits)
  qed
next
  case (waits c i v s1)
  have "exit_ok s1"
  proof (cases "find (\<lambda>j. parent (procs s ! j) = Some i \<and> state (procs s ! j) = ZOMBIE) [0..<length (procs s)]")
    case (Some j)
    then have "reap j s = Some s1" using waits(4) by (auto simp: wait_round_def bind_Some_iff)
    from reap_one [OF this] show ?thesis
      using find_upt [OF Some] table_okD(1) [OF ok] by (intro exit_keep [OF x]) (auto simp: one_def nth_list_update split: if_splits)
  next
    case None
    then have "s1 = s \<or> sleep c i (ProcChan i) s = Some s1" using waits(4) by (auto simp: wait_round_def bind_Some_iff split: if_splits)
    then show ?thesis
    proof
      assume "sleep c i (ProcChan i) s = Some s1"
      from sched_eq [OF this [unfolded sleep_def]] show ?thesis
        using running_ok(2) [OF ok waits(2)] by (intro exit_keep [OF x]) (auto simp: nth_list_update split: if_splits)
    qed (simp add: x)
  qed
  then show ?thesis
    unfolding waits(1) by (rule exit_progress) simp
next
  case (call c i)
  show ?thesis
    by (rule exit_keep [OF x]) (use call(1) running_ok(2) [OF ok call(2)] in \<open>auto simp: nth_list_update split: if_splits\<close>)
qed

lemma pstep_ok:
  assumes "pstep s s'" "table_ok s" "exit_ok s"
  shows "table_ok s'"
  using assms(1)
proof cases
  case (close c i s1)
  note o = exit_files_one [OF close(4), unfolded one_def]
  show ?thesis
    unfolding close(1)
    by (rule stay_ok [OF assms(2) close(2), of _ "(procs s1 ! i)\<lparr>kpc := Exiting\<rparr>"])
      (use o running_ok(2,3) [OF assms(2) close(2)] close(3) in auto)
next
  case (call c i)
  then show ?thesis
    using stay_ok [OF assms(2) call(2), of s' "procs s' ! i"] running_ok(2,3) [OF assms(2) call(2)] by simp
next
  case (zombie c i)
  have "initproc s \<noteq> Some i" using assms(3) zombie(2) running_ok(1) [OF assms(2) zombie(1)] by (simp add: exit_ok_def)
  then show ?thesis using zombie_ok [OF assms(2) zombie(1,2)] zombie(3) by blast
next
  case dispatch
  then show ?thesis using dispatch_ok [OF assms(2)] by blast
next
  case preempt
  then show ?thesis using preempt_ok [OF assms(2)] by blast
next
  case block
  then show ?thesis using block_ok [OF assms(2)] by blast
next
  case wake
  then show ?thesis using wake_ok [OF assms(2)] by (simp add: wakeup_def)
next
  case kills
  then show ?thesis using kills_ok [OF assms(2)] by simp
next
  case noalloc
  then show ?thesis using noalloc_ok [OF assms(2)] by blast
next
  case alloc
  then show ?thesis using alloc_ok [OF assms(2)] by blast
next
  case copy
  then show ?thesis using copy_ok [OF assms(2)] by blast
next
  case run
  then show ?thesis using run_ok [OF assms(2)] by blast
next
  case waits
  then show ?thesis using waits_ok [OF assms(2)] by blast
qed

subsection \<open>The first process\<close>

text \<open>The table after \<^verbatim>\<open>userinit\<close>: one process, ready to run, and every other entry as the boot loader cleared it.\<close>

definition empty_slot :: "proc \<Rightarrow> bool" where
  "empty_slot p \<longleftrightarrow> state p = UNUSED \<and> pid p = 0 \<and> parent p = None \<and> chan p = None \<and> \<not> killed p \<and> kpc p = Idle"

definition booted :: "sys \<Rightarrow> bool" where
  "booted s \<longleftrightarrow> length (procs s) = NPROC \<and> initproc s = Some 0 \<and> nextpid s = 2 \<and> (\<forall>c < length (cpus s). cpus s ! c = None) \<and>
     state (procs s ! 0) = RUNNABLE \<and> pid (procs s ! 0) = 1 \<and> parent (procs s ! 0) = None \<and> kpc (procs s ! 0) = Idle \<and>
     (\<forall>i < NPROC. i \<noteq> 0 \<longrightarrow> empty_slot (procs s ! i))"

lemma userinit_booted:
  assumes z: "length (procs s) = NPROC" "\<forall>i < NPROC. empty_slot (procs s ! i)" "nextpid s = 1" "\<forall>c < length (cpus s). cpus s ! c = None"
    and u: "userinit code len s = Some s'"
  shows "booted s'"
proof -
  obtain i s1 where a: "allocproc s = Some (Some i, s1)" using u by (auto simp: userinit_def bind_Some_iff)
  have st: "state (procs s ! j) = UNUSED" if "j < NPROC" for j using z(2) that by (simp add: empty_slot_def)
  have "find (\<lambda>i. state (procs s ! i) = UNUSED) [0..<length (procs s)] = Some 0"
    using st [of 0] z(1) by (simp add: upt_rec)
  moreover then have "i = 0" using a by (auto simp: allocproc_def Let_def split: if_splits prod.splits)
  ultimately obtain q where q: "procs s1 = (procs s)[0 := q]" "pid q = 1" "nextpid s1 = 2" "cpus s1 = cpus s" "parent q = None" "kpc q = Idle"
    using allocproc_cases [OF a] z(1,2,3) by (auto simp: empty_slot_def)
  have p: "length (procs s') = NPROC \<and> state (procs s' ! 0) = RUNNABLE \<and> pid (procs s' ! 0) = pid q \<and> parent (procs s' ! 0) = parent q \<and>
      kpc (procs s' ! 0) = kpc q \<and> nextpid s' = nextpid s1 \<and> cpus s' = cpus s1 \<and> initproc s' = Some 0 \<and> (\<forall>k. k \<noteq> 0 \<longrightarrow> procs s' ! k = procs s1 ! k)"
    using u a \<open>i = 0\<close> q(1) z(1) by (auto simp: userinit_def bind_Some_iff Let_def split: if_splits)
  show ?thesis using p q z by (auto simp: booted_def)
qed

lemma booted_ok:
  assumes "booted s"
  shows "table_ok s" "exit_ok s"
proof -
  note b = assms [unfolded booted_def]
  have e: "empty_slot (procs s ! i)" if "i < NPROC" "i \<noteq> 0" for i using b that by blast
  have nr: "\<not> running c i s" for c i using b by (auto simp: running_def)
  have s: "(i = 0 \<or> state (procs s ! i) = UNUSED) \<and> kpc (procs s ! i) = Idle \<and> parent (procs s ! i) = None \<and>
      pid (procs s ! i) = (if i = 0 then 1 else 0)" if "i < NPROC" for i
    using e [OF that] b by (cases "i = 0") (auto simp: empty_slot_def)
  have "pid_ok s" unfolding pid_ok_def using b s by (auto split: if_splits)
  moreover have "0 = j" if "j < NPROC" "state (procs s ! j) = ZOMBIE \<or> alive (procs s ! j)" for j
    using s [OF that(1)] that(2) by (auto simp: alive_def)
  then have "family_ok s" by (intro family_okI [of 0]) (use b s in \<open>auto simp: alive_def\<close>)
  moreover have "fork_ok s" "wait_ok s" "cpu_ok s" using s nr by (auto simp: fork_ok_def wait_ok_def cpu_ok_def)
  ultimately show "table_ok s" using b by (simp add: table_ok_def)
  show "exit_ok s" using s by (auto simp: exit_ok_def)
qed

lemma reachable_ok:
  assumes "pstep\<^sup>*\<^sup>* s0 s" "booted s0"
  shows "table_ok s \<and> exit_ok s"
  using assms(1)
proof (induction rule: rtranclp_induct)
  case base
  then show ?case using booted_ok [OF assms(2)] by blast
next
  case (step s t)
  then show ?case using pstep_ok pstep_exit by blast
qed

text \<open>
  C4: processes.  In every state reached from the first process by any interleaving of scheduling, preemption, sleeping,
  waking, killing, forking, exiting, waiting and other calls on any number of processors: processes have different
  positive numbers, a processor runs a process that is running and no two the same, every parent is alive, and a
  process that sleeps in \<^verbatim>\<open>wait\<close> has no child that has already exited: no exit is missed.
\<close>

theorem processes_safe:
  assumes "booted s0" "pstep\<^sup>*\<^sup>* s0 s"
  shows "(\<forall>i < NPROC. \<forall>j < NPROC. state (procs s ! i) \<noteq> UNUSED \<longrightarrow> 0 < pid (procs s ! i) \<and> (pid (procs s ! j) = pid (procs s ! i) \<longrightarrow> j = i)) \<and>
    (\<forall>c d i. running c i s \<longrightarrow> state (procs s ! i) = RUNNING \<and> (running d i s \<longrightarrow> d = c)) \<and>
    (\<forall>i < NPROC. \<forall>j. parent (procs s ! i) = Some j \<longrightarrow> alive (procs s ! j)) \<and>
    (\<forall>i < NPROC. state (procs s ! i) = SLEEPING \<and> kpc (procs s ! i) = Waiting \<longrightarrow>
       (\<forall>j < NPROC. parent (procs s ! j) = Some i \<longrightarrow> state (procs s ! j) \<noteq> ZOMBIE))"
proof (intro conjI)
  have ok: "table_ok s" using reachable_ok [OF assms(2,1)] by blast
  show "\<forall>i < NPROC. \<forall>j < NPROC. state (procs s ! i) \<noteq> UNUSED \<longrightarrow> 0 < pid (procs s ! i) \<and> (pid (procs s ! j) = pid (procs s ! i) \<longrightarrow> j = i)"
    using table_okD(3) [OF ok] unfolding pid_ok_def by (metis order_le_less)
  show "\<forall>c d i. running c i s \<longrightarrow> state (procs s ! i) = RUNNING \<and> (running d i s \<longrightarrow> d = c)" using running_ok(3,6) [OF ok] by blast
  show "\<forall>i < NPROC. \<forall>j. parent (procs s ! i) = Some j \<longrightarrow> alive (procs s ! j)" using family_okD(1) [OF table_okD(4) [OF ok]] by blast
  show "\<forall>i < NPROC. state (procs s ! i) = SLEEPING \<and> kpc (procs s ! i) = Waiting \<longrightarrow>
       (\<forall>j < NPROC. parent (procs s ! j) = Some i \<longrightarrow> state (procs s ! j) \<noteq> ZOMBIE)"
    using table_okD(6) [OF ok] unfolding wait_ok_def by blast
qed

text \<open>
  C40: \<^verbatim>\<open>kill(0)\<close>.  \<^verbatim>\<open>kill\<close> looks for an entry with the given number and does not ask whether the entry is in use; an entry
  that is not in use has number 0.  So in every reachable state whose first free entry has number 0, \<^verbatim>\<open>kill(0)\<close> reports success and
  marks that entry as killed, and nothing clears the mark: the next process that \<^verbatim>\<open>fork\<close> creates is killed from the start.
\<close>

theorem kill_zero_kills_next_child:
  assumes "booted s0" "pstep\<^sup>*\<^sup>* s0 s"
    and free: "find (\<lambda>i. state (procs s ! i) = UNUSED) [0..<length (procs s)] = Some j" "pid (procs s ! j) = 0"
  shows "fst (kill 0 s) = 0 \<and> killed (procs (snd (kill 0 s)) ! j) \<and>
    (\<forall>i n s'. fork i (snd (kill 0 s)) = Some (n, s') \<longrightarrow> n \<noteq> - 1 \<longrightarrow>
       pid (procs s' ! j) = n \<and> state (procs s' ! j) = RUNNABLE \<and> killed (procs s' ! j))"
proof -
  have ok: "table_ok s" using reachable_ok [OF assms(2,1)] by blast
  note [simp] = table_okD(1) [OF ok]
  have j: "j < NPROC" "state (procs s ! j) = UNUSED" "\<And>k. k < j \<Longrightarrow> state (procs s ! k) \<noteq> UNUSED"
    using free(1) by (auto simp: find_Some_iff)
  have used: "pid (procs s ! k) \<noteq> 0" if "k < j" for k using table_okD(3) [OF ok] j(1,3) that unfolding pid_ok_def by simp
  have fnd: "find (\<lambda>i. pid (procs s ! i) = 0) [0..<length (procs s)] = Some j"
    using j(1) free(2) used by (auto simp: find_Some_iff intro!: exI [of _ j])
  let ?t = "upd j (\<lambda>p. p\<lparr>killed := True, state := UNUSED\<rparr>) s"
  have kill: "kill 0 s = (0, ?t)" using fnd j by (simp add: kill_def upd_def)
  have ft: "find (\<lambda>i. state (procs ?t ! i) = UNUSED) [0..<length (procs ?t)] = Some j"
    using j by (auto simp: find_Some_iff nth_list_update intro!: exI [of _ j])
  have "pid (procs s' ! j) = n \<and> state (procs s' ! j) = RUNNABLE \<and> killed (procs s' ! j)"
    if f: "fork i ?t = Some (n, s')" "n \<noteq> - 1" for i n s'
  proof -
    obtain r s1 where a: "allocproc ?t = Some (r, s1)" using f(1) by (auto simp: fork_def bind_Some_iff)
    obtain l where l: "r = Some l" using f a by (cases r) (auto simp: fork_def)
    have "l = j" using a ft unfolding l by (auto simp: allocproc_def Let_def split: if_splits prod.splits)
    then have s1: "length (procs s1) = NPROC" "killed (procs s1 ! j)" using allocproc_cases [OF a] l j(1) by auto
    obtain b s2 where c: "fork_copy i j s1 = Some (b, s2)" using f(1) a l \<open>l = j\<close> by (auto simp: fork_def bind_Some_iff)
    have b: "b" "n = pid (procs s2 ! j)" "s' = fork_run j s2" using f a l \<open>l = j\<close> c by (auto simp: fork_def split: if_splits)
    obtain q where "one j q s1 s2" "killed q = killed (procs s1 ! j)" using fork_copy_one [OF c] by blast
    then show ?thesis using b s1 j(1) by (simp add: fork_run_def one_def)
  qed
  then show ?thesis using kill j(1) by simp
qed

subsection \<open>A machine with two processors\<close>

definition blank :: proc where
  "blank = \<lparr>sz = 0, pgdir = 0, kstack = 0, state = UNUSED, pid = 0, parent = None, tf = 0, pcontext = 0, chan = None, killed = False,
     pofile = replicate NOFILE None, pcwd = None, name = [], ctx = AtForkret, kpc = Idle\<rparr>"

definition sample_sys :: sys where
  "sample_sys = \<lparr>kn = \<lparr>fs = sample_st, ftable = [],
       kvm = \<lparr>mem = (\<lambda>_. 0), freelist = 0, use_lock = True, kend = 0x80200000, kdata = 0x80108000, cr3 = 0, vout = []\<rparr>,
       pipes = (\<lambda>_. new_pipe []), wakes = []\<rparr>,
     procs = blank\<lparr>sz := PGSIZE, pgdir := 0x80300000, kstack := 0x80301000, state := RUNNABLE, pid := 1, pcwd := Some 0\<rparr> # replicate 63 blank,
     nextpid = 2, initproc = Some 0, cpus = [None, None], trapret = 0x80105000, forkret_sym = 0x80104000, first_ret = False\<rparr>"

lemma sample_booted: "booted sample_sys"
proof -
  have "empty_slot (procs sample_sys ! i)" if "i < NPROC" "i \<noteq> 0" for i
    using that by (cases i) (auto simp: sample_sys_def empty_slot_def blank_def)
  moreover have "cpus sample_sys ! c = None" if "c < length (cpus sample_sys)" for c
    using that by (cases c) (auto simp: sample_sys_def)
  ultimately show ?thesis by (simp add: booted_def) (simp add: sample_sys_def blank_def)
qed

theorem processes_safe_witness:
  "\<exists>s. pstep\<^sup>*\<^sup>* sample_sys s \<and> running 1 0 s \<and> state (procs s ! 0) = RUNNING \<and> \<not> running 0 0 s"
proof -
  define s where "s = on_vm (\<lambda>vm. vm\<lparr>cr3 := V2P 0x80300000\<rparr>)
      (upd 0 (\<lambda>p. p\<lparr>state := RUNNING\<rparr>) (sample_sys\<lparr>cpus := [None, Some 0]\<rparr>))"
  have "scheduler 1 0 sample_sys = Some s"
    by (simp add: scheduler_def switchuvm_def resume_def forkret_def Let_def s_def sample_sys_def blank_def on_vm_def upd_def)
  then have st: "pstep\<^sup>*\<^sup>* sample_sys s"
    by (intro r_into_rtranclp pstep.dispatch [of 1 _ 0]) (simp_all add: sample_sys_def)
  have r: "running 1 0 s" by (simp add: running_def s_def)
  show ?thesis using processes_safe [OF sample_booted st] st r by (metis zero_neq_one)
qed

theorem kill_zero_kills_next_child_witness:
  "fst (kill 0 sample_sys) = 0 \<and> state (procs (snd (kill 0 sample_sys)) ! 1) = UNUSED \<and> killed (procs (snd (kill 0 sample_sys)) ! 1)"
proof -
  have "find (\<lambda>i. state (procs sample_sys ! i) = UNUSED) [0..<length (procs sample_sys)] = Some 1"
    by (simp add: find_Some_iff) (auto simp: sample_sys_def blank_def intro!: exI [of _ 1])
  moreover have "pid (procs sample_sys ! 1) = 0" by (simp add: sample_sys_def blank_def)
  ultimately have "fst (kill 0 sample_sys) = 0 \<and> killed (procs (snd (kill 0 sample_sys)) ! 1)"
    using kill_zero_kills_next_child [OF sample_booted, of sample_sys 1] by blast
  moreover have "find (\<lambda>i. pid (procs sample_sys ! i) = 0) [0..<length (procs sample_sys)] = Some 1"
    by (simp add: find_Some_iff) (auto simp: sample_sys_def blank_def intro!: exI [of _ 1])
  then have "state (procs (snd (kill 0 sample_sys)) ! 1) = UNUSED"
    by (simp add: kill_def) (simp add: sample_sys_def blank_def)
  ultimately show ?thesis by blast
qed

end
