(* ===== verification/Xv6_Console.thy ===== *)
theory Xv6_Console
  imports Prelude
begin

text \<open>
  Console input (\<^verbatim>\<open>console.c\<close>, the same file in both kernels): the ring of 128 bytes that the keyboard and serial interrupts fill and
  edit and that reading the console empties, with three 32-bit counters that are never reset.

  What runs under the console's lock is one operation.  A reader that has to wait gives the number of bytes it still wants, and goes on with it
  when it wakes up.  What is echoed is kept, \<open>BACKSPACE\<close> as 256; the screen and the serial line themselves are not modelled.

  Shown here: for every sequence of keys and reads, across wrap-around of the counters, readers get what an editor of one
  line in front of a queue of finished lines gives them.
\<close>

abbreviation "INPUT_BUF \<equiv> (128 :: nat)"
abbreviation "BACKSPACE \<equiv> (256 :: int)"

record input =
  ibuf :: "u8 list"
  rix :: u32
  wix :: u32
  eix :: u32
  echo :: "int list"
  wakeups :: nat

definition input0 :: input where
  "input0 = \<lparr>ibuf = replicate INPUT_BUF 0, rix = 0, wix = 0, eix = 0, echo = [], wakeups = 0\<rparr>"

definition consputc :: "int \<Rightarrow> input \<Rightarrow> input" where
  "consputc c s = s\<lparr>echo := echo s @ [c]\<rparr>"

definition slot :: "u32 \<Rightarrow> nat" where
  "slot i = unat i mod INPUT_BUF"

function kill_line :: "input \<Rightarrow> input" where
  "kill_line s =
     (if eix s \<noteq> wix s \<and> ibuf s ! slot (eix s - 1) \<noteq> 10
      then kill_line (consputc BACKSPACE (s\<lparr>eix := eix s - 1\<rparr>)) else s)"
  by pat_completeness auto
termination
proof (relation "measure (\<lambda>s. unat (eix s - wix s))")
  fix s :: input
  assume "eix s \<noteq> wix s \<and> ibuf s ! slot (eix s - 1) \<noteq> 10"
  then have "eix s - wix s \<noteq> 0" by simp
  then have "unat (eix s - wix s - 1) < unat (eix s - wix s)"
    by (metis diff_less unat_minus_one unat_gt_0 zero_less_one)
  then show "(consputc BACKSPACE (s\<lparr>eix := eix s - 1\<rparr>), s) \<in> measure (\<lambda>s. unat (eix s - wix s))"
    by (simp add: consputc_def algebra_simps)
qed simp

declare kill_line.simps [simp del]

definition store_key :: "int \<Rightarrow> input \<Rightarrow> input" where
  "store_key c s =
     (let s = consputc c (s\<lparr>ibuf := (ibuf s)[slot (eix s) := word_of_int c], eix := eix s + 1\<rparr>) in
      if c = 10 \<or> c = 4 \<or> eix s = rix s + 128 then s\<lparr>wix := eix s, wakeups := wakeups s + 1\<rparr> else s)"

text \<open>One round of the loop of \<^verbatim>\<open>consoleintr\<close>: the result says whether the process list is asked for.\<close>

definition console_key :: "int \<Rightarrow> input \<Rightarrow> bool \<times> input" where
  "console_key c s =
     (if c = 16 then (True, s)
      else if c = 21 then (False, kill_line s)
      else if c = 8 \<or> c = 127 then
        (False, if eix s \<noteq> wix s then consputc BACKSPACE (s\<lparr>eix := eix s - 1\<rparr>) else s)
      else if c \<noteq> 0 \<and> unat (eix s - rix s) < INPUT_BUF then
        (False, store_key (if c = 13 then 10 else c) s)
      else (False, s))"

fun consoleintr :: "int list \<Rightarrow> input \<Rightarrow> bool \<times> input" where
  "consoleintr [] s = (False, s)"
| "consoleintr (c # cs) s =
     (if c \<ge> 0 then case console_key c s of (d, s) \<Rightarrow> case consoleintr cs s of (d', s) \<Rightarrow> (d \<or> d', s)
      else (False, s))"

text \<open>The loop of \<^verbatim>\<open>consoleread\<close> until it ends or has to sleep: the bytes copied, how many are still wanted, whether it is done.\<close>

fun read_loop :: "nat \<Rightarrow> nat \<Rightarrow> input \<Rightarrow> u8 list \<times> nat \<times> bool \<times> input" where
  "read_loop target 0 s = ([], 0, True, s)"
| "read_loop target (Suc n) s =
     (if rix s = wix s then ([], Suc n, False, s)
      else let c = ibuf s ! slot (rix s); s = s\<lparr>rix := rix s + 1\<rparr> in
        if c = 4 then ([], Suc n, True, if Suc n < target then s\<lparr>rix := rix s - 1\<rparr> else s)
        else if c = 10 then ([c], n, True, s)
        else case read_loop target n s of (cs, r) \<Rightarrow> (c # cs, r))"

datatype read_result = RDone "u8 list" | RKilled | RSleep "u8 list" nat

definition consoleread :: "bool \<Rightarrow> nat \<Rightarrow> nat \<Rightarrow> input \<Rightarrow> read_result \<times> input" where
  "consoleread killed target n s =
     (case read_loop target n s of (cs, n', done, s) \<Rightarrow>
        (if done then RDone cs else if killed then RKilled else RSleep cs n', s))"

text \<open>The two ways the console is used, and a run of them with the results of the reads.\<close>

datatype console_event = Keys "int list" | Read bool nat nat

fun console_run :: "console_event list \<Rightarrow> input \<Rightarrow> read_result list \<times> input" where
  "console_run [] s = ([], s)"
| "console_run (Keys cs # es) s = console_run es (snd (consoleintr cs s))"
| "console_run (Read killed target n # es) s =
     (case consoleread killed target n s of (r, s) \<Rightarrow> case console_run es s of (rs, s) \<Rightarrow> (r # rs, s))"

subsection \<open>The specification\<close>

text \<open>A queue of finished bytes and the line that is being edited.\<close>

record line_state =
  queue :: "u8 list"
  line :: "u8 list"
  shown :: "int list"
  woken :: nat

definition line0 :: line_state where
  "line0 = \<lparr>queue = [], line = [], shown = [], woken = 0\<rparr>"

definition add_key :: "int \<Rightarrow> line_state \<Rightarrow> line_state" where
  "add_key c l =
     (let l = l\<lparr>line := line l @ [word_of_int c], shown := shown l @ [c]\<rparr> in
      if c = 10 \<or> c = 4 \<or> length (queue l) + length (line l) = INPUT_BUF
      then l\<lparr>queue := queue l @ line l, line := [], woken := woken l + 1\<rparr> else l)"

definition type_key :: "int \<Rightarrow> line_state \<Rightarrow> line_state" where
  "type_key c l =
     (if c = 16 \<or> c = 0 then l
      else if c = 21 then
        (let kept = rev (dropWhile (\<lambda>b. b \<noteq> 10) (rev (line l))) in
         l\<lparr>line := kept, shown := shown l @ replicate (length (line l) - length kept) BACKSPACE\<rparr>)
      else if c = 8 \<or> c = 127 then
        (if line l = [] then l else l\<lparr>line := butlast (line l), shown := shown l @ [BACKSPACE]\<rparr>)
      else if length (queue l) + length (line l) \<ge> INPUT_BUF then l
      else add_key (if c = 13 then 10 else c) l)"

text \<open>A read takes up to \<open>n\<close> bytes, ends behind a newline and before an end of file mark, which it consumes if it is alone.\<close>

fun take_line :: "nat \<Rightarrow> nat \<Rightarrow> u8 list \<Rightarrow> u8 list \<times> nat \<times> bool \<times> u8 list" where
  "take_line target 0 q = ([], 0, True, q)"
| "take_line target (Suc n) [] = ([], Suc n, False, [])"
| "take_line target (Suc n) (c # q) =
     (if c = 4 then ([], Suc n, True, if Suc n < target then c # q else q)
      else if c = 10 then ([c], n, True, q)
      else case take_line target n q of (cs, r) \<Rightarrow> (c # cs, r))"

definition read_line :: "bool \<Rightarrow> nat \<Rightarrow> nat \<Rightarrow> line_state \<Rightarrow> read_result \<times> line_state" where
  "read_line killed target n l =
     (case take_line target n (queue l) of (cs, n', done, q) \<Rightarrow>
        (if done then RDone cs else if killed then RKilled else RSleep cs n', l\<lparr>queue := q\<rparr>))"

fun line_run :: "console_event list \<Rightarrow> line_state \<Rightarrow> read_result list \<times> line_state" where
  "line_run [] l = ([], l)"
| "line_run (Keys cs # es) l = line_run es (fold type_key (takeWhile (\<lambda>c. c \<ge> 0) cs) l)"
| "line_run (Read killed target n # es) l =
     (case read_line killed target n l of (r, l) \<Rightarrow> case line_run es l of (rs, l) \<Rightarrow> (r # rs, l))"

subsection \<open>The ring holds queue and line\<close>

definition shows_ring :: "input \<Rightarrow> line_state \<Rightarrow> bool" where
  "shows_ring s l \<longleftrightarrow> length (ibuf s) = INPUT_BUF \<and> length (queue l) + length (line l) \<le> INPUT_BUF \<and>
     wix s = rix s + word_of_nat (length (queue l)) \<and> eix s = wix s + word_of_nat (length (line l)) \<and>
     (\<forall>i < length (queue l @ line l). ibuf s ! slot (rix s + word_of_nat i) = (queue l @ line l) ! i) \<and>
     echo s = shown l \<and> wakeups s = woken l"

lemma slot_add: "slot (a + word_of_nat n) = (unat a + n) mod INPUT_BUF"
proof -
  have "(2 :: nat) ^ 32 mod 128 = 0" by simp
  then show ?thesis
    by (simp add: slot_def unat_word_ariths unat_of_nat take_bit_eq_mod mod_add_right_eq mod_mod_cancel)
qed

lemma small_word: "n \<le> INPUT_BUF \<Longrightarrow> unat (word_of_nat n :: u32) = n"
  by (simp add: unat_of_nat_lt)

lemma word_of_nat_zero_iff: "n \<le> INPUT_BUF \<Longrightarrow> (word_of_nat n :: u32) = 0 \<longleftrightarrow> n = 0"
  using small_word [of n] by (metis unat_eq_0)

lemma ringD:
  assumes "shows_ring s l"
  shows "eix s = wix s \<longleftrightarrow> line l = []" "rix s = wix s \<longleftrightarrow> queue l = []"
    "unat (eix s - rix s) = length (queue l) + length (line l)"
    "eix s = rix s + 128 \<longleftrightarrow> length (queue l) + length (line l) = INPUT_BUF"
proof -
  have e: "eix s - rix s = word_of_nat (length (queue l) + length (line l))"
    using assms by (simp add: shows_ring_def)
  show len: "unat (eix s - rix s) = length (queue l) + length (line l)"
    unfolding e using assms by (intro small_word) (simp add: shows_ring_def)
  show "eix s = wix s \<longleftrightarrow> line l = []" "rix s = wix s \<longleftrightarrow> queue l = []"
    using assms word_of_nat_zero_iff [of "length (line l)"] word_of_nat_zero_iff [of "length (queue l)"]
    by (auto simp: shows_ring_def)
  show "eix s = rix s + 128 \<longleftrightarrow> length (queue l) + length (line l) = INPUT_BUF"
  proof -
    have "eix s = rix s + 128 \<longleftrightarrow> eix s - rix s = 128" by (auto simp: algebra_simps)
    then show ?thesis unfolding len [symmetric] by (simp add: word_unat_eq_iff)
  qed
qed

lemma slots_differ: "i < n \<Longrightarrow> n < INPUT_BUF \<Longrightarrow> slot (a + word_of_nat i) \<noteq> slot (a + word_of_nat n)"
proof
  assume "i < n" "n < INPUT_BUF" "slot (a + word_of_nat i) = slot (a + word_of_nat n)"
  then have "(unat a + n) mod 128 = (unat a + i) mod 128" by (simp add: slot_add)
  then have "128 dvd (unat a + n) - (unat a + i)"
    by (metis mod_eq_dvd_iff_nat nat_add_left_cancel_le less_imp_le \<open>i < n\<close>)
  with \<open>i < n\<close> \<open>n < INPUT_BUF\<close> show False by (auto dest: dvd_imp_le)
qed

lemma slot_bound: "slot a < INPUT_BUF"
  by (simp add: slot_def)

lemma end_slot: "shows_ring s l \<Longrightarrow> eix s = rix s + word_of_nat (length (queue l) + length (line l))"
  by (simp add: shows_ring_def)

lemma ring_put:
  assumes "shows_ring s l" "length (queue l) + length (line l) < INPUT_BUF"
  shows "shows_ring (s\<lparr>ibuf := (ibuf s)[slot (eix s) := b], eix := eix s + 1\<rparr>) (l\<lparr>line := line l @ [b]\<rparr>)"
proof -
  let ?n = "length (queue l) + length (line l)"
  have "(ibuf s)[slot (eix s) := b] ! slot (rix s + word_of_nat i) = (queue l @ line l @ [b]) ! i" if "i < Suc ?n" for i
  proof (cases "i = ?n")
    case True
    then show ?thesis
      using assms end_slot [OF assms(1)] slot_bound by (simp add: shows_ring_def nth_append)
  next
    case False
    then have "i < ?n" using that by simp
    then show ?thesis
      using assms slots_differ [of i ?n "rix s"] end_slot [OF assms(1)]
      by (auto simp: shows_ring_def nth_append)
  qed
  then show ?thesis
    using assms by (auto simp: shows_ring_def)
qed

lemma ring_commit: "shows_ring s l \<Longrightarrow> shows_ring (s\<lparr>wix := eix s, wakeups := wakeups s + 1\<rparr>) (l\<lparr>queue := queue l @ line l, line := [], woken := woken l + 1\<rparr>)"
  by (auto simp: shows_ring_def)

lemma ring_echo: "shows_ring s l \<Longrightarrow> shows_ring (consputc c s) (l\<lparr>shown := shown l @ [c]\<rparr>)"
  by (auto simp: shows_ring_def consputc_def)

lemma ring_back:
  assumes "shows_ring s l" "line l \<noteq> []"
  shows "shows_ring (s\<lparr>eix := eix s - 1\<rparr>) (l\<lparr>line := butlast (line l)\<rparr>)" "ibuf s ! slot (eix s - 1) = last (line l)"
proof -
  obtain xs x where l: "line l = xs @ [x]" using assms(2) by (cases "line l" rule: rev_cases) auto
  have e: "eix s - 1 = rix s + word_of_nat (length (queue l) + length xs)"
    using end_slot [OF assms(1)] l by (simp add: algebra_simps)
  show "shows_ring (s\<lparr>eix := eix s - 1\<rparr>) (l\<lparr>line := butlast (line l)\<rparr>)"
    using assms l e by (auto simp: shows_ring_def nth_append less_Suc_eq)
  show "ibuf s ! slot (eix s - 1) = last (line l)"
    unfolding e using assms(1) l by (auto simp: shows_ring_def nth_append)
qed

lemma ring_take:
  assumes "shows_ring s l" "queue l = c # q"
  shows "shows_ring (s\<lparr>rix := rix s + 1\<rparr>) (l\<lparr>queue := q\<rparr>)" "ibuf s ! slot (rix s) = c"
proof -
  have r: "ibuf s ! slot (rix s + word_of_nat i) = (c # q @ line l) ! i" if "i < Suc (length q + length (line l))" for i
    using assms that by (simp add: shows_ring_def)
  show "ibuf s ! slot (rix s) = c"
    using r [of 0] by simp
  have "ibuf s ! slot (rix s + 1 + word_of_nat i) = (q @ line l) ! i" if "i < length q + length (line l)" for i
    using r [of "Suc i"] that by (simp add: algebra_simps)
  then show "shows_ring (s\<lparr>rix := rix s + 1\<rparr>) (l\<lparr>queue := q\<rparr>)"
    using assms by (auto simp: shows_ring_def)
qed

definition killed_line :: "line_state \<Rightarrow> line_state" where
  "killed_line l =
     (let kept = rev (dropWhile (\<lambda>b. b \<noteq> 10) (rev (line l))) in
      l\<lparr>line := kept, shown := shown l @ replicate (length (line l) - length kept) BACKSPACE\<rparr>)"

lemma line_id: "line l = x \<Longrightarrow> l\<lparr>line := x\<rparr> = l" "queue l = x \<Longrightarrow> l\<lparr>queue := x\<rparr> = l"
  by auto

lemma killed_line_snoc:
  "line l = xs @ [x] \<Longrightarrow> killed_line l =
     (if x = 10 then l else killed_line (l\<lparr>line := xs, shown := shown l @ [BACKSPACE]\<rparr>))"
  using length_dropWhile_le [of "\<lambda>b. b \<noteq> 10" "rev xs"]
  by (cases l) (auto simp: killed_line_def Let_def Suc_diff_le)

lemma ring_kill: "shows_ring s l \<Longrightarrow> shows_ring (kill_line s) (killed_line l)"
proof (induction s arbitrary: l rule: kill_line.induct)
  case (1 s)
  show ?case
  proof (cases "line l" rule: rev_cases)
    case Nil
    then show ?thesis
      using "1.prems" ringD(1) [OF "1.prems"] by (simp add: kill_line.simps [of s] killed_line_def line_id)
  next
    case (snoc xs x)
    then have ne: "line l \<noteq> []" by simp
    note erase = ring_back [OF "1.prems" ne]
    have e: "eix s \<noteq> wix s" "ibuf s ! slot (eix s - 1) = x"
      using ringD(1) [OF "1.prems"] ne erase(2) snoc by auto
    have "shows_ring (consputc BACKSPACE (s\<lparr>eix := eix s - 1\<rparr>)) (l\<lparr>line := xs, shown := shown l @ [BACKSPACE]\<rparr>)"
      using ring_echo [OF erase(1), of BACKSPACE] snoc by simp
    then show ?thesis
      using "1.IH" [of "l\<lparr>line := xs, shown := shown l @ [BACKSPACE]\<rparr>"] e "1.prems" killed_line_snoc [OF snoc]
      by (auto simp: kill_line.simps [of s])
  qed
qed

lemma ring_store:
  assumes "shows_ring s l" "length (queue l) + length (line l) < INPUT_BUF"
  shows "shows_ring (store_key c s) (add_key c l)"
proof -
  let ?s = "consputc c (s\<lparr>ibuf := (ibuf s)[slot (eix s) := word_of_int c], eix := eix s + 1\<rparr>)"
  let ?l = "l\<lparr>line := line l @ [word_of_int c], shown := shown l @ [c]\<rparr>"
  have r: "shows_ring ?s ?l"
    using ring_echo [OF ring_put [OF assms], of c "word_of_int c"] by simp
  show ?thesis
    unfolding store_key_def add_key_def Let_def ringD(4) [OF r] using r ring_commit [OF r] by simp
qed

lemma ring_key:
  assumes "shows_ring s l"
  shows "shows_ring (snd (console_key c s)) (type_key c l)"
proof -
  have erase: "line l \<noteq> [] \<Longrightarrow>
      shows_ring (consputc BACKSPACE (s\<lparr>eix := eix s - 1\<rparr>)) (l\<lparr>line := butlast (line l), shown := shown l @ [BACKSPACE]\<rparr>)"
    using ring_echo [OF ring_back(1) [OF assms], of BACKSPACE] by simp
  consider "c = 16 \<or> c = 0" | "c = 21" | "c = 8 \<or> c = 127" | "c \<notin> {16, 0, 21, 8, 127}" by blast
  then show ?thesis
  proof cases
    case 4
    then show ?thesis
      using ring_store [OF assms] assms ringD(3) [OF assms] by (simp add: console_key_def type_key_def not_le)
  qed (use assms ring_kill [OF assms] erase ringD(1) [OF assms] in \<open>auto simp: console_key_def type_key_def killed_line_def Let_def\<close>)
qed

lemma ring_intr: "shows_ring s l \<Longrightarrow> shows_ring (snd (consoleintr cs s)) (fold type_key (takeWhile (\<lambda>c. c \<ge> 0) cs) l)"
proof (induction cs arbitrary: s l)
  case (Cons c cs)
  then show ?case using ring_key [OF Cons.prems, of c] by (auto simp: case_prod_beta)
qed simp

lemma ring_read:
  "shows_ring s l \<Longrightarrow>
   case (read_loop target n s, take_line target n (queue l)) of ((cs, n', done, s'), (cs', n'', done', q)) \<Rightarrow>
     cs = cs' \<and> n' = n'' \<and> done = done' \<and> shows_ring s' (l\<lparr>queue := q\<rparr>)"
proof (induction n arbitrary: s l)
  case (Suc n)
  show ?case
  proof (cases "queue l")
    case Nil
    then show ?thesis using Suc.prems ringD(2) [OF Suc.prems] by (simp add: line_id)
  next
    case (Cons c q)
    note t = ring_take [OF Suc.prems Cons]
    show ?thesis
      using Suc.IH [OF t(1)] Suc.prems t ringD(2) [OF Suc.prems] Cons by (auto simp: Let_def line_id split: prod.splits)
  qed
qed simp

lemma ring_run:
  "shows_ring s l \<Longrightarrow> fst (console_run es s) = fst (line_run es l) \<and> shows_ring (snd (console_run es s)) (snd (line_run es l))"
proof (induction es arbitrary: s l)
  case (Cons e es)
  show ?case
  proof (cases e)
    case (Keys cs)
    then show ?thesis using Cons.IH [OF ring_intr [OF Cons.prems, of cs]] by simp
  next
    case (Read killed target n)
    obtain cs n' d s' where s: "read_loop target n s = (cs, n', d, s')" by (cases "read_loop target n s")
    obtain cs2 n2 d2 q where q: "take_line target n (queue l) = (cs2, n2, d2, q)" by (cases "take_line target n (queue l)")
    have "cs = cs2" "n' = n2" "d = d2" "shows_ring s' (l\<lparr>queue := q\<rparr>)"
      using ring_read [OF Cons.prems, of target n] s q by auto
    then show ?thesis
      using Read s q Cons.IH [of s' "l\<lparr>queue := q\<rparr>"] by (simp add: consoleread_def read_line_def case_prod_beta)
  qed
qed simp

text \<open>
  C21: for every sequence of keys and reads the console behaves as a line editor in front of a queue of at most 128 bytes: the
  results of all reads and the echo are those of the specification, and so is the number of times readers are woken, once for each line that is finished;
  no counter ever runs past another, although all three wrap around.
\<close>

theorem console_line_discipline:
  "fst (console_run es input0) = fst (line_run es line0) \<and>
   echo (snd (console_run es input0)) = shown (snd (line_run es line0)) \<and>
   wakeups (snd (console_run es input0)) = woken (snd (line_run es line0)) \<and>
   unat (wix (snd (console_run es input0)) - rix (snd (console_run es input0))) = length (queue (snd (line_run es line0))) \<and>
   unat (eix (snd (console_run es input0)) - rix (snd (console_run es input0))) =
     length (queue (snd (line_run es line0))) + length (line (snd (line_run es line0))) \<and>
   length (queue (snd (line_run es line0))) + length (line (snd (line_run es line0))) \<le> 128"
proof -
  have "shows_ring input0 line0" by (simp add: shows_ring_def input0_def line0_def)
  note r = ring_run [OF this, of es]
  then show ?thesis
    using ringD(3) [of "snd (console_run es input0)" "snd (line_run es line0)"] small_word
    by (auto simp: shows_ring_def)
qed

end
