(* ===== verification/Xv6_Malloc.thy ===== *)
theory Xv6_Malloc
  imports Prelude
begin

text \<open>
  The allocator of user programs (\<^verbatim>\<open>umalloc.c\<close>, the same file in both kernels): a ring of free blocks through their headers, with a roving
  pointer, over the system call \<^verbatim>\<open>sbrk\<close>.

  The memory of the process is seen as headers of 8 bytes at their addresses.  A block is a header and the units of 8 bytes that it counts, itself included.
  What the system call does to the size of the process is \<^verbatim>\<open>sys_sbrk\<close> and \<^verbatim>\<open>growproc\<close>; whether the kernel has pages left is
  the parameter \<open>grant\<close>.  The result \<open>None\<close> is a loop that does not end.

  Shown here: whatever a program allocates, frees and stores in its own blocks, the loops end, and the blocks it holds lie in its memory, are
  big enough and do not overlap.  A request near the end of the range of \<^verbatim>\<open>uint\<close> gives a block without any memory.
\<close>

record header =
  ptr :: u32
  units :: u32

record umem =
  hdr :: "u32 \<Rightarrow> header"
  base :: u32
  freep :: u32
  brk :: u32

definition set_ptr :: "u32 \<Rightarrow> u32 \<Rightarrow> umem \<Rightarrow> umem" where
  "set_ptr a p s = s\<lparr>hdr := (hdr s)(a := (hdr s a)\<lparr>ptr := p\<rparr>)\<rparr>"

definition set_units :: "u32 \<Rightarrow> u32 \<Rightarrow> umem \<Rightarrow> umem" where
  "set_units a n s = s\<lparr>hdr := (hdr s)(a := (hdr s a)\<lparr>units := n\<rparr>)\<rparr>"

abbreviation "nx s a \<equiv> ptr (hdr s a)"
abbreviation "un s a \<equiv> units (hdr s a)"

definition sbrk :: "(u32 \<Rightarrow> bool) \<Rightarrow> u32 \<Rightarrow> umem \<Rightarrow> u32 \<times> umem" where
  "sbrk grant n s =
     (if 0 < sint n then if brk s + n \<ge> 0x80000000 \<or> \<not> grant n then (- 1, s) else (brk s, s\<lparr>brk := brk s + n\<rparr>)
      else if sint n < 0 \<and> brk s + n < brk s then
        if brk s + n = 0 then (- 1, s) else (brk s, s\<lparr>brk := brk s + n\<rparr>)
      else (brk s, s))"

text \<open>The search of \<^verbatim>\<open>free\<close> for the free block behind which \<open>bp\<close> belongs.\<close>

partial_function (option) free_place :: "umem \<Rightarrow> u32 \<Rightarrow> u32 \<Rightarrow> u32 option" where
  "free_place s bp p =
     (if bp > p \<and> bp < nx s p then Some p
      else if p \<ge> nx s p \<and> (bp > p \<or> bp < nx s p) then Some p
      else free_place s bp (nx s p))"

definition join_next :: "u32 \<Rightarrow> u32 \<Rightarrow> umem \<Rightarrow> umem" where
  "join_next bp p s =
     (if bp + 8 * un s bp = nx s p
      then let s = set_units bp (un s bp + un s (nx s p)) s in set_ptr bp (nx s (nx s p)) s
      else set_ptr bp (nx s p) s)"

definition join_prev :: "u32 \<Rightarrow> u32 \<Rightarrow> umem \<Rightarrow> umem" where
  "join_prev bp p s =
     (if p + 8 * un s p = bp
      then let s = set_units p (un s p + un s bp) s in set_ptr p (nx s bp) s
      else set_ptr p bp s)"

definition free :: "u32 \<Rightarrow> umem \<Rightarrow> umem option" where
  "free ap s = do {
     let bp = ap - 8;
     p \<leftarrow> free_place s bp (freep s);
     Some ((join_prev bp p (join_next bp p s))\<lparr>freep := p\<rparr>)
   }"

definition morecore :: "(u32 \<Rightarrow> bool) \<Rightarrow> u32 \<Rightarrow> umem \<Rightarrow> (u32 \<times> umem) option" where
  "morecore grant nu s =
     (let nu = (if nu < 4096 then 4096 else nu); (p, s) = sbrk grant (nu * 8) s in
      if p = - 1 then Some (0, s)
      else do {
        s \<leftarrow> free (p + 8) (set_units p nu s);
        Some (freep s, s)
      })"

text \<open>A block that is big enough is unlinked, or its end is split off.\<close>

definition take_block :: "u32 \<Rightarrow> u32 \<Rightarrow> u32 \<Rightarrow> umem \<Rightarrow> u32 \<times> umem" where
  "take_block nunits prevp p s =
     (let (p, s) =
        (if un s p = nunits then (p, set_ptr prevp (nx s p) s)
         else let s = set_units p (un s p - nunits) s; q = p + 8 * un s p in (q, set_units q nunits s)) in
      (p + 8, s\<lparr>freep := prevp\<rparr>))"

partial_function (option) malloc_loop :: "(u32 \<Rightarrow> bool) \<Rightarrow> u32 \<Rightarrow> u32 \<Rightarrow> u32 \<Rightarrow> umem \<Rightarrow> (u32 \<times> umem) option" where
  "malloc_loop grant nunits prevp p s =
     (if un s p \<ge> nunits then Some (take_block nunits prevp p s)
      else if p = freep s then do {
        (p, s) \<leftarrow> morecore grant nunits s;
        if p = 0 then Some (0, s) else malloc_loop grant nunits p (nx s p) s
      }
      else malloc_loop grant nunits p (nx s p) s)"

definition nunits :: "u32 \<Rightarrow> u32" where
  "nunits nbytes = (nbytes + 8 - 1) div 8 + 1"

definition first_use :: "umem \<Rightarrow> umem" where
  "first_use s = (if freep s = 0 then set_units (base s) 0 ((set_ptr (base s) (base s) s)\<lparr>freep := base s\<rparr>) else s)"

definition malloc :: "(u32 \<Rightarrow> bool) \<Rightarrow> u32 \<Rightarrow> umem \<Rightarrow> (u32 \<times> umem) option" where
  "malloc grant nbytes s = (let s = first_use s in malloc_loop grant (nunits nbytes) (freep s) (nx s (freep s)) s)"

text \<open>
  A program that uses the allocator, with the pointers it holds and the sizes it has asked for.  Between calls it may store into its blocks.
\<close>

inductive uses :: "u32 \<Rightarrow> u32 \<Rightarrow> umem \<Rightarrow> (u32 \<times> u32) list \<Rightarrow> bool" for b heap0 where
  uses_start: "uses b heap0 \<lparr>hdr = m, base = b, freep = 0, brk = heap0\<rparr> []"
| uses_malloc: "uses b heap0 s live \<Longrightarrow> nbytes \<le> 0x7FFFFFF0 \<Longrightarrow> malloc grant nbytes s = Some (p, s') \<Longrightarrow> p \<noteq> 0 \<Longrightarrow> uses b heap0 s' ((p, nbytes) # live)"
| uses_fail: "uses b heap0 s live \<Longrightarrow> nbytes \<le> 0x7FFFFFF0 \<Longrightarrow> malloc grant nbytes s = Some (0, s') \<Longrightarrow> uses b heap0 s' live"
| uses_free: "uses b heap0 s (xs @ (p, n) # ys) \<Longrightarrow> free p s = Some s' \<Longrightarrow> uses b heap0 s' (xs @ ys)"
| uses_store: "uses b heap0 s live \<Longrightarrow> \<forall>a. m a \<noteq> hdr s a \<longrightarrow> (\<exists>(p, n) \<in> set live. unat p \<le> unat a \<and> unat a < unat p + unat n) \<Longrightarrow>
    uses b heap0 (s\<lparr>hdr := m\<rparr>) live"

subsection \<open>The ring of free blocks\<close>

lemmas mem_defs = set_ptr_def set_units_def

definition ring :: "umem \<Rightarrow> u32 list \<Rightarrow> bool" where
  "ring s ns \<longleftrightarrow> ns \<noteq> [] \<and> map (nx s) ns = rotate1 ns"

lemma ring_rotate: "ring s (xs @ ys) \<longleftrightarrow> ring s (ys @ xs)"
proof -
  have "ring s (xs @ ys) \<Longrightarrow> ring s (ys @ xs)" for xs ys
  proof -
    assume r: "ring s (xs @ ys)"
    have "ys @ xs = rotate (length xs) (xs @ ys)" by (simp add: rotate_append)
    with r show "ring s (ys @ xs)"
      by (auto simp: ring_def rotate_map [symmetric] rotate1_rotate_swap)
  qed
  then show ?thesis by blast
qed

lemma ring_consec: "ring s (xs @ a # c # ys) \<Longrightarrow> nx s a = c"
proof -
  assume "ring s (xs @ a # c # ys)"
  then have "ring s (a # c # ys @ xs)" using ring_rotate [of s xs "a # c # ys"] by simp
  then show ?thesis by (simp add: ring_def)
qed

lemma ring_last: "ring s (xs @ [a]) \<Longrightarrow> nx s a = hd (xs @ [a])"
  by (cases xs) (auto simp: ring_def)

lemma ring_next: "ring s (xs @ a # ys) \<Longrightarrow> nx s a = hd (ys @ xs @ [a])"
  using ring_rotate [of s "xs @ [a]" ys] ring_last [of s "ys @ xs" a] by simp

lemma ring_inj: "ring s ns \<Longrightarrow> distinct ns \<Longrightarrow> inj_on (nx s) (set ns)"
  by (metis distinct1_rotate distinct_map ring_def)

subsection \<open>The invariant\<close>

definition fin :: "umem \<Rightarrow> u32 \<Rightarrow> nat" where
  "fin s a = unat a + 8 * unat (un s a)"

definition blocks_ok :: "umem \<Rightarrow> nat \<Rightarrow> u32 set \<Rightarrow> bool" where
  "blocks_ok s h0 A \<longleftrightarrow>
     (\<forall>a \<in> A. 8 dvd unat a \<and> h0 \<le> unat a \<and> 0 < unat (un s a) \<and> fin s a \<le> unat (brk s)) \<and>
     (\<forall>a \<in> A. \<forall>c \<in> A. a < c \<longrightarrow> fin s a \<le> unat c)"

text \<open>\<open>ns\<close> are the nodes of the ring in the order of their addresses, \<open>base\<close> first, and \<open>ls\<close> the blocks that the program holds.\<close>

definition heap_ok :: "nat \<Rightarrow> u32 list \<Rightarrow> u32 list \<Rightarrow> umem \<Rightarrow> bool" where
  "heap_ok h0 ns ls s \<longleftrightarrow> ring s ns \<and> hd ns = base s \<and> sorted_wrt (<) ns \<and> freep s \<in> set ns \<and> un s (base s) = 0 \<and>
     distinct ls \<and> set ns \<inter> set ls = {} \<and> blocks_ok s h0 (set (tl ns) \<union> set ls) \<and>
     0 < unat (base s) \<and> unat (base s) + 8 \<le> h0 \<and> h0 \<le> unat (brk s) \<and> unat (brk s) < 2 ^ 31 \<and> 8 dvd unat (brk s)"

lemma heap_okD:
  assumes "heap_ok h0 ns ls s"
  shows "ring s ns" "hd ns = base s" "sorted_wrt (<) ns" "freep s \<in> set ns" "un s (base s) = 0" "distinct ls" "set ns \<inter> set ls = {}"
    "blocks_ok s h0 (set (tl ns) \<union> set ls)" "ns = base s # tl ns" "distinct ns" "unat (brk s) < 2 ^ 31" "unat (base s) + 8 \<le> h0"
  using assms unfolding heap_ok_def by (auto simp: ring_def strict_sorted_iff intro: list.exhaust_sel)

lemma blockD:
  assumes "blocks_ok s h0 A" "a \<in> A"
  shows "8 dvd unat a" "h0 \<le> unat a" "0 < unat (un s a)" "fin s a \<le> unat (brk s)" "unat a + 8 \<le> fin s a"
  using assms by (auto simp: blocks_ok_def fin_def)

lemma blocks_apart: "blocks_ok s h0 A \<Longrightarrow> a \<in> A \<Longrightarrow> c \<in> A \<Longrightarrow> a < c \<Longrightarrow> fin s a \<le> unat c"
  by (simp add: blocks_ok_def)

lemma node_nonzero: "heap_ok h0 ns ls s \<Longrightarrow> a \<in> set ns \<Longrightarrow> a \<noteq> 0"
proof -
  assume ok: "heap_ok h0 ns ls s" and a: "a \<in> set ns"
  note d = heap_okD [OF ok]
  have "a = base s \<or> a \<in> set (tl ns)" using a d(9) by (metis set_ConsD)
  then have "0 < unat a" using blockD(2) [OF d(8), of a] ok by (auto simp: heap_ok_def)
  then show "a \<noteq> 0" by auto
qed

lemma block_end:
  assumes "blocks_ok s h0 A" "a \<in> A" "unat (brk s) < 2 ^ 31"
  shows "unat (a + 8 * un s a) = fin s a"
proof -
  have "fin s a < 2 ^ 32" using blockD(4) [OF assms(1,2)] assms(3) by simp
  then have "unat (8 * un s a) = 8 * unat (un s a)"
    using unat_mult_nowrap [of 8 "un s a"] by (simp add: fin_def)
  then show ?thesis
    using \<open>fin s a < 2 ^ 32\<close> unat_add_nowrap [of a "8 * un s a"] by (simp add: fin_def)
qed

subsection \<open>Linking a block into the ring\<close>

definition link :: "u32 \<Rightarrow> u32 \<Rightarrow> umem \<Rightarrow> umem" where
  "link bp p s = (set_ptr p bp (set_ptr bp (nx s p) s))\<lparr>freep := p\<rparr>"

definition absorb :: "u32 \<Rightarrow> umem \<Rightarrow> umem" where
  "absorb x s = set_ptr x (nx s (nx s x)) (set_units x (un s x + un s (nx s x)) s)"

lemma mem_simps [simp]:
  "nx (set_ptr a p s) c = (if c = a then p else nx s c)" "un (set_ptr a p s) c = un s c"
  "nx (set_units a n s) c = nx s c" "un (set_units a n s) c = (if c = a then n else un s c)"
  "base (set_ptr a p s) = base s" "base (set_units a n s) = base s" "freep (set_ptr a p s) = freep s" "freep (set_units a n s) = freep s"
  "brk (set_ptr a p s) = brk s" "brk (set_units a n s) = brk s"
  by (simp_all add: mem_defs)

lemma ring_cong: "(\<And>a. a \<in> set ns \<Longrightarrow> nx s a = nx s' a) \<Longrightarrow> ring s ns \<longleftrightarrow> ring s' ns"
  by (simp add: ring_def cong: map_cong)

lemma ring_snoc: "ring s (zs @ [p]) \<longleftrightarrow> map (nx s) zs = tl (zs @ [p]) \<and> nx s p = hd (zs @ [p])"
proof -
  have "rotate1 (zs @ [p]) = tl (zs @ [p]) @ [hd (zs @ [p])]" by (cases zs) auto
  then show ?thesis by (simp add: ring_def)
qed

lemma ring_insert:
  assumes "ring s (xs @ p # ys)" "bp \<notin> set (xs @ p # ys)" "distinct (xs @ p # ys)"
  shows "ring (link bp p s) (xs @ p # bp # ys)"
proof -
  define zs where "zs = ys @ xs"
  have r: "ring s (zs @ [p])" using ring_rotate [of s "xs @ [p]" ys] assms(1) by (simp add: zs_def)
  have "map (nx (link bp p s)) zs = map (nx s) zs"
    using assms by (auto simp: link_def zs_def)
  moreover have "tl ((zs @ [p]) @ [bp]) = tl (zs @ [p]) @ [bp]" "hd ((zs @ [p]) @ [bp]) = hd (zs @ [p])"
    by (cases zs; simp)+
  ultimately have "ring (link bp p s) ((zs @ [p]) @ [bp])"
    using r assms(2) unfolding ring_snoc by (simp add: link_def)
  then show ?thesis
    using ring_rotate [of "link bp p s" "xs @ [p, bp]" ys] by (simp add: zs_def)
qed

lemma ring_remove:
  assumes "ring s (xs @ x # y # ys)" "distinct (xs @ x # y # ys)"
  shows "ring (set_ptr x (nx s y) s) (xs @ x # ys)"
proof -
  define zs where "zs = ys @ xs"
  have r: "ring s ((zs @ [x]) @ [y])" using ring_rotate [of s "xs @ [x, y]" ys] assms(1) by (simp add: zs_def)
  have m: "map (nx (set_ptr x (nx s y) s)) zs = map (nx s) zs"
    using assms by (auto simp: zs_def)
  have "tl ((zs @ [x]) @ [y]) = tl (zs @ [x]) @ [y]" "hd ((zs @ [x]) @ [y]) = hd (zs @ [x])"
    by (cases zs; simp)+
  then have "map (nx s) zs = tl (zs @ [x])" "nx s y = hd (zs @ [x])"
    using r unfolding ring_snoc by simp_all
  then have "ring (set_ptr x (nx s y) s) (zs @ [x])"
    unfolding ring_snoc m by simp
  then show ?thesis
    using ring_rotate [of "set_ptr x (nx s y) s" "xs @ [x]" ys] by (simp add: zs_def)
qed

lemma link_simps [simp]: "un (link bp p s) a = un s a" "base (link bp p s) = base s" "brk (link bp p s) = brk s" "freep (link bp p s) = p"
  by (simp_all add: link_def)

lemma heap_link:
  assumes ok: "heap_ok h0 (xs @ p # ys) ls s" and bp: "bp \<in> set ls" and p: "p < bp" "\<forall>y \<in> set ys. bp < y"
  shows "heap_ok h0 (xs @ p # bp # ys) (remove1 bp ls) (link bp p s)"
proof -
  note d = heap_okD [OF ok]
  have notin: "bp \<notin> set (xs @ p # ys)" using d(7) bp by auto
  have "ring (link bp p s) (xs @ p # bp # ys)"
    using ring_insert [OF d(1) notin d(10)] .
  moreover have "sorted_wrt (<) (xs @ p # bp # ys)"
    using d(3) p by (fastforce simp: sorted_wrt_append)
  moreover have "set (tl (xs @ p # bp # ys)) \<union> set (remove1 bp ls) = set (tl (xs @ p # ys)) \<union> set ls"
    using d(6) bp by (cases xs) (auto simp: set_remove1_eq)
  moreover have "hd (xs @ p # bp # ys) = hd (xs @ p # ys)" by (cases xs) auto
  ultimately show ?thesis
    using ok notin by (auto simp: heap_ok_def blocks_ok_def fin_def set_remove1_eq)
qed


text \<open>A free block takes in the free block that begins where it ends.\<close>

lemma absorb_simps [simp]: "base (absorb x s) = base s" "brk (absorb x s) = brk s" "freep (absorb x s) = freep s"
  "un (absorb x s) a = (if a = x then un s x + un s (nx s x) else un s a)"
  by (simp_all add: absorb_def)

lemma heap_absorb:
  assumes ok: "heap_ok h0 (xs @ x # y # ys) ls s" and adj: "x + 8 * un s x = y" and f: "freep s \<noteq> y"
  shows "heap_ok h0 (xs @ x # ys) ls (absorb x s)" "unat (un (absorb x s) x) = unat (un s x) + unat (un s y)"
proof -
  note d = heap_okD [OF ok]
  let ?A = "set (tl (xs @ x # y # ys)) \<union> set ls" and ?B = "set (tl (xs @ x # ys)) \<union> set ls"
  have nx: "nx s x = y" using ring_consec [OF d(1)] .
  have "x \<noteq> y" using d(10) by auto
  have "xs \<noteq> []" using d(2,5) adj \<open>x \<noteq> y\<close> by (cases xs) auto
  then have A: "?A = insert y ?B" "x \<in> ?B" "y \<notin> ?B" "y \<in> ?A" and h: "hd (xs @ x # ys) = base s" "y \<noteq> base s" "x \<noteq> base s"
    using d(2,7,10) by (cases xs; auto)+
  note ey = blockD [OF d(8) A(4)] and ex = block_end [OF d(8) _ d(11), of x]
  have xy: "fin s x = unat y" using ex A adj by auto
  have sum: "unat (un s x + un s y) = unat (un s x) + unat (un s y)"
    using xy ey(4) d(11) by (intro unat_add_nowrap) (simp add: fin_def)
  then show u: "unat (un (absorb x s) x) = unat (un s x) + unat (un s y)" by (simp add: nx)
  have fin: "fin (absorb x s) a = (if a = x then fin s y else fin s a)" for a
    using u xy by (simp add: fin_def)
  have "blocks_ok (absorb x s) h0 ?B"
    unfolding blocks_ok_def
  proof (intro conjI ballI impI)
    fix a c assume ac: "a \<in> ?B" "c \<in> ?B" "a < c"
    show "fin (absorb x s) a \<le> unat c"
    proof (cases "a = x")
      case True
      then have "fin s x \<le> unat c" using blocks_apart [OF d(8), of x c] ac A by blast
      then have "y < c" using xy ac(2) A(3) by (metis le_neq_trans unat_le_word word_le_nat_alt order_neq_le_trans)
      then show ?thesis using True fin blocks_apart [OF d(8), of y c] ac A by auto
    next
      case False
      then show ?thesis using fin blocks_apart [OF d(8), of a c] ac A by auto
    qed
  qed (use d(8) A sum fin in \<open>auto simp: blocks_ok_def nx\<close>)
  moreover have "ring (absorb x s) (xs @ x # ys)"
    using ring_remove [OF d(1,10)] nx by (subst ring_cong [of _ _ "set_ptr x (nx s y) s"]) (simp_all add: absorb_def)
  ultimately show "heap_ok h0 (xs @ x # ys) ls (absorb x s)"
    using ok f h by (auto simp: heap_ok_def sorted_wrt_append)
qed

subsection \<open>Freeing\<close>

text \<open>From every node of the ring the search ends at the last node below the block.\<close>

lemma place_up:
  assumes "ring s (us @ ws @ p # ys)" "sorted_wrt (<) (us @ ws @ p # ys)" "p < bp" "\<forall>y \<in> set ys. bp < y" "hd (us @ ws @ [p]) \<le> p"
  shows "free_place s bp (hd (ws @ [p])) = Some p"
  using assms
proof (induction ws arbitrary: us)
  case Nil
  have n: "nx s p = hd (ys @ us @ [p])" using ring_next [of s us p ys] Nil.prems(1) by simp
  show ?case
  proof (cases ys)
    case Nil
    then show ?thesis using n assms(3) Nil.prems(5) by (subst free_place.simps) (cases us; simp)
  next
    case (Cons y zs)
    then show ?thesis using n assms(3,4) by (subst free_place.simps) simp
  qed
next
  case (Cons w ws)
  let ?n = "hd (ws @ [p])"
  have n: "nx s w = ?n" using ring_next [of s us w "ws @ p # ys"] Cons.prems(1) by (cases ws) auto
  have "?n \<in> set (ws @ [p])" by (cases ws) auto
  then have "w < ?n" "?n \<le> p" using Cons.prems(2) by (auto simp: sorted_wrt_append)
  then have "free_place s bp w = free_place s bp ?n"
    using n assms(3) by (subst free_place.simps) auto
  moreover have "free_place s bp ?n = Some p"
    using Cons.IH [of "us @ [w]"] Cons.prems by simp
  ultimately show ?case by simp
qed

lemma place_down:
  assumes "ring s (xs @ p # vs @ z # zs)" "sorted_wrt (<) (xs @ p # vs @ z # zs)" "p < bp" "\<forall>y \<in> set (vs @ z # zs). bp < y"
  shows "free_place s bp z = Some p"
  using assms
proof (induction zs arbitrary: vs z)
  case Nil
  let ?b = "hd (xs @ [p])"
  have b: "?b \<le> p" using Nil.prems(2) by (cases xs) auto
  have n: "nx s z = ?b" using ring_next [of s "xs @ p # vs" z "[]"] Nil.prems(1) by (cases xs) auto
  have "free_place s bp z = free_place s bp ?b"
    using n b Nil.prems(3,4) by (subst free_place.simps) auto
  also have "\<dots> = Some p"
    using place_up [of s "[]" xs p "vs @ [z]" bp] Nil.prems b by simp
  finally show ?case .
next
  case (Cons y zs)
  have "nx s z = y" using ring_consec [of s "xs @ p # vs" z y zs] Cons.prems(1) by simp
  moreover have "z < y" using Cons.prems(2) by (auto simp: sorted_wrt_append)
  ultimately have "free_place s bp z = free_place s bp y"
    using Cons.prems(4) by (subst free_place.simps) auto
  then show ?case using Cons.IH [of "vs @ [z]" y] Cons.prems by simp
qed


lemma place_found:
  assumes ok: "heap_ok h0 ns ls s" and bp: "bp \<in> set ls"
  obtains xs p ys where "ns = xs @ p # ys" "p < bp" "\<forall>y \<in> set ys. bp < y" "free_place s bp (freep s) = Some p"
proof -
  note d = heap_okD [OF ok]
  have "base s < bp" using blockD(2) [OF d(8), of bp] d(12) bp by (simp add: unat_lt_word)
  then have "takeWhile (\<lambda>a. a < bp) ns \<noteq> []" using d(9) by (metis list.distinct(1) takeWhile.simps(2))
  then obtain xs p where tw: "takeWhile (\<lambda>a. a < bp) ns = xs @ [p]" by (metis rev_exhaust)
  define ys where "ys = dropWhile (\<lambda>a. a < bp) ns"
  have ns: "ns = xs @ p # ys" using takeWhile_dropWhile_id [of "\<lambda>a. a < bp" ns] tw by (simp add: ys_def)
  have p: "p < bp" using tw set_takeWhileD [of p "\<lambda>a. a < bp" ns] by auto
  have y: "\<forall>y \<in> set ys. bp < y"
  proof (cases ys)
    case (Cons z zs)
    have "\<not> z < bp" using Cons by (simp add: ys_def dropWhile_eq_Cons_conv)
    moreover have "z \<noteq> bp" using d(7) bp ns Cons by auto
    moreover have "\<forall>w \<in> set zs. z < w" using d(3) ns Cons by (simp add: sorted_wrt_append)
    ultimately show ?thesis using Cons by fastforce
  qed simp
  have hd: "hd (xs @ [p]) \<le> p" using d(3) ns by (cases xs) auto
  have "free_place s bp (freep s) = Some p"
  proof (cases "freep s \<in> set ys")
    case True
    then obtain vs zs where "ys = vs @ freep s # zs" by (meson split_list)
    then show ?thesis using place_down [of s xs p vs "freep s" zs bp] d(1,3) ns p y by simp
  next
    case False
    then have "freep s \<in> set (xs @ [p])" using d(4) ns by auto
    then obtain us ws where "xs @ [p] = us @ freep s # ws" by (meson split_list)
    then have "\<exists>ws'. xs = us @ ws' \<and> freep s = hd (ws' @ [p])"
      by (cases ws rule: rev_cases) (auto intro!: exI [of _ "freep s # butlast ws"])
    then obtain ws' where w: "xs = us @ ws'" "freep s = hd (ws' @ [p])" by blast
    then show ?thesis using place_up [of s us ws' p ys bp] d(1,3) ns p y hd by simp
  qed
  with ns p y that show thesis by blast
qed

lemma free_steps:
  assumes "bp \<noteq> p" "nx s p \<noteq> bp" "bp + 8 * un s bp = nx s p \<Longrightarrow> nx s p \<noteq> p"
  shows "(join_prev bp p (join_next bp p s))\<lparr>freep := p\<rparr> =
    (let s2 = (if bp + 8 * un s bp = nx s p then absorb bp (link bp p s) else link bp p s) in
     if p + 8 * un s p = bp then absorb p s2 else s2)"
  using assms by (auto simp: join_prev_def join_next_def absorb_def link_def mem_defs Let_def fun_eq_iff intro!: umem.equality)

lemma free_ok:
  assumes ok: "heap_ok h0 ns ls s" and bp: "bp \<in> set ls"
  obtains s' ns' where "free (bp + 8) s = Some s'" "heap_ok h0 ns' (remove1 bp ls) s'" "\<forall>a \<in> set ls - {bp}. un s' a = un s a"
    "\<exists>a \<in> set ns'. unat (un s bp) \<le> unat (un s' a)" "brk s' = brk s" "base s' = base s"
proof -
  note d = heap_okD [OF ok]
  obtain xs p ys where ns: "ns = xs @ p # ys" and p: "p < bp" and y: "\<forall>y \<in> set ys. bp < y" and fp: "free_place s bp (freep s) = Some p"
    using place_found [OF ok bp] .
  let ?s1 = "link bp p s"
  define s2 where "s2 = (if bp + 8 * un s bp = nx s p then absorb bp ?s1 else ?s1)"
  define s3 where "s3 = (if p + 8 * un s p = bp then absorb p s2 else s2)"
  have end_bp: "unat (bp + 8 * un s bp) = fin s bp" "unat bp < fin s bp"
    using block_end [OF d(8) _ d(11)] blockD(5) [OF d(8)] bp by fastforce+
  have nxp: "nx s p = hd (ys @ xs @ [p])" using ring_next [of s xs p ys] d(1) ns by simp
  have nin: "nx s p \<in> set ns" unfolding nxp ns by (cases ys; cases xs) auto
  have neq: "bp \<noteq> p" "nx s p \<noteq> bp" "bp \<notin> set ns" using p nin d(7) bp by auto
  have join: "\<exists>zs. ys = nx s p # zs" if "bp + 8 * un s bp = nx s p"
  proof (cases ys)
    case Nil
    have "hd (xs @ [p]) \<le> p" using d(3) ns by (cases xs) auto
    then show ?thesis using nxp Nil p that end_bp by (auto simp: word_nat)
  qed (use nxp in auto)
  have ok1: "heap_ok h0 (xs @ p # bp # ys) (remove1 bp ls) ?s1"
    using heap_link [of h0 xs p ys ls s bp] ok ns bp p y by simp
  have s2: "\<exists>zs. heap_ok h0 (xs @ p # bp # zs) (remove1 bp ls) s2 \<and> unat (un s bp) \<le> unat (un s2 bp)"
  proof (cases "bp + 8 * un s bp = nx s p")
    case True
    with join obtain zs where "ys = nx s p # zs" by blast
    then show ?thesis
      using True heap_absorb [of h0 "xs @ [p]" bp "nx s p" zs "remove1 bp ls" ?s1] ok1 neq d(10) ns by (auto simp: s2_def)
  qed (use ok1 in \<open>auto simp: s2_def\<close>)
  then obtain zs where ok2: "heap_ok h0 (xs @ p # bp # zs) (remove1 bp ls) s2" and big: "unat (un s bp) \<le> unat (un s2 bp)" by blast
  have un2: "un s2 a = un s a" "base s2 = base s" "brk s2 = brk s" "freep s2 = p" if "a \<noteq> bp" for a
    using that by (simp_all add: s2_def)
  have "\<exists>ns'. heap_ok h0 ns' (remove1 bp ls) s3 \<and> (\<exists>a \<in> set ns'. unat (un s bp) \<le> unat (un s3 a))"
  proof (cases "p + 8 * un s p = bp")
    case True
    then show ?thesis
      using heap_absorb [OF ok2] un2 neq big by (auto simp: s3_def intro!: exI [of _ "xs @ p # zs"])
  next
    case False
    then show ?thesis using ok2 big by (auto simp: s3_def)
  qed
  then obtain ns' where ok3: "heap_ok h0 ns' (remove1 bp ls) s3" "\<exists>a \<in> set ns'. unat (un s bp) \<le> unat (un s3 a)" by blast
  have "free (bp + 8) s = Some s3"
    using free_steps [OF neq(1,2)] join ns d(10) fp by (auto simp: free_def s3_def s2_def)
  moreover have "\<forall>a \<in> set ls - {bp}. un s3 a = un s a"
    using d(7) ns by (auto simp: s3_def un2)
  ultimately show thesis
    using that ok3 un2(2,3) [of p] neq(1) by (auto simp: s3_def)
qed


subsection \<open>Allocating\<close>

lemma unat_nunits: "nbytes \<le> 0x7FFFFFF0 \<Longrightarrow> unat (nunits nbytes) = (unat nbytes + 7) div 8 + 1"
proof -
  assume "nbytes \<le> 0x7FFFFFF0"
  then have n: "unat nbytes \<le> 0x7FFFFFF0" by (simp add: unat_le_word)
  have m: "unat (nbytes + 7) = unat nbytes + 7" using n by (subst unat_add_nowrap) simp_all
  then have "unat ((nbytes + 7) div 8) = (unat nbytes + 7) div 8" by (simp add: unat_div_word)
  moreover have "(unat nbytes + 7) div 8 < 2 ^ 29" using n by simp
  moreover have "nunits nbytes = (nbytes + 7) div 8 + 1" by (simp add: nunits_def add.commute)
  ultimately show ?thesis using unat_add_nowrap [of "(nbytes + 7) div 8" 1] by (simp only:) simp
qed

lemma morecore_ok:
  assumes ok: "heap_ok h0 ns ls s" and nu: "unat nu < 2 ^ 28"
  obtains (fail) s' where "morecore grant nu s = Some (0, s')" "s' = s"
  | (grown) s' ns' where "morecore grant nu s = Some (freep s', s')" "heap_ok h0 ns' ls s'" "\<forall>a \<in> set ls. un s' a = un s a"
      "\<exists>a \<in> set ns'. unat nu \<le> unat (un s' a)" "base s' = base s" "freep s' \<noteq> 0"
proof -
  note d = heap_okD [OF ok]
  define n where "n = (if nu < 4096 then 4096 else nu)"
  have n: "unat n < 2 ^ 28" "unat nu \<le> unat n" "0 < unat n" using nu by (auto simp: n_def unat_lt_word)
  have n8: "unat (n * 8) = unat n * 8" using unat_mult_nowrap [of n 8] n(1) by simp
  have "n * 8 < 0x80000000" unfolding unat_lt_word n8 using n by simp
  moreover have "n * 8 \<noteq> 0" unfolding unat_eq_zero_iff n8 using n by simp
  ultimately have pos: "0 < sint (n * 8)"
    using sint_below [of "n * 8"] uint_0_iff [of "n * 8"] uint_ge_0 [of "n * 8"] by linarith
  note more = morecore_def [of grant nu s, folded n_def, unfolded sbrk_def Let_def]
  show thesis
  proof (cases "brk s + n * 8 \<ge> 0x80000000 \<or> \<not> grant (n * 8)")
    case True
    then have "morecore grant nu s = Some (0, s)" using pos by (simp add: more)
    then show thesis using fail by blast
  next
    case False
    let ?b = "brk s" and ?s = "set_units (brk s) n (s\<lparr>brk := brk s + n * 8\<rparr>)"
    have b: "unat (?b + n * 8) = unat ?b + unat n * 8"
      using n8 n d(11) by (subst unat_add_nowrap) simp_all
    have b31: "unat (?b + n * 8) < 2 ^ 31" using False by (simp add: unat_le_word)
    have fresh: "a < ?b" "fin s a \<le> unat ?b" if "a \<in> set (tl ns) \<union> set ls" for a
      using blockD(4,5) [OF d(8) that] by (simp_all add: unat_lt_word)
    have notin: "?b \<notin> set ns" "?b \<notin> set ls" "?b \<noteq> base s"
      using fresh(1) [of ?b] d(9,12) ok by (auto simp: heap_ok_def dest!: arg_cong [of _ _ set])
    have un: "un ?s a = (if a = ?b then n else un s a)" for a by simp
    have fin: "fin ?s a = (if a = ?b then unat (?b + n * 8) else fin s a)" for a
      using b by (simp add: fin_def)
    have "blocks_ok ?s h0 (set (tl ns) \<union> set (?b # ls))"
      unfolding blocks_ok_def
    proof (intro conjI ballI impI)
      fix a c assume ac: "a \<in> set (tl ns) \<union> set (?b # ls)" "c \<in> set (tl ns) \<union> set (?b # ls)" "a < c"
      then have "a \<noteq> ?b" using fresh(1) by (metis UnCI UnE less_asym less_irrefl set_ConsD)
      then show "fin ?s a \<le> unat c"
        using ac fresh(2) [of a] blocks_apart [OF d(8), of a c] by (auto simp: fin)
    next
      fix a assume a: "a \<in> set (tl ns) \<union> set (?b # ls)"
      show "fin ?s a \<le> unat (brk ?s)"
        using a fresh(2) [of a] by (auto simp: fin b)
    qed (use n ok d(8) notin in \<open>auto simp: blocks_ok_def heap_ok_def un\<close>)
    moreover have "ring ?s ns" using d(1) by (subst ring_cong [of _ _ s]) simp_all
    moreover have "8 dvd unat (brk s + n * 8)" unfolding b using ok by (simp add: heap_ok_def)
    ultimately have ok': "heap_ok h0 ns (?b # ls) ?s"
      using ok notin b b31 by (auto simp: heap_ok_def)
    obtain s' ns' where s': "free (?b + 8) ?s = Some s'" "heap_ok h0 ns' (remove1 ?b (?b # ls)) s'" "\<forall>a \<in> set (?b # ls) - {?b}. un s' a = un ?s a"
        "\<exists>a \<in> set ns'. unat (un ?s ?b) \<le> unat (un s' a)" "brk s' = brk ?s" "base s' = base ?s"
      using free_ok [OF ok', of ?b] by auto
    have "?b \<noteq> - 1" using d(11) by (auto simp: unsigned_minus_1_eq_mask mask_eq_exp_minus_1)
    then have "morecore grant nu s = Some (freep s', s')"
      using False pos s'(1) by (simp add: more)
    moreover have "freep s' \<noteq> 0"
      using node_nonzero [OF s'(2)] heap_okD(4) [OF s'(2)] by blast
    moreover have "\<forall>a \<in> set ls. un s' a = un s a" using s'(3) notin(2) by (simp add: un cong: if_cong)
    moreover have "\<exists>a \<in> set ns'. unat nu \<le> unat (un s' a)" using s'(4) n(2) by (auto simp: un intro: order_trans)
    ultimately show thesis
      using grown [of s' ns'] s'(2,6) by simp
  qed
qed


lemma heap_unlink:
  assumes ok: "heap_ok h0 (xs @ z # p # ys) ls s"
  shows "heap_ok h0 (xs @ z # ys) (p # ls) ((set_ptr z (nx s p) s)\<lparr>freep := z\<rparr>)"
proof -
  note d = heap_okD [OF ok]
  have "ring ((set_ptr z (nx s p) s)\<lparr>freep := z\<rparr>) (xs @ z # ys)"
    using ring_remove [OF d(1,10)] by (simp add: ring_def)
  moreover have "set (tl (xs @ z # ys)) \<union> set (p # ls) = set (tl (xs @ z # p # ys)) \<union> set ls"
    "hd (xs @ z # ys) = hd (xs @ z # p # ys)"
    by (cases xs; auto)+
  ultimately show ?thesis
    using ok d(10) by (auto simp: heap_ok_def sorted_wrt_append blocks_ok_def fin_def)
qed

lemma heap_split:
  assumes ok: "heap_ok h0 ns ls s" and p: "p \<in> set (tl ns)" and n: "0 < unat n" "unat n < unat (un s p)" and z: "z \<in> set ns"
    and q: "q = p + 8 * (un s p - n)" and s': "s' = (set_units q n (set_units p (un s p - n) s))\<lparr>freep := z\<rparr>"
  shows "heap_ok h0 ns (q # ls) s'" "q \<notin> set ns \<union> set ls"
proof -
  note d = heap_okD [OF ok]
  let ?A = "set (tl ns) \<union> set ls"
  have pA: "p \<in> ?A" using p by simp
  note bp = blockD [OF d(8) pA]
  have m: "unat (un s p - n) = unat (un s p) - unat n" using n by (simp add: unat_sub_le unat_le_word)
  have "unat (8 * (un s p - n)) = 8 * (unat (un s p) - unat n)"
    using unat_mult_nowrap [of 8 "un s p - n"] m bp(4) d(11) by (simp add: fin_def)
  then have uq: "unat q = unat p + 8 * (unat (un s p) - unat n)"
    using unat_add_nowrap [of p "8 * (un s p - n)"] bp(4) d(11) by (simp add: fin_def q)
  then have pq: "p < q" "unat q + 8 * unat n = fin s p" using n by (auto simp: word_nat fin_def)
  have out: "fin s a \<le> unat p \<or> fin s p \<le> unat a" if "a \<in> ?A" "a \<noteq> p" for a
    using blocks_apart [OF d(8) that(1) pA] blocks_apart [OF d(8) pA that(1)] that(2) by (metis linorder_neqE)
  have ge: "h0 \<le> unat p" using bp(2) .
  have notin: "q \<notin> ?A" "q \<noteq> base s" "q \<noteq> p"
    using out [of q] blockD(5) [OF d(8), of q] pq n d(12) ge by (auto simp: word_nat fin_def)
  then show nq: "q \<notin> set ns \<union> set ls" using d(9) by (metis UnE UnI1 UnI2 set_ConsD)
  have fin: "fin s' a = (if a = q then fin s p else if a = p then unat q else fin s a)" for a
    using m uq pq by (simp add: fin_def s')
  have un': "un s' a = (if a = q then n else if a = p then un s p - n else un s a)" "brk s' = brk s" for a
    by (simp_all add: s')
  have "blocks_ok s' h0 (set (tl ns) \<union> set (q # ls))"
    unfolding blocks_ok_def
  proof (intro conjI ballI impI)
    fix a c assume ac: "a \<in> set (tl ns) \<union> set (q # ls)" "c \<in> set (tl ns) \<union> set (q # ls)" "a < c"
    show "fin s' a \<le> unat c"
      using ac out [of a] out [of c] pq notin blocks_apart [OF d(8), of a c] blockD(5) [OF d(8), of a] blockD(5) [OF d(8), of c]
      by (cases "c = p") (auto simp: fin word_nat)
  next
    fix a assume "a \<in> set (tl ns) \<union> set (q # ls)"
    then show "8 dvd unat a" "h0 \<le> unat a" "0 < unat (un s' a)" "fin s' a \<le> unat (brk s')"
      using blockD [OF d(8), of a] bp n m pq uq by (auto simp: fin word_nat un')
  qed
  moreover have "ring s' ns" using d(1) by (subst ring_cong [of _ _ s]) (simp_all add: s')
  ultimately show "heap_ok h0 ns (q # ls) s'"
    using ok z nq notin p d(9,10) by (auto simp: heap_ok_def s' dest!: arg_cong [of _ _ set] arg_cong [of _ _ distinct])
qed

lemma take_ok:
  assumes ok: "heap_ok h0 ns ls s" and z: "z \<in> set ns" "nx s z = p" "p \<in> set ns" and n: "0 < unat n" "unat n \<le> unat (un s p)"
  obtains q s' ns' where "take_block n z p s = (q + 8, s')" "heap_ok h0 ns' (q # ls) s'" "un s' q = n" "\<forall>a \<in> set ls. un s' a = un s a"
    "base s' = base s"
proof -
  note d = heap_okD [OF ok]
  have "p \<noteq> base s" using n d(5) by auto
  then have p: "p \<in> set (tl ns)" using z(3) d(9) by (metis set_ConsD)
  show thesis
  proof (cases "un s p = n")
    case True
    obtain xs ys where ns: "ns = xs @ p # ys" using z(3) by (meson split_list)
    have "xs \<noteq> []" using ns d(2) \<open>p \<noteq> base s\<close> by auto
    then obtain us w where xs: "xs = us @ [w]" by (metis rev_exhaust)
    have "nx s w = p" using ring_consec [of s us w p ys] d(1) ns xs by simp
    then have "z = w" using inj_onD [OF ring_inj [OF d(1,10)], of z w] z ns xs by simp
    then have "heap_ok h0 (us @ z # ys) (p # ls) ((set_ptr z (nx s p) s)\<lparr>freep := z\<rparr>)"
      using heap_unlink [of h0 us z p ys ls s] ok ns xs by simp
    then show thesis
      using that [of p] True by (simp add: take_block_def)
  next
    case False
    define q where "q = p + 8 * (un s p - n)"
    define s' where "s' = (set_units q n (set_units p (un s p - n) s))\<lparr>freep := z\<rparr>"
    have "unat n < unat (un s p)" using n False by (simp add: le_neq_implies_less word_unat_eq_iff)
    note sp = heap_split [OF ok p n(1) this z(1) q_def s'_def]
    have "take_block n z p s = (q + 8, s')"
      using False by (simp add: take_block_def Let_def q_def s'_def)
    moreover have "\<forall>a \<in> set ls. un s' a = un s a" using sp(2) d(7) z(3) by (auto simp: s'_def)
    ultimately show thesis
      using that sp(1) by (simp add: s'_def)
  qed
qed

text \<open>The walk round the ring from the node behind the roving pointer.\<close>

lemma walk_next: "ring s (us @ ws @ [f]) \<Longrightarrow> nx s (last (f # us)) = hd (ws @ [f])"
proof (cases us rule: rev_cases)
  case Nil
  then show "ring s (us @ ws @ [f]) \<Longrightarrow> ?thesis" using ring_last [of s ws f] by simp
next
  case (snoc vs v)
  then show "ring s (us @ ws @ [f]) \<Longrightarrow> ?thesis" using ring_next [of s vs v "ws @ [f]"] by (cases ws) auto
qed

lemma walk_found:
  assumes "ring s (us @ ws @ [freep s])" "freep s \<notin> set ws" "\<exists>a \<in> set (ws @ [freep s]). n \<le> un s a"
  shows "\<exists>z p. malloc_loop grant n (last (freep s # us)) (hd (ws @ [freep s])) s = Some (take_block n z p s) \<and>
    z \<in> set (us @ ws @ [freep s]) \<and> p \<in> set (ws @ [freep s]) \<and> nx s z = p \<and> n \<le> un s p"
  using assms
proof (induction ws arbitrary: us)
  case Nil
  then show ?case using walk_next [OF Nil.prems(1)] by (subst malloc_loop.simps) (auto split: if_splits)
next
  case (Cons w ws)
  have z: "nx s (last (freep s # us)) = w" "last (freep s # us) \<in> set (us @ (w # ws) @ [freep s])"
    using walk_next [OF Cons.prems(1)] by (auto split: if_splits)
  show ?case
  proof (cases "n \<le> un s w")
    case True
    then have "malloc_loop grant n (last (freep s # us)) (hd ((w # ws) @ [freep s])) s = Some (take_block n (last (freep s # us)) w s)"
      by (subst malloc_loop.simps) simp
    then show ?thesis using z True by (intro exI [of _ "last (freep s # us)"] exI [of _ w]) simp
  next
    case False
    have r: "ring s ((us @ [w]) @ ws @ [freep s])" using Cons.prems(1) by simp
    then have "nx s w = hd (ws @ [freep s])" using walk_next [OF r] by simp
    then have "malloc_loop grant n (last (freep s # us)) (hd ((w # ws) @ [freep s])) s = malloc_loop grant n (last (freep s # us @ [w])) (hd (ws @ [freep s])) s"
      using False Cons.prems(2) by (subst malloc_loop.simps) auto
    then show ?thesis
      using Cons.IH [OF r] Cons.prems(2,3) False by auto
  qed
qed

lemma walk_none:
  assumes "ring s (us @ ws @ [freep s])" "freep s \<notin> set ws" "\<forall>a \<in> set (ws @ [freep s]). \<not> n \<le> un s a"
  shows "malloc_loop grant n (last (freep s # us)) (hd (ws @ [freep s])) s = do {
    (p, s) \<leftarrow> morecore grant n s;
    if p = 0 then Some (0, s) else malloc_loop grant n p (nx s p) s
  }"
  using assms
proof (induction ws arbitrary: us)
  case Nil
  then show ?case by (subst malloc_loop.simps) simp
next
  case (Cons w ws)
  have r: "ring s ((us @ [w]) @ ws @ [freep s])" using Cons.prems(1) by simp
  then have "nx s w = hd (ws @ [freep s])" using walk_next [OF r] by simp
  then have "malloc_loop grant n (last (freep s # us)) (hd ((w # ws) @ [freep s])) s = malloc_loop grant n (last (freep s # us @ [w])) (hd (ws @ [freep s])) s"
    using Cons.prems(2,3) by (subst malloc_loop.simps) auto
  then show ?case using Cons.IH [OF r] Cons.prems(2,3) by simp
qed

text \<open>The ring turned so that the roving pointer is last.\<close>

lemma turned:
  assumes "heap_ok h0 ns ls s"
  obtains rs where "ring s (rs @ [freep s])" "freep s \<notin> set rs" "set (rs @ [freep s]) = set ns"
proof -
  note d = heap_okD [OF assms]
  obtain xs ys where ns: "ns = xs @ freep s # ys" using d(4) by (meson split_list)
  then have "ring s ((ys @ xs) @ [freep s])" using ring_rotate [of s "xs @ [freep s]" ys] d(1) by simp
  then show thesis using that [of "ys @ xs"] ns d(10) by auto
qed

lemma loop_found:
  assumes ok: "heap_ok h0 ns ls s" and n: "0 < unat n" and big: "\<exists>a \<in> set ns. n \<le> un s a"
  obtains q s' ns' where "malloc_loop grant n (freep s) (nx s (freep s)) s = Some (q + 8, s')" "heap_ok h0 ns' (q # ls) s'" "un s' q = n"
    "\<forall>a \<in> set ls. un s' a = un s a" "base s' = base s"
proof -
  obtain rs where rs: "ring s (rs @ [freep s])" "freep s \<notin> set rs" "set (rs @ [freep s]) = set ns"
    using turned [OF ok] .
  have "nx s (freep s) = hd (rs @ [freep s])" using ring_last [OF rs(1)] .
  moreover have "\<exists>a \<in> set (rs @ [freep s]). n \<le> un s a" using big rs(3) by simp
  ultimately obtain z p where w: "malloc_loop grant n (freep s) (nx s (freep s)) s = Some (take_block n z p s)" "z \<in> set ns" "p \<in> set ns" "nx s z = p" "n \<le> un s p"
    using walk_found [of s "[]" rs n grant] rs(1,2) unfolding rs(3) [symmetric] append_Nil by (metis last.simps)
  show thesis
    using take_ok [OF ok w(2,4,3) n] w that by (metis unat_le_word)
qed

lemma malloc_loop_ok:
  assumes ok: "heap_ok h0 ns ls s" and n: "0 < unat n" "unat n < 2 ^ 28"
  obtains (fail) "malloc_loop grant n (freep s) (nx s (freep s)) s = Some (0, s)"
  | (found) q s' ns' where "malloc_loop grant n (freep s) (nx s (freep s)) s = Some (q + 8, s')" "heap_ok h0 ns' (q # ls) s'" "un s' q = n"
    "\<forall>a \<in> set ls. un s' a = un s a" "base s' = base s"
proof (cases "\<exists>a \<in> set ns. n \<le> un s a")
  case True
  then show thesis using loop_found [OF ok n(1)] found by metis
next
  case False
  obtain rs where rs: "ring s (rs @ [freep s])" "freep s \<notin> set rs" "set (rs @ [freep s]) = set ns"
    using turned [OF ok] .
  have w: "malloc_loop grant n (freep s) (nx s (freep s)) s = do {
      (p, s) \<leftarrow> morecore grant n s;
      if p = 0 then Some (0, s) else malloc_loop grant n p (nx s p) s
    }"
    using walk_none [of s "[]" rs n grant] rs False ring_last [OF rs(1)] by auto
  show thesis
  proof (cases rule: morecore_ok [OF ok n(2), of grant])
    case (1 s')
    then show thesis using w fail by simp
  next
    case (2 s' ns')
    then obtain q s2 ns2 where "malloc_loop grant n (freep s') (nx s' (freep s')) s' = Some (q + 8, s2)" "heap_ok h0 ns2 (q # ls) s2" "un s2 q = n"
      "\<forall>a \<in> set ls. un s2 a = un s' a" "base s2 = base s'"
      using loop_found [OF 2(2) n(1)] by (metis unat_le_word)
    then show thesis using 2 w found by simp
  qed
qed


subsection \<open>Programs that use the allocator\<close>

text \<open>The pointers a program holds are its blocks behind their headers, and the blocks have room for what was asked for.\<close>

definition holds :: "nat \<Rightarrow> umem \<Rightarrow> (u32 \<times> u32) list \<Rightarrow> bool" where
  "holds h0 s live \<longleftrightarrow> (\<exists>ns. heap_ok h0 ns (map (\<lambda>(p, _). p - 8) live) s) \<and> (\<forall>(p, n) \<in> set live. unat n + 8 \<le> 8 * unat (un s (p - 8)))"

lemma first_use_ok:
  assumes "base s \<noteq> 0" "unat (base s) + 8 \<le> h0" "h0 \<le> unat (brk s)" "unat (brk s) < 2 ^ 31" "8 dvd unat (brk s)" "freep s = 0"
  shows "heap_ok h0 [base s] [] (first_use s)"
  using assms by (simp add: heap_ok_def first_use_def ring_def blocks_ok_def unat_gt_0)

lemma malloc_ok:
  assumes h: "holds h0 (first_use s) live" and n: "nbytes \<le> 0x7FFFFFF0"
  obtains (fail) "malloc grant nbytes s = Some (0, first_use s)"
  | (found) p s' where "malloc grant nbytes s = Some (p, s')" "holds h0 s' ((p, nbytes) # live)" "base s' = base s" "p \<noteq> 0" "freep s' \<noteq> 0"
proof -
  let ?ls = "map (\<lambda>(p, _). p - 8) live" and ?s = "first_use s" and ?n = "nunits nbytes"
  obtain ns where ok: "heap_ok h0 ns ?ls ?s" using h by (auto simp: holds_def)
  have "unat nbytes \<le> 0x7FFFFFF0" using n by (simp add: unat_le_word)
  then have u: "unat ?n = (unat nbytes + 7) div 8 + 1" "0 < unat ?n" "unat ?n < 2 ^ 28" "unat nbytes + 8 \<le> 8 * unat ?n"
    using unat_nunits [OF n] by auto
  have base: "base ?s = base s" by (simp add: first_use_def)
  have m: "malloc grant nbytes s = malloc_loop grant ?n (freep ?s) (nx ?s (freep ?s)) ?s"
    by (simp add: malloc_def Let_def)
  show thesis
  proof (cases rule: malloc_loop_ok [OF ok u(2,3), of grant])
    case 1
    then show thesis using fail m by simp
  next
    case (2 q s' ns')
    note d = heap_okD [OF 2(2)]
    have q: "fin s' q \<le> unat (brk s')" "unat q + 8 \<le> fin s' q" using blockD(4,5) [OF d(8), of q] by simp_all
    then have "unat (q + 8) = unat q + 8" using d(11) by (subst unat_add_nowrap) simp_all
    then have "q + 8 \<noteq> 0" by auto
    moreover have "un s' (r - 8) = un ?s (r - 8)" if "(r, k) \<in> set live" for r k
      using 2(4) that by force
    then have "holds h0 s' ((q + 8, nbytes) # live)"
      using 2(2,3) h u(4) by (fastforce simp: holds_def)
    moreover have "freep s' \<noteq> 0" using node_nonzero [OF 2(2)] d(4) by blast
    ultimately show thesis using found 2(1,5) m base by simp
  qed
qed

lemma holds_free:
  assumes h: "holds h0 s (xs @ (p, n) # ys)"
  obtains s' where "free p s = Some s'" "holds h0 s' (xs @ ys)" "base s' = base s" "freep s' \<noteq> 0"
proof -
  let ?f = "\<lambda>(p :: u32, _ :: u32). p - 8"
  obtain ns where ok: "heap_ok h0 ns (map ?f (xs @ (p, n) # ys)) s" using h by (auto simp: holds_def)
  then obtain s' ns' where s': "free (p - 8 + 8) s = Some s'" "heap_ok h0 ns' (remove1 (p - 8) (map ?f (xs @ (p, n) # ys))) s'"
      "\<forall>a \<in> set (map ?f (xs @ (p, n) # ys)) - {p - 8}. un s' a = un s a" "base s' = base s"
    by (rule free_ok [of _ _ _ _ "p - 8"]) auto
  have nd: "p - 8 \<notin> set (map ?f (xs @ ys))" using heap_okD(6) [OF ok] by auto
  then have "remove1 (p - 8) (map ?f (xs @ (p, n) # ys)) = map ?f (xs @ ys)" by (simp add: remove1_append)
  then have ok': "heap_ok h0 ns' (map ?f (xs @ ys)) s'" using s'(2) by simp
  have "un s' (r - 8) = un s (r - 8)" if "(r, k) \<in> set (xs @ ys)" for r k
  proof -
    have "r - 8 \<in> set (map ?f (xs @ ys))" using that by (metis (no_types, lifting) case_prod_conv image_eqI set_map)
    then show ?thesis using s'(3) nd by (metis (no_types, lifting) Diff_iff UnCI UnE list.set_intros(2) map_append list.simps(9) set_append singletonD)
  qed
  then have "holds h0 s' (xs @ ys)"
    using ok' h unfolding holds_def by (metis (no_types, lifting) Un_iff case_prodD case_prodI2 list.set_intros(2) set_append)
  moreover have "freep s' \<noteq> 0" using node_nonzero [OF s'(2)] heap_okD(4) [OF s'(2)] by blast
  ultimately show thesis using that s' by simp
qed


lemma heap_cong:
  assumes "heap_ok h0 ns ls s" "\<forall>a \<in> set ns \<union> set ls. m a = hdr s a"
  shows "heap_ok h0 ns ls (s\<lparr>hdr := m\<rparr>)"
proof -
  note d = heap_okD [OF assms(1)]
  have t: "set (tl ns) \<subseteq> set ns" "base s \<in> set ns" using d(9) by (metis list.set_intros(1) set_subset_Cons)+
  then have "blocks_ok (s\<lparr>hdr := m\<rparr>) h0 (set (tl ns) \<union> set ls)"
    using d(8) assms(2) by (auto simp: blocks_ok_def fin_def subset_iff)
  moreover have "ring (s\<lparr>hdr := m\<rparr>) ns" using d(1) assms(2) by (subst ring_cong [of _ _ s]) simp_all
  ultimately show ?thesis using assms t by (simp add: heap_ok_def)
qed

lemma heldD:
  assumes "heap_ok h0 ns (map (\<lambda>(p, _). p - 8) live) s" "(p, n) \<in> set live" "unat n + 8 \<le> 8 * unat (un s (p - 8))"
  shows "p - 8 \<in> set (map (\<lambda>(p, _). p - 8) live)" "unat p = unat (p - 8) + 8" "unat p + unat n \<le> fin s (p - 8)"
proof -
  note d = heap_okD [OF assms(1)]
  show l: "p - 8 \<in> set (map (\<lambda>(p, _). p - 8) live)"
    using assms(2) by (metis (no_types, lifting) case_prod_conv image_eqI set_map)
  have "unat (p - 8) + 8 < 2 ^ 32" using blockD(4,5) [OF d(8), of "p - 8"] l d(11) by simp
  then show "unat p = unat (p - 8) + 8" using unat_add_nowrap [of "p - 8" 8] by simp
  then show "unat p + unat n \<le> fin s (p - 8)" using assms(3) by (simp add: fin_def)
qed

lemma holds_store:
  assumes h: "holds h0 s live"
    and m: "\<forall>a. m a \<noteq> hdr s a \<longrightarrow> (\<exists>(p, n) \<in> set live. unat p \<le> unat a \<and> unat a < unat p + unat n)"
  shows "holds h0 (s\<lparr>hdr := m\<rparr>) live"
proof -
  let ?ls = "map (\<lambda>(p, _). p - 8) live"
  obtain ns where ok: "heap_ok h0 ns ?ls s" using h by (auto simp: holds_def)
  note d = heap_okD [OF ok]
  have same: "m a = hdr s a" if a: "a \<in> set ns \<union> set ?ls" for a
  proof (rule ccontr)
    assume "m a \<noteq> hdr s a"
    then obtain p n where pn: "(p, n) \<in> set live" "unat p \<le> unat a" "unat a < unat p + unat n" using m by blast
    then have "unat n + 8 \<le> 8 * unat (un s (p - 8))" using h by (auto simp: holds_def)
    note hp = heldD [OF ok pn(1) this]
    have l: "p - 8 \<in> set (tl ns) \<union> set ?ls" using hp(1) by blast
    have "a \<noteq> base s" using blockD(2) [OF d(8) l] d(12) hp(2) pn(2) by auto
    then have "a \<in> set (tl ns) \<union> set ?ls" using a d(9) by (metis Un_iff set_ConsD)
    moreover have "p - 8 < a" using hp(2) pn(2) by (simp add: unat_lt_word)
    ultimately show False using blocks_apart [OF d(8) l, of a] hp(3) pn(3) by simp
  qed
  have "m (p - 8) = hdr s (p - 8)" if "(p, n) \<in> set live" for p n
    using same that by (metis (no_types, lifting) UnI2 case_prod_conv image_eqI set_map)
  moreover have "\<forall>(p, n) \<in> set live. unat n + 8 \<le> 8 * unat (un s (p - 8))" using h by (simp add: holds_def)
  ultimately have "\<forall>(p, n) \<in> set live. unat n + 8 \<le> 8 * unat (un (s\<lparr>hdr := m\<rparr>) (p - 8))" by auto
  moreover have "heap_ok h0 ns ?ls (s\<lparr>hdr := m\<rparr>)" using heap_cong [OF ok] same by blast
  ultimately show ?thesis unfolding holds_def by blast
qed

lemma first_use_id: "freep s \<noteq> 0 \<Longrightarrow> first_use s = s"
  by (simp add: first_use_def)

lemma uses_invariant:
  assumes "uses b heap0 s live" "b \<noteq> 0" "unat b + 8 \<le> unat heap0" "unat heap0 < 2 ^ 31" "8 dvd unat heap0"
  shows "holds (unat heap0) (first_use s) live \<and> base s = b \<and> (freep s = 0 \<longrightarrow> live = [])"
  using assms(1)
proof induction
  case (uses_start m)
  show ?case
    using first_use_ok [of "\<lparr>hdr = m, base = b, freep = 0, brk = heap0\<rparr>" "unat heap0"] assms(2-) by (auto simp: holds_def)
next
  case (uses_malloc s live nbytes grant p s')
  then have h: "holds (unat heap0) (first_use s) live" by blast
  show ?case
    using uses_malloc by (cases rule: malloc_ok [OF h uses_malloc.hyps(2), of grant]) (auto simp: first_use_id)
next
  case (uses_fail s live nbytes grant s')
  then have h: "holds (unat heap0) (first_use s) live" by blast
  have "freep (first_use s) \<noteq> 0" using uses_fail.IH assms(2) by (auto simp: first_use_def)
  then show ?case
    using uses_fail by (cases rule: malloc_ok [OF h uses_fail.hyps(2), of grant]) (auto simp: first_use_id first_use_def)
next
  case (uses_free s xs p n ys s')
  then have "holds (unat heap0) s (xs @ (p, n) # ys)" by (auto simp: first_use_id)
  from holds_free [OF this] show ?case using uses_free by (metis first_use_id option.inject)
next
  case (uses_store s live m)
  show ?case
  proof (cases "freep s = 0")
    case True
    then have "m = hdr s" using uses_store by (auto simp: fun_eq_iff)
    then show ?thesis using uses_store.IH by simp
  next
    case False
    then show ?thesis using uses_store holds_store [of "unat heap0" s live m] by (simp add: first_use_id)
  qed
qed

text \<open>
  C8: the allocator is safe.  After any sequence of calls of \<^verbatim>\<open>malloc\<close> for less than 2 GB, calls of \<^verbatim>\<open>free\<close> on pointers the program holds and stores into
  the blocks it holds, the blocks lie in the heap of the process, are aligned, have the size asked for and do not overlap, nor does the header of
  one lie in another; and the searches of the next call end, whatever the kernel grants.
\<close>

theorem malloc_safe:
  assumes "uses b heap0 s live" "b \<noteq> 0" "unat b + 8 \<le> unat heap0" "unat heap0 < 2 ^ 31" "8 dvd unat heap0"
  shows "(\<forall>i < length live. \<forall>j < length live. i \<noteq> j \<longrightarrow> (case (live ! i, live ! j) of ((p, n), (q, k)) \<Rightarrow>
      p \<noteq> q \<and> (unat p + unat n + 8 \<le> unat q \<or> unat q + unat k + 8 \<le> unat p))) \<and>
    (\<forall>(p, n) \<in> set live. 8 dvd unat p \<and> unat heap0 + 8 \<le> unat p \<and> unat p + unat n \<le> unat (brk s) \<and> (\<exists>s'. free p s = Some s')) \<and>
    (\<forall>nbytes \<le> 0x7FFFFFF0. \<exists>r. malloc grant nbytes s = Some r)"
proof (intro conjI allI impI ballI)
  have inv: "holds (unat heap0) (first_use s) live" "freep s = 0 \<longrightarrow> live = []"
    using uses_invariant [OF assms] by auto
  then obtain ns where ok: "heap_ok (unat heap0) ns (map (\<lambda>(p, _). p - 8) live) (first_use s)" by (auto simp: holds_def)
  note d = heap_okD [OF ok]
  have room: "unat n + 8 \<le> 8 * unat (un (first_use s) (p - 8))" if "(p, n) \<in> set live" for p n
    using inv(1) that by (auto simp: holds_def)
  note held = heldD [OF ok _ room]
  {
    fix nbytes :: u32 assume "nbytes \<le> 0x7FFFFFF0"
    then show "\<exists>r. malloc grant nbytes s = Some r" by (cases rule: malloc_ok [OF inv(1), of nbytes grant]) auto
  next
    fix i j assume ij: "i < length live" "j < length live" "i \<noteq> j"
    obtain p n q k where pq: "live ! i = (p, n)" "live ! j = (q, k)" by (metis surj_pair)
    then have l: "(p, n) \<in> set live" "(q, k) \<in> set live" using ij by (metis nth_mem)+
    have ne: "p - 8 \<noteq> q - 8"
      using d(6) ij pq by (metis (no_types, lifting) case_prod_conv length_map nth_eq_iff_index_eq nth_map)
    note hp = held [OF l(1) l(1)] and hq = held [OF l(2) l(2)]
    have "fin (first_use s) (p - 8) \<le> unat (q - 8) \<or> fin (first_use s) (q - 8) \<le> unat (p - 8)"
      using blocks_apart [OF d(8), of "p - 8" "q - 8"] blocks_apart [OF d(8), of "q - 8" "p - 8"] ne hp(1) hq(1)
      by (meson UnI2 linorder_neqE)
    then show "case (live ! i, live ! j) of ((p, n), (q, k)) \<Rightarrow> p \<noteq> q \<and> (unat p + unat n + 8 \<le> unat q \<or> unat q + unat k + 8 \<le> unat p)"
      using ne hp(2,3) hq(2,3) by (auto simp: pq)
  next
    fix x assume x: "x \<in> set live"
    obtain p n where pn: "x = (p, n)" by (metis surj_pair)
    note hp = held [of p n, OF x [unfolded pn] x [unfolded pn]]
    have fs: "first_use s = s" using inv(2) x by (auto intro: first_use_id)
    obtain xs ys where "live = xs @ (p, n) # ys" using x pn by (meson split_list)
    then have "\<exists>s'. free p s = Some s'" using holds_free [of "unat heap0" s xs p n ys] inv(1) fs by metis
    then show "case x of (p, n) \<Rightarrow> 8 dvd unat p \<and> unat heap0 + 8 \<le> unat p \<and> unat p + unat n \<le> unat (brk s) \<and> (\<exists>s'. free p s = Some s')"
      using hp blockD [OF d(8), of "p - 8"] fs pn by auto
  }
qed


definition sample0 :: umem where
  "sample0 = \<lparr>hdr = \<lambda>_. \<lparr>ptr = 0, units = 0\<rparr>, base = 0x800, freep = 0, brk = 0x4000\<rparr>"

definition sample :: "u32 \<Rightarrow> (u32 \<times> header) list \<Rightarrow> umem" where
  "sample n us = \<lparr>hdr = foldl (\<lambda>m (a, h). m(a := h)) ((\<lambda>_. \<lparr>ptr = 0, units = 0\<rparr>)(0x800 := \<lparr>ptr = 0x4000, units = 0\<rparr>, 0x4000 := \<lparr>ptr = 0x800, units = n\<rparr>)) us,
     base = 0x800, freep = 0x800, brk = 0xC000\<rparr>"

lemma sample_grow: "morecore (\<lambda>_. True) 14 (first_use sample0) = Some (0x800, sample 4096 [])"
  by (simp add: sample0_def sample_def morecore_def sbrk_def first_use_def free_def free_place.simps join_next_def join_prev_def mem_defs Let_def sint_below fun_upd_twist)

lemma sample_first: "malloc (\<lambda>_. True) 100 sample0 = Some (0xBF98, sample 4082 [(0xBF90, \<lparr>ptr = 0, units = 14\<rparr>)])"
proof -
  have n: "nunits 100 = 14" by (simp add: nunits_def)
  have f: "freep (first_use sample0) = 0x800" "nx (first_use sample0) 0x800 = 0x800" "un (first_use sample0) 0x800 = 0"
    by (simp_all add: first_use_def sample0_def)
  have "malloc (\<lambda>_. True) 100 sample0 = malloc_loop (\<lambda>_. True) 14 0x800 (nx (sample 4096 []) 0x800) (sample 4096 [])"
    unfolding malloc_def n Let_def f by (subst malloc_loop.simps) (simp add: f sample_grow)
  also have "\<dots> = Some (0xBF98, sample 4082 [(0xBF90, \<lparr>ptr = 0, units = 14\<rparr>)])"
    by (subst malloc_loop.simps) (simp add: sample_def take_block_def mem_defs Let_def fun_upd_twist)
  finally show ?thesis .
qed

lemma sample_second:
  "malloc (\<lambda>_. True) 10 (sample 4082 [(0xBF90, \<lparr>ptr = 0, units = 14\<rparr>)]) =
     Some (0xBF80, sample 4079 [(0xBF90, \<lparr>ptr = 0, units = 14\<rparr>), (0xBF78, \<lparr>ptr = 0, units = 3\<rparr>)])"
  unfolding malloc_def Let_def
  by (subst malloc_loop.simps) (simp add: nunits_def first_use_def sample_def take_block_def mem_defs Let_def fun_upd_twist)

text \<open>Two blocks of a heap that begins at \<open>0x4000\<close>.\<close>

theorem malloc_safe_witness:
  "uses 0x800 0x4000 (sample 4079 [(0xBF90, \<lparr>ptr = 0, units = 14\<rparr>), (0xBF78, \<lparr>ptr = 0, units = 3\<rparr>)]) [(0xBF80, 10), (0xBF98, 100)] \<and>
   (unat (0xBF80 :: u32) + unat (10 :: u32) + 8 \<le> unat (0xBF98 :: u32) \<or> unat (0xBF98 :: u32) + unat (100 :: u32) + 8 \<le> unat (0xBF80 :: u32)) \<and>
   unat (0xBF98 :: u32) + unat (100 :: u32) \<le> unat (brk (sample 4079 [(0xBF90, \<lparr>ptr = 0, units = 14\<rparr>), (0xBF78, \<lparr>ptr = 0, units = 3\<rparr>)])) \<and>
   (\<exists>s'. free 0xBF98 (sample 4079 [(0xBF90, \<lparr>ptr = 0, units = 14\<rparr>), (0xBF78, \<lparr>ptr = 0, units = 3\<rparr>)]) = Some s') \<and>
   (\<exists>r. malloc (\<lambda>_. False) 1000000 (sample 4079 [(0xBF90, \<lparr>ptr = 0, units = 14\<rparr>), (0xBF78, \<lparr>ptr = 0, units = 3\<rparr>)]) = Some r)"
  (is "uses _ _ ?s ?live \<and> _")
proof -
  have "uses 0x800 0x4000 sample0 []"
    unfolding sample0_def by (rule uses_start)
  then have "uses 0x800 0x4000 (sample 4082 [(0xBF90, \<lparr>ptr = 0, units = 14\<rparr>)]) [(0xBF98, 100)]"
    by (rule uses_malloc [OF _ _ sample_first]) simp_all
  then have u: "uses 0x800 0x4000 ?s ?live"
    by (rule uses_malloc [OF _ _ sample_second]) simp_all
  note safe = malloc_safe [OF u, of "\<lambda>_. False"]
  have "\<exists>s'. free 0xBF98 ?s = Some s'" "\<exists>r. malloc (\<lambda>_. False) 1000000 ?s = Some r" "unat (0xBF98 :: u32) + unat (100 :: u32) \<le> unat (brk ?s)"
    using safe by auto
  with u show ?thesis by simp
qed

text \<open>The addition that rounds a request up wraps: a request for almost 4 GB is answered like one for nothing, with a block that is only a header.\<close>

lemma malloc_wraps:
  assumes "0xFFFFFFF9 \<le> nbytes"
  shows "malloc grant nbytes s = malloc grant 0 s" "nunits nbytes = 1"
proof -
  have "unat nbytes \<ge> 0xFFFFFFF9" "unat nbytes < 2 ^ 32" using assms unsigned_less [of nbytes] by (simp_all add: unat_le_word)
  then have "unat (nbytes + 7) < 8" by (simp add: unat_word_ariths le_mod_geq)
  then have "unat ((nbytes + 7) div 8) = 0" by (simp add: unat_div_word)
  then have "(nbytes + 7) div 8 = 0" by (simp add: unat_eq_zero_iff)
  then show n: "nunits nbytes = 1" by (simp add: nunits_def add.commute)
  have "nunits 0 = 1" by (simp add: nunits_def)
  then show "malloc grant nbytes s = malloc grant 0 s" by (simp add: malloc_def n)
qed

end
