(* ===== verification/Xv6_Shell.thy ===== *)
theory Xv6_Shell
  imports Prelude
begin

text \<open>
  The parser of the shell (\<^verbatim>\<open>sh.c\<close>, the same file in both kernels).  It works on the line it was given: a command keeps pointers to where its words
  begin and end, and when the whole line is parsed the words are terminated in place.

  The line is the array of its characters, a pointer an index into it.  A call of \<^verbatim>\<open>panic\<close> is \<open>Inl\<close> with its message.  The recursive functions
  of the parser are one function with a tag for which of them is meant; its result \<open>None\<close> would be a recursion that does not end.

  Shown here: parsing ends on every line; terminating the words in place leaves every word as it was read; and the
  text of any command, with brackets where they are needed, is parsed to that command.
\<close>

datatype cmd =
    EXEC "(nat \<times> nat) list"
  | REDIR cmd "nat \<times> nat" int nat
  | PIPE cmd cmd
  | LIST cmd cmd
  | BACK cmd

abbreviation "MAXARGS \<equiv> (10 :: nat)"
abbreviation "O_RDONLY \<equiv> (0 :: int)"
abbreviation "O_WRONLY_CREATE \<equiv> (0x201 :: int)"
abbreviation "NUL \<equiv> CHR 0x00"

definition whitespace :: string where
  "whitespace = [CHR '' '', CHR 0x09, CHR 0x0D, CHR 0x0A, CHR 0x0B]"

definition symbols :: string where
  "symbols = ''<|>&;()''"

text \<open>The loops that move a pointer over the characters of one kind.\<close>

function skip :: "(char \<Rightarrow> bool) \<Rightarrow> string \<Rightarrow> nat \<Rightarrow> nat \<Rightarrow> nat" where
  "skip P b es s = (if s < es \<and> P (b ! s) then skip P b es (s + 1) else s)"
  by pat_completeness auto
termination by (relation "measure (\<lambda>(_, _, es, s). es - s)") auto

declare skip.simps [simp del]

abbreviation "is_space c \<equiv> c \<in> set whitespace"
abbreviation "in_word c \<equiv> c \<notin> set whitespace \<and> c \<notin> set symbols"

datatype token = TEnd | TSym char | TAppend | TWord

definition gettoken :: "string \<Rightarrow> nat \<Rightarrow> nat \<Rightarrow> token \<times> nat \<times> nat \<times> nat" where
  "gettoken b es s =
     (let q = skip is_space b es s;
          (ret, eq) =
            (if b ! q = NUL then (TEnd, q)
             else if b ! q \<in> set ''|();&<'' then (TSym (b ! q), q + 1)
             else if b ! q = CHR ''>'' then
               if b ! (q + 1) = CHR ''>'' then (TAppend, q + 2) else (TSym (CHR ''>''), q + 1)
             else (TWord, skip in_word b es q)) in
      (ret, q, eq, skip is_space b es eq))"

definition peek :: "string \<Rightarrow> nat \<Rightarrow> nat \<Rightarrow> string \<Rightarrow> bool \<times> nat" where
  "peek b es s toks = (let s = skip is_space b es s in (b ! s \<noteq> NUL \<and> b ! s \<in> set toks, s))"

definition after_token :: "string \<Rightarrow> nat \<Rightarrow> nat \<Rightarrow> nat" where
  "after_token b es s = (case gettoken b es s of (_, _, _, s) \<Rightarrow> s)"

type_synonym redir = "(nat \<times> nat) \<times> int \<times> nat"

definition redir_mode :: "token \<Rightarrow> int \<times> nat" where
  "redir_mode tok = (if tok = TSym (CHR ''<'') then (O_RDONLY, 0) else (O_WRONLY_CREATE, 1))"

text \<open>The redirections that are read are collected; a later one is around the earlier ones.\<close>

partial_function (option) parseredirs :: "string \<Rightarrow> nat \<Rightarrow> redir list \<Rightarrow> nat \<Rightarrow> (string + redir list \<times> nat) option" where
  "parseredirs b es rs s =
     (let (p, s) = peek b es s ''<>'' in
      if \<not> p then Some (Inr (rs, s))
      else let (tok, _, _, s) = gettoken b es s; (tok', q, eq, s) = gettoken b es s in
        if tok' \<noteq> TWord then Some (Inl ''missing file for redirection'')
        else parseredirs b es (rs @ [((q, eq), redir_mode tok)]) s)"

definition wrap :: "cmd \<Rightarrow> redir list \<Rightarrow> cmd" where
  "wrap c rs = foldl (\<lambda>c (f, mode, fd). REDIR c f mode fd) c rs"

text \<open>The loop of \<^verbatim>\<open>parseexec\<close>: the arguments are entered into the command that the redirections are around.\<close>

partial_function (option) parseargs :: "string \<Rightarrow> nat \<Rightarrow> (nat \<times> nat) list \<Rightarrow> redir list \<Rightarrow> nat \<Rightarrow> (string + cmd \<times> nat) option" where
  "parseargs b es argv rs s =
     (let (p, s) = peek b es s ''|)&;'' in
      if p then Some (Inr (wrap (EXEC argv) rs, s))
      else let (tok, q, eq, s) = gettoken b es s in
        if tok = TEnd then Some (Inr (wrap (EXEC argv) rs, s))
        else if tok \<noteq> TWord then Some (Inl ''syntax'')
        else if length argv + 1 \<ge> MAXARGS then Some (Inl ''too many args'')
        else do {
          r \<leftarrow> parseredirs b es rs s;
          case r of Inl e \<Rightarrow> Some (Inl e) | Inr (rs, s) \<Rightarrow> parseargs b es (argv @ [(q, eq)]) rs s
        })"

partial_function (option) parsebacks :: "string \<Rightarrow> nat \<Rightarrow> cmd \<Rightarrow> nat \<Rightarrow> (cmd \<times> nat) option" where
  "parsebacks b es c s =
     (let (p, s) = peek b es s ''&'' in
      if p then parsebacks b es (BACK c) (after_token b es s) else Some (c, s))"

datatype level = Line | Pipe | Block

partial_function (option) parse :: "level \<Rightarrow> string \<Rightarrow> nat \<Rightarrow> nat \<Rightarrow> (string + cmd \<times> nat) option" where
  "parse l b es s =
     (case l of
        Line \<Rightarrow> do {
          r \<leftarrow> parse Pipe b es s;
          case r of Inl e \<Rightarrow> Some (Inl e)
          | Inr (c, s) \<Rightarrow> do {
              (c, s) \<leftarrow> parsebacks b es c s;
              let (p, s) = peek b es s '';'';
              if \<not> p then Some (Inr (c, s))
              else do {
                r \<leftarrow> parse Line b es (after_token b es s);
                case r of Inl e \<Rightarrow> Some (Inl e) | Inr (d, s) \<Rightarrow> Some (Inr (LIST c d, s))
              }
            }
        }
      | Pipe \<Rightarrow> do {
          r \<leftarrow> parse Block b es s;
          case r of Inl e \<Rightarrow> Some (Inl e)
          | Inr (c, s) \<Rightarrow>
              (let (p, s) = peek b es s ''|'' in
               if \<not> p then Some (Inr (c, s))
               else do {
                 r \<leftarrow> parse Pipe b es (after_token b es s);
                 case r of Inl e \<Rightarrow> Some (Inl e) | Inr (d, s) \<Rightarrow> Some (Inr (PIPE c d, s))
               })
        }
      | Block \<Rightarrow>
          (let (p, s) = peek b es s ''('' in
           if p then do {
             r \<leftarrow> parse Line b es (after_token b es s);
             case r of Inl e \<Rightarrow> Some (Inl e)
             | Inr (c, s) \<Rightarrow>
                 (let (p, s) = peek b es s '')'' in
                  if \<not> p then Some (Inl ''syntax - missing )'')
                  else do {
                    r \<leftarrow> parseredirs b es [] (after_token b es s);
                    case r of Inl e \<Rightarrow> Some (Inl e) | Inr (rs, s) \<Rightarrow> Some (Inr (wrap c rs, s))
                  })
           }
           else do {
             r \<leftarrow> parseredirs b es [] s;
             case r of Inl e \<Rightarrow> Some (Inl e) | Inr (rs, s) \<Rightarrow> parseargs b es [] rs s
           }))"

text \<open>The strings of a command, by where they begin and end.\<close>

primrec nulterminate :: "cmd \<Rightarrow> string \<Rightarrow> string" where
  "nulterminate (EXEC argv) b = fold (\<lambda>(q, eq) b. b[eq := NUL]) argv b"
| "nulterminate (REDIR c f mode fd) b = (nulterminate c b)[snd f := NUL]"
| "nulterminate (PIPE c d) b = nulterminate d (nulterminate c b)"
| "nulterminate (LIST c d) b = nulterminate d (nulterminate c b)"
| "nulterminate (BACK c) b = nulterminate c b"

definition parsecmd :: "string \<Rightarrow> (string + cmd \<times> string) option" where
  "parsecmd b = do {
     let es = length (takeWhile (\<lambda>c. c \<noteq> NUL) b);
     r \<leftarrow> parse Line b es 0;
     case r of Inl e \<Rightarrow> Some (Inl e)
     | Inr (c, s) \<Rightarrow>
         (let (_, s) = peek b es s '''' in
          if s \<noteq> es then Some (Inl ''syntax'') else Some (Inr (c, nulterminate c b)))
   }"

subsection \<open>Where the pointer can be\<close>

text \<open>The part of the line from a pointer on.\<close>

definition at :: "string \<Rightarrow> nat \<Rightarrow> nat \<Rightarrow> string \<Rightarrow> bool" where
  "at b es s t \<longleftrightarrow> s \<le> es \<and> es < length b \<and> b ! es = NUL \<and> NUL \<notin> set (take es b) \<and> drop s (take es b) = t"

lemma at_nth: "at b es s t \<Longrightarrow> b ! s = (if t = [] then NUL else hd t)"
proof -
  assume a: "at b es s t"
  show ?thesis
  proof (cases "s < es")
    case True
    then have "t = b ! s # drop (Suc s) (take es b)"
      using a Cons_nth_drop_Suc [of s "take es b"] by (simp add: at_def)
    then show ?thesis by auto
  next
    case False
    then show ?thesis using a by (auto simp: at_def)
  qed
qed

lemma at_empty: "at b es s t \<Longrightarrow> s = es \<longleftrightarrow> t = []"
  by (auto simp: at_def)

lemma at_move: "at b es s (u @ t) \<Longrightarrow> at b es (s + length u) t"
proof -
  assume a: "at b es s (u @ t)"
  then have "length (drop s (take es b)) = length u + length t" by (simp add: at_def)
  then have "s + length u \<le> es" using a unfolding at_def length_drop length_take by linarith
  moreover have "drop (s + length u) (take es b) = t"
    using a drop_drop [of "length u" s "take es b"] by (simp add: at_def add.commute)
  ultimately show ?thesis using a by (simp add: at_def)
qed

lemma at_length: "at b es s t \<Longrightarrow> length t = es - s"
  by (auto simp: at_def)

lemma at_nonul: "at b es s t \<Longrightarrow> NUL \<notin> set t"
  by (auto simp: at_def dest: in_set_dropD)

lemma skip_at:
  assumes "at b es s t"
  shows "skip P b es s = s + length (takeWhile P t)" "at b es (skip P b es s) (dropWhile P t)"
proof -
  show e: "skip P b es s = s + length (takeWhile P t)"
    using assms
  proof (induction t arbitrary: s)
    case Nil
    then show ?case using at_empty [of b es s "[]"] by (auto simp: skip.simps [of P b es es])
  next
    case (Cons c t)
    have "s \<noteq> es" using at_empty [OF Cons.prems] by simp
    then have "s < es" using Cons.prems by (simp add: at_def)
    moreover have "b ! s = c" using at_nth [OF Cons.prems] by simp
    moreover have "at b es (s + 1) t" using at_move [of b es s "[c]" t] Cons.prems by simp
    ultimately show ?case using Cons.IH [of "s + 1"] by (simp add: skip.simps [of P b es s])
  qed
  show "at b es (skip P b es s) (dropWhile P t)"
    unfolding e using at_move [of b es s "takeWhile P t" "dropWhile P t"] assms by simp
qed


lemma peek_at:
  assumes "at b es s t"
  shows "peek b es s toks = (dropWhile is_space t \<noteq> [] \<and> hd (dropWhile is_space t) \<in> set toks, skip is_space b es s)"
proof -
  note a = skip_at(2) [OF assms, of is_space]
  have "dropWhile is_space t \<noteq> [] \<Longrightarrow> hd (dropWhile is_space t) \<noteq> NUL" using at_nonul [OF a] by (metis list.set_sel(1))
  then show ?thesis using at_nth [OF a] by (auto simp: peek_def Let_def)
qed

text \<open>A pointer that is not at white space.\<close>

definition here :: "string \<Rightarrow> nat \<Rightarrow> nat \<Rightarrow> string \<Rightarrow> bool" where
  "here b es s t \<longleftrightarrow> at b es s t \<and> (t \<noteq> [] \<longrightarrow> \<not> is_space (hd t))"

lemma skip_here: "at b es s t \<Longrightarrow> here b es (skip is_space b es s) (dropWhile is_space t)"
  using skip_at(2) [of b es s t is_space] hd_dropWhile [of is_space t] by (auto simp: here_def dropWhile_eq_Nil_conv)

lemma skip_stays: "here b es s t \<Longrightarrow> skip is_space b es s = s"
  using skip_at(1) [of b es s t is_space] by (cases t) (auto simp: here_def)

lemma peek_here: "here b es s t \<Longrightarrow> peek b es s toks = (t \<noteq> [] \<and> hd t \<in> set toks, s)"
  using peek_at [of b es s t toks] skip_stays [of b es s t] by (cases t) (auto simp: here_def)

lemma symbol_chars: "c \<in> set symbols \<longleftrightarrow> c \<in> set ''|();&<'' \<or> c = CHR ''>''" "c \<in> set symbols \<Longrightarrow> \<not> is_space c"
  "c \<in> set ''|();&<'' \<Longrightarrow> c \<noteq> CHR ''>''"
  by (auto simp: symbols_def whitespace_def)

lemma token_end: "here b es s [] \<Longrightarrow> gettoken b es s = (TEnd, s, s, s)"
  using at_nth [of b es s "[]"] skip_stays [of b es s "[]"] by (simp add: gettoken_def here_def Let_def)

lemma token_symbol:
  assumes "here b es s (c # t)" "c \<in> set ''|();&<''"
  obtains s' where "gettoken b es s = (TSym c, s, s + 1, s')" "here b es s' (dropWhile is_space t)" "after_token b es s = s'"
proof -
  have a: "at b es s (c # t)" using assms(1) by (simp add: here_def)
  have "c \<noteq> NUL" using at_nonul [OF a] by auto
  then have "gettoken b es s = (TSym c, s, s + 1, skip is_space b es (s + 1))"
    using at_nth [OF a] assms by (simp add: gettoken_def skip_stays Let_def)
  moreover have "at b es (s + 1) t" using at_move [of b es s "[c]" t] a by simp
  ultimately show thesis using that skip_here by (simp add: after_token_def)
qed

lemma token_word:
  assumes "here b es s t" "t \<noteq> []" "in_word (hd t)"
  obtains s' where "gettoken b es s = (TWord, s, s + length (takeWhile in_word t), s')" "here b es s' (dropWhile is_space (dropWhile in_word t))"
proof -
  have a: "at b es s t" using assms(1) by (simp add: here_def)
  have "hd t \<noteq> NUL" using at_nonul [OF a] assms(2) by (metis list.set_sel(1))
  then have "gettoken b es s = (TWord, s, skip in_word b es s, skip is_space b es (skip in_word b es s))"
    using at_nth [OF a] assms symbol_chars(1) [of "hd t"] by (simp add: gettoken_def skip_stays Let_def)
  then show thesis
    using that skip_here [OF skip_at(2) [OF a, of in_word]] skip_at(1) [OF a, of in_word] by simp
qed

lemma token_greater:
  assumes "here b es s (CHR ''>'' # t)"
  obtains s' tok where "gettoken b es s = (tok, s, s + (if t \<noteq> [] \<and> hd t = CHR ''>'' then 2 else 1), s')"
    "here b es s' (dropWhile is_space (if t \<noteq> [] \<and> hd t = CHR ''>'' then tl t else t))" "tok \<in> {TSym (CHR ''>''), TAppend}"
proof -
  have a: "at b es s (CHR ''>'' # t)" using assms by (simp add: here_def)
  have a1: "at b es (s + 1) t" using at_move [of b es s "[CHR ''>'']" t] a by simp
  show thesis
  proof (cases "t \<noteq> [] \<and> hd t = CHR ''>''")
    case True
    then have "gettoken b es s = (TAppend, s, s + 2, skip is_space b es (s + 2))"
      using at_nth [OF a] at_nth [OF a1] assms by (simp add: gettoken_def skip_stays Let_def)
    moreover have "at b es (s + 2) (tl t)" using at_move [of b es "s + 1" "[hd t]" "tl t"] a1 True by (cases t) simp_all
    ultimately show thesis using that True skip_here by simp
  next
    case False
    then have "gettoken b es s = (TSym (CHR ''>''), s, s + 1, skip is_space b es (s + 1))"
      using at_nth [OF a] at_nth [OF a1] assms by (auto simp: gettoken_def skip_stays Let_def)
    then show thesis using that False skip_here [OF a1] by auto
  qed
qed


lemma after_symbol:
  assumes "here b es s t" "t \<noteq> []" "hd t \<in> set ''|();&<''"
  obtains t' where "here b es (after_token b es s) t'" "length t' < length t" "t' = dropWhile is_space (tl t)"
  using assms token_symbol [of b es s "hd t" "tl t"] length_dropWhile_le [of is_space "tl t"]
  by (cases t) (auto intro: le_imp_less_Suc)

subsection \<open>Parsing ends, and words stay whole\<close>

primrec spans :: "cmd \<Rightarrow> (nat \<times> nat) list" where
  "spans (EXEC argv) = argv"
| "spans (REDIR c f mode fd) = spans c @ [f]"
| "spans (PIPE c d) = spans c @ spans d"
| "spans (LIST c d) = spans c @ spans d"
| "spans (BACK c) = spans c"

definition span_ok :: "string \<Rightarrow> nat \<Rightarrow> nat \<times> nat \<Rightarrow> bool" where
  "span_ok b es = (\<lambda>(q, eq). q < eq \<and> eq \<le> es \<and> (\<forall>i. q \<le> i \<and> i < eq \<longrightarrow> in_word (b ! i)) \<and> (eq = es \<or> \<not> in_word (b ! eq)))"

lemma word_span:
  assumes "here b es s t" "t \<noteq> []" "in_word (hd t)"
  shows "span_ok b es (s, s + length (takeWhile in_word t))"
proof -
  let ?w = "takeWhile in_word t"
  have a: "at b es s t" using assms(1) by (simp add: here_def)
  have a': "at b es (s + length ?w) (dropWhile in_word t)"
    using skip_at [OF a, of in_word] by simp
  have w: "b ! i \<in> set ?w" if "s \<le> i" "i < s + length ?w" for i
  proof -
    have l: "i - s < length ?w" using that by auto
    have "take es b ! (s + (i - s)) = t ! (i - s)" using a that by (auto simp: at_def)
    moreover have "i < es" using a' that by (auto simp: at_def)
    ultimately have "b ! i = ?w ! (i - s)" using that l takeWhile_nth [OF l] by simp
    then show ?thesis using nth_mem [OF l] by (simp only:)
  qed
  have "\<forall>i. s \<le> i \<and> i < s + length ?w \<longrightarrow> in_word (b ! i)"
    using set_takeWhileD [OF w] by blast
  moreover have "s + length ?w = es \<or> \<not> in_word (b ! (s + length ?w))"
  proof (cases "dropWhile in_word t = []")
    case True
    then show ?thesis using at_empty [OF a'] by blast
  next
    case False
    then show ?thesis using at_nth [OF a'] hd_dropWhile [OF False] by (simp only: if_False) blast
  qed
  moreover have "?w \<noteq> []" using assms(2,3) by (cases t) auto
  ultimately show ?thesis using a' by (auto simp: span_ok_def at_def)
qed

lemma nulterminate_spans: "nulterminate c b = fold (\<lambda>(q, eq) b. b[eq := NUL]) (spans c) b"
  by (induction c arbitrary: b) (auto split: prod.splits)

lemma fold_ends:
  "length (fold (\<lambda>(q, eq) b. b[eq := NUL]) sp b) = length b"
  "i < length b \<Longrightarrow> fold (\<lambda>(q, eq) b. b[eq := NUL]) sp b ! i = (if i \<in> snd ` set sp then NUL else b ! i)"
proof -
  show len: "length (fold (\<lambda>(q, eq) b. b[eq := NUL]) sp b) = length b" for b
    by (induction sp arbitrary: b) auto
  show "i < length b \<Longrightarrow> fold (\<lambda>(q, eq) b. b[eq := NUL]) sp b ! i = (if i \<in> snd ` set sp then NUL else b ! i)"
  proof (induction sp arbitrary: b)
    case (Cons x sp)
    obtain q eq where x: "x = (q, eq)" by (metis surj_pair)
    have "fold (\<lambda>(q, eq) b. b[eq := NUL]) (x # sp) b = fold (\<lambda>(q, eq) b. b[eq := NUL]) sp (b[eq := NUL])" by (simp add: x)
    moreover have "snd ` set (x # sp) = insert eq (snd ` set sp)" by (simp add: x)
    ultimately show ?case using Cons.IH [of "b[eq := NUL]"] Cons.prems by (simp only: length_list_update nth_list_update) auto
  qed simp
qed

definition cstring :: "string \<Rightarrow> nat \<Rightarrow> string" where
  "cstring b q = takeWhile (\<lambda>c. c \<noteq> NUL) (drop q b)"

definition span_text :: "string \<Rightarrow> nat \<times> nat \<Rightarrow> string" where
  "span_text b = (\<lambda>(q, eq). take (eq - q) (drop q b))"

lemma terminated_word:
  assumes sp: "list_all (span_ok b es) sp" and x: "(q, eq) \<in> set sp" and es: "es < length b" "b ! es = NUL" "NUL \<notin> set (take es b)"
  shows "cstring (fold (\<lambda>(q, eq) b. b[eq := NUL]) sp b) q = span_text b (q, eq)"
proof -
  let ?b = "fold (\<lambda>(q, eq) b. b[eq := NUL]) sp b"
  have ok: "span_ok b es (q, eq)" using sp x by (simp add: list_all_iff)
  then have q: "q < eq" "eq \<le> es" "\<forall>i. q \<le> i \<and> i < eq \<longrightarrow> in_word (b ! i)" by (auto simp: span_ok_def)
  have "?b ! i = b ! i" if "q \<le> i" "i < eq" for i
  proof -
    have "i \<notin> snd ` set sp"
    proof
      assume "i \<in> snd ` set sp"
      then obtain q' where "span_ok b es (q', i)" using sp by (auto simp: list_all_iff)
      then show False using q that by (auto simp: span_ok_def)
    qed
    then show ?thesis using that q es by (simp add: fold_ends)
  qed
  then have "take (eq - q) (drop q ?b) = take (eq - q) (drop q b)"
    using q es by (intro nth_equalityI) (simp_all add: fold_ends)
  moreover have "NUL \<notin> set (take (eq - q) (drop q b))"
    using q es by (auto simp: in_set_conv_nth)
  moreover have "drop (eq - q) (drop q ?b) = NUL # drop (Suc eq) ?b"
  proof -
    have "eq \<in> snd ` set sp" using x by force
    then have "?b ! eq = NUL" using q es by (simp add: fold_ends)
    then show ?thesis using Cons_nth_drop_Suc [of eq ?b] q es by (simp add: fold_ends)
  qed
  ultimately have "drop q ?b = span_text b (q, eq) @ NUL # drop (Suc eq) ?b" "NUL \<notin> set (span_text b (q, eq))"
    using append_take_drop_id [of "eq - q" "drop q ?b"] by (simp_all add: span_text_def)
  then show ?thesis unfolding cstring_def by (simp only:) (subst takeWhile_append2, auto)
qed


lemma token_any:
  assumes "here b es s t"
  obtains tok eq s' t' where "gettoken b es s = (tok, s, eq, s')" "here b es s' t'" "tok = TEnd \<longleftrightarrow> t = []" "t \<noteq> [] \<Longrightarrow> length t' < length t"
    "length t' \<le> length t" "tok = TWord \<Longrightarrow> span_ok b es (s, eq)"
proof (cases t)
  case Nil
  then show thesis using that token_end assms by (metis le_refl token.distinct(5))
next
  case (Cons c u)
  consider "c \<in> set ''|();&<''" | "c = CHR ''>''" | "in_word c"
    using assms Cons symbol_chars(1) [of c] by (auto simp: here_def)
  then show thesis
  proof cases
    case 1
    obtain s' where "gettoken b es s = (TSym c, s, s + 1, s')" "here b es s' (dropWhile is_space u)"
      using token_symbol [OF assms [unfolded Cons] 1] .
    then show thesis using that [of "TSym c"] Cons length_dropWhile_le [of is_space u] by (simp add: le_imp_less_Suc le_SucI)
  next
    case 2
    let ?v = "if u \<noteq> [] \<and> hd u = CHR ''>'' then tl u else u"
    obtain tok s' where g: "gettoken b es s = (tok, s, s + (if u \<noteq> [] \<and> hd u = CHR ''>'' then 2 else 1), s')"
        "here b es s' (dropWhile is_space ?v)" "tok \<in> {TSym (CHR ''>''), TAppend}"
      using token_greater [OF assms [unfolded Cons 2]] .
    have "length (dropWhile is_space ?v) < length t"
      using length_dropWhile_le [of is_space ?v] Cons by (auto split: if_splits)
    then show thesis using that [OF g(1,2)] g(3) Cons by auto
  next
    case 3
    obtain s' where "gettoken b es s = (TWord, s, s + length (takeWhile in_word t), s')" "here b es s' (dropWhile is_space (dropWhile in_word t))"
      using token_word [OF assms] Cons 3 by auto
    moreover have "length (dropWhile is_space (dropWhile in_word t)) < length t"
      using Cons 3 length_dropWhile_le [of is_space "dropWhile in_word u"] length_dropWhile_le [of in_word u] by simp
    ultimately show thesis using that word_span [OF assms] Cons 3 by (metis less_imp_le list.distinct(1) list.sel(1) token.distinct(5))
  qed
qed

definition parsed :: "string \<Rightarrow> nat \<Rightarrow> nat \<Rightarrow> ('a \<Rightarrow> (nat \<times> nat) list) \<Rightarrow> (string + 'a \<times> nat) option \<Rightarrow> bool" where
  "parsed b es n sp r \<longleftrightarrow> (\<exists>e. r = Some (Inl e)) \<or>
     (\<exists>x s t. r = Some (Inr (x, s)) \<and> here b es s t \<and> length t \<le> n \<and> list_all (span_ok b es) (sp x))"

lemma parsed_le: "parsed b es n sp r \<Longrightarrow> n \<le> n' \<Longrightarrow> parsed b es n' sp r"
  unfolding parsed_def using le_trans by blast

lemma parsed_error [simp]: "parsed b es n sp (Some (Inl e))"
  by (simp add: parsed_def)

lemma parsed_done: "here b es s t \<Longrightarrow> length t \<le> n \<Longrightarrow> list_all (span_ok b es) (sp x) \<Longrightarrow> parsed b es n sp (Some (Inr (x, s)))"
  by (auto simp: parsed_def)

lemma parsed_bind:
  assumes "parsed b es n sp r" "\<And>x s t. here b es s t \<Longrightarrow> length t \<le> n \<Longrightarrow> list_all (span_ok b es) (sp x) \<Longrightarrow> parsed b es k sp' (f (x, s))"
  shows "parsed b es k sp' (do { r \<leftarrow> r; case r of Inl e \<Rightarrow> Some (Inl e) | Inr y \<Rightarrow> f y })"
  using assms by (auto simp: parsed_def [of b es n])

lemma at_here: "at b es s t \<Longrightarrow> \<exists>t'. here b es (skip is_space b es s) t' \<and> length t' \<le> length t"
  using skip_here length_dropWhile_le by blast

lemma peek_any:
  assumes "at b es s t"
  obtains p s' t' where "peek b es s toks = (p, s')" "here b es s' t'" "length t' \<le> length t" "p \<longleftrightarrow> t' \<noteq> [] \<and> hd t' \<in> set toks"
  using peek_at [OF assms, of toks] skip_here [OF assms] length_dropWhile_le [of is_space t] by blast

lemma here_at: "here b es s t \<Longrightarrow> at b es s t"
  by (simp add: here_def)

lemma redirs_parsed: "at b es s t \<Longrightarrow> list_all (span_ok b es) (map fst rs) \<Longrightarrow> parsed b es (length t) (map fst) (parseredirs b es rs s)"
proof (induction "length t" arbitrary: t s rs rule: less_induct)
  case less
  obtain p s1 t1 where p: "peek b es s ''<>'' = (p, s1)" "here b es s1 t1" "length t1 \<le> length t" "p \<longleftrightarrow> t1 \<noteq> [] \<and> hd t1 \<in> set ''<>''"
    using peek_any [OF less.prems(1)] .
  show ?case
  proof (cases p)
    case False
    then show ?thesis using p less.prems(2) by (subst parseredirs.simps) (auto intro: parsed_done)
  next
    case True
    obtain tok eq s2 t2 where g: "gettoken b es s1 = (tok, s1, eq, s2)" "here b es s2 t2" "length t2 < length t1"
      using token_any [OF p(2)] p(4) True by metis
    obtain tok' eq' s3 t3 where g': "gettoken b es s2 = (tok', s2, eq', s3)" "here b es s3 t3" "length t3 \<le> length t2"
        "tok' = TWord \<Longrightarrow> span_ok b es (s2, eq')"
      using token_any [OF g(2)] by metis
    show ?thesis
    proof (cases "tok' = TWord")
      case True
      have "parsed b es (length t3) (map fst) (parseredirs b es (rs @ [((s2, eq'), redir_mode tok)]) s3)"
        using less.hyps [of t3 s3] here_at [OF g'(2)] g g'(3,4) p(3) less.prems(2) True by simp
      then show ?thesis
        using p(1,3) \<open>p\<close> g g' True by (subst parseredirs.simps) (auto elim!: parsed_le)
    next
      case False
      then show ?thesis using p(1) \<open>p\<close> g(1) g'(1) by (subst parseredirs.simps) simp
    qed
  qed
qed

lemma spans_wrap: "list_all P (spans c) \<Longrightarrow> list_all P (map fst rs) \<Longrightarrow> list_all P (spans (wrap c rs))"
  unfolding wrap_def by (induction rs arbitrary: c) auto


lemma args_parsed:
  "at b es s t \<Longrightarrow> list_all (span_ok b es) argv \<Longrightarrow> list_all (span_ok b es) (map fst rs) \<Longrightarrow> parsed b es (length t) spans (parseargs b es argv rs s)"
proof (induction "length t" arbitrary: t s argv rs rule: less_induct)
  case less
  obtain p s1 t1 where p: "peek b es s ''|)&;'' = (p, s1)" "here b es s1 t1" "length t1 \<le> length t"
    using peek_any [OF less.prems(1)] by metis
  obtain tok eq s2 t2 where g: "gettoken b es s1 = (tok, s1, eq, s2)" "here b es s2 t2" "tok = TEnd \<longleftrightarrow> t1 = []" "t1 \<noteq> [] \<Longrightarrow> length t2 < length t1"
      "length t2 \<le> length t1" "tok = TWord \<Longrightarrow> span_ok b es (s1, eq)"
    using token_any [OF p(2)] by metis
  have w: "list_all (span_ok b es) (spans (wrap (EXEC argv) rs))" using less.prems spans_wrap by simp
  consider "p" | "\<not> p" "tok = TEnd" | "\<not> p" "tok \<notin> {TEnd, TWord}" | "\<not> p" "tok = TWord" by blast
  then show ?case
  proof cases
    case 1
    then show ?thesis using p w by (subst parseargs.simps) (auto intro: parsed_done)
  next
    case 2
    then show ?thesis using p(1,3) g(1,2,5) w by (subst parseargs.simps) (auto intro!: parsed_done)
  next
    case 3
    then show ?thesis using p(1) g(1) by (subst parseargs.simps) auto
  next
    case 4
    then have l: "length t2 < length t" "span_ok b es (s1, eq)" using g p(3) by auto
    have "parsed b es (length t) spans (do {
        r \<leftarrow> parseredirs b es rs s2;
        case r of Inl e \<Rightarrow> Some (Inl e) | Inr (rs, s) \<Rightarrow> parseargs b es (argv @ [(s1, eq)]) rs s
      })"
    proof (rule parsed_bind [OF redirs_parsed [OF here_at [OF g(2)] less.prems(3)]], unfold prod.case)
      fix rs' :: "redir list" and s' t' assume a: "here b es s' t'" "length t' \<le> length t2" "list_all (span_ok b es) (map fst rs')"
      have "parsed b es (length t') spans (parseargs b es (argv @ [(s1, eq)]) rs' s')"
        using less.hyps [of t' s'] a l less.prems(2) here_at by simp
      then show "parsed b es (length t) spans (parseargs b es (argv @ [(s1, eq)]) rs' s')"
        by (rule parsed_le) (use a l in simp)
    qed
    then show ?thesis
      using p(1) g(1) 4 by (subst parseargs.simps) simp
  qed
qed

lemma backs_parsed:
  "at b es s t \<Longrightarrow> list_all (span_ok b es) (spans c) \<Longrightarrow>
    \<exists>c' s' t'. parsebacks b es c s = Some (c', s') \<and> here b es s' t' \<and> length t' \<le> length t \<and> list_all (span_ok b es) (spans c')"
proof (induction "length t" arbitrary: t s c rule: less_induct)
  case less
  obtain p s1 t1 where p: "peek b es s ''&'' = (p, s1)" "here b es s1 t1" "length t1 \<le> length t" "p \<longleftrightarrow> t1 \<noteq> [] \<and> hd t1 \<in> set ''&''"
    using peek_any [OF less.prems(1)] .
  show ?case
  proof (cases p)
    case False
    then show ?thesis using p less.prems(2) by (subst parsebacks.simps) auto
  next
    case True
    obtain t2 where t2: "here b es (after_token b es s1) t2" "length t2 < length t1"
      using after_symbol [OF p(2)] p(4) True by auto
    have "\<exists>c' s' t'. parsebacks b es (BACK c) (after_token b es s1) = Some (c', s') \<and> here b es s' t' \<and> length t' \<le> length t2 \<and> list_all (span_ok b es) (spans c')"
      using less.hyps [of t2 "after_token b es s1" "BACK c"] t2 p(3) less.prems(2) here_at by simp
    then show ?thesis using p(1,3) True t2(2) by (subst parsebacks.simps) (simp, meson le_trans less_imp_le_nat)
  qed
qed

lemma block_parsed:
  assumes t: "at b es s t" and IH: "\<And>s' t' l. at b es s' t' \<Longrightarrow> length t' < length t \<Longrightarrow> parsed b es (length t') spans (parse l b es s')"
  shows "parsed b es (length t) spans (parse Block b es s)"
proof -
  obtain p s1 t1 where p: "peek b es s ''('' = (p, s1)" "here b es s1 t1" "length t1 \<le> length t" "p \<longleftrightarrow> t1 \<noteq> [] \<and> hd t1 \<in> set ''(''"
    using peek_any [OF t] .
  show ?thesis
  proof (cases p)
    case False
    have "parsed b es (length t) spans (do { r \<leftarrow> parseredirs b es [] s1; case r of Inl e \<Rightarrow> Some (Inl e) | Inr (rs, s) \<Rightarrow> parseargs b es [] rs s })"
    proof (rule parsed_bind [OF redirs_parsed [OF here_at [OF p(2)]]], unfold prod.case)
      fix rs' :: "redir list" and s' t' assume a: "here b es s' t'" "length t' \<le> length t1" "list_all (span_ok b es) (map fst rs')"
      show "parsed b es (length t) spans (parseargs b es [] rs' s')"
        by (rule parsed_le [OF args_parsed [OF here_at [OF a(1)] _ a(3)]]) (use a p in auto)
    qed simp
    then show ?thesis using p(1) False by (subst parse.simps) simp
  next
    case True
    obtain t2 where t2: "here b es (after_token b es s1) t2" "length t2 < length t1"
      using after_symbol [OF p(2)] p(4) True by auto
    have "parsed b es (length t2) spans (parse Line b es (after_token b es s1))"
      using IH here_at [OF t2(1)] t2(2) p(3) by simp
    then have "parsed b es (length t) spans (do {
         r \<leftarrow> parse Line b es (after_token b es s1);
         case r of Inl e \<Rightarrow> Some (Inl e)
         | Inr (c, s) \<Rightarrow>
             (let (p, s) = peek b es s '')'' in
              if \<not> p then Some (Inl ''syntax - missing )'')
              else do {
                r \<leftarrow> parseredirs b es [] (after_token b es s);
                case r of Inl e \<Rightarrow> Some (Inl e) | Inr (rs, s) \<Rightarrow> Some (Inr (wrap c rs, s))
              })
       })"
    proof (rule parsed_bind, unfold prod.case)
      fix c s' t' assume a: "here b es s' t'" "length t' \<le> length t2" "list_all (span_ok b es) (spans c)"
      obtain q s3 t3 where q: "peek b es s' '')'' = (q, s3)" "here b es s3 t3" "length t3 \<le> length t'" "q \<longleftrightarrow> t3 \<noteq> [] \<and> hd t3 \<in> set '')''"
        using peek_any [OF here_at [OF a(1)]] .
      have "parsed b es (length t) spans (do {
          r \<leftarrow> parseredirs b es [] (after_token b es s3);
          case r of Inl e \<Rightarrow> Some (Inl e) | Inr (rs, s) \<Rightarrow> Some (Inr (wrap c rs, s)) })" if yes: q
      proof -
        obtain t4 where t4: "here b es (after_token b es s3) t4" "length t4 < length t3"
          using after_symbol [OF q(2)] q(4) yes by auto
        show ?thesis
          by (rule parsed_bind [OF redirs_parsed [OF here_at [OF t4(1)]]])
            (use a q(3) t4 t2 p in \<open>auto intro!: parsed_done spans_wrap\<close>)
      qed
      then show "parsed b es (length t) spans
          (let (p, s) = peek b es s' '')'' in
           if \<not> p then Some (Inl ''syntax - missing )'')
           else do {
             r \<leftarrow> parseredirs b es [] (after_token b es s);
             case r of Inl e \<Rightarrow> Some (Inl e) | Inr (rs, s) \<Rightarrow> Some (Inr (wrap c rs, s))
           })"
        using q(1) by simp
    qed
    then show ?thesis using p(1) True unfolding Let_def by (subst parse.simps) (simp add: Let_def)
  qed
qed

text \<open>The part behind an operator of a pipe or a list.\<close>

lemma rest_parsed:
  assumes "at b es s t" "list_all (span_ok b es) (spans c)" "length t \<le> n" "set toks \<subseteq> set ''|;''"
    and IH: "\<And>s' t'. at b es s' t' \<Longrightarrow> length t' < n \<Longrightarrow> parsed b es (length t') spans (parse l b es s')"
    and C: "\<And>d. spans (C c d) = spans c @ spans d"
  shows "parsed b es n spans
    (let (p, s) = peek b es s toks in
     if \<not> p then Some (Inr (c, s))
     else do {
       r \<leftarrow> parse l b es (after_token b es s);
       case r of Inl e \<Rightarrow> Some (Inl e) | Inr (d, s) \<Rightarrow> Some (Inr (C c d, s))
     })"
proof -
  obtain p s1 t1 where p: "peek b es s toks = (p, s1)" "here b es s1 t1" "length t1 \<le> length t" "p \<longleftrightarrow> t1 \<noteq> [] \<and> hd t1 \<in> set toks"
    using peek_any [OF assms(1)] .
  have "parsed b es n spans (do {
      r \<leftarrow> parse l b es (after_token b es s1);
      case r of Inl e \<Rightarrow> Some (Inl e) | Inr (d, s) \<Rightarrow> Some (Inr (C c d, s)) })" if yes: p
  proof -
    have "hd t1 \<in> set ''|();&<''" using p(4) yes assms(4) by auto
    then obtain t2 where t2: "here b es (after_token b es s1) t2" "length t2 < length t1"
      using after_symbol [OF p(2)] p(4) yes by auto
    have "parsed b es (length t2) spans (parse l b es (after_token b es s1))"
      using IH [OF here_at [OF t2(1)]] t2(2) p(3) assms(3) by simp
    then show ?thesis
      by (rule parsed_bind) (use assms(2,3) p(3) t2(2) in \<open>auto intro!: parsed_done simp: C\<close>)
  qed
  then show ?thesis using p assms(2,3) by (auto intro: parsed_done)
qed

lemma parse_parsed: "at b es s t \<Longrightarrow> parsed b es (length t) spans (parse l b es s)"
proof (induction "length t" arbitrary: t s l rule: less_induct)
  case less
  have block: "parsed b es (length t) spans (parse Block b es s)"
    using block_parsed [OF less.prems] less.hyps by blast
  have pipe: "parsed b es (length t) spans (parse Pipe b es s)"
  proof (subst parse.simps, simp only: level.case, rule parsed_bind [OF block], unfold prod.case)
    fix c s' t' assume a: "here b es s' t'" "length t' \<le> length t" "list_all (span_ok b es) (spans c)"
    show "parsed b es (length t) spans
      (let (p, s) = peek b es s' ''|'' in
       if \<not> p then Some (Inr (c, s))
       else do {
         r \<leftarrow> parse Pipe b es (after_token b es s);
         case r of Inl e \<Rightarrow> Some (Inl e) | Inr (d, s) \<Rightarrow> Some (Inr (PIPE c d, s))
       })"
      by (rule rest_parsed [OF here_at [OF a(1)] a(3)]) (use a(2) less.hyps in auto)
  qed
  have line: "parsed b es (length t) spans (parse Line b es s)"
  proof (subst parse.simps, simp only: level.case, rule parsed_bind [OF pipe], unfold prod.case)
    fix c s' t' assume a: "here b es s' t'" "length t' \<le> length t" "list_all (span_ok b es) (spans c)"
    obtain c' s2 t2 where c: "parsebacks b es c s' = Some (c', s2)" "here b es s2 t2" "length t2 \<le> length t'" "list_all (span_ok b es) (spans c')"
      using backs_parsed [OF here_at [OF a(1)] a(3)] by blast
    have "parsed b es (length t) spans
      (let (p, s) = peek b es s2 '';'' in
       if \<not> p then Some (Inr (c', s))
       else do {
         r \<leftarrow> parse Line b es (after_token b es s);
         case r of Inl e \<Rightarrow> Some (Inl e) | Inr (d, s) \<Rightarrow> Some (Inr (LIST c' d, s))
       })"
      by (rule rest_parsed [OF here_at [OF c(2)] c(4)]) (use a(2) c(3) less.hyps in auto)
    then show "parsed b es (length t) spans (do {
         (c, s) \<leftarrow> parsebacks b es c s';
         let (p, s) = peek b es s '';'';
         if \<not> p then Some (Inr (c, s))
         else do {
           r \<leftarrow> parse Line b es (after_token b es s);
           case r of Inl e \<Rightarrow> Some (Inl e) | Inr (d, s) \<Rightarrow> Some (Inr (LIST c d, s))
         } })"
      by (simp add: c(1))
  qed
  show ?case using block pipe line by (cases l) auto
qed


lemma line_at:
  assumes "NUL \<in> set b"
  shows "at b (length (takeWhile (\<lambda>c. c \<noteq> NUL) b)) 0 (takeWhile (\<lambda>c. c \<noteq> NUL) b)"
proof -
  let ?w = "takeWhile (\<lambda>c. c \<noteq> NUL) b" and ?d = "dropWhile (\<lambda>c. c \<noteq> NUL) b"
  have d: "?d \<noteq> []" using assms by (auto simp: dropWhile_eq_Nil_conv)
  then have "hd ?d = NUL" using hd_dropWhile [OF d] by blast
  then have b: "b = ?w @ NUL # tl ?d" using d takeWhile_dropWhile_id [of "\<lambda>c. c \<noteq> NUL" b] by (metis list.collapse)
  have "take (length ?w) b = ?w" by (metis b append_eq_conv_conj)
  moreover have "b ! length ?w = NUL" "length ?w < length b" by (metis b nth_append_length) (metis b length_append length_Cons less_add_Suc1 add_Suc_right)
  moreover have "NUL \<notin> set ?w" by (auto dest: set_takeWhileD)
  ultimately show ?thesis by (simp add: at_def)
qed

lemma atD: "at b es s t \<Longrightarrow> es < length b \<and> b ! es = NUL \<and> NUL \<notin> set (take es b)"
  by (simp add: at_def)

lemma span_word:
  assumes "span_ok b es x" "es < length b"
  shows "span_text b x \<noteq> []" "\<forall>c \<in> set (span_text b x). in_word c"
proof -
  obtain q eq where x: "x = (q, eq)" by (metis surj_pair)
  have q: "q < eq" "eq \<le> es" "\<forall>i. q \<le> i \<and> i < eq \<longrightarrow> in_word (b ! i)" using assms(1) x by (auto simp: span_ok_def)
  show "span_text b x \<noteq> []" using q assms(2) by (simp add: x span_text_def)
  show "\<forall>c \<in> set (span_text b x). in_word c"
  proof
    fix c assume "c \<in> set (span_text b x)"
    then obtain i where "i < eq - q" "c = b ! (q + i)"
      using q assms(2) by (auto simp: x span_text_def in_set_conv_nth)
    then show "in_word c" using q(3) [rule_format, of "q + i"] by simp
  qed
qed

lemma in_place:
  assumes "NUL \<in> set b"
  shows "\<exists>r. parsecmd b = Some r \<and> (\<forall>c b'. r = Inr (c, b') \<longrightarrow> length b' = length b \<and>
    (\<forall>x \<in> set (spans c). cstring b' (fst x) = span_text b x \<and> span_text b x \<noteq> [] \<and> (\<forall>ch \<in> set (span_text b x). in_word ch)))"
proof -
  let ?es = "length (takeWhile (\<lambda>c. c \<noteq> NUL) b)"
  note a = line_at [OF assms]
  have p: "parsed b ?es ?es spans (parse Line b ?es 0)" using parse_parsed [OF a] .
  then consider e where "parse Line b ?es 0 = Some (Inl e)"
    | c s t where "parse Line b ?es 0 = Some (Inr (c, s))" "here b ?es s t" "list_all (span_ok b ?es) (spans c)"
    unfolding parsed_def by blast
  then show ?thesis
  proof cases
    case 1
    then show ?thesis by (simp add: parsecmd_def)
  next
    case 2
    have "length (nulterminate c b) = length b" by (simp add: nulterminate_spans fold_ends)
    moreover have "cstring (nulterminate c b) (fst x) = span_text b x \<and> span_text b x \<noteq> [] \<and> (\<forall>ch \<in> set (span_text b x). in_word ch)"
      if "x \<in> set (spans c)" for x
      using terminated_word [OF 2(3), of "fst x" "snd x"] span_word [of b ?es x] that 2(3) atD [OF a] unfolding nulterminate_spans
      by (simp only: prod.collapse list_all_iff) blast
    moreover obtain pk s4 where pk: "peek b ?es s '''' = (pk, s4)" by (metis surj_pair)
    have "parsecmd b = Some (if s4 \<noteq> ?es then Inl ''syntax'' else Inr (c, nulterminate c b))"
      by (simp add: parsecmd_def 2(1) pk)
    ultimately show ?thesis by simp
  qed
qed


text \<open>
  C38: on every line the parser ends, with a command or an error.  When it gives a command, the words that the command points to are terminated in the line:
  each of them reads as the stretch of the original line that was its token, which is not empty and has no white space and no symbol in it, although
  terminating one word overwrites the character behind it, which may be an operator.
\<close>

theorem parsecmd_in_place:
  assumes "NUL \<in> set b"
  shows "\<exists>r. parsecmd b = Some r \<and> (\<forall>c b'. r = Inr (c, b') \<longrightarrow> length b' = length b \<and>
    (\<forall>x \<in> set (spans c). cstring b' (fst x) = span_text b x \<and> span_text b x \<noteq> [] \<and> (\<forall>ch \<in> set (span_text b x). in_word ch)))"
  using assms by (rule in_place)

theorem parsecmd_in_place_witness:
  "NUL \<in> set (''ls|wc'' @ [NUL]) \<and> (\<exists>r. parsecmd (''ls|wc'' @ [NUL]) = Some r)"
  using parsecmd_in_place [of "''ls|wc'' @ [NUL]"] by auto

subsection \<open>The text of a command\<close>

datatype command =
    CExec "string list"
  | CRedir command int nat string
  | CPipe command command
  | CList command command
  | CBack command

text \<open>The command with its words read from the line, by where they end or as strings in memory.\<close>

primrec view :: "(nat \<times> nat \<Rightarrow> string) \<Rightarrow> cmd \<Rightarrow> command" where
  "view w (EXEC argv) = CExec (map w argv)"
| "view w (REDIR c f mode fd) = CRedir (view w c) mode fd (w f)"
| "view w (PIPE c d) = CPipe (view w c) (view w d)"
| "view w (LIST c d) = CList (view w c) (view w d)"
| "view w (BACK c) = CBack (view w c)"

fun simple :: "command \<Rightarrow> bool" where
  "simple (CExec _) = True"
| "simple (CRedir _ _ _ _) = True"
| "simple _ = False"

fun is_pipe :: "command \<Rightarrow> bool" where
  "is_pipe (CPipe _ _) = True"
| "is_pipe _ = False"

fun is_list :: "command \<Rightarrow> bool" where
  "is_list (CList _ _) = True"
| "is_list _ = False"

definition bracket :: "bool \<Rightarrow> string \<Rightarrow> string" where
  "bracket y x = (if y then ''('' @ x @ '')'' else x)"

definition redir_text :: "int \<times> nat \<times> string \<Rightarrow> string" where
  "redir_text = (\<lambda>(mode, fd, f). (if fd = 0 then '' < '' else '' > '') @ f)"

primrec command_text :: "command \<Rightarrow> string" where
  "command_text (CExec ws) = concat (map (\<lambda>w. '' '' @ w) ws)"
| "command_text (CRedir c mode fd f) = bracket (\<not> simple c) (command_text c) @ redir_text (mode, fd, f)"
| "command_text (CPipe c d) = bracket (\<not> simple c) (command_text c) @ ''|'' @ bracket (\<not> simple d \<and> \<not> is_pipe d) (command_text d)"
| "command_text (CList c d) = bracket (is_list c) (command_text c) @ '';'' @ command_text d"
| "command_text (CBack c) = bracket (is_list c) (command_text c) @ ''&''"

definition word_ok :: "string \<Rightarrow> bool" where
  "word_ok w \<longleftrightarrow> w \<noteq> [] \<and> (\<forall>c \<in> set w. in_word c \<and> c \<noteq> NUL)"

definition redir_ok :: "int \<times> nat \<times> string \<Rightarrow> bool" where
  "redir_ok = (\<lambda>(mode, fd, f). (mode, fd) \<in> {(O_RDONLY, 0), (O_WRONLY_CREATE, 1)} \<and> word_ok f)"

primrec command_ok :: "command \<Rightarrow> bool" where
  "command_ok (CExec ws) \<longleftrightarrow> length ws < MAXARGS \<and> (\<forall>w \<in> set ws. word_ok w)"
| "command_ok (CRedir c mode fd f) \<longleftrightarrow> command_ok c \<and> redir_ok (mode, fd, f)"
| "command_ok (CPipe c d) \<longleftrightarrow> command_ok c \<and> command_ok d"
| "command_ok (CList c d) \<longleftrightarrow> command_ok c \<and> command_ok d"
| "command_ok (CBack c) \<longleftrightarrow> command_ok c"

text \<open>What may follow.\<close>

definition stops :: "string \<Rightarrow> string \<Rightarrow> bool" where
  "stops cs u \<longleftrightarrow> u = [] \<or> hd u \<in> set cs"

lemma stops_mono: "stops cs u \<Longrightarrow> set cs \<subseteq> set ds \<Longrightarrow> stops ds u"
  by (auto simp: stops_def)

lemma stops_space: "stops ''|&;)'' u \<Longrightarrow> dropWhile is_space u = u"
  by (cases u) (auto simp: stops_def whitespace_def)

lemma stops_word: "stops ''|&;)'' u \<Longrightarrow> takeWhile in_word u = []"
  by (cases u) (auto simp: stops_def symbols_def)

text \<open>A word, read from where it begins.\<close>

lemma read_word:
  assumes "here b es s (w @ u)" "word_ok w" "takeWhile in_word u = []"
  obtains s' where "gettoken b es s = (TWord, s, s + length w, s')" "here b es s' (dropWhile is_space u)" "span_text b (s, s + length w) = w"
proof -
  have w: "w @ u \<noteq> []" "in_word (hd (w @ u))" using assms(2) by (auto simp: word_ok_def)
  have tw: "takeWhile in_word (w @ u) = w" "dropWhile in_word (w @ u) = u"
    using assms(2,3) takeWhile_append2 [of w in_word u] dropWhile_append2 [of w in_word u] takeWhile_dropWhile_id [of in_word u]
    by (auto simp: word_ok_def)
  have d: "drop s (take es b) = w @ u" "s \<le> es" using assms(1) by (simp_all add: here_def at_def)
  have "length (drop s (take es b)) = length w + length u" by (simp add: d)
  then have "take (length w) (drop s b) = take (length w) (drop s (take es b))" by (simp add: drop_take)
  then have "span_text b (s, s + length w) = w" by (simp add: span_text_def d)
  then show thesis using token_word [OF assms(1) w] tw that by metis
qed

text \<open>The pointer is at a text or at white space before it.\<close>

definition near :: "string \<Rightarrow> nat \<Rightarrow> nat \<Rightarrow> string \<Rightarrow> bool" where
  "near b es s x \<longleftrightarrow> (\<exists>t. at b es s t \<and> dropWhile is_space t = dropWhile is_space x)"

lemma near_skip: "near b es s x \<Longrightarrow> here b es (skip is_space b es s) (dropWhile is_space x)"
  unfolding near_def using skip_here by metis

lemma near_peek:
  assumes "near b es s x" "dropWhile is_space x = y"
  shows "peek b es s toks = (y \<noteq> [] \<and> hd y \<in> set toks, skip is_space b es s)" "here b es (skip is_space b es s) y"
proof -
  show "peek b es s toks = (y \<noteq> [] \<and> hd y \<in> set toks, skip is_space b es s)"
    using assms peek_at unfolding near_def by metis
  show "here b es (skip is_space b es s) y" using near_skip [OF assms(1)] assms(2) by simp
qed

lemma here_near: "here b es s (dropWhile is_space x) \<Longrightarrow> near b es s x"
  unfolding near_def using here_at by (metis dropWhile_idem)

lemma near_here: "near b es s u \<Longrightarrow> stops ''|&;)'' u \<Longrightarrow> here b es (skip is_space b es s) u"
  using near_skip stops_space by metis

lemma symbol_near:
  assumes "here b es s (c # x)" "c \<in> set ''|();&<''"
  shows "near b es (after_token b es s) x"
  using token_symbol [OF assms] here_near by metis

lemma space_front: "dropWhile is_space (CHR '' '' # x) = dropWhile is_space x"
  by (simp add: whitespace_def)

lemma not_space_front: "x \<noteq> [] \<Longrightarrow> \<not> is_space (hd x) \<Longrightarrow> dropWhile is_space x = x"
  by (cases x) auto

lemma word_front: "word_ok w \<Longrightarrow> dropWhile is_space (w @ u) = w @ u" "word_ok w \<Longrightarrow> hd (w @ u) \<notin> set ''<|>&;()''"
  using not_space_front [of "w @ u"] by (auto simp: word_ok_def symbols_def)

definition redirs_text :: "(int \<times> nat \<times> string) list \<Rightarrow> string" where
  "redirs_text items = concat (map redir_text items)"

definition redir_view :: "string \<Rightarrow> redir list \<Rightarrow> (int \<times> nat \<times> string) list" where
  "redir_view b rs = map (\<lambda>(x, mode, fd). (mode, fd, span_text b x)) rs"

lemma gap: "takeWhile in_word u = [] \<Longrightarrow> takeWhile in_word (redirs_text items @ u) = []"
  by (cases items) (auto simp: redirs_text_def redir_text_def whitespace_def)

lemma read_redir:
  assumes "redir_ok (mode, fd, f)" "takeWhile in_word u = []" "near b es s (redir_text (mode, fd, f) @ u)"
  obtains s1 tok x2 x3 s2 q eq s3 where "peek b es s ''<>'' = (True, s1)" "gettoken b es s1 = (tok, x2, x3, s2)" "gettoken b es s2 = (TWord, q, eq, s3)"
    "redir_mode tok = (mode, fd)" "span_text b (q, eq) = f" "near b es s3 u"
proof -
  let ?c = "if fd = 0 then CHR ''<'' else CHR ''>''"
  have f: "word_ok f" and m: "(mode, fd) = (O_RDONLY, 0) \<or> (mode, fd) = (O_WRONLY_CREATE, 1)" using assms(1) by (auto simp: redir_ok_def)
  have y: "dropWhile is_space (redir_text (mode, fd, f) @ u) = ?c # CHR '' '' # f @ u"
    by (simp add: redir_text_def whitespace_def)
  let ?s1 = "skip is_space b es s"
  have p: "peek b es s ''<>'' = (True, ?s1)" and h: "here b es ?s1 (?c # CHR '' '' # f @ u)"
    using near_peek [OF assms(3) y] by auto
  have w: "dropWhile is_space (CHR '' '' # f @ u) = f @ u" using space_front word_front(1) [OF f] by metis
  have "\<exists>tok x3 s2. gettoken b es ?s1 = (tok, ?s1, x3, s2) \<and> here b es s2 (f @ u) \<and> redir_mode tok = (mode, fd)"
  proof (cases "fd = 0")
    case True
    then have "here b es ?s1 (CHR ''<'' # CHR '' '' # f @ u)" using h by simp
    from token_symbol [OF this] obtain s2 where "gettoken b es ?s1 = (TSym (CHR ''<''), ?s1, ?s1 + 1, s2)" "here b es s2 (f @ u)"
      using w by auto
    then show ?thesis using m True by (auto simp: redir_mode_def)
  next
    case False
    then have "here b es ?s1 (CHR ''>'' # CHR '' '' # f @ u)" using h by simp
    then obtain s2 tok where "gettoken b es ?s1 = (tok, ?s1, ?s1 + 1, s2)" "here b es s2 (f @ u)" "tok \<in> {TSym (CHR ''>''), TAppend}"
      by (rule token_greater) (use w in auto)
    then show ?thesis using m False by (auto simp: redir_mode_def)
  qed
  then obtain tok x3 s2 where g: "gettoken b es ?s1 = (tok, ?s1, x3, s2)" "here b es s2 (f @ u)" "redir_mode tok = (mode, fd)" by blast
  from read_word [OF g(2) f assms(2)] obtain s3 where "gettoken b es s2 = (TWord, s2, s2 + length f, s3)" "near b es s3 u" "span_text b (s2, s2 + length f) = f"
    using here_near by metis
  then show thesis using that p g by blast
qed

lemma redirs_read:
  assumes "\<forall>x \<in> set items. redir_ok x" "takeWhile in_word u = []" "dropWhile is_space u \<noteq> [] \<Longrightarrow> hd (dropWhile is_space u) \<notin> set ''<>''"
    "near b es s (redirs_text items @ u)"
  shows "\<exists>rs' s'. parseredirs b es rs s = Some (Inr (rs @ rs', s')) \<and> here b es s' (dropWhile is_space u) \<and> redir_view b rs' = items"
  using assms(1,4)
proof (induction items arbitrary: s rs)
  case Nil
  then have n: "near b es s u" by (simp add: redirs_text_def)
  show ?case
    using near_peek(1) [OF n refl, of "''<>''"] near_peek(2) [OF n refl] assms(3)
    by (subst parseredirs.simps) (auto simp: redir_view_def)
next
  case (Cons x items)
  obtain mode fd f where x: "x = (mode, fd, f)" by (metis prod_cases3)
  have n: "near b es s (redir_text (mode, fd, f) @ redirs_text items @ u)" using Cons.prems(2) by (simp add: redirs_text_def x)
  have r: "redir_ok (mode, fd, f)" using Cons.prems(1) x by simp
  obtain s1 tok x2 x3 s2 q eq s3 where g: "peek b es s ''<>'' = (True, s1)" "gettoken b es s1 = (tok, x2, x3, s2)" "gettoken b es s2 = (TWord, q, eq, s3)"
      "redir_mode tok = (mode, fd)" "span_text b (q, eq) = f" "near b es s3 (redirs_text items @ u)"
    by (rule read_redir [OF r gap [OF assms(2)] n])
  from Cons.IH [OF _ g(6), of "rs @ [((q, eq), redir_mode tok)]"] obtain rs' s' where
    "parseredirs b es (rs @ [((q, eq), redir_mode tok)]) s3 = Some (Inr ((rs @ [((q, eq), redir_mode tok)]) @ rs', s'))"
    "here b es s' (dropWhile is_space u)" "redir_view b rs' = items"
    using Cons.prems(1) by auto
  then show ?case
    using g by (subst parseredirs.simps) (auto simp: redir_view_def x)
qed


definition words_text :: "string list \<Rightarrow> string" where
  "words_text ws = concat (map (\<lambda>w. '' '' @ w) ws)"

lemma words_gap: "takeWhile in_word u = [] \<Longrightarrow> takeWhile in_word (words_text ws @ u) = []"
  by (cases ws) (auto simp: words_text_def whitespace_def)

lemma args_read:
  assumes "\<forall>w \<in> set ws. word_ok w" "\<forall>x \<in> set items. redir_ok x" "stops ''|&;)'' u" "length argv + length ws < MAXARGS"
    "near b es s (words_text ws @ (if ws = [] then [] else redirs_text items) @ u)"
  shows "\<exists>argv' rs' s'. parseargs b es argv rs s = Some (Inr (wrap (EXEC (argv @ argv')) (rs @ rs'), s')) \<and> here b es s' u \<and>
    map (span_text b) argv' = ws \<and> redir_view b rs' = (if ws = [] then [] else items)"
  using assms
proof (induction ws arbitrary: s argv rs)
  case Nil
  then have n: "near b es s u" by (simp add: words_text_def)
  note p = near_peek [OF n stops_space [OF assms(3)]]
  show ?case
  proof (cases "u = []")
    case True
    then show ?thesis
      using p(1) [of "''|)&;''"] p(2) token_end [of b es "skip is_space b es s"]
      by (subst parseargs.simps) (auto simp: redir_view_def)
  next
    case False
    then show ?thesis
      using p(1) [of "''|)&;''"] p(2) assms(3) by (subst parseargs.simps) (auto simp: redir_view_def stops_def)
  qed
next
  case (Cons w ws)
  let ?its = "if ws = [] then items else []" and ?u = "if ws = [] then u else words_text ws @ redirs_text items @ u"
  let ?R = "redirs_text ?its @ ?u" and ?s1 = "skip is_space b es s"
  have w: "word_ok w" using Cons.prems(1) by simp
  have tu: "takeWhile in_word u = []" using stops_word [OF assms(3)] .
  have tR: "takeWhile in_word ?u = []" "takeWhile in_word ?R = []"
    using tu gap [OF tu] words_gap [OF gap [OF tu]] by (auto simp: redirs_text_def)
  have n: "near b es s (CHR '' '' # w @ ?R)" using Cons.prems(5) by (auto simp: words_text_def redirs_text_def)
  have y: "dropWhile is_space (CHR '' '' # w @ ?R) = w @ ?R" using space_front word_front(1) [OF w] by metis
  have p: "peek b es s ''|)&;'' = (False, ?s1)" and h: "here b es ?s1 (w @ ?R)"
    using near_peek [OF n y] word_front(2) [OF w, of ?R] by auto
  obtain s2 where g: "gettoken b es ?s1 = (TWord, ?s1, ?s1 + length w, s2)" "near b es s2 ?R" "span_text b (?s1, ?s1 + length w) = w"
    using read_word [OF h w tR(2)] here_near by metis
  have nr: "hd (dropWhile is_space ?u) \<notin> set ''<>''" if "dropWhile is_space ?u \<noteq> []"
  proof (cases ws)
    case Nil
    then show ?thesis using that stops_space [OF assms(3)] assms(3) by (auto simp: stops_def)
  next
    case (Cons v vs)
    then have v: "word_ok v" using Cons.prems(1) by simp
    have "?u = CHR '' '' # v @ words_text vs @ redirs_text items @ u" using Cons by (simp add: words_text_def)
    then have "dropWhile is_space ?u = v @ words_text vs @ redirs_text items @ u" using space_front word_front(1) [OF v] by metis
    then show ?thesis using word_front(2) [OF v, of "words_text vs @ redirs_text items @ u"] by simp
  qed
  have its: "\<forall>x \<in> set ?its. redir_ok x" using assms(2) by simp
  obtain rs1 s3 where r: "parseredirs b es rs s2 = Some (Inr (rs @ rs1, s3))" "near b es s3 ?u" "redir_view b rs1 = ?its"
    using redirs_read [OF its tR(1) nr g(2), of rs] here_near by metis
  have l: "\<not> length argv + 1 \<ge> MAXARGS" using Cons.prems(4) by simp
  have "near b es s3 (words_text ws @ (if ws = [] then [] else redirs_text items) @ u)"
    using r(2) by (auto simp: words_text_def split: if_splits)
  then obtain argv' rs' s' where i: "parseargs b es (argv @ [(?s1, ?s1 + length w)]) (rs @ rs1) s3 =
      Some (Inr (wrap (EXEC ((argv @ [(?s1, ?s1 + length w)]) @ argv')) ((rs @ rs1) @ rs'), s'))" "here b es s' u"
      "map (span_text b) argv' = ws" "redir_view b rs' = (if ws = [] then [] else items)"
    using Cons.IH [of "argv @ [(?s1, ?s1 + length w)]" s3 "rs @ rs1"] Cons.prems by auto
  have "parseargs b es argv rs s = Some (Inr (wrap (EXEC (argv @ (?s1, ?s1 + length w) # argv')) (rs @ rs1 @ rs'), s'))"
    using p g(1) l r(1) i(1) by (subst parseargs.simps) simp
  moreover have "redir_view b (rs1 @ rs') = items" using r(3) i(4) by (auto simp: redir_view_def)
  ultimately show ?case
    using i(2,3) g(3) by (intro exI [of _ "(?s1, ?s1 + length w) # argv'"] exI [of _ "rs1 @ rs'"]) simp
qed


definition cwrap :: "command \<Rightarrow> (int \<times> nat \<times> string) list \<Rightarrow> command" where
  "cwrap c items = foldl (\<lambda>c (mode, fd, f). CRedir c mode fd f) c items"

lemma view_wrap: "view (span_text b) (wrap c rs) = cwrap (view (span_text b) c) (redir_view b rs)"
  by (induction rs arbitrary: c) (auto simp: wrap_def cwrap_def redir_view_def)

text \<open>The text \<open>x\<close> is parsed to the command \<open>c\<close> by the functions of the parser, whatever may follow it there.\<close>

definition reads :: "level \<Rightarrow> string \<Rightarrow> string \<Rightarrow> nat \<Rightarrow> string \<Rightarrow> command \<Rightarrow> bool" where
  "reads l cs b es x c \<longleftrightarrow> (\<forall>s u. stops cs u \<and> near b es s (x @ u) \<longrightarrow>
     (\<exists>c' s'. parse l b es s = Some (Inr (c', s')) \<and> here b es s' u \<and> view (span_text b) c' = c))"

abbreviation "reads_pipe \<equiv> reads Pipe ''&;)''"
abbreviation "reads_line \<equiv> reads Line '')''"

definition reads_block :: "string \<Rightarrow> nat \<Rightarrow> string \<Rightarrow> command \<Rightarrow> bool" where
  "reads_block b es x c \<longleftrightarrow> (\<forall>items. (\<forall>i \<in> set items. redir_ok i) \<longrightarrow> reads Block ''|&;)'' b es (x @ redirs_text items) (cwrap c items))"

definition reads_back :: "string \<Rightarrow> nat \<Rightarrow> string \<Rightarrow> command \<Rightarrow> bool" where
  "reads_back b es x c \<longleftrightarrow> (\<forall>s u. stops ''&;)'' u \<and> near b es s (x @ u) \<longrightarrow>
     (\<exists>c0 s0 c' s'. parse Pipe b es s = Some (Inr (c0, s0)) \<and> parsebacks b es c0 s0 = parsebacks b es c' s' \<and> here b es s' u \<and> view (span_text b) c' = c))"

lemma readsI:
  assumes "\<And>s u. stops cs u \<Longrightarrow> near b es s (x @ u) \<Longrightarrow> \<exists>c' s'. parse l b es s = Some (Inr (c', s')) \<and> here b es s' u \<and> view (span_text b) c' = c"
  shows "reads l cs b es x c"
  using assms by (simp add: reads_def)

lemma readsD:
  assumes "reads l cs b es x c" "stops cs u" "near b es s (x @ u)"
  obtains c' s' where "parse l b es s = Some (Inr (c', s'))" "here b es s' u" "view (span_text b) c' = c"
  using assms unfolding reads_def by blast

lemma exec_front:
  assumes "\<forall>w \<in> set ws. word_ok w" "stops ''|&;)'' u"
  shows "dropWhile is_space (words_text ws @ redirs_text items @ u) \<noteq> [] \<Longrightarrow> hd (dropWhile is_space (words_text ws @ redirs_text items @ u)) \<noteq> CHR ''(''"
    "ws \<noteq> [] \<Longrightarrow> hd (dropWhile is_space (words_text ws @ redirs_text items @ u)) \<notin> set ''<>''"
proof -
  let ?x = "words_text ws @ redirs_text items @ u"
  have w: "hd (dropWhile is_space ?x) \<notin> set ''<|>&;()''" if ne: "ws \<noteq> []"
  proof -
    obtain v vs where ws: "ws = v # vs" using ne by (cases ws) auto
    have v: "word_ok v" using assms(1) ws by simp
    have "?x = CHR '' '' # v @ words_text vs @ redirs_text items @ u" by (simp add: ws words_text_def)
    then have "dropWhile is_space ?x = v @ words_text vs @ redirs_text items @ u" using space_front word_front(1) [OF v] by metis
    then show ?thesis using word_front(2) [OF v] by metis
  qed
  then show "ws \<noteq> [] \<Longrightarrow> hd (dropWhile is_space ?x) \<notin> set ''<>''" by auto
  have e: "hd (dropWhile is_space (redirs_text items @ u)) \<noteq> CHR ''(''" if "dropWhile is_space (redirs_text items @ u) \<noteq> []"
  proof (cases items)
    case Nil
    then show ?thesis using that assms(2) stops_space [OF assms(2)] by (auto simp: redirs_text_def stops_def)
  next
    case (Cons i rest)
    then show ?thesis by (auto simp: redirs_text_def redir_text_def whitespace_def split: prod.splits)
  qed
  show "dropWhile is_space ?x \<noteq> [] \<Longrightarrow> hd (dropWhile is_space ?x) \<noteq> CHR ''(''"
    using w e by (cases "ws = []") (auto simp: words_text_def)
qed

lemma read_exec:
  assumes "\<forall>w \<in> set ws. word_ok w" "length ws < MAXARGS"
  shows "reads_block b es (words_text ws) (CExec ws)"
  unfolding reads_block_def
proof (intro allI impI readsI)
  fix items s u
  assume a: "\<forall>i \<in> set items. redir_ok i" "stops ''|&;)'' u" "near b es s ((words_text ws @ redirs_text items) @ u)"
  let ?x = "words_text ws @ redirs_text items @ u" and ?s1 = "skip is_space b es s"
  let ?its = "if ws = [] then items else []" and ?u = "if ws = [] then u else ?x"
  have tu: "takeWhile in_word u = []" using stops_word [OF a(2)] .
  have tR: "takeWhile in_word ?u = []" using tu words_gap [OF gap [OF tu]] by auto
  note front = exec_front [OF assms(1) a(2), of items]
  have nr: "hd (dropWhile is_space ?u) \<notin> set ''<>''" if "dropWhile is_space ?u \<noteq> []"
    using front that stops_space [OF a(2)] a(2) by (cases "ws = []") (auto simp: stops_def)
  have x: "redirs_text ?its @ ?u = ?x" "words_text ws @ (if ws = [] then [] else redirs_text items) @ u = ?u"
    by (simp_all add: words_text_def redirs_text_def)
  have n: "near b es s ?x" using a(3) by simp
  have p: "peek b es s ''('' = (False, ?s1)" using near_peek(1) [OF n refl, of "''(''"] front(1) by auto
  have n1: "near b es ?s1 (redirs_text ?its @ ?u)" unfolding x using here_near [OF near_skip [OF n]] .
  have its: "\<forall>i \<in> set ?its. redir_ok i" using a(1) by simp
  obtain rs1 s2 where r: "parseredirs b es [] ?s1 = Some (Inr (rs1, s2))" "near b es s2 ?u" "redir_view b rs1 = ?its"
    using redirs_read [OF its tR nr n1, of "[]"] here_near by auto
  have "length ([] :: (nat \<times> nat) list) + length ws < MAXARGS" using assms(2) by simp
  from args_read [OF assms(1) a(1,2) this, of b es s2 rs1] obtain argv rs s' where
    "parseargs b es [] rs1 s2 = Some (Inr (wrap (EXEC argv) (rs1 @ rs), s'))" "here b es s' u"
    "map (span_text b) argv = ws" "redir_view b rs = (if ws = [] then [] else items)"
    using r(2) unfolding x(2) by auto
  moreover then have "redir_view b (rs1 @ rs) = items" using r(3) by (auto simp: redir_view_def)
  ultimately show "\<exists>c' s'. parse Block b es s = Some (Inr (c', s')) \<and> here b es s' u \<and> view (span_text b) c' = cwrap (CExec ws) items"
    using p r(1) by (subst parse.simps) (simp add: view_wrap)
qed

lemma read_pipe1: "reads_block b es x c \<Longrightarrow> reads_pipe b es x c"
proof (rule readsI)
  fix s u assume r: "reads_block b es x c" and a: "stops ''&;)'' u" "near b es s (x @ u)"
  have "reads Block ''|&;)'' b es x c" using r [unfolded reads_block_def, rule_format, of "[]"] by (simp add: redirs_text_def cwrap_def)
  moreover have u: "stops ''|&;)'' u" using a(1) by (rule stops_mono) auto
  ultimately obtain c' s' where c: "parse Block b es s = Some (Inr (c', s'))" "here b es s' u" "view (span_text b) c' = c"
    using readsD a(2) by blast
  have "peek b es s' ''|'' = (False, s')" using peek_here [OF c(2)] a(1) by (auto simp: stops_def)
  then show "\<exists>c' s'. parse Pipe b es s = Some (Inr (c', s')) \<and> here b es s' u \<and> view (span_text b) c' = c"
    using c by (subst parse.simps) simp
qed

lemma read_pipe2:
  assumes "reads_block b es x c" "reads_pipe b es y d"
  shows "reads_pipe b es (x @ ''|'' @ y) (CPipe c d)"
proof (rule readsI)
  fix s u assume a: "stops ''&;)'' u" "near b es s ((x @ ''|'' @ y) @ u)"
  have "reads Block ''|&;)'' b es x c" using assms(1) [unfolded reads_block_def, rule_format, of "[]"] by (simp add: redirs_text_def cwrap_def)
  moreover have "stops ''|&;)'' (CHR ''|'' # y @ u)" by (simp add: stops_def)
  ultimately obtain c' s' where c: "parse Block b es s = Some (Inr (c', s'))" "here b es s' (CHR ''|'' # y @ u)" "view (span_text b) c' = c"
    using readsD [of Block "''|&;)''" b es x c "CHR ''|'' # y @ u" s] a(2) by auto
  have p: "peek b es s' ''|'' = (True, s')" using peek_here [OF c(2)] by simp
  have "near b es (after_token b es s') (y @ u)" using symbol_near [OF c(2)] by simp
  then obtain d' s2 where "parse Pipe b es (after_token b es s') = Some (Inr (d', s2))" "here b es s2 u" "view (span_text b) d' = d"
    using readsD [OF assms(2) a(1)] by blast
  then show "\<exists>c' s'. parse Pipe b es s = Some (Inr (c', s')) \<and> here b es s' u \<and> view (span_text b) c' = CPipe c d"
    using c p by (subst parse.simps) simp
qed

lemma read_back1: "reads_pipe b es x c \<Longrightarrow> reads_back b es x c"
  unfolding reads_back_def reads_def by blast

lemma read_back2:
  assumes "reads_back b es x c"
  shows "reads_back b es (x @ ''&'') (CBack c)"
  unfolding reads_back_def
proof (intro allI impI, elim conjE)
  fix s u assume a: "stops ''&;)'' u" "near b es s ((x @ ''&'') @ u)"
  have "stops ''&;)'' (CHR ''&'' # u)" "near b es s (x @ CHR ''&'' # u)" using a(2) by (simp_all add: stops_def)
  then obtain c0 s0 c' s' where c: "parse Pipe b es s = Some (Inr (c0, s0))" "parsebacks b es c0 s0 = parsebacks b es c' s'"
      "here b es s' (CHR ''&'' # u)" "view (span_text b) c' = c"
    using assms unfolding reads_back_def by blast
  have p: "peek b es s' ''&'' = (True, s')" using peek_here [OF c(3)] by simp
  have u: "stops ''|&;)'' u" using a(1) by (rule stops_mono) auto
  obtain s2 where s2: "here b es s2 u" "after_token b es s' = s2"
    using token_symbol [OF c(3)] stops_space [OF u] by auto
  have "parsebacks b es c' s' = parsebacks b es (BACK c') s2" using p s2(2) by (subst parsebacks.simps) simp
  then show "\<exists>c0 s0 c' s'. parse Pipe b es s = Some (Inr (c0, s0)) \<and> parsebacks b es c0 s0 = parsebacks b es c' s' \<and> here b es s' u \<and>
      view (span_text b) c' = CBack c"
    using c(1,2,4) s2(1) by (intro exI [of _ c0] exI [of _ s0] exI [of _ "BACK c'"] exI [of _ s2]) simp
qed

lemma backs_stop: "here b es s u \<Longrightarrow> stops '';)'' u \<Longrightarrow> parsebacks b es c s = Some (c, s)"
  using peek_here [of b es s u "''&''"] by (subst parsebacks.simps) (auto simp: stops_def)

lemma read_line1:
  assumes "reads_back b es x c"
  shows "reads_line b es x c"
proof (rule readsI)
  fix s u assume a: "stops '')'' u" "near b es s (x @ u)"
  have u: "stops ''&;)'' u" "stops '';)'' u" using a(1) by (auto intro: stops_mono)
  then obtain c0 s0 c' s' where c: "parse Pipe b es s = Some (Inr (c0, s0))" "parsebacks b es c0 s0 = parsebacks b es c' s'"
      "here b es s' u" "view (span_text b) c' = c"
    using assms a(2) unfolding reads_back_def by blast
  have "parsebacks b es c0 s0 = Some (c', s')" using c(2) backs_stop [OF c(3) u(2)] by simp
  moreover have "peek b es s' '';'' = (False, s')" using peek_here [OF c(3)] a(1) by (auto simp: stops_def)
  ultimately show "\<exists>c' s'. parse Line b es s = Some (Inr (c', s')) \<and> here b es s' u \<and> view (span_text b) c' = c"
    using c(1,3,4) by (subst parse.simps) simp
qed

lemma read_line2:
  assumes "reads_back b es x c" "reads_line b es y d"
  shows "reads_line b es (x @ '';'' @ y) (CList c d)"
proof (rule readsI)
  fix s u assume a: "stops '')'' u" "near b es s ((x @ '';'' @ y) @ u)"
  have u: "stops ''&;)'' (CHR '';'' # y @ u)" "stops '';)'' (CHR '';'' # y @ u)" "near b es s (x @ CHR '';'' # y @ u)"
    using a(2) by (simp_all add: stops_def)
  then obtain c0 s0 c' s' where c: "parse Pipe b es s = Some (Inr (c0, s0))" "parsebacks b es c0 s0 = parsebacks b es c' s'"
      "here b es s' (CHR '';'' # y @ u)" "view (span_text b) c' = c"
    using assms(1) unfolding reads_back_def by blast
  have k: "parsebacks b es c0 s0 = Some (c', s')" using c(2) backs_stop [OF c(3) u(2)] by simp
  have p: "peek b es s' '';'' = (True, s')" using peek_here [OF c(3)] by simp
  have "near b es (after_token b es s') (y @ u)" using symbol_near [OF c(3)] by simp
  then obtain d' s2 where "parse Line b es (after_token b es s') = Some (Inr (d', s2))" "here b es s2 u" "view (span_text b) d' = d"
    using readsD [OF assms(2) a(1)] by blast
  then show "\<exists>c' s'. parse Line b es s = Some (Inr (c', s')) \<and> here b es s' u \<and> view (span_text b) c' = CList c d"
    using c(1,4) k p by (subst parse.simps) simp
qed

lemma read_brackets:
  assumes "reads_line b es x c"
  shows "reads_block b es (''('' @ x @ '')'') c"
  unfolding reads_block_def
proof (intro allI impI readsI)
  fix items s u
  assume a: "\<forall>i \<in> set items. redir_ok i" "stops ''|&;)'' u" "near b es s (((''('' @ x @ '')'') @ redirs_text items) @ u)"
  let ?v = "redirs_text items @ u" and ?s1 = "skip is_space b es s"
  have n: "near b es s (CHR ''('' # x @ CHR '')'' # ?v)" using a(3) by simp
  have y: "dropWhile is_space (CHR ''('' # x @ CHR '')'' # ?v) = CHR ''('' # x @ CHR '')'' # ?v" by (simp add: whitespace_def)
  have p: "peek b es s ''('' = (True, ?s1)" and h: "here b es ?s1 (CHR ''('' # x @ CHR '')'' # ?v)" using near_peek [OF n y] by auto
  have "near b es (after_token b es ?s1) (x @ CHR '')'' # ?v)" using symbol_near [OF h] by simp
  moreover have "stops '')'' (CHR '')'' # ?v)" by (simp add: stops_def)
  ultimately obtain c' s2 where c: "parse Line b es (after_token b es ?s1) = Some (Inr (c', s2))" "here b es s2 (CHR '')'' # ?v)" "view (span_text b) c' = c"
    using readsD [OF assms] by blast
  have q: "peek b es s2 '')'' = (True, s2)" using peek_here [OF c(2)] by simp
  have n2: "near b es (after_token b es s2) ?v" using symbol_near [OF c(2)] by simp
  have us: "dropWhile is_space u = u" "takeWhile in_word u = []" using stops_space [OF a(2)] stops_word [OF a(2)] .
  obtain rs s3 where "parseredirs b es [] (after_token b es s2) = Some (Inr (rs, s3))" "here b es s3 u" "redir_view b rs = items"
    using redirs_read [OF a(1) us(2) _ n2, of "[]"] us(1) a(2) by (auto simp: stops_def)
  then show "\<exists>c' s'. parse Block b es s = Some (Inr (c', s')) \<and> here b es s' u \<and> view (span_text b) c' = cwrap c items"
    using p c q by (subst parse.simps) (simp add: view_wrap)
qed


lemma command_read:
  "command_ok c \<Longrightarrow> (simple c \<longrightarrow> reads_block b es (command_text c) c) \<and> (simple c \<or> is_pipe c \<longrightarrow> reads_pipe b es (command_text c) c) \<and>
    (\<not> is_list c \<longrightarrow> reads_back b es (command_text c) c) \<and> reads_line b es (command_text c) c"
proof (induction c)
  case (CExec ws)
  then have "reads_block b es (command_text (CExec ws)) (CExec ws)" using read_exec [of ws b es] by (simp add: words_text_def)
  then show ?case using read_pipe1 read_back1 read_line1 by blast
next
  case (CRedir c mode fd f)
  have c: "reads_block b es (bracket (\<not> simple c) (command_text c)) c"
    using CRedir read_brackets by (simp add: bracket_def)
  have "reads_block b es (command_text (CRedir c mode fd f)) (CRedir c mode fd f)"
    unfolding reads_block_def
  proof (intro allI impI)
    fix items assume "\<forall>i \<in> set items. redir_ok i"
    then have "\<forall>i \<in> set ((mode, fd, f) # items). redir_ok i" using CRedir.prems by simp
    then show "reads Block ''|&;)'' b es (command_text (CRedir c mode fd f) @ redirs_text items) (cwrap (CRedir c mode fd f) items)"
      using c [unfolded reads_block_def, THEN spec, of "(mode, fd, f) # items"] by (simp add: redirs_text_def cwrap_def)
  qed
  then show ?case using read_pipe1 read_back1 read_line1 by blast
next
  case (CPipe c d)
  have c: "reads_block b es (bracket (\<not> simple c) (command_text c)) c"
    using CPipe read_brackets by (simp add: bracket_def)
  have d: "reads_pipe b es (bracket (\<not> simple d \<and> \<not> is_pipe d) (command_text d)) d"
    using CPipe read_pipe1 [OF read_brackets] by (simp add: bracket_def)
  have "reads_pipe b es (command_text (CPipe c d)) (CPipe c d)" using read_pipe2 [OF c d] by simp
  then show ?case using read_back1 read_line1 by auto
next
  case (CList c d)
  have c: "reads_back b es (bracket (is_list c) (command_text c)) c"
    using CList read_back1 [OF read_pipe1 [OF read_brackets]] by (simp add: bracket_def)
  then show ?case using read_line2 [OF c] CList by simp
next
  case (CBack c)
  have c: "reads_back b es (bracket (is_list c) (command_text c)) c"
    using CBack read_back1 [OF read_pipe1 [OF read_brackets]] by (simp add: bracket_def)
  then show ?case using read_back2 [OF c] read_line1 by simp
qed

lemma command_view_cong: "(\<And>x. x \<in> set (spans c) \<Longrightarrow> w x = w' x) \<Longrightarrow> view w c = view w' c"
  by (induction c) auto

lemma text_nonul: "command_ok c \<Longrightarrow> NUL \<notin> set (command_text c)"
  by (induction c) (auto simp: word_ok_def redir_ok_def redir_text_def bracket_def)

text \<open>
  C18: the text of every command is parsed to that command.  Commands are programs with fewer than ten arguments, redirections, pipes, lists and background
  commands, nested in any way; the text has brackets where the grammar needs them.  The words of the result are those
  that are found in memory when the line has been terminated in place.
\<close>

theorem parsecmd_roundtrip:
  assumes "command_ok c"
  shows "\<exists>c' b'. parsecmd (command_text c @ NUL # rest) = Some (Inr (c', b')) \<and> view (\<lambda>x. cstring b' (fst x)) c' = c"
proof -
  let ?b = "command_text c @ NUL # rest" and ?es = "length (command_text c)"
  have tw: "takeWhile (\<lambda>c. c \<noteq> NUL) ?b = command_text c"
    using text_nonul [OF assms] by (subst takeWhile_append2) auto
  have a: "at ?b ?es 0 (command_text c)" using line_at [of ?b] tw by simp
  then have "near ?b ?es 0 (command_text c @ [])" by (auto simp: near_def)
  moreover have "reads_line ?b ?es (command_text c) c" using command_read [OF assms] by blast
  moreover have "stops '')'' []" by (simp add: stops_def)
  ultimately obtain c' s where c: "parse Line ?b ?es 0 = Some (Inr (c', s))" "here ?b ?es s []" "view (span_text ?b) c' = c"
    using readsD by blast
  have "s = ?es" using at_empty [OF here_at [OF c(2)]] by simp
  moreover have "peek ?b ?es s '''' = (False, s)" using peek_here [OF c(2)] by simp
  ultimately have p: "parsecmd ?b = Some (Inr (c', nulterminate c' ?b))"
    unfolding parsecmd_def Let_def tw using c(1) by simp
  then have "view (\<lambda>x. cstring (nulterminate c' ?b) (fst x)) c' = view (span_text ?b) c'"
    using in_place [of ?b] by (intro command_view_cong) auto
  then show ?thesis using p c(3) by (intro exI [of _ c'] exI [of _ "nulterminate c' ?b"]) simp
qed


theorem parsecmd_roundtrip_witness:
  "command_text (CBack (CPipe (CRedir (CExec [''cat'']) O_RDONLY 0 ''in'') (CList (CExec [''wc'']) (CExec [''echo'', ''a''])))) = '' cat < in|( wc; echo a)&'' \<and>
   (\<exists>c' b'. parsecmd ('' cat < in|( wc; echo a)&'' @ NUL # []) = Some (Inr (c', b')) \<and>
     view (\<lambda>x. cstring b' (fst x)) c' = CBack (CPipe (CRedir (CExec [''cat'']) O_RDONLY 0 ''in'') (CList (CExec [''wc'']) (CExec [''echo'', ''a'']))))"
  (is "command_text ?c = ?t \<and> _")
proof -
  have t: "command_text ?c = ?t" by (simp add: bracket_def redir_text_def)
  have "command_ok ?c" by (simp add: word_ok_def redir_ok_def whitespace_def symbols_def)
  from parsecmd_roundtrip [OF this, of "[]"] show ?thesis unfolding t by simp
qed

end
