(* ===== verification/Score_Blank.thy ===== *)
theory Score_Blank
  imports Prelude
begin

text \<open>
  The comparison of answers of the grading program (\<^verbatim>\<open>ssu_score/blank.c\<close>): the syntax tree of a student's answer is
  compared with the tree of a model answer, up to the order of the operands of some operators.

  A node has its name, its nesting level and the list of its children; \<^verbatim>\<open>child_head\<close> is the first of the list,
  \<^verbatim>\<open>next\<close> and \<^verbatim>\<open>prev\<close> are the neighbours in it.  A pointer to a node is the list of siblings it is in and its index, with the
  name of their parent; an index past the end is the null pointer.  \<^verbatim>\<open>compare_tree\<close> changes the second tree while it
  compares, so the siblings of the second node are returned with the verdict.  \<open>None\<close> is a null pointer that is followed.
\<close>

datatype tnode = TNode (nm: string) (parentheses: int) (kids: "tnode list")

definition relational :: "string \<Rightarrow> bool" where
  "relational s \<longleftrightarrow> s \<in> {''<'', ''>'', ''<='', ''>=''}"

definition equality :: "string \<Rightarrow> bool" where
  "equality s \<longleftrightarrow> s \<in> {''=='', ''!=''}"

definition commutes :: "string \<Rightarrow> bool" where
  "commutes s \<longleftrightarrow> s \<in> {''+'', ''*'', ''|'', ''&'', ''||'', ''&&''}"

text \<open>The first character of a relation is replaced; the name keeps its length.\<close>

definition turn_name :: "string \<Rightarrow> string" where
  "turn_name s = (case s of [] \<Rightarrow> [] | c # cs \<Rightarrow> if c = CHR ''<'' then CHR ''>'' # cs else if c = CHR ''>'' then CHR ''<'' # cs else c # cs)"

text \<open>The first two children change places; the second of them loses its successor.\<close>

definition change_sibling :: "tnode \<Rightarrow> tnode option" where
  "change_sibling p = (case kids p of a # b # _ \<Rightarrow> Some (TNode (nm p) (parentheses p) [b, a]) | _ \<Rightarrow> None)"

definition with_kids :: "tnode \<Rightarrow> tnode list \<Rightarrow> tnode" where
  "with_kids p ks = TNode (nm p) (parentheses p) ks"

definition turned :: "tnode \<Rightarrow> tnode \<Rightarrow> tnode option" where
  "turned r1 r2 =
     (if relational (nm r1) \<and> nm r1 \<noteq> nm r2 then change_sibling (TNode (turn_name (nm r2)) (parentheses r2) (kids r2))
      else Some r2)"

definition weight :: "tnode list \<Rightarrow> nat \<Rightarrow> nat" where
  "weight ss i = size_list size (drop i ss)"

lemma weight_kids: "weight (kids a) 0 < size a"
  by (cases a) (simp add: weight_def)

lemma weight_size: "i < length ss \<Longrightarrow> size (ss ! i) < weight ss i"
  by (cases "ss ! i") (simp add: weight_def Cons_nth_drop_Suc [symmetric])

lemma weight_next: "i < length ss \<Longrightarrow> weight ss (Suc i) < weight ss i"
  by (cases "ss ! i") (simp add: weight_def Cons_nth_drop_Suc [symmetric])

text \<open>
  \<open>compare_kids\<close> is the part of \<^verbatim>\<open>compare_tree\<close> that compares the children of two nodes of the same name, \<open>compare_any\<close> the loop over
  the siblings of the second node: the first operand is looked for at the positions \<open>ts\<close>.
\<close>

function compare_tree :: "string option \<Rightarrow> tnode list \<Rightarrow> nat \<Rightarrow> tnode list \<Rightarrow> nat \<Rightarrow> bool \<Rightarrow> (bool \<times> tnode list) option"
  and compare_kids :: "tnode \<Rightarrow> tnode \<Rightarrow> bool \<Rightarrow> (bool \<times> tnode) option"
  and compare_any :: "string option \<Rightarrow> tnode list \<Rightarrow> nat \<Rightarrow> tnode list \<Rightarrow> nat list \<Rightarrow> bool \<Rightarrow> (bool \<times> tnode list) option" where
  "compare_tree op ss1 i ss2 j res =
     (if i \<ge> length ss1 \<or> j \<ge> length ss2 then Some (False, ss2)
      else do {
        r2 \<leftarrow> turned (ss1 ! i) (ss2 ! j);
        if nm (ss1 ! i) \<noteq> nm r2 then Some (False, ss2[j := r2])
        else if (kids (ss1 ! i) = []) \<noteq> (kids r2 = []) then Some (False, ss2[j := r2])
        else if length (kids (ss1 ! i)) \<noteq> length (kids r2) then Some (False, ss2[j := r2])
        else do {
          (res, r2) \<leftarrow> compare_kids (ss1 ! i) r2 res;
          (let ss2 = ss2[j := r2] in
           if Suc i \<ge> length ss1 then Some (res, ss2)
           else if length ss1 \<noteq> length ss2 then Some (False, ss2)
           else if \<not> res then Some (res, ss2)
           else do {
             p \<leftarrow> op;
             if commutes p then compare_any op ss1 (Suc i) ss2 [0..<length ss2] res
             else compare_tree op ss1 (Suc i) ss2 (Suc j) res
           })
        }
      })"
| "compare_kids r1 r2 res =
     (if kids r1 = [] then Some (res, r2)
      else if equality (nm r1) then do {
        (v, ks) \<leftarrow> compare_tree (Some (nm r1)) (kids r1) 0 (kids r2) 0 res;
        if v then Some (v, with_kids r2 ks)
        else do {
          r2 \<leftarrow> change_sibling (with_kids r2 ks);
          (v, ks) \<leftarrow> compare_tree (Some (nm r1)) (kids r1) 0 (kids r2) 0 True;
          Some (v, with_kids r2 ks)
        }
      }
      else if commutes (nm r1) then do {
        (v, ks) \<leftarrow> compare_any (Some (nm r1)) (kids r1) 0 (kids r2) [0..<length (kids r2)] res;
        Some (v, with_kids r2 ks)
      }
      else do {
        (v, ks) \<leftarrow> compare_tree (Some (nm r1)) (kids r1) 0 (kids r2) 0 res;
        Some (v, with_kids r2 ks)
      })"
| "compare_any op ss1 i ss2 [] res = Some (res, ss2)"
| "compare_any op ss1 i ss2 (t # ts) res = do {
     (v, ss2) \<leftarrow> compare_tree op ss1 i ss2 t res;
     if v then Some (v, ss2)
     else if ts = [] then Some (v, ss2)
     else compare_any op ss1 i ss2 ts True
   }"
  by pat_completeness auto
termination
proof (relation "measures [\<lambda>x. case x of Inl (op, ss1, i, ss2, j, res) \<Rightarrow> weight ss1 i
      | Inr (Inl (r1, r2, res)) \<Rightarrow> size r1 | Inr (Inr (op, ss1, i, ss2, ts, res)) \<Rightarrow> weight ss1 i,
    \<lambda>x. case x of Inr (Inr (op, ss1, i, ss2, ts, res)) \<Rightarrow> Suc (length ts) | _ \<Rightarrow> 0]", goal_cases)
qed (auto simp: weight_size weight_kids weight_next not_le)

declare compare_tree.simps [simp del] compare_kids.simps [simp del]

lemma compare_tree_differs:
  assumes "i < length ss1" "j < length ss2" "\<not> relational (nm (ss1 ! i))"
    and "nm (ss1 ! i) \<noteq> nm (ss2 ! j) \<or> length (kids (ss1 ! i)) \<noteq> length (kids (ss2 ! j))"
  shows "compare_tree op ss1 i ss2 j res = Some (False, ss2)"
  using assms by (auto simp: compare_tree.simps [of op ss1] turned_def)

lemma compare_tree_same:
  assumes "i < length ss1" "j < length ss2"
    and "nm (ss1 ! i) = nm (ss2 ! j)" "length (kids (ss1 ! i)) = length (kids (ss2 ! j))"
    and "compare_kids (ss1 ! i) (ss2 ! j) res = Some (v, b)"
  shows "compare_tree op ss1 i ss2 j res =
     (let ss2 = ss2[j := b] in
      if Suc i \<ge> length ss1 then Some (v, ss2)
      else if length ss1 \<noteq> length ss2 then Some (False, ss2)
      else if \<not> v then Some (v, ss2)
      else case op of None \<Rightarrow> None
        | Some p \<Rightarrow> if commutes p then compare_any op ss1 (Suc i) ss2 [0..<length ss2] True else compare_tree op ss1 (Suc i) ss2 (Suc j) True)"
  using assms by (subst compare_tree.simps, cases op) (auto simp: turned_def Let_def)

subsection \<open>What is accepted\<close>

text \<open>
  The specification: names agree, the operands of a commuting operator are each found among the operands of the other,
  in any order and not necessarily at different places; other operands are compared in order.
\<close>

fun matches :: "tnode \<Rightarrow> tnode \<Rightarrow> bool" where
  "matches (TNode s p ks) (TNode s' p' ks') \<longleftrightarrow>
     s = s' \<and> length ks = length ks' \<and>
     (if commutes s then \<forall>k \<in> set ks. \<exists>k' \<in> set ks'. matches k k' else list_all2 matches ks ks')"

text \<open>No operator of the tree makes the comparison rewrite the other tree.\<close>

fun no_rewrite :: "tnode \<Rightarrow> bool" where
  "no_rewrite (TNode s p ks) \<longleftrightarrow> \<not> relational s \<and> \<not> equality s \<and> (\<forall>k \<in> set ks. no_rewrite k)"

definition rest_matches :: "string option \<Rightarrow> tnode list \<Rightarrow> nat \<Rightarrow> tnode list \<Rightarrow> bool" where
  "rest_matches op ss1 i ss2 \<longleftrightarrow> (\<forall>m \<in> {i..<length ss1}.
     case op of Some p \<Rightarrow> if commutes p then \<exists>t < length ss2. matches (ss1 ! m) (ss2 ! t) else matches (ss1 ! m) (ss2 ! m)
     | None \<Rightarrow> False)"

lemma bex_set_nth: "(\<exists>x \<in> set xs. P x) \<longleftrightarrow> (\<exists>t < length xs. P (xs ! t))"
  by (metis in_set_conv_nth)

lemma matches_node:
  "matches a b \<longleftrightarrow> nm a = nm b \<and> length (kids a) = length (kids b) \<and> rest_matches (Some (nm a)) (kids a) 0 (kids b)"
  by (cases a; cases b) (auto simp: rest_matches_def all_set_conv_all_nth bex_set_nth list_all2_conv_all_nth)

lemma no_rewrite_node:
  "no_rewrite a \<longleftrightarrow> \<not> relational (nm a) \<and> \<not> equality (nm a) \<and> (\<forall>k \<in> set (kids a). no_rewrite k)"
  by (cases a) simp

lemma atLeastLessThan_Cons: "i < n \<Longrightarrow> {i..<n} = insert i {Suc i..<n}"
  by auto

lemma rest_matches_Suc:
  "i < length ss1 \<Longrightarrow> rest_matches (Some p) ss1 i ss2 \<longleftrightarrow>
     (if commutes p then \<exists>t < length ss2. matches (ss1 ! i) (ss2 ! t) else matches (ss1 ! i) (ss2 ! i)) \<and>
     rest_matches (Some p) ss1 (Suc i) ss2"
  unfolding rest_matches_def by (subst atLeastLessThan_Cons) auto

lemma compare_any_matches:
  assumes "\<And>t. t \<in> set ts \<Longrightarrow> compare_tree op ss1 i ss2 t True = Some (P t, ss2)"
    and "ts \<noteq> []"
  shows "compare_any op ss1 i ss2 ts True = Some (\<exists>t \<in> set ts. P t, ss2)"
  using assms by (induction ts) auto

definition tail_matches :: "string option \<Rightarrow> tnode list \<Rightarrow> nat \<Rightarrow> tnode list \<Rightarrow> bool" where
  "tail_matches op ss1 i ss2 \<longleftrightarrow> i < length ss1 \<longrightarrow> length ss1 = length ss2 \<and> rest_matches op ss1 i ss2"

lemma tail_matches_rest: "length ss1 = length ss2 \<Longrightarrow> tail_matches op ss1 i ss2 \<longleftrightarrow> rest_matches op ss1 i ss2"
  by (auto simp: tail_matches_def rest_matches_def)

lemma compare_tree_decides:
  assumes "\<forall>k \<in> set ss1. no_rewrite k" "i < length ss1" "j < length ss2"
    and "op = None \<Longrightarrow> length ss1 = 1" "\<And>p. op = Some p \<Longrightarrow> \<not> commutes p \<Longrightarrow> j = i"
  shows "compare_tree op ss1 i ss2 j True = Some (matches (ss1 ! i) (ss2 ! j) \<and> tail_matches op ss1 (Suc i) ss2, ss2)"
  using assms
proof (induction "weight ss1 i" arbitrary: op ss1 i ss2 j rule: less_induct)
  case less
  let ?a = "ss1 ! i" and ?b = "ss2 ! j"
  have a: "\<not> relational (nm ?a)" "\<not> equality (nm ?a)" "\<forall>k \<in> set (kids ?a). no_rewrite k"
    using less.prems(1,2) no_rewrite_node nth_mem by blast+
  have kids_at: "compare_tree (Some (nm ?a)) (kids ?a) 0 (kids ?b) t True =
      Some (matches (kids ?a ! 0) (kids ?b ! t) \<and> tail_matches (Some (nm ?a)) (kids ?a) 1 (kids ?b), kids ?b)"
    if "kids ?a \<noteq> []" "t < length (kids ?b)" "\<not> commutes (nm ?a) \<Longrightarrow> t = 0" for t
    using less.hyps [OF less_trans [OF weight_kids weight_size [OF less.prems(2)]], where j = t and ?ss2.0 = "kids ?b" and op = "Some (nm ?a)"] that a by simp
  have next_at: "compare_tree op ss1 (Suc i) ss2 t True = Some (matches (ss1 ! Suc i) (ss2 ! t) \<and> tail_matches op ss1 (Suc (Suc i)) ss2, ss2)"
    if "Suc i < length ss1" "t < length ss2" "op = Some p" "\<not> commutes p \<Longrightarrow> t = Suc i" for t p
    using less.hyps [OF weight_next [OF less.prems(2)], where j = t and ?ss2.0 = ss2 and op = op] that less.prems(1) by simp
  have node: "compare_kids ?a ?b True = Some (matches ?a ?b, ?b)"
    if "length (kids ?a) = length (kids ?b)" "nm ?a = nm ?b"
  proof (cases "kids ?a = []")
    case True
    then show ?thesis
      using that by (auto simp: compare_kids.simps [of ?a] matches_node [of ?a] rest_matches_def)
  next
    case False
    then have ne: "kids ?b \<noteq> []" "0 < length (kids ?a)"
      using that(1) by auto
    show ?thesis
      using False ne that a kids_at [of 0] compare_any_matches [OF kids_at [OF False], where ts = "[0..<length (kids ?b)]"]
      by (auto simp: compare_kids.simps [of ?a] matches_node [of ?a] tail_matches_rest rest_matches_Suc [of 0] Bex_def with_kids_def tnode.expand)
  qed
  have "ss2 \<noteq> []"
    using less.prems(3) by auto
  then have rest: "(if commutes p then compare_any op ss1 (Suc i) ss2 [0..<length ss2] True else compare_tree op ss1 (Suc i) ss2 (Suc j) True) =
      Some (rest_matches op ss1 (Suc i) ss2, ss2)" if "Suc i < length ss1" "length ss1 = length ss2" "op = Some p" for p
    using that less.prems(5) compare_any_matches [OF next_at [where p = p], where ts = "[0..<length ss2]"] next_at [of "Suc j" p]
    by (auto simp: tail_matches_rest rest_matches_Suc [of "Suc i"] Bex_def)
  show ?case
  proof (cases "nm ?a = nm ?b \<and> length (kids ?a) = length (kids ?b)")
    case False
    then show ?thesis
      using compare_tree_differs [OF less.prems(2,3) a(1)] by (auto simp: matches_node [of ?a])
  next
    case True
    then show ?thesis
      using compare_tree_same [OF less.prems(2,3) _ _ node] rest less.prems(4) by (cases op) (auto simp: tail_matches_def)
  qed
qed

text \<open>
  C19: for a student's answer without relational operators and without \<^verbatim>\<open>==\<close> and \<^verbatim>\<open>!=\<close>, \<^verbatim>\<open>compare_tree\<close> always ends, leaves the
  tree of the model answer as it is and accepts exactly the answers of the specification: the same operators and
  operands, in any order under \<^verbatim>\<open>+ * | & || &&\<close>, each operand of the student found among those of the model answer.
\<close>

theorem compare_tree_matches:
  assumes "no_rewrite student"
  shows "compare_tree None [student] 0 [answer] 0 True = Some (matches student answer, [answer])"
  using compare_tree_decides [of "[student]" 0 0 "[answer]" None] assms by (simp add: tail_matches_def)

definition leaf :: "string \<Rightarrow> tnode" where
  "leaf s = TNode s 0 []"

definition binary :: "string \<Rightarrow> tnode \<Rightarrow> tnode \<Rightarrow> tnode" where
  "binary s a b = TNode s 0 [a, b]"

theorem compare_tree_matches_witness:
  "compare_tree None [binary ''+'' (leaf ''a'') (binary ''-'' (leaf ''b'') (leaf ''c''))] 0
     [binary ''+'' (binary ''-'' (leaf ''b'') (leaf ''c'')) (leaf ''a'')] 0 True =
   Some (True, [binary ''+'' (binary ''-'' (leaf ''b'') (leaf ''c'')) (leaf ''a'')])"
  using compare_tree_matches [of "binary ''+'' (leaf ''a'') (binary ''-'' (leaf ''b'') (leaf ''c''))"
      "binary ''+'' (binary ''-'' (leaf ''b'') (leaf ''c'')) (leaf ''a'')"]
  by (simp add: binary_def leaf_def relational_def equality_def commutes_def)

lemma matches_refl: "matches a a"
  by (induction a) (auto intro: list.rel_refl_strong)

subsection \<open>Comparisons that swap the operands of an equality\<close>

text \<open>Without relational operators, and with two operands under every \<^verbatim>\<open>==\<close> and \<^verbatim>\<open>!=\<close>, no null pointer is followed.\<close>

fun plain :: "tnode \<Rightarrow> bool" where
  "plain (TNode s p ks) \<longleftrightarrow> \<not> relational s \<and> (equality s \<longrightarrow> length ks = 2) \<and> (\<forall>k \<in> set ks. plain k)"

lemma plain_node: "plain a \<longleftrightarrow> \<not> relational (nm a) \<and> (equality (nm a) \<longrightarrow> length (kids a) = 2) \<and> (\<forall>k \<in> set (kids a). plain k)"
  by (cases a) simp

abbreviation plains :: "tnode list \<Rightarrow> bool" where
  "plains ss \<equiv> \<forall>k \<in> set ss. plain k"

definition ends :: "tnode list \<Rightarrow> (bool \<times> tnode list) option \<Rightarrow> bool" where
  "ends ss r \<longleftrightarrow> (\<exists>v ss'. r = Some (v, ss') \<and> plains ss' \<and> length ss' = length ss)"

lemma ends_Some [simp]: "ends ss (Some (v, ss')) \<longleftrightarrow> plains ss' \<and> length ss' = length ss"
  by (simp add: ends_def)

lemma endsE: "ends ss r \<Longrightarrow> (\<And>v ss'. r = Some (v, ss') \<Longrightarrow> plains ss' \<Longrightarrow> length ss' = length ss \<Longrightarrow> P) \<Longrightarrow> P"
  by (auto simp: ends_def)

lemma plain_with_kids: "plain a \<Longrightarrow> plains ks \<Longrightarrow> length ks = length (kids a) \<Longrightarrow> plain (with_kids a ks)"
  by (cases a) (simp add: with_kids_def)

lemma compare_any_ends:
  assumes "\<And>ss2 t res. plains ss2 \<Longrightarrow> ends ss2 (compare_tree op ss1 i ss2 t res)" and "plains ss2"
  shows "ends ss2 (compare_any op ss1 i ss2 ts res)"
  using assms(2)
proof (induction ts arbitrary: ss2 res)
  case (Cons t ts)
  show ?case
    using assms(1) [OF Cons.prems, of t res]
  proof (rule endsE)
    fix v ss'
    assume "compare_tree op ss1 i ss2 t res = Some (v, ss')" "plains ss'" "length ss' = length ss2"
    with Cons.IH [of ss' True] show ?thesis by (auto simp: ends_def)
  qed
qed simp

lemma compare_kids_ends:
  assumes IH: "\<And>ss2 j res. plains ss2 \<Longrightarrow> ends ss2 (compare_tree (Some (nm a)) (kids a) 0 ss2 j res)"
    and "plain b" "nm a = nm b"
  shows "\<exists>v b'. compare_kids a b res = Some (v, b') \<and> plain b'"
proof -
  have b: "plains (kids b)" "equality (nm a) \<Longrightarrow> length (kids b) = 2"
    using assms(2,3) by (auto simp: plain_node [of b])
  note step = IH [OF b(1), of 0 res] compare_any_ends [OF IH b(1), where ts = "[0..<length (kids b)]" and res = res]
  have swap: "\<exists>v b'. (case r of (v, ks) \<Rightarrow> if v then Some (v, with_kids b ks)
        else do {
          r2 \<leftarrow> change_sibling (with_kids b ks);
          (v, ks) \<leftarrow> compare_tree (Some (nm a)) (kids a) 0 (kids r2) 0 True;
          Some (v, with_kids r2 ks)
        }) = Some (v, b') \<and> plain b'"
    if r: "ends (kids b) (Some r)" and eq: "equality (nm a)" for r
  proof -
    obtain v ks where [simp]: "r = (v, ks)" by (cases r)
    from r b(2) [OF eq] obtain x y where ks: "ks = [x, y]" "plain x" "plain y"
      by (auto simp: length_Suc_conv numeral_2_eq_2)
    have "ends [y, x] (compare_tree (Some (nm a)) (kids a) 0 [y, x] 0 True)"
      using IH [of "[y, x]"] ks by simp
    then show ?thesis
      using assms(2) ks b(2) [OF eq] assms(3) by (auto simp: change_sibling_def with_kids_def plain_node [of b] ends_def)
  qed
  show ?thesis
    using step swap assms(2) by (auto simp: compare_kids.simps [of a] ends_def plain_with_kids)
qed

lemma compare_tree_ends:
  assumes "plains ss1" "plains ss2" "op = None \<Longrightarrow> length ss1 \<le> 1"
  shows "ends ss2 (compare_tree op ss1 i ss2 j res)"
  using assms
proof (induction "weight ss1 i" arbitrary: op ss1 i ss2 j res rule: less_induct)
  case less
  show ?case
  proof (cases "i < length ss1 \<and> j < length ss2")
    case True
    let ?a = "ss1 ! i" and ?b = "ss2 ! j"
    have a: "plain ?a" "plain ?b"
      using True less.prems(1,2) by auto
    have kids: "\<exists>v b'. compare_kids ?a ?b res = Some (v, b') \<and> plain b'" if "nm ?a = nm ?b"
    proof (rule compare_kids_ends [OF _ a(2) that])
      fix ss j res
      assume "plains ss"
      with a(1) True show "ends ss (compare_tree (Some (nm ?a)) (kids ?a) 0 ss j res)"
        by (intro less.hyps [OF less_trans [OF weight_kids weight_size]]) (auto simp: plain_node [of ?a])
    qed
    have next_at: "ends ss2 (compare_tree op ss1 (Suc i) ss2 j res)" if "plains ss2" for ss2 j res
      using less.hyps [OF weight_next] True that less.prems(1,3) by blast
    have upd: "plains (ss2[j := b'])" if "plain b'" for b'
      using that less.prems(2) set_update_subset_insert by fastforce
    show ?thesis
    proof (cases "nm ?a = nm ?b \<and> length (kids ?a) = length (kids ?b)")
      case False
      then show ?thesis
        using compare_tree_differs [of i ss1 j ss2] True a less.prems(2) by (auto simp: plain_node [of ?a])
    next
      case same: True
      from kids this obtain v b' where b': "compare_kids ?a ?b res = Some (v, b')" "plain b'" by blast
      let ?ss = "ss2[j := b']"
      have "ends ?ss (compare_any op ss1 (Suc i) ?ss ts r)" "ends ?ss (compare_tree op ss1 (Suc i) ?ss t r)" for ts t r
        using compare_any_ends [OF next_at] next_at upd [OF b'(2)] by blast+
      then show ?thesis
        using compare_tree_same [OF _ _ _ _ b'(1), of op] True a(1) less.prems(3) same upd [OF b'(2)]
        by (cases op) (auto simp: plain_node [of ?a] ends_def Let_def)
    qed
  qed (use less.prems in \<open>auto simp: compare_tree.simps [of op ss1]\<close>)
qed

text \<open>
  The operands of the second node from position \<open>i\<close> on are those of the first.  A comparison at position \<open>i\<close> then succeeds,
  and one that fails at an earlier position has changed only the operand at that position.
\<close>

definition same_from :: "nat \<Rightarrow> tnode list \<Rightarrow> tnode list \<Rightarrow> bool" where
  "same_from i ss1 ss2 \<longleftrightarrow> length ss1 = length ss2 \<and> (\<forall>m. i \<le> m \<and> m < length ss1 \<longrightarrow> ss2 ! m = ss1 ! m)"

lemma same_from_update: "same_from i ss1 ss2 \<Longrightarrow> j < i \<Longrightarrow> same_from i ss1 (ss2[j := b])"
  by (auto simp: same_from_def)

lemma same_from_Suc: "same_from i ss1 ss2 \<Longrightarrow> same_from (Suc i) ss1 ss2"
  by (simp add: same_from_def)

definition found :: "string option \<Rightarrow> tnode list \<Rightarrow> nat \<Rightarrow> bool" where
  "found op ss1 i \<longleftrightarrow> (\<forall>ss2 j. plains ss2 \<longrightarrow> same_from (Suc i) ss1 ss2 \<longrightarrow> j \<le> i \<longrightarrow> (\<forall>p. op = Some p \<and> \<not> commutes p \<longrightarrow> j = i) \<longrightarrow>
     (\<exists>v ss2'. compare_tree op ss1 i ss2 j True = Some (v, ss2') \<and> plains ss2' \<and>
       (j = i \<and> ss2 ! i = ss1 ! i \<longrightarrow> v) \<and> (\<not> v \<longrightarrow> (\<exists>b. ss2' = ss2[j := b]))))"

lemma foundE:
  assumes "found op ss1 i" "plains ss2" "same_from (Suc i) ss1 ss2" "j \<le> i" "\<And>p. op = Some p \<Longrightarrow> \<not> commutes p \<Longrightarrow> j = i"
  obtains v ss2' where "compare_tree op ss1 i ss2 j True = Some (v, ss2')" "plains ss2'" "j = i \<Longrightarrow> ss2 ! i = ss1 ! i \<Longrightarrow> v"
    "v \<or> (\<exists>b. ss2' = ss2[j := b])"
proof -
  have "\<forall>p. op = Some p \<and> \<not> commutes p \<longrightarrow> j = i" using assms(5) by blast
  with assms(1) [unfolded found_def, THEN spec, THEN spec, THEN mp, OF assms(2), THEN mp, OF assms(3), THEN mp, OF assms(4)]
  show ?thesis using that by blast
qed

lemma compare_any_finds:
  assumes "found (Some p) ss1 i" "commutes p" "i < length ss1"
    and "plains ss2" "same_from i ss1 ss2" "a \<le> i"
  shows "\<exists>ss'. compare_any (Some p) ss1 i ss2 [a..<length ss1] True = Some (True, ss')"
  using assms(4-6)
proof (induction "i - a" arbitrary: a ss2)
  case 0
  then have "a = i" by simp
  have "ss2 ! i = ss1 ! i" using 0(3) assms(3) by (simp add: same_from_def)
  then obtain ss' where "compare_tree (Some p) ss1 i ss2 i True = Some (True, ss')"
    by (auto intro: foundE [OF assms(1) 0(2) same_from_Suc [OF 0(3)] le_refl])
  then show ?case
    using assms(3) \<open>a = i\<close> by (simp add: upt_conv_Cons)
next
  case (Suc d)
  obtain v ss' where c: "compare_tree (Some p) ss1 i ss2 a True = Some (v, ss')" "plains ss'" "v \<or> (\<exists>b. ss' = ss2[a := b])"
    by (rule foundE [OF assms(1) Suc.prems(1) same_from_Suc [OF Suc.prems(2)] Suc.prems(3)]) (use assms(2) in auto)
  have "a < i" using Suc.hyps(2) by simp
  then have "\<not> v \<Longrightarrow> \<exists>ss''. compare_any (Some p) ss1 i ss' [Suc a..<length ss1] True = Some (True, ss'')"
    using Suc.hyps c Suc.prems(2) by (intro Suc.hyps(1)) (auto intro: same_from_update)
  then show ?case
    using c(1) assms(3) \<open>a < i\<close> by (auto simp: upt_conv_Cons [of a])
qed

lemma kids_self:
  assumes "kids a \<noteq> [] \<Longrightarrow> found (Some (nm a)) (kids a) 0" "plains (kids a)"
  shows "\<exists>b. compare_kids a a True = Some (True, b)"
proof (cases "kids a = []")
  case False
  from foundE [OF assms(1) [OF False] assms(2), of 0] obtain ks where
    "compare_tree (Some (nm a)) (kids a) 0 (kids a) 0 True = Some (True, ks)"
    by (auto simp: same_from_def)
  then show ?thesis
    using compare_any_finds [OF assms(1) [OF False] _ _ assms(2), of 0] False
    by (auto simp: compare_kids.simps [of a] same_from_def)
qed (simp add: compare_kids.simps)

lemma compare_tree_found:
  assumes "plains ss1" "i < length ss1" "op = None \<Longrightarrow> length ss1 = 1"
  shows "found op ss1 i"
  using assms
proof (induction "weight ss1 i" arbitrary: op ss1 i rule: less_induct)
  case less
  let ?a = "ss1 ! i"
  have a: "plain ?a" "plains (kids ?a)" "\<not> relational (nm ?a)"
    using less.prems plain_node [of ?a] by auto
  have kids_found: "found (Some (nm ?a)) (kids ?a) 0" if "kids ?a \<noteq> []"
    using less.hyps [OF less_trans [OF weight_kids weight_size [OF less.prems(2)]] a(2), of "Some (nm ?a)"] that by simp
  have self: "\<exists>b. compare_kids ?a ?a True = Some (True, b)"
    by (rule kids_self [OF kids_found a(2)])
  show ?case
    unfolding found_def
  proof (intro allI impI)
    fix ss2 j
    assume ss2: "plains ss2" "same_from (Suc i) ss1 ss2" "j \<le> i" "\<forall>p. op = Some p \<and> \<not> commutes p \<longrightarrow> j = i"
    show "\<exists>v ss2'. compare_tree op ss1 i ss2 j True = Some (v, ss2') \<and> plains ss2' \<and>
       (j = i \<and> ss2 ! i = ss1 ! i \<longrightarrow> v) \<and> (\<not> v \<longrightarrow> (\<exists>b. ss2' = ss2[j := b]))"
    proof (cases "nm ?a = nm (ss2 ! j) \<and> length (kids ?a) = length (kids (ss2 ! j))")
      case False
      then have "compare_tree op ss1 i ss2 j True = Some (False, ss2)"
        by (intro compare_tree_differs) (use ss2(2,3) less.prems(2) a(3) in \<open>auto simp: same_from_def\<close>)
      moreover have "ss2 = ss2[j := ss2 ! j]" by simp
      moreover have "\<not> (j = i \<and> ss2 ! i = ss1 ! i)" using False by auto
      ultimately show ?thesis using ss2(1) by blast
    next
      case True
      have j: "j < length ss2" using ss2 less.prems(2) by (simp add: same_from_def)
      then have b: "plain (ss2 ! j)" using ss2(1) by simp
      obtain v b' where k: "compare_kids ?a (ss2 ! j) True = Some (v, b')" "plain b'"
        using compare_kids_ends [OF compare_tree_ends [OF a(2)] b, of True] True by auto
      let ?ss = "ss2[j := b']"
      have ss: "same_from (Suc i) ss1 ?ss" "plains ?ss"
        using same_from_update [OF ss2(2)] ss2(1,3) k(2) set_update_subset_insert by (auto, fastforce)
      have v: "j = i \<Longrightarrow> ss2 ! i = ss1 ! i \<Longrightarrow> v" using self k(1) by auto
      have rest: "\<exists>ss'. (case op of None \<Rightarrow> None | Some p \<Rightarrow> if commutes p then compare_any op ss1 (Suc i) ?ss [0..<length ?ss] True
          else compare_tree op ss1 (Suc i) ?ss (Suc j) True) = Some (True, ss') \<and> plains ss'" if "Suc i < length ss1"
      proof (cases op)
        case (Some p)
        have f: "found (Some p) ss1 (Suc i)"
          using less.hyps [OF weight_next [OF less.prems(2)] less.prems(1) that, of "Some p"] by simp
        have ends: "\<And>ts. ends ?ss (compare_any (Some p) ss1 (Suc i) ?ss ts True)"
          by (intro compare_any_ends compare_tree_ends) (use less.prems(1) ss(2) in auto)
        show ?thesis
        proof (cases "commutes p")
          case True
          then show ?thesis
            using compare_any_finds [OF f True that ss(2,1), of 0] ends [of "[0..<length ss2]"] Some ss(1)
            by (auto simp: same_from_def)
        next
          case False
          then have "j = i" "?ss ! Suc i = ss1 ! Suc i"
            using ss2(4) Some ss(1) that by (auto simp: same_from_def)
          then show ?thesis
            using False Some by (auto intro: foundE [OF f ss(2) same_from_Suc [OF ss(1)] le_refl])
        qed
      qed (use less.prems(3) that in simp)
      show ?thesis
        using compare_tree_same [OF less.prems(2) j _ _ k(1), of op] True rest ss v
        by (cases v; cases "Suc i < length ss1") (auto simp: Let_def same_from_def)
    qed
  qed
qed

text \<open>
  No relational operator is below one of \<^verbatim>\<open>+ * | & || &&\<close>, whose operands are searched, and an \<^verbatim>\<open>==\<close> or \<^verbatim>\<open>!=\<close> there has two operands.
\<close>

fun upright :: "tnode \<Rightarrow> bool" where
  "upright (TNode s p ks) \<longleftrightarrow> (if commutes s then \<forall>k \<in> set ks. plain k else \<forall>k \<in> set ks. upright k)"

lemma in_order_self:
  assumes "\<not> commutes p" "\<forall>k \<in> set ss1. \<exists>b. compare_kids k k True = Some (True, b)" "same_from i ss1 ss2" "i < length ss1"
  shows "\<exists>ss'. compare_tree (Some p) ss1 i ss2 i True = Some (True, ss')"
  using assms(3,4)
proof (induction "length ss1 - i" arbitrary: i ss2)
  case (Suc d)
  have e: "ss2 ! i = ss1 ! i" "i < length ss2" "length ss1 = length ss2"
    using Suc.prems by (auto simp: same_from_def)
  obtain b where b: "compare_kids (ss1 ! i) (ss2 ! i) True = Some (True, b)"
    using assms(2) Suc.prems(2) e(1) by force
  have "\<exists>ss'. compare_tree (Some p) ss1 (Suc i) (ss2[i := b]) (Suc i) True = Some (True, ss')" if "Suc i < length ss1"
    using Suc.hyps(1) [of "Suc i"] Suc.hyps(2) Suc.prems that by (auto simp: same_from_def)
  then show ?case
    using compare_tree_same [OF Suc.prems(2) e(2) _ _ b, of "Some p"] e assms(1)
    by (cases "Suc i < length ss1") (auto simp: Let_def)
qed simp

lemma upright_self: "upright a \<Longrightarrow> \<exists>b. compare_kids a a True = Some (True, b)"
proof (induction a)
  case (TNode s p ks)
  show ?case
  proof (cases "commutes s")
    case True
    then have "plains ks" using TNode.prems by simp
    then show ?thesis using kids_self [of "TNode s p ks"] compare_tree_found [of ks 0 "Some s"] by simp
  next
    case False
    have "\<exists>ss'. compare_tree (Some s) ks 0 ks 0 True = Some (True, ss')" if "ks \<noteq> []"
      by (rule in_order_self) (use False TNode that in \<open>auto simp: same_from_def\<close>)
    then show ?thesis using False by (auto simp: compare_kids.simps)
  qed
qed

text \<open>
  C32: an answer that is word for word the model answer is accepted, if no relational operator is below one of the operators \<^verbatim>\<open>+ * | & || &&\<close>
  (what happens there is shown next) and every \<^verbatim>\<open>==\<close> and \<^verbatim>\<open>!=\<close> below one has two operands: the swaps of operands made by comparisons
  that fail on the way never hide the operand that is equal.
\<close>

theorem compare_tree_accepts_same:
  assumes "upright t"
  shows "\<exists>t'. compare_tree None [t] 0 [t] 0 True = Some (True, [t'])"
proof -
  obtain b where "compare_kids ([t] ! 0) ([t] ! 0) True = Some (True, b)" using upright_self [OF assms] by auto
  from compare_tree_same [OF _ _ _ _ this, of None] show ?thesis by simp
qed

theorem compare_tree_accepts_same_witness:
  "\<exists>t'. compare_tree None
     [binary ''='' (binary ''<'' (leaf ''x'') (leaf ''y'')) (binary ''||'' (binary ''=='' (leaf ''a'') (leaf ''b'')) (binary ''=='' (leaf ''b'') (leaf ''c'')))] 0
     [binary ''='' (binary ''<'' (leaf ''x'') (leaf ''y'')) (binary ''||'' (binary ''=='' (leaf ''a'') (leaf ''b'')) (binary ''=='' (leaf ''b'') (leaf ''c'')))] 0
     True = Some (True, [t'])"
  by (rule compare_tree_accepts_same) (simp add: binary_def leaf_def relational_def equality_def commutes_def)

text \<open>
  C33: a relation that is not the first operand of \<^verbatim>\<open>&&\<close> (or another commuting operator) after an operand without operands of
  its own, as in \<^verbatim>\<open>c && a < b\<close>, makes the grader follow a null pointer, even on an answer that is word for word the
  model answer: the relation is compared with the operand \<^verbatim>\<open>c\<close> first, and \<^verbatim>\<open>change_sibling\<close> swaps the children \<^verbatim>\<open>c\<close> does not have.
\<close>

theorem compare_tree_crash:
  assumes "commutes q" "relational r" "c \<noteq> r"
  shows "compare_tree None [binary q (leaf c) (binary r a b)] 0 [binary q (leaf c) (binary r a b)] 0 True = None"
proof -
  let ?ss = "[leaf c, binary r a b]"
  have q: "\<not> equality q" "\<not> relational q"
    using assms(1) by (auto simp: commutes_def equality_def relational_def)
  have "compare_tree (Some q) ?ss 1 ?ss 0 True = None"
    using assms by (simp add: compare_tree.simps turned_def change_sibling_def leaf_def binary_def)
  then have "compare_tree (Some q) ?ss 0 ?ss 0 True = None"
    using assms by (subst compare_tree.simps) (simp add: compare_kids.simps turned_def leaf_def)
  then have "compare_kids (binary q (leaf c) (binary r a b)) (binary q (leaf c) (binary r a b)) True = None"
    using assms q by (subst compare_kids.simps) (simp add: binary_def)
  then show ?thesis
    using q by (subst compare_tree.simps) (simp add: turned_def binary_def)
qed

theorem compare_tree_crash_witness:
  "compare_tree None [binary ''&&'' (leaf ''c'') (binary ''<'' (leaf ''a'') (leaf ''b''))] 0
     [binary ''&&'' (leaf ''c'') (binary ''<'' (leaf ''a'') (leaf ''b''))] 0 True = None"
  by (rule compare_tree_crash) (simp_all add: commutes_def relational_def)

text \<open>
  Operands may be counted twice: for every expression, the student's \<^verbatim>\<open>a + a\<close> is accepted for the model answer \<^verbatim>\<open>a + b\<close>.
\<close>

theorem compare_tree_repeats_operand:
  assumes "commutes q" "no_rewrite a"
  shows "compare_tree None [binary q a a] 0 [binary q a b] 0 True = Some (True, [binary q a b])"
proof -
  have "no_rewrite (binary q a a)" "matches (binary q a a) (binary q a b)"
    using assms by (auto simp: binary_def commutes_def relational_def equality_def matches_refl)
  then show ?thesis
    using compare_tree_decides [of "[binary q a a]" 0 0 "[binary q a b]" None] by (simp add: tail_matches_def)
qed

theorem compare_tree_repeats_operand_witness:
  "compare_tree None [binary ''+'' (leaf ''a'') (leaf ''a'')] 0 [binary ''+'' (leaf ''a'') (leaf ''b'')] 0 True =
   Some (True, [binary ''+'' (leaf ''a'') (leaf ''b'')])"
  by (rule compare_tree_repeats_operand) (simp_all add: commutes_def leaf_def relational_def equality_def)

end
