(* ===== verification/Score_Tree.thy ===== *)
theory Score_Tree
  imports Score_Blank
begin

text \<open>
  The parser of the grading program (\<^verbatim>\<open>make_tree\<close> in \<^verbatim>\<open>ssu_score/blank.c\<close>), which links nodes in the heap.

  The heap is the list of the nodes allocated so far, a pointer an index into it or \<open>None\<close>; every index comes from an allocation.  A null
  pointer that is followed and a token read outside the array are values of \<open>fault\<close>; the result \<open>None\<close> is a loop that does not end.
  The tokens are the array of \<^verbatim>\<open>TOKEN_CNT\<close> strings that the tokenizer fills.
\<close>

record node =
  name :: string
  level :: int
  parent :: "nat option"
  child_head :: "nat option"
  prev :: "nat option"
  nxt :: "nat option"

type_synonym heap = "node list"

abbreviation "TOKEN_CNT \<equiv> (50 :: nat)"

datatype fault = NullPointer | TokenOutside

definition token :: "string list \<Rightarrow> nat \<Rightarrow> fault + string" where
  "token tokens i = (if i < length tokens then Inr (tokens ! i) else Inl TokenOutside)"

definition set_parent :: "nat \<Rightarrow> nat option \<Rightarrow> heap \<Rightarrow> heap" where
  "set_parent i v h = h[i := (h ! i)\<lparr>parent := v\<rparr>]"

definition set_child :: "nat \<Rightarrow> nat option \<Rightarrow> heap \<Rightarrow> heap" where
  "set_child i v h = h[i := (h ! i)\<lparr>child_head := v\<rparr>]"

definition set_prev :: "nat \<Rightarrow> nat option \<Rightarrow> heap \<Rightarrow> heap" where
  "set_prev i v h = h[i := (h ! i)\<lparr>prev := v\<rparr>]"

definition set_next :: "nat \<Rightarrow> nat option \<Rightarrow> heap \<Rightarrow> heap" where
  "set_next i v h = h[i := (h ! i)\<lparr>nxt := v\<rparr>]"

lemmas setters = set_parent_def set_child_def set_prev_def set_next_def

definition operators :: "(string \<times> int) list" where
  "operators = [(''('', 0), ('')'', 0), (''->'', 1), (''*'', 4), (''/'', 3), (''%'', 2), (''+'', 6), (''-'', 5),
     (''<'', 7), (''<='', 7), (''>'', 7), (''>='', 7), (''=='', 8), (''!='', 8), (''&'', 9), (''^'', 10), (''|'', 11),
     (''&&'', 12), (''||'', 13), (''='', 14), (''+='', 14), (''-='', 14), (''&='', 14), (''|='', 14)]"

definition get_precedence :: "string \<Rightarrow> int" where
  "get_precedence s = (case find (\<lambda>(n, _). n = s) (drop 2 operators) of Some (_, p) \<Rightarrow> p | None \<Rightarrow> 0)"

definition is_operator :: "string \<Rightarrow> bool" where
  "is_operator s \<longleftrightarrow> (\<exists>(n, _) \<in> set operators. n = s)"

definition create_node :: "string \<Rightarrow> int \<Rightarrow> heap \<Rightarrow> nat \<times> heap" where
  "create_node s l h = (length h, h @ [\<lparr>name = s, level = l, parent = None, child_head = None, prev = None, nxt = None\<rparr>])"

partial_function (option) root_of :: "heap \<Rightarrow> nat \<Rightarrow> nat option" where
  "root_of h i =
     (case prev (h ! i) of Some p \<Rightarrow> root_of h p
      | None \<Rightarrow> case parent (h ! i) of Some q \<Rightarrow> root_of h q | None \<Rightarrow> Some i)"

definition get_root :: "heap \<Rightarrow> nat option \<Rightarrow> nat option option" where
  "get_root h cur = (case cur of None \<Rightarrow> Some None | Some i \<Rightarrow> map_option Some (root_of h i))"

partial_function (option) last_sibling :: "heap \<Rightarrow> nat \<Rightarrow> nat option" where
  "last_sibling h i = (case nxt (h ! i) of Some j \<Rightarrow> last_sibling h j | None \<Rightarrow> Some i)"

definition get_last_child :: "heap \<Rightarrow> nat \<Rightarrow> nat option" where
  "get_last_child h i = last_sibling h (case child_head (h ! i) of Some c \<Rightarrow> c | None \<Rightarrow> i)"

partial_function (option) get_high_precedence_node :: "heap \<Rightarrow> nat \<Rightarrow> nat \<Rightarrow> nat option" where
  "get_high_precedence_node h cur new =
     (if is_operator (name (h ! cur)) \<and> get_precedence (name (h ! cur)) < get_precedence (name (h ! new)) then Some cur
      else case prev (h ! cur) of Some p \<Rightarrow> get_high_precedence_node h p new
        | None \<Rightarrow> case parent (h ! cur) of None \<Rightarrow> Some cur | Some q \<Rightarrow> get_high_precedence_node h q new)"

partial_function (option) highest_from :: "heap \<Rightarrow> nat \<Rightarrow> nat \<Rightarrow> nat option" where
  "highest_from h saved new =
     (case parent (h ! saved) of None \<Rightarrow> Some saved
      | Some q \<Rightarrow> do {
          saved \<leftarrow> get_high_precedence_node h (case prev (h ! saved) of Some p \<Rightarrow> p | None \<Rightarrow> q) new;
          highest_from h saved new
        })"

definition get_most_high_precedence_node :: "heap \<Rightarrow> nat \<Rightarrow> nat \<Rightarrow> nat option" where
  "get_most_high_precedence_node h cur new = do {
     operator \<leftarrow> get_high_precedence_node h cur new;
     highest_from h operator new
   }"

definition insert_node :: "nat \<Rightarrow> nat \<Rightarrow> heap \<Rightarrow> heap" where
  "insert_node old new h =
     (let h = (case prev (h ! old) of None \<Rightarrow> h
               | Some p \<Rightarrow> set_prev old None (set_next p (Some new) (set_prev new (Some p) h))) in
      set_parent old (Some new) (set_child new (Some old) h))"

text \<open>The operand or group \<open>new\<close> becomes the last child of \<open>cur\<close>.\<close>

definition append_child :: "nat \<Rightarrow> nat \<Rightarrow> heap \<Rightarrow> (nat \<times> heap) option" where
  "append_child cur new h = do {
     last \<leftarrow> get_last_child h cur;
     Some (new, set_prev new (Some last) (set_next last (Some new) h))
   }"

text \<open>The children of \<open>new\<close> are moved behind the last child of \<open>cur\<close>, which becomes the current node.\<close>

definition splice_children :: "nat \<Rightarrow> nat \<Rightarrow> heap \<Rightarrow> (fault + nat \<times> heap) option" where
  "splice_children cur new h = do {
     last \<leftarrow> get_last_child h cur;
     Some (case child_head (h ! new) of None \<Rightarrow> Inr (last, h)
       | Some c \<Rightarrow>
           (case parent (h ! c) of None \<Rightarrow> Inl NullPointer
            | Some q \<Rightarrow> Inr (last, set_next last (Some c) (set_prev c (Some last) (set_parent c None (set_child q None h))))))
   }"

fun next_operator :: "string list \<Rightarrow> fault + string" where
  "next_operator [] = Inl TokenOutside"
| "next_operator (t # ts) = (if t = [] then Inr t else if is_operator t \<and> t \<noteq> '')'' then Inr t else next_operator ts)"

text \<open>What becomes of a group in parentheses that has been parsed: \<open>idx\<close> is where its parsing ended.\<close>

definition add_group :: "string list \<Rightarrow> nat \<Rightarrow> nat option \<Rightarrow> nat option \<Rightarrow> heap \<Rightarrow> (fault + nat option \<times> heap) option" where
  "add_group tokens idx cur new h =
     (case cur of None \<Rightarrow> Some (Inr (new, h))
      | Some c \<Rightarrow>
          (case new of None \<Rightarrow> Some (Inl NullPointer)
           | Some n \<Rightarrow> map_option (map_sum id (apfst Some))
               (if name (h ! n) = name (h ! c) then
                  (if name (h ! n) \<in> {''|'', ''||'', ''&'', ''&&''} then splice_children c n h
                   else if name (h ! n) \<in> {''+'', ''*''} then
                     (case next_operator (drop idx tokens) of Inl e \<Rightarrow> Some (Inl e)
                      | Inr t \<Rightarrow>
                          if get_precedence t < get_precedence (name (h ! n)) then map_option Inr (append_child c n h)
                          else splice_children c n h)
                   else map_option Inr (append_child c n h))
                else map_option Inr (append_child c n h))))"

text \<open>The backward search for the node of the same operator among the siblings of the current node.\<close>

partial_function (option) same_operator :: "heap \<Rightarrow> string \<Rightarrow> nat \<Rightarrow> nat option" where
  "same_operator h t i =
     (if is_operator (name (h ! i)) \<and> name (h ! i) = t then Some i
      else case prev (h ! i) of Some p \<Rightarrow> same_operator h t p | None \<Rightarrow> Some i)"

definition below_root :: "nat \<Rightarrow> nat \<Rightarrow> nat option \<Rightarrow> heap \<Rightarrow> (nat option \<times> heap) option" where
  "below_root operator new cur h =
     (case child_head (h ! operator) of None \<Rightarrow> Some (cur, h)
      | Some _ \<Rightarrow> do { last \<leftarrow> get_last_child h operator; Some (Some new, insert_node last new h) })"

definition add_commuting :: "string \<Rightarrow> int \<Rightarrow> nat option \<Rightarrow> heap \<Rightarrow> (fault + nat option \<times> heap) option" where
  "add_commuting t l cur h =
     (case cur of None \<Rightarrow> Some (Inl NullPointer)
      | Some c \<Rightarrow>
          if is_operator (name (h ! c)) \<and> name (h ! c) = t then Some (Inr (cur, h))
          else map_option Inr (do {
            let (new, h) = create_node t l h;
            operator \<leftarrow> get_most_high_precedence_node h c new;
            if parent (h ! operator) = None \<and> prev (h ! operator) = None then
              (if get_precedence (name (h ! operator)) < get_precedence t then Some (Some new, insert_node operator new h)
               else if get_precedence (name (h ! operator)) > get_precedence t then below_root operator new cur h
               else do {
                 found \<leftarrow> same_operator h t c;
                 Some (case (if name (h ! found) \<noteq> t then parent (h ! found) else Some found) of
                         Some q \<Rightarrow> if name (h ! q) = t then Some q else cur
                       | None \<Rightarrow> cur, h)
               })
            else Some (Some new, insert_node operator new h)
          }))"

definition add_operator :: "string \<Rightarrow> int \<Rightarrow> nat option \<Rightarrow> heap \<Rightarrow> (nat option \<times> heap) option" where
  "add_operator t l cur h =
     (let (new, h) = create_node t l h in
      case cur of None \<Rightarrow> Some (Some new, h)
      | Some ci \<Rightarrow> do {
          operator \<leftarrow> get_most_high_precedence_node h ci new;
          if level (h ! operator) > level (h ! new) then Some (Some new, insert_node operator new h)
          else if parent (h ! operator) = None \<and> prev (h ! operator) = None then
            (if get_precedence (name (h ! operator)) > get_precedence t then below_root operator new cur h
             else Some (Some new, insert_node operator new h))
          else Some (Some new, insert_node operator new h)
        })"

definition add_operand :: "string \<Rightarrow> int \<Rightarrow> nat option \<Rightarrow> heap \<Rightarrow> (nat option \<times> heap) option" where
  "add_operand t l cur h =
     (let (new, h) = create_node t l h in
      case cur of None \<Rightarrow> Some (Some new, h)
      | Some c \<Rightarrow>
          (case child_head (h ! c) of None \<Rightarrow> Some (Some new, set_parent new (Some c) (set_child c (Some new) h))
           | Some _ \<Rightarrow> do { (c, h) \<leftarrow> append_child c new h; Some (Some c, h) }))"

text \<open>An argument of a call that has been parsed is linked as the first child of the function or behind the argument before it.\<close>

definition add_argument :: "bool \<Rightarrow> nat option \<Rightarrow> nat option \<Rightarrow> heap \<Rightarrow> fault + (bool \<times> nat option \<times> heap)" where
  "add_argument fstart cur new h =
     (case new of None \<Rightarrow> Inr (fstart, cur, h)
      | Some n \<Rightarrow>
          (case cur of None \<Rightarrow> Inl NullPointer
           | Some c \<Rightarrow> Inr (False, Some n,
               if fstart then set_parent n (Some c) (set_child c (Some n) h) else set_prev n (Some c) (set_next c (Some n) h))))"

text \<open>
  \<open>make_tree\<close> with \<open>None\<close> is the loop of the function, with \<open>Some fstart\<close> the inner loop over the arguments of a call, which gives the last
  argument.
\<close>

partial_function (option) make_tree ::
  "bool option \<Rightarrow> string list \<Rightarrow> nat \<Rightarrow> int \<Rightarrow> nat option \<Rightarrow> heap \<Rightarrow> (fault + (nat option \<times> nat \<times> heap)) option" where
  "make_tree m tokens idx l cur h =
     (case m of
        None \<Rightarrow>
          (case token tokens idx of Inl e \<Rightarrow> Some (Inl e)
           | Inr t \<Rightarrow>
               if t = [] \<or> t = '')'' \<or> t = '','' then do { r \<leftarrow> get_root h cur; Some (Inr (r, idx, h)) }
               else if t = ''('' then
                 (if idx > 0 \<and> \<not> is_operator (tokens ! (idx - 1)) \<and> tokens ! (idx - 1) \<noteq> '','' then do {
                    a \<leftarrow> make_tree (Some True) tokens idx l cur h;
                    case a of Inl e \<Rightarrow> Some (Inl e)
                    | Inr (cur, idx, h) \<Rightarrow> make_tree None tokens (idx + 1) l cur h
                  }
                  else do {
                    a \<leftarrow> make_tree None tokens (idx + 1) (l + 1) None h;
                    case a of Inl e \<Rightarrow> Some (Inl e)
                    | Inr (new, idx, h) \<Rightarrow> do {
                        a \<leftarrow> add_group tokens idx cur new h;
                        case a of Inl e \<Rightarrow> Some (Inl e)
                        | Inr (cur, h) \<Rightarrow> make_tree None tokens (idx + 1) l cur h
                      }
                  })
               else do {
                 a \<leftarrow> (if is_operator t then if commutes t then add_commuting t l cur h else map_option Inr (add_operator t l cur h)
                       else map_option Inr (add_operand t l cur h));
                 case a of Inl e \<Rightarrow> Some (Inl e)
                 | Inr (cur, h) \<Rightarrow> make_tree None tokens (idx + 1) l cur h
               })
      | Some fstart \<Rightarrow>
          (case token tokens (idx + 1) of Inl e \<Rightarrow> Some (Inl e)
           | Inr t \<Rightarrow>
               if t = '')'' then Some (Inr (cur, idx + 1, h))
               else do {
                 a \<leftarrow> make_tree None tokens (idx + 1) (l + 1) None h;
                 case a of Inl e \<Rightarrow> Some (Inl e)
                 | Inr (new, idx, h) \<Rightarrow>
                     (case add_argument fstart cur new h of Inl e \<Rightarrow> Some (Inl e)
                      | Inr (fstart, cur, h) \<Rightarrow>
                          (case token tokens idx of Inl e \<Rightarrow> Some (Inl e)
                           | Inr t \<Rightarrow> if t = '')'' then Some (Inr (cur, idx, h)) else make_tree (Some fstart) tokens idx l cur h))
               }))"

subsection \<open>The tree in the heap\<close>

text \<open>The siblings from a node on, with all that is below them, are a list of trees.\<close>

inductive forest :: "heap \<Rightarrow> nat option \<Rightarrow> tnode list \<Rightarrow> bool" where
  forest_none: "forest h None []"
| forest_some: "i < length h \<Longrightarrow> forest h (child_head (h ! i)) ks \<Longrightarrow> forest h (nxt (h ! i)) ts \<Longrightarrow>
    forest h (Some i) (TNode (name (h ! i)) (level (h ! i)) ks # ts)"

text \<open>The node \<open>q\<close> of an operator with the operands \<open>xs\<close> at \<open>ps\<close>, as the parser keeps it while it reads operands.\<close>

definition chain :: "heap \<Rightarrow> string \<Rightarrow> nat \<Rightarrow> nat list \<Rightarrow> string list \<Rightarrow> bool" where
  "chain h t q ps xs \<longleftrightarrow> q < length h \<and> ps \<noteq> [] \<and> length ps = length xs \<and> q \<notin> set ps \<and>
     h ! q = \<lparr>name = t, level = 0, parent = None, child_head = Some (hd ps), prev = None, nxt = None\<rparr> \<and>
     (\<forall>k < length ps. ps ! k < length h \<and>
        h ! (ps ! k) = \<lparr>name = xs ! k, level = 0, parent = (if k = 0 then Some q else None), child_head = None,
          prev = (if k = 0 then None else Some (ps ! (k - 1))), nxt = (if Suc k < length ps then Some (ps ! Suc k) else None)\<rparr>)"

definition operand :: "string \<Rightarrow> bool" where
  "operand x \<longleftrightarrow> x \<noteq> [] \<and> x \<noteq> '','' \<and> \<not> is_operator x"

lemma chain_extend: "chain h t q ps xs \<Longrightarrow> chain (h @ hs) t q ps xs"
  by (auto simp: chain_def nth_append)

lemma chainD:
  assumes "chain h t q ps xs" "k < length ps"
  shows "name (h ! (ps ! k)) = xs ! k" "child_head (h ! (ps ! k)) = None"
    "parent (h ! (ps ! k)) = (if k = 0 then Some q else None)" "prev (h ! (ps ! k)) = (if k = 0 then None else Some (ps ! (k - 1)))"
    "nxt (h ! (ps ! k)) = (if Suc k < length ps then Some (ps ! Suc k) else None)"
  using assms by (auto simp: chain_def)

lemma chain_root:
  assumes "chain h t q ps xs"
  shows "name (h ! q) = t" "parent (h ! q) = None" "prev (h ! q) = None" "child_head (h ! q) = Some (hd ps)"
  using assms by (auto simp: chain_def)

lemma high_chain:
  assumes "chain h t q ps xs" "\<forall>x \<in> set xs. operand x" "k < length ps" "name (h ! new) = t"
  shows "get_high_precedence_node h (ps ! k) new = Some q"
  using assms(3)
proof (induction k)
  case 0
  have "\<not> is_operator (xs ! 0)" using assms(1,2) 0 by (auto simp: chain_def operand_def)
  then show ?case
    using chainD [OF assms(1) 0] chain_root [OF assms(1)] assms(4)
    by (subst get_high_precedence_node.simps) (simp, subst get_high_precedence_node.simps, simp)
next
  case (Suc k)
  have "\<not> is_operator (xs ! Suc k)" using assms(1,2) Suc.prems by (auto simp: chain_def operand_def)
  then show ?case
    using chainD [OF assms(1) Suc.prems] Suc assms(4) by (subst get_high_precedence_node.simps) simp
qed

lemma same_chain:
  assumes "chain h t q ps xs" "\<forall>x \<in> set xs. operand x" "k < length ps"
  shows "same_operator h t (ps ! k) = Some (hd ps)"
  using assms(3)
proof (induction k)
  case 0
  have "\<not> is_operator (xs ! 0)" using assms(1,2) 0 by (auto simp: chain_def operand_def)
  then show ?case
    using chainD [OF assms(1) 0] 0 by (subst same_operator.simps) (simp add: hd_conv_nth)
next
  case (Suc k)
  have "\<not> is_operator (xs ! Suc k)" using assms(1,2) Suc.prems by (auto simp: chain_def operand_def)
  then show ?case
    using chainD [OF assms(1) Suc.prems] Suc by (subst same_operator.simps) simp
qed

lemma last_chain:
  assumes "chain h t q ps xs" "k < length ps"
  shows "last_sibling h (ps ! k) = Some (last ps)"
  using assms(2)
proof (induction "length ps - k" arbitrary: k)
  case (Suc m)
  show ?case
  proof (cases "Suc k < length ps")
    case True
    then show ?thesis
      using chainD [OF assms(1) Suc.prems] Suc.hyps(1) [of "Suc k"] Suc.hyps(2) by (subst last_sibling.simps) simp
  next
    case False
    then have "ps ! k = last ps" using Suc.prems by (cases ps rule: rev_cases) (auto simp: nth_append)
    with False show ?thesis
      using chainD [OF assms(1) Suc.prems] by (subst last_sibling.simps) simp
  qed
qed simp

lemma root_chain:
  assumes "chain h t q ps xs" "k < length ps"
  shows "root_of h (ps ! k) = Some q"
  using assms(2)
proof (induction k)
  case 0
  then show ?case
    using chainD [OF assms(1) 0] chain_root [OF assms(1)] by (subst root_of.simps) (simp, subst root_of.simps, simp)
next
  case (Suc k)
  then show ?case using chainD [OF assms(1) Suc.prems] by (subst root_of.simps) simp
qed

lemma paren_operators: "is_operator ''(''" "is_operator '')''"
  by (simp_all add: is_operator_def operators_def)

lemma commutes_operator: "commutes t \<Longrightarrow> is_operator t \<and> t \<noteq> [] \<and> t \<noteq> '')'' \<and> t \<noteq> '','' \<and> t \<noteq> ''('' \<and> 0 < get_precedence t"
  unfolding commutes_def insert_iff empty_iff simp_thms
  by (elim disjE; simp add: is_operator_def operators_def get_precedence_def)

lemma operand_simps: "operand x \<Longrightarrow> x \<noteq> [] \<and> x \<noteq> '')'' \<and> x \<noteq> '','' \<and> x \<noteq> ''('' \<and> \<not> is_operator x"
  using paren_operators by (auto simp: operand_def)

lemma operand_precedence: "\<not> is_operator x \<Longrightarrow> get_precedence x = 0"
proof -
  assume "\<not> is_operator x"
  then have "find (\<lambda>(n, _). n = x) (drop 2 operators) = None"
    unfolding is_operator_def find_None_iff by (blast dest: in_set_dropD)
  then show ?thesis by (simp add: get_precedence_def)
qed

text \<open>The operator read again: the node of the operator becomes the current one; the node just allocated is dropped.\<close>

lemma chain_operator:
  assumes "chain h t q ps xs" "\<forall>x \<in> set xs. operand x" "commutes t"
  obtains h' where "add_commuting t 0 (Some (last ps)) h = Some (Inr (Some q, h'))" "chain h' t q ps xs"
proof -
  let ?h = "snd (create_node t 0 h)"
  have c: "chain ?h t q ps xs" using chain_extend [OF assms(1)] by (simp add: create_node_def)
  have "ps \<noteq> []" using assms(1) by (simp add: chain_def)
  then have k: "length ps - 1 < length ps" and last: "last ps = ps ! (length ps - 1)"
    by (simp_all add: last_conv_nth)
  have n: "name (?h ! length h) = t"
    by (simp add: create_node_def)
  have op: "\<not> is_operator (xs ! (length ps - 1))"
    using assms(1,2) k by (auto simp: chain_def operand_def)
  have g: "get_most_high_precedence_node ?h (last ps) (length h) = Some q"
    unfolding get_most_high_precedence_node_def last high_chain [OF c assms(2) k n]
    using chain_root [OF c] by (simp add: highest_from.simps)
  have s: "same_operator ?h t (last ps) = Some (hd ps)"
    unfolding last by (rule same_chain [OF c assms(2) k])
  have hd: "hd ps = ps ! 0" "0 < length ps" using assms(1) by (auto simp: chain_def hd_conv_nth)
  have "\<not> is_operator (xs ! 0)" using assms(1,2) hd(2) by (auto simp: chain_def operand_def)
  then have "name (?h ! hd ps) \<noteq> t" "parent (?h ! hd ps) = Some q"
    using chainD [OF c hd(2)] hd(1) commutes_operator [OF assms(3)] by auto
  then have "add_commuting t 0 (Some (last ps)) h = Some (Inr (Some q, ?h))"
    using chainD [OF assms(1) k] op g s chain_root [OF c] unfolding last [symmetric]
    by (simp add: add_commuting_def create_node_def)
  with c that show thesis by blast
qed

text \<open>An operand read after the operator is linked behind the last one.\<close>

lemma chain_operand:
  assumes "chain h t q ps xs"
  obtains h' where "add_operand x 0 (Some q) h = Some (Some (length h), h')" "chain h' t q (ps @ [length h]) (xs @ [x])"
proof -
  let ?h = "snd (create_node x 0 h)" and ?n = "length h"
  let ?h' = "set_prev ?n (Some (last ps)) (set_next (last ps) (Some ?n) ?h)"
  have c: "chain ?h t q ps xs" using chain_extend [OF assms] by (simp add: create_node_def)
  have ps: "hd ps = ps ! 0" "0 < length ps" "last ps = ps ! (length ps - 1)"
    using assms by (auto simp: chain_def hd_conv_nth last_conv_nth)
  have "get_last_child ?h q = Some (last ps)"
    using chain_root [OF c] last_chain [OF c ps(2)] ps(1) by (simp add: get_last_child_def)
  then have "add_operand x 0 (Some q) h = Some (Some ?n, ?h')"
    using chain_root [OF c] by (simp add: add_operand_def create_node_def append_child_def)
  moreover have "chain ?h' t q (ps @ [?n]) (xs @ [x])"
  proof -
    have bound: "\<And>k. k < length ps \<Longrightarrow> ps ! k < ?n" "q < ?n" "q \<notin> set ps" "last ps \<in> set ps"
      using assms by (auto simp: chain_def)
    have inj: "ps ! k = last ps \<longleftrightarrow> Suc k = length ps" if "k < length ps" for k
    proof
      assume "ps ! k = last ps"
      then have "nxt (h ! (ps ! k)) = None" using chainD(5) [OF assms, of "length ps - 1"] ps by simp
      then show "Suc k = length ps" using chainD(5) [OF assms that] that by (auto split: if_splits)
    next
      assume "Suc k = length ps"
      then have "length ps - 1 = k" by simp
      then show "ps ! k = last ps" using ps(3) by simp
    qed
    have l: "last ps < ?n" using bound(1) [of "length ps - 1"] ps by simp
    have h': "?h' ! i = (if i = ?n then \<lparr>name = x, level = 0, parent = None, child_head = None, prev = Some (last ps), nxt = None\<rparr>
        else if i = last ps then (h ! i)\<lparr>nxt := Some ?n\<rparr> else h ! i)" if "i \<le> ?n" for i
      using that l by (auto simp: setters create_node_def nth_append nth_list_update)
    have q: "?h' ! q = \<lparr>name = t, level = 0, parent = None, child_head = Some (hd (ps @ [?n])), prev = None, nxt = None\<rparr>"
      using h' [of q] bound assms ps(2) by (auto simp: chain_def)
    have old: "?h' ! (ps ! k) = \<lparr>name = xs ! k, level = 0, parent = (if k = 0 then Some q else None), child_head = None,
          prev = (if k = 0 then None else Some (ps ! (k - 1))), nxt = Some ((ps @ [?n]) ! Suc k)\<rparr>" if "k < length ps" for k
    proof -
      have "?h' ! (ps ! k) = (if Suc k = length ps then (h ! (ps ! k))\<lparr>nxt := Some ?n\<rparr> else h ! (ps ! k))"
        using h' [of "ps ! k"] bound(1) [OF that] inj [OF that] by simp
      moreover have "h ! (ps ! k) = \<lparr>name = xs ! k, level = 0, parent = (if k = 0 then Some q else None), child_head = None,
          prev = (if k = 0 then None else Some (ps ! (k - 1))), nxt = (if Suc k < length ps then Some (ps ! Suc k) else None)\<rparr>"
        using assms that by (simp add: chain_def)
      ultimately show ?thesis
        using that by (cases "Suc k = length ps") (auto simp: nth_append)
    qed
    have len: "length ?h' = Suc ?n" "length ps = length xs" using assms by (auto simp: setters create_node_def chain_def)
    have node: "?h' ! ((ps @ [?n]) ! k) = \<lparr>name = (xs @ [x]) ! k, level = 0, parent = (if k = 0 then Some q else None), child_head = None,
          prev = (if k = 0 then None else Some ((ps @ [?n]) ! (k - 1))), nxt = (if Suc k < length (ps @ [?n]) then Some ((ps @ [?n]) ! Suc k) else None)\<rparr>"
      if "k < length (ps @ [?n])" for k
    proof (cases "k < length ps")
      case True
      then show ?thesis using old [OF True] len(2) by (simp add: nth_append less_imp_diff_less)
    next
      case False
      then have "k = length ps" using that by simp
      then show ?thesis using h' [of ?n] ps len(2) by (simp add: nth_append)
    qed
    show ?thesis
      unfolding chain_def using q node bound len by (auto simp: nth_append intro: less_SucI)
  qed
  ultimately show thesis using that by blast
qed

lemma forest_leaf: "i < length h \<Longrightarrow> child_head (h ! i) = None \<Longrightarrow> forest h (nxt (h ! i)) ts \<Longrightarrow>
    forest h (Some i) (TNode (name (h ! i)) (level (h ! i)) [] # ts)"
  using forest_some forest_none by metis

lemma chain_forest:
  assumes "chain h t q ps xs"
  shows "forest h (Some q) [TNode t 0 (map (\<lambda>x. TNode x 0 []) xs)]"
proof -
  have from_k: "forest h (Some (ps ! k)) (map (\<lambda>x. TNode x 0 []) (drop k xs))" if "k < length ps" for k
    using that
  proof (induction "length ps - k" arbitrary: k)
    case (Suc m)
    have n: "nxt (h ! (ps ! k)) = (if Suc k < length ps then Some (ps ! Suc k) else None)" "name (h ! (ps ! k)) = xs ! k"
      "level (h ! (ps ! k)) = 0" "child_head (h ! (ps ! k)) = None" "ps ! k < length h" "length xs = length ps"
      using assms Suc.prems by (auto simp: chain_def)
    have "forest h (nxt (h ! (ps ! k))) (map (\<lambda>x. TNode x 0 []) (drop (Suc k) xs))"
      using Suc.hyps(1) [of "Suc k"] Suc.hyps(2) n by (auto intro: forest_none)
    then have "forest h (Some (ps ! k)) (TNode (xs ! k) 0 [] # map (\<lambda>x. TNode x 0 []) (drop (Suc k) xs))"
      using forest_leaf [OF n(5,4)] n by metis
    then show ?case
      using Suc.prems n(6) by (simp add: Cons_nth_drop_Suc [symmetric])
  qed simp
  have q: "q < length h" "name (h ! q) = t" "level (h ! q) = 0" "nxt (h ! q) = None" "child_head (h ! q) = Some (ps ! 0)" "0 < length ps"
    using assms by (auto simp: chain_def hd_conv_nth)
  have "forest h (child_head (h ! q)) (map (\<lambda>x. TNode x 0 []) xs)"
    using from_k [OF q(6)] q(5) by simp
  then show ?thesis
    using forest_some [OF q(1), of _ "[]"] q forest_none by metis
qed

lemma forest_unique: "forest h p ts \<Longrightarrow> forest h p us \<Longrightarrow> ts = us"
proof (induction arbitrary: us rule: forest.induct)
  case (forest_none h)
  then show ?case by (auto elim: forest.cases)
next
  case (forest_some i h ks ts)
  from forest_some.prems show ?case
    by (cases rule: forest.cases) (use forest_some.IH in auto)
qed

subsection \<open>Parsing a chain of operands\<close>

definition pairs :: "string \<Rightarrow> string list \<Rightarrow> string list" where
  "pairs t ys = concat (map (\<lambda>y. [t, y]) ys)"

lemma pairs_simps [simp]: "pairs t [] = []" "pairs t (y # ys) = t # y # pairs t ys" "length (pairs t ys) = 2 * length ys"
  by (induction ys) (auto simp: pairs_def)

text \<open>The array of tokens of \<open>x t y t ... t z\<close>.\<close>

definition tokens_of :: "string \<Rightarrow> string list \<Rightarrow> string list" where
  "tokens_of t xs = hd xs # pairs t (tl xs) @ replicate (TOKEN_CNT - (2 * length xs - 1)) []"

lemma token_drop: "drop idx tokens = a # rest \<Longrightarrow> token tokens idx = Inr a"
  by (metis token_def nth_via_drop drop_eq_Nil2 linorder_not_le list.distinct(1))

lemma drop_Suc_of: "drop idx tokens = a # rest \<Longrightarrow> drop (Suc idx) tokens = rest"
  by (metis drop_Suc list.sel(3) tl_drop)

lemma read_operand:
  "token tokens idx = Inr x \<Longrightarrow> operand x \<Longrightarrow> add_operand x l cur h = Some (cur', h') \<Longrightarrow>
   make_tree None tokens idx l cur h = make_tree None tokens (Suc idx) l cur' h'"
  using operand_simps [of x] by (subst make_tree.simps) simp

lemma read_operator:
  "token tokens idx = Inr t \<Longrightarrow> commutes t \<Longrightarrow> add_commuting t l cur h = Some (Inr (cur', h')) \<Longrightarrow>
   make_tree None tokens idx l cur h = make_tree None tokens (Suc idx) l cur' h'"
  using commutes_operator [of t] by (subst make_tree.simps) simp

lemma read_chain:
  assumes "chain h t q ps xs" "commutes t" "\<forall>x \<in> set (xs @ ys). operand x" "drop idx tokens = pairs t ys @ [] # rest"
  shows "\<exists>ps' h'. make_tree None tokens idx 0 (Some (last ps)) h = Some (Inr (Some q, idx + 2 * length ys, h')) \<and> chain h' t q ps' (xs @ ys)"
  using assms(1,3,4)
proof (induction ys arbitrary: h ps xs idx)
  case Nil
  have "ps \<noteq> []" using Nil.prems(1) by (simp add: chain_def)
  then have "root_of h (last ps) = Some q"
    using root_chain [OF Nil.prems(1), of "length ps - 1"] by (simp add: last_conv_nth)
  moreover have "token tokens idx = Inr []" using token_drop Nil.prems(3) by simp
  ultimately show ?case
    using Nil.prems(1) by (subst make_tree.simps) (auto simp: get_root_def)
next
  case (Cons y ys)
  have xs: "\<forall>x \<in> set xs. operand x" using Cons.prems(2) by simp
  from chain_operator [OF Cons.prems(1) xs assms(2)] obtain h1 where
    h1: "add_commuting t 0 (Some (last ps)) h = Some (Inr (Some q, h1))" "chain h1 t q ps xs" .
  from chain_operand [OF h1(2), of y] obtain h2 where
    h2: "add_operand y 0 (Some q) h1 = Some (Some (length h1), h2)" "chain h2 t q (ps @ [length h1]) (xs @ [y])" .
  have tok: "drop idx tokens = t # y # pairs t ys @ [] # rest" using Cons.prems(3) by simp
  have "make_tree None tokens idx 0 (Some (last ps)) h = make_tree None tokens (Suc idx) 0 (Some q) h1"
    by (rule read_operator [OF token_drop [OF tok] assms(2) h1(1)])
  also have "\<dots> = make_tree None tokens (Suc (Suc idx)) 0 (Some (length h1)) h2"
    by (rule read_operand [OF token_drop [OF drop_Suc_of [OF tok]] _ h2(1)]) (use Cons.prems(2) in simp)
  finally show ?case
    using Cons.IH [OF h2(2), of "Suc (Suc idx)"] Cons.prems(2) drop_Suc_of [OF drop_Suc_of [OF tok]] by simp
qed

lemma first_operator:
  assumes "operand x" "commutes t"
  obtains h where "add_operand x 0 None [] = Some (Some 0, h)"
    "\<exists>h'. add_commuting t 0 (Some 0) h = Some (Inr (Some 1, h')) \<and> chain h' t 1 [0] [x]"
proof
  let ?n = "\<lparr>name = x, level = 0, parent = None, child_head = None, prev = None, nxt = None\<rparr>"
  let ?h = "snd (create_node t 0 [?n])"
  show "add_operand x 0 None [] = Some (Some 0, [?n])"
    by (simp add: add_operand_def create_node_def)
  have x: "\<not> is_operator x" "get_precedence x = 0" "0 < get_precedence t" "is_operator t"
    using operand_simps [OF assms(1)] operand_precedence commutes_operator [OF assms(2)] by auto
  have "get_most_high_precedence_node ?h 0 1 = Some 0"
    using x unfolding get_most_high_precedence_node_def
    by (subst get_high_precedence_node.simps) (simp add: create_node_def highest_from.simps)
  then have "add_commuting t 0 (Some 0) [?n] = Some (Inr (Some 1, insert_node 0 1 ?h))"
    using x by (auto simp: add_commuting_def create_node_def)
  moreover have "chain (insert_node 0 1 ?h) t 1 [0] [x]"
    by (simp add: chain_def insert_node_def create_node_def setters Let_def)
  ultimately show "\<exists>h'. add_commuting t 0 (Some 0) [?n] = Some (Inr (Some 1, h')) \<and> chain h' t 1 [0] [x]" by blast
qed

lemma parse_chain:
  assumes "commutes t" "\<forall>x \<in> set xs. operand x" "2 \<le> length xs" "length xs \<le> 25"
  shows "\<exists>q idx h. make_tree None (tokens_of t xs) 0 0 None [] = Some (Inr (Some q, idx, h)) \<and>
    forest h (Some q) [TNode t 0 (map (\<lambda>x. TNode x 0 []) xs)]"
proof -
  obtain x y ys where xs: "xs = x # y # ys"
    using assms(3) by (cases xs; cases "tl xs") auto
  have op: "operand x" "operand y" using assms(2) xs by auto
  from first_operator [OF op(1) assms(1)] obtain h0 h1 where h:
    "add_operand x 0 None [] = Some (Some 0, h0)" "add_commuting t 0 (Some 0) h0 = Some (Inr (Some 1, h1))" "chain h1 t 1 [0] [x]" by blast
  from chain_operand [OF h(3), of y] obtain h2 where
    h2: "add_operand y 0 (Some 1) h1 = Some (Some (length h1), h2)" "chain h2 t 1 ([0] @ [length h1]) ([x] @ [y])" .
  obtain k where k: "TOKEN_CNT - (2 * length xs - 1) = Suc k"
    using assms(4) by (cases "TOKEN_CNT - (2 * length xs - 1)") (auto simp: xs)
  have tok: "drop 0 (tokens_of t xs) = x # t # y # pairs t ys @ [] # replicate k []"
    unfolding tokens_of_def k by (simp add: xs)
  have "make_tree None (tokens_of t xs) 0 0 None [] = make_tree None (tokens_of t xs) (Suc 0) 0 (Some 0) h0"
    by (rule read_operand [OF token_drop [OF tok] op(1) h(1)])
  also have "\<dots> = make_tree None (tokens_of t xs) (Suc (Suc 0)) 0 (Some 1) h1"
    by (rule read_operator [OF token_drop [OF drop_Suc_of [OF tok]] assms(1) h(2)])
  also have "\<dots> = make_tree None (tokens_of t xs) (Suc (Suc (Suc 0))) 0 (Some (length h1)) h2"
    by (rule read_operand [OF token_drop [OF drop_Suc_of [OF drop_Suc_of [OF tok]]] op(2) h2(1)])
  finally show ?thesis
    using read_chain [OF h2(2) assms(1), of ys "Suc (Suc (Suc 0))" "tokens_of t xs" "replicate k []"] assms(2)
      drop_Suc_of [OF drop_Suc_of [OF drop_Suc_of [OF tok]]] chain_forest xs by fastforce
qed

lemma leaf_no_rewrite: "operand x \<Longrightarrow> no_rewrite (TNode x 0 [])"
  by (auto simp: operand_def relational_def equality_def is_operator_def operators_def)

text \<open>
  C20: parsing and comparing together.  For an operator of \<^verbatim>\<open>+ * | & || &&\<close> and up to 25 operands, the parser turns the tokens of the
  expression into a tree in the heap with all operands, in their order, under one node of the operator, and the answer is accepted for the
  model answer with the same operands in any other order.
\<close>

theorem blank_answer_any_order:
  assumes "commutes t" "\<forall>x \<in> set xs. operand x" "2 \<le> length xs" "length xs \<le> 25" "mset ys = mset xs"
  shows "\<exists>q idx h q' idx' h' student answer.
    make_tree None (tokens_of t xs) 0 0 None [] = Some (Inr (Some q, idx, h)) \<and> forest h (Some q) [student] \<and>
    make_tree None (tokens_of t ys) 0 0 None [] = Some (Inr (Some q', idx', h')) \<and> forest h' (Some q') [answer] \<and>
    student = TNode t 0 (map (\<lambda>x. TNode x 0 []) xs) \<and>
    compare_tree None [student] 0 [answer] 0 True = Some (True, [answer])"
proof -
  let ?T = "\<lambda>xs. TNode t 0 (map (\<lambda>x. TNode x 0 []) xs)"
  have ys: "set ys = set xs" "length ys = length xs"
    using mset_eq_setD [OF assms(5)] mset_eq_length [OF assms(5)] by auto
  have "no_rewrite (?T xs)"
    using assms(1,2) leaf_no_rewrite by (auto simp: commutes_def relational_def equality_def)
  moreover have "matches (?T xs) (?T ys)"
    using assms(1) ys by auto
  ultimately have "compare_tree None [?T xs] 0 [?T ys] 0 True = Some (True, [?T ys])"
    using compare_tree_decides [of "[?T xs]" 0 0 "[?T ys]" None] by (simp add: tail_matches_def del: matches.simps no_rewrite.simps)
  then show ?thesis
    using parse_chain [OF assms(1-4)] parse_chain [of t ys] assms(1-4) ys by metis
qed

theorem blank_answer_any_order_witness:
  "\<exists>q idx h q' idx' h' student answer.
    make_tree None (tokens_of ''&&'' [''a'', ''b'', ''c'']) 0 0 None [] = Some (Inr (Some q, idx, h)) \<and> forest h (Some q) [student] \<and>
    make_tree None (tokens_of ''&&'' [''c'', ''a'', ''b'']) 0 0 None [] = Some (Inr (Some q', idx', h')) \<and> forest h' (Some q') [answer] \<and>
    student = TNode ''&&'' 0 (map (\<lambda>x. TNode x 0 []) [''a'', ''b'', ''c'']) \<and>
    compare_tree None [student] 0 [answer] 0 True = Some (True, [answer])"
  by (rule blank_answer_any_order) (auto simp: commutes_def operand_def is_operator_def operators_def)

subsection \<open>A call that is not closed\<close>

lemma call_runs_on:
  assumes "length tokens = TOKEN_CNT" "\<forall>i. idx < i \<and> i < TOKEN_CNT \<longrightarrow> tokens ! i = []"
  shows "make_tree (Some fstart) tokens idx l cur h = Some (Inl TokenOutside)"
  using assms(2)
proof (induction "TOKEN_CNT - idx" arbitrary: idx)
  case 0
  then show ?case using assms(1) by (subst make_tree.simps) (simp add: token_def)
next
  case (Suc m)
  show ?case
  proof (cases "Suc idx < TOKEN_CNT")
    case True
    then have tok: "token tokens (Suc idx) = Inr []" using Suc.prems assms(1) by (simp add: token_def)
    have "make_tree None tokens (Suc idx) (l + 1) None h = Some (Inr (None, Suc idx, h))"
      using tok by (subst make_tree.simps) (simp add: get_root_def)
    moreover have "make_tree (Some fstart) tokens (Suc idx) l cur h = Some (Inl TokenOutside)"
      using Suc.hyps(1) [of "Suc idx"] Suc.hyps(2) Suc.prems by auto
    ultimately show ?thesis
      using tok by (subst make_tree.simps) (simp add: add_argument_def)
  next
    case False
    then show ?thesis using assms(1) by (subst make_tree.simps) (simp add: token_def)
  qed
qed

fun commas :: "string list \<Rightarrow> string list" where
  "commas [] = []"
| "commas [x] = [x]"
| "commas (x # xs) = x # '','' # commas xs"

text \<open>One argument of a call.\<close>

lemma read_argument:
  assumes "drop (Suc idx) tokens = x # y # rest" "operand x" "y = '','' \<or> y = []"
  shows "\<exists>c' h'. make_tree (Some fstart) tokens idx l (Some c) h = make_tree (Some False) tokens (idx + 2) l (Some c') h'"
proof -
  let ?n = "\<lparr>name = x, level = l + 1, parent = None, child_head = None, prev = None, nxt = None\<rparr>"
  have tok: "token tokens (Suc idx) = Inr x" "token tokens (Suc (Suc idx)) = Inr y"
    using token_drop [OF assms(1)] token_drop [OF drop_Suc_of [OF assms(1)]] by simp_all
  have y: "y = [] \<or> y = '','' " "y \<noteq> '')''" using assms(3) by auto
  have "make_tree None tokens (Suc idx) (l + 1) None h = make_tree None tokens (Suc (Suc idx)) (l + 1) (Some (length h)) (h @ [?n])"
    by (rule read_operand [OF tok(1) assms(2)]) (simp add: add_operand_def create_node_def)
  also have "\<dots> = Some (Inr (Some (length h), Suc (Suc idx), h @ [?n]))"
    using tok(2) y by (subst make_tree.simps) (simp add: get_root_def root_of.simps)
  finally have arg: "make_tree None tokens (Suc idx) (l + 1) None h = Some (Inr (Some (length h), Suc (Suc idx), h @ [?n]))" .
  let ?h' = "if fstart then set_parent (length h) (Some c) (set_child c (Some (length h)) (h @ [?n]))
    else set_prev (length h) (Some c) (set_next c (Some (length h)) (h @ [?n]))"
  have "make_tree (Some fstart) tokens idx l (Some c) h = make_tree (Some False) tokens (idx + 2) l (Some (length h)) ?h'"
    using tok arg y(2) operand_simps [OF assms(2)] by (subst make_tree.simps) (simp add: add_argument_def)
  then show ?thesis by blast
qed

lemma blanks_run_on:
  assumes "length tokens = TOKEN_CNT" "drop (Suc idx) tokens = replicate k []"
  shows "make_tree (Some fstart) tokens idx l cur h = Some (Inl TokenOutside)"
proof (rule call_runs_on [OF assms(1)], intro allI impI)
  fix i
  assume "idx < i \<and> i < TOKEN_CNT"
  then have "tokens ! i = drop (Suc idx) tokens ! (i - Suc idx)" "i - Suc idx < length (drop (Suc idx) tokens)"
    using assms(1) by auto
  then show "tokens ! i = []" unfolding assms(2) by simp
qed

lemma arguments_run_on:
  assumes "length tokens = TOKEN_CNT" "\<forall>x \<in> set xs. operand x" "drop (Suc idx) tokens = commas xs @ replicate (Suc k) []"
  shows "make_tree (Some fstart) tokens idx l (Some c) h = Some (Inl TokenOutside)"
  using assms(2,3)
proof (induction xs arbitrary: idx fstart c h rule: commas.induct)
  case 1
  then show ?case using blanks_run_on [OF assms(1), of idx "Suc k"] by simp
next
  case (2 x)
  then have d: "drop (Suc idx) tokens = x # [] # replicate k []" by simp
  have "drop (Suc (idx + 2)) tokens = replicate k []" using drop_Suc_of [OF drop_Suc_of [OF d]] by simp
  then show ?case
    using read_argument [OF d, of fstart l c h] 2(1) blanks_run_on [OF assms(1), of "idx + 2" k] by auto
next
  case (3 x y ys)
  then have d: "drop (Suc idx) tokens = x # '','' # commas (y # ys) @ replicate (Suc k) []" by simp
  have "drop (Suc (idx + 2)) tokens = commas (y # ys) @ replicate (Suc k) []"
    using drop_Suc_of [OF drop_Suc_of [OF d]] by simp
  then show ?case
    using read_argument [OF d, of fstart l c h] 3 by auto
qed

text \<open>
  C37: the parser of a call whose parenthesis is not closed reads on behind the array of tokens: whatever the number of arguments that the array
  has room for, the outcome is the read outside of the array, not an end of the parsing.  The test that comes before it counts all
  brackets of the answer, so that it lets \<^verbatim>\<open>f(")"\<close> pass, whose closing bracket is inside a string and so inside a token.
\<close>

theorem unclosed_call_overruns:
  assumes "operand f" "\<forall>x \<in> set xs. operand x" "length (commas xs) < 48"
  shows "make_tree None (f # ''('' # commas xs @ replicate (48 - length (commas xs)) []) 0 0 None [] = Some (Inl TokenOutside)"
proof -
  let ?ts = "f # ''('' # commas xs @ replicate (48 - length (commas xs)) []"
  let ?n = "\<lparr>name = f, level = 0, parent = None, child_head = None, prev = None, nxt = None\<rparr>"
  obtain k where k: "48 - length (commas xs) = Suc k" using assms(3) by (cases "48 - length (commas xs)") auto
  have tok: "token ?ts 0 = Inr f" "token ?ts (Suc 0) = Inr ''(''" by (simp_all add: token_def)
  have "make_tree None ?ts 0 0 None [] = make_tree None ?ts (Suc 0) 0 (Some 0) [?n]"
    by (rule read_operand [OF tok(1) assms(1)]) (simp add: add_operand_def create_node_def)
  moreover have "length ?ts = TOKEN_CNT" "drop (Suc (Suc 0)) ?ts = commas xs @ replicate (Suc k) []"
    using assms(3) k by simp_all
  then have "make_tree (Some True) ?ts (Suc 0) 0 (Some 0) [?n] = Some (Inl TokenOutside)"
    by (rule arguments_run_on [OF _ assms(2)])
  then have "make_tree None ?ts (Suc 0) 0 (Some 0) [?n] = Some (Inl TokenOutside)"
    using tok(2) operand_simps [OF assms(1)] by (subst make_tree.simps) simp
  ultimately show ?thesis by simp
qed

theorem unclosed_call_overruns_witness:
  "make_tree None ([''f'', ''('', ''a'', '','', [CHR 0x22, CHR '')'', CHR 0x22]] @ replicate 45 []) 0 0 None [] = Some (Inl TokenOutside)"
  using unclosed_call_overruns [of "''f''" "[''a'', [CHR 0x22, CHR '')'', CHR 0x22]]"]
  by (simp add: operand_def is_operator_def operators_def)

end
