(* ===== verification/Score_Grade.thy ===== *)
theory Score_Grade
  imports Complex_Main Prelude
begin

text \<open>
  The parts of the grading program (\<^verbatim>\<open>ssu_score/ssu_score.c\<close>) that do not touch the host system: the command line, the score table,
  the comparison of program output and the sorting of the result list.

  A linked list of the source is a list, a pointer into it an index.  A string is a \<^typ>\<open>string\<close> without its terminator.
  A C \<^verbatim>\<open>double\<close> is \<open>NaN\<close> or a number of a linear order; every comparison with \<open>NaN\<close> is false.  The library function
  \<^verbatim>\<open>strtod\<close> and the format \<^verbatim>\<open>%.2f\<close> are parameters of what uses them.  Messages are values of an error type; of the output to the terminal only
  the warning of the option parser is kept.
\<close>

subsection \<open>Strings\<close>

text \<open>Only the sign of the result of \<^verbatim>\<open>strcmp\<close> is used.\<close>

fun strcmp :: "string \<Rightarrow> string \<Rightarrow> int" where
  "strcmp [] [] = 0"
| "strcmp [] (_ # _) = -1"
| "strcmp (_ # _) [] = 1"
| "strcmp (a # as) (b # bs) = (if a < b then -1 else if b < a then 1 else strcmp as bs)"

definition has_suffix :: "string \<Rightarrow> string \<Rightarrow> bool" where
  "has_suffix t s \<longleftrightarrow> length t \<ge> length s \<and> strcmp (drop (length t - length s) t) s = 0"

definition isspace :: "char \<Rightarrow> bool" where
  "isspace c \<longleftrightarrow> of_char c = (32 :: nat) \<or> 9 \<le> (of_char c :: nat) \<and> of_char c \<le> (13 :: nat)"

definition tolower :: "char \<Rightarrow> char" where
  "tolower c = (if 65 \<le> (of_char c :: nat) \<and> of_char c \<le> (90 :: nat) then char_of (of_char c + 32 :: nat) else c)"


definition invalid_csv_field :: "string \<Rightarrow> bool" where
  "invalid_csv_field t \<longleftrightarrow> CHR '','' \<in> set t \<or> CHR 0x0A \<in> set t \<or> CHR 0x0D \<in> set t"



lemma strcmp_zero [simp]: "strcmp a b = 0 \<longleftrightarrow> a = b"
  by (induction a b rule: strcmp.induct) (auto simp: not_less_iff_gr_or_eq)

lemma strcmp_anti: "strcmp b a = - strcmp a b"
  by (induction a b rule: strcmp.induct) auto

lemma strcmp_trans: "strcmp a b \<le> 0 \<Longrightarrow> strcmp b c \<le> 0 \<Longrightarrow> strcmp a c \<le> 0"
proof (induction a b arbitrary: c rule: strcmp.induct)
  case (4 a as b bs)
  then show ?case by (cases c) (auto split: if_splits)
next
  case (2 b bs)
  then show ?case by (cases c) auto
qed auto

subsection \<open>Comparison of program output\<close>

text \<open>A file is the list of the bytes not yet read.\<close>

fun next_significant :: "string \<Rightarrow> char option \<times> string" where
  "next_significant [] = (None, [])"
| "next_significant (c # cs) = (if \<not> isspace c then (Some (tolower c), cs) else next_significant cs)"

lemma next_significant_shorter: "(Some c, f') = next_significant f \<Longrightarrow> length f' < length f"
  by (induction f rule: next_significant.induct) (auto split: if_splits)

function output_loop :: "string \<Rightarrow> string \<Rightarrow> bool" where
  "output_loop student answer =
     (let (left, student') = next_significant student; (right, answer') = next_significant answer in
      if left \<noteq> right then False
      else if left = None then True
      else output_loop student' answer')"
  by pat_completeness auto
termination
  by (relation "measure (length \<circ> fst)") (auto dest: next_significant_shorter)

declare output_loop.simps [simp del]

text \<open>A file that cannot be opened is \<open>None\<close>.\<close>

definition output_matches :: "string option \<Rightarrow> string option \<Rightarrow> bool" where
  "output_matches student answer =
     (case (student, answer) of (Some s, Some a) \<Rightarrow> output_loop s a | _ \<Rightarrow> False)"

definition significant :: "string \<Rightarrow> string" where
  "significant f = map tolower (filter (\<lambda>c. \<not> isspace c) f)"

lemma significant_next:
  "significant f = (case next_significant f of (None, _) \<Rightarrow> [] | (Some c, f') \<Rightarrow> c # significant f')"
  by (induction f rule: next_significant.induct) (auto simp: significant_def split: prod.splits option.splits)

lemma output_loop_significant: "output_loop s a \<longleftrightarrow> significant s = significant a"
proof (induction s a rule: output_loop.induct)
  case (1 s a)
  then show ?case
    by (subst output_loop.simps) (auto simp: significant_next [of s] significant_next [of a] split: prod.splits option.splits)
qed

text \<open>
  The output of a program is accepted exactly when it has the characters of the model output, up to the case of letters and
  up to white space anywhere; the comparison ends on all files, and a file that cannot be opened is never accepted.
\<close>

theorem output_matches_iff:
  "output_matches student answer \<longleftrightarrow>
     (\<exists>s a. student = Some s \<and> answer = Some a \<and>
       map tolower (filter (\<lambda>c. \<not> isspace c) s) = map tolower (filter (\<lambda>c. \<not> isspace c) a))"
  by (auto simp: output_matches_def output_loop_significant significant_def split: option.splits)

subsection \<open>Sorting the students\<close>

datatype 'd double = NaN | Num 'd

fun lt :: "'d::linorder double \<Rightarrow> 'd double \<Rightarrow> bool" where
  "lt (Num a) (Num b) \<longleftrightarrow> a < b"
| "lt _ _ \<longleftrightarrow> False"

datatype QuestionType = QUESTION_BLANK | QUESTION_PROGRAM

record 'd Question =
  qname :: string
  stem :: string
  qtype :: QuestionType
  score :: 'd

record 'd Student =
  sid :: string
  scores :: "'d double list"
  total :: "'d double"
  wrong :: "nat list"

record Options =
  modify_scores :: bool
  print_scores :: bool
  print_wrong :: bool
  thread_all :: bool
  sort_enabled :: bool
  error_enabled :: bool
  output_name :: "string option"
  error_name :: "string option"
  sort_key :: string
  sort_direction :: int
  display_ids :: "string list"
  thread_questions :: "string list"

definition compare_students :: "Options \<Rightarrow> 'd::linorder Student \<Rightarrow> 'd Student \<Rightarrow> int" where
  "compare_students opts left right =
     (let comparison =
        (if strcmp (sort_key opts) ''score'' = 0 then
           (if lt (total left) (total right) then -1
            else if lt (total right) (total left) then 1
            else strcmp (sid left) (sid right))
         else strcmp (sid left) (sid right))
      in if sort_direction opts = 1 then comparison else - comparison)"

fun merge_students :: "Options \<Rightarrow> 'd::linorder Student list \<Rightarrow> 'd Student list \<Rightarrow> 'd Student list" where
  "merge_students opts (l # left) (r # right) =
     (if compare_students opts l r \<le> 0 then l # merge_students opts left (r # right)
      else r # merge_students opts (l # left) right)"
| "merge_students opts [] right = right"
| "merge_students opts left [] = left"

text \<open>How many nodes the slow pointer is past the head when the fast pointer, two nodes at a time, has come to the end.\<close>

fun slow :: "'a list \<Rightarrow> nat" where
  "slow (_ # _ # fast) = Suc (slow fast)"
| "slow _ = 0"

lemma slow_half: "slow fast = length fast div 2"
  by (induction fast rule: slow.induct) auto

function sort_student_list :: "Options \<Rightarrow> 'd::linorder Student list \<Rightarrow> 'd Student list" where
  "sort_student_list opts head =
     (if length head \<le> 1 then head
      else let k = Suc (slow (tl head)) in
        merge_students opts (sort_student_list opts (take k head)) (sort_student_list opts (drop k head)))"
  by pat_completeness auto
termination
  by (relation "measure (length \<circ> snd)") (auto simp: slow_half)

declare sort_student_list.simps [simp del]

lemma merge_students_Nil [simp]: "merge_students opts left [] = left"
  by (cases left) auto

lemma mset_merge_students [simp]: "mset (merge_students opts l r) = mset l + mset r"
  by (induction opts l r rule: merge_students.induct) auto

lemma set_merge_students [simp]: "set (merge_students opts l r) = set l \<union> set r"
  by (metis mset_merge_students set_mset_mset set_mset_union)

lemma mset_sort_student_list [simp]: "mset (sort_student_list opts xs) = mset xs"
proof (induction opts xs rule: sort_student_list.induct)
  case (1 opts head)
  then show ?case
    by (subst sort_student_list.simps) (simp add: Let_def flip: mset_append)
qed

lemma set_sort_student_list [simp]: "set (sort_student_list opts xs) = set xs"
  by (metis mset_sort_student_list set_mset_mset)

lemma merge_induct [case_names both left right]:
  assumes "\<And>l left r right. P left (r # right) \<Longrightarrow> P (l # left) right \<Longrightarrow> P (l # left) (r # right)"
    and "\<And>right. P [] right" "\<And>left. P left []"
  shows "P l r"
proof (induction l arbitrary: r)
  case (Cons x l)
  then show ?case by (induction r) (auto intro: assms)
qed (rule assms)

text \<open>
  What the sort needs of the comparison: on the students of \<open>S\<close> it is total and transitive.
\<close>

locale student_order =
  fixes opts :: Options and S :: "'d::linorder Student set"
  assumes total_on: "x \<in> S \<Longrightarrow> y \<in> S \<Longrightarrow> \<not> compare_students opts x y \<le> 0 \<Longrightarrow> compare_students opts y x \<le> 0"
    and trans_on: "x \<in> S \<Longrightarrow> y \<in> S \<Longrightarrow> z \<in> S \<Longrightarrow> compare_students opts x y \<le> 0 \<Longrightarrow> compare_students opts y z \<le> 0 \<Longrightarrow>
      compare_students opts x z \<le> 0"
begin

lemma sorted_merge:
  "set l \<subseteq> S \<Longrightarrow> set r \<subseteq> S \<Longrightarrow> sorted_wrt (\<lambda>x y. compare_students opts x y \<le> 0) l \<Longrightarrow>
   sorted_wrt (\<lambda>x y. compare_students opts x y \<le> 0) r \<Longrightarrow>
   sorted_wrt (\<lambda>x y. compare_students opts x y \<le> 0) (merge_students opts l r)"
proof (induction l r rule: merge_induct)
  case (both l left r right)
  then show ?case
    using total_on [of l r] by (auto intro: trans_on)
qed auto

lemma sorted_sort:
  "set xs \<subseteq> S \<Longrightarrow> sorted_wrt (\<lambda>x y. compare_students opts x y \<le> 0) (sort_student_list opts xs)"
proof (induction "length xs" arbitrary: xs rule: less_induct)
  case less
  show ?case
  proof (cases "length xs \<le> 1")
    case True
    then show ?thesis by (subst sort_student_list.simps, cases xs) auto
  next
    case False
    let ?k = "Suc (slow (tl xs))"
    have "?k < length xs" "0 < ?k" using False by (auto simp: slow_half)
    have sub: "set (take ?k xs) \<subseteq> S" "set (drop ?k xs) \<subseteq> S"
      using less.prems set_take_subset set_drop_subset by fast+
    then have "sorted_wrt (\<lambda>x y. compare_students opts x y \<le> 0) (sort_student_list opts (take ?k xs))"
      "sorted_wrt (\<lambda>x y. compare_students opts x y \<le> 0) (sort_student_list opts (drop ?k xs))"
      using sub \<open>?k < length xs\<close> by (auto intro!: less.hyps)
    then show ?thesis
      using sub False by (subst sort_student_list.simps) (simp add: Let_def sorted_merge)
  qed
qed

end

definition comparable :: "Options \<Rightarrow> 'd::linorder Student \<Rightarrow> bool" where
  "comparable opts s \<longleftrightarrow> sort_key opts = ''score'' \<longrightarrow> total s \<noteq> NaN"

definition ascending :: "Options \<Rightarrow> 'd::linorder Student \<Rightarrow> 'd Student \<Rightarrow> int" where
  "ascending opts l r = compare_students (opts\<lparr>sort_direction := 1\<rparr>) l r"

lemma compare_ascending:
  "compare_students opts l r \<le> 0 \<longleftrightarrow> (if sort_direction opts = 1 then ascending opts l r \<le> 0 else ascending opts r l \<le> 0)"
  by (cases "total l"; cases "total r") (auto simp: compare_students_def ascending_def Let_def strcmp_anti [of "sid r"])

lemma ascending_total: "\<not> ascending opts l r \<le> 0 \<Longrightarrow> ascending opts r l \<le> 0"
  by (cases "total l"; cases "total r") (auto simp: compare_students_def ascending_def strcmp_anti [of "sid r"] split: if_splits)

lemma ascending_trans:
  assumes "comparable opts x" "comparable opts y" "comparable opts z" "ascending opts x y \<le> 0" "ascending opts y z \<le> 0"
  shows "ascending opts x z \<le> 0"
  using assms strcmp_trans [of "sid x" "sid y" "sid z"]
  by (cases "total x"; cases "total y"; cases "total z")
    (auto simp: compare_students_def ascending_def comparable_def split: if_splits)

interpretation st: student_order opts "{s. comparable opts s}" for opts
proof
  fix x y z :: "'a Student"
  assume "x \<in> {s. comparable opts s}" "y \<in> {s. comparable opts s}" "z \<in> {s. comparable opts s}"
    "compare_students opts x y \<le> 0" "compare_students opts y z \<le> 0"
  then show "compare_students opts x z \<le> 0"
    using ascending_trans [of opts x y z] ascending_trans [of opts z y x] by (simp add: compare_ascending split: if_splits)
qed (use ascending_total in \<open>auto simp: compare_ascending split: if_splits\<close>)

text \<open>
  The order the options ask for, apart from the comparison of the program: by the number of the student, in the order of the dictionary, or
  by the score and among students of one score by the number; from the first to the last with direction 1, else reversed.
\<close>

fun earlier :: "string \<Rightarrow> 'd::linorder Student \<Rightarrow> 'd Student \<Rightarrow> bool" where
  "earlier key l r =
     (if key = ''score'' then case (total l, total r) of (Num a, Num b) \<Rightarrow> a < b \<or> a = b \<and> sid l \<le> sid r | _ \<Rightarrow> False
      else sid l \<le> sid r)"

definition in_order :: "Options \<Rightarrow> 'd::linorder Student \<Rightarrow> 'd Student \<Rightarrow> bool" where
  "in_order opts l r \<longleftrightarrow> (if sort_direction opts = 1 then earlier (sort_key opts) l r else earlier (sort_key opts) r l)"

lemma strcmp_le: "strcmp a b \<le> 0 \<longleftrightarrow> a \<le> b"
  by (induction a b rule: strcmp.induct) auto

lemma compare_in_order:
  "comparable opts l \<Longrightarrow> comparable opts r \<Longrightarrow> compare_students opts l r \<le> 0 \<longleftrightarrow> in_order opts l r"
  unfolding compare_ascending
  by (cases "total l"; cases "total r")
    (auto simp: in_order_def ascending_def compare_students_def comparable_def strcmp_le)

text \<open>
  C34: \<^verbatim>\<open>sort_student_list\<close> ends and returns the students of the list, none lost or doubled, in the order the options ask for:
  by score and then by number, or by number alone, ascending or descending.  If the list is sorted by score, no score of it is a NaN.
\<close>

theorem sort_student_list_sorts:
  assumes "\<forall>s \<in> set head. sort_key opts = ''score'' \<longrightarrow> total s \<noteq> NaN"
  shows "mset (sort_student_list opts head) = mset head \<and> sorted_wrt (in_order opts) (sort_student_list opts head)"
proof -
  have c: "comparable opts s" if "s \<in> set (sort_student_list opts head)" for s
    using that assms by (auto simp: comparable_def)
  have "sorted_wrt (\<lambda>l r. compare_students opts l r \<le> 0) (sort_student_list opts head)"
    using st.sorted_sort [of head opts] assms by (auto simp: comparable_def)
  then have "sorted_wrt (in_order opts) (sort_student_list opts head)"
    by (rule sorted_wrt_mono_rel [rotated]) (use compare_in_order [OF c c] in blast)
  then show ?thesis by simp
qed

definition opts0 :: Options where
  "opts0 = \<lparr>modify_scores = False, print_scores = False, print_wrong = False, thread_all = False, sort_enabled = False,
     error_enabled = False, output_name = None, error_name = None, sort_key = [], sort_direction = 0, display_ids = [],
     thread_questions = []\<rparr>"

definition pupil :: "string \<Rightarrow> nat double \<Rightarrow> nat Student" where
  "pupil s t = \<lparr>sid = s, scores = [t], total = t, wrong = []\<rparr>"

lemmas sort_eval = sort_student_list.simps compare_students_def pupil_def opts0_def

theorem sort_student_list_sorts_witness:
  "sorted_wrt (in_order (opts0\<lparr>sort_key := ''score'', sort_direction := - 1\<rparr>))
     (sort_student_list (opts0\<lparr>sort_key := ''score'', sort_direction := - 1\<rparr>) [pupil ''a'' (Num 1), pupil ''c'' (Num 2), pupil ''b'' (Num 2)]) \<and>
   sort_student_list (opts0\<lparr>sort_key := ''score'', sort_direction := - 1\<rparr>) [pupil ''a'' (Num 1), pupil ''c'' (Num 2), pupil ''b'' (Num 2)] =
     [pupil ''c'' (Num 2), pupil ''b'' (Num 2), pupil ''a'' (Num 1)]"
proof
  let ?l = "[pupil ''a'' (Num 1), pupil ''c'' (Num 2), pupil ''b'' (Num 2)]"
  let ?o = "opts0\<lparr>sort_key := ''score'', sort_direction := - 1\<rparr>"
  show "sorted_wrt (in_order ?o) (sort_student_list ?o ?l)"
    using sort_student_list_sorts [of ?l ?o] by (simp add: pupil_def)
  show "sort_student_list ?o ?l = [pupil ''c'' (Num 2), pupil ''b'' (Num 2), pupil ''a'' (Num 1)]"
    by (simp add: sort_eval)
qed

text \<open>
  A NaN breaks the order: sorted by score, a student with two points comes before one with one point.  A NaN is a score
  the table may hold, since the test for a negative number lets it through.
\<close>

theorem sort_nan_unsorted:
  "sort_student_list (opts0\<lparr>sort_key := ''score'', sort_direction := 1\<rparr>)
     [pupil ''a'' (Num 2), pupil ''d'' (Num 3), pupil ''b'' NaN, pupil ''c'' (Num 1)] =
   [pupil ''a'' (Num 2), pupil ''b'' NaN, pupil ''c'' (Num 1), pupil ''d'' (Num 3)]"
  by (simp add: sort_eval)

subsection \<open>The command line\<close>

definition is_option_name :: "string \<Rightarrow> bool" where
  "is_option_name t \<longleftrightarrow> t \<in> {''-n'', ''-m'', ''-c'', ''-p'', ''-t'', ''-s'', ''-e'', ''-h''}"

datatype option_error =
    IdsTwice string | MissingArgument string | DuplicateOption string | InvalidKey string | InvalidDirection string
  | UnknownOption string | NotCsv string

record scan =
  opts :: Options
  printed :: string
  seen_n :: bool
  seen_m :: bool
  seen_t :: bool
  seen_s :: bool
  seen_e :: bool

text \<open>
  The arguments up to the next option, at most \<^verbatim>\<open>MAX_OPTION_ARGS\<close> of them; the others are named in a warning.  The identifiers after \<^verbatim>\<open>-c\<close>
  and \<^verbatim>\<open>-p\<close> go to the same place, which only one of the two may fill.
\<close>

definition exceeded :: "string list \<Rightarrow> string" where
  "exceeded args = (if length args \<le> 5 then []
     else ''Maximum Number of Argument Exceeded. ::'' @ concat (map (\<lambda>a. CHR '' '' # a) (drop 5 args)) @ [CHR 0x0A])"

definition add_limited_arguments :: "string list \<Rightarrow> string list \<Rightarrow> bool \<Rightarrow> option_error + (string list \<times> string \<times> string list)" where
  "add_limited_arguments rest destination shared =
     (let args = takeWhile (\<lambda>a. \<not> is_option_name a) rest; rest = dropWhile (\<lambda>a. \<not> is_option_name a) rest in
      if shared \<and> destination \<noteq> [] \<and> args \<noteq> [] then Inl (IdsTwice (hd args))
      else Inr (if shared \<and> destination \<noteq> [] then destination else take 5 args, exceeded args, rest))"

lemma add_limited_shorter: "add_limited_arguments rest d s = Inr (d', out, rest') \<Longrightarrow> length rest' \<le> length rest"
  by (auto simp: add_limited_arguments_def Let_def length_dropWhile_le split: if_splits)

function parse_loop :: "scan \<Rightarrow> string list \<Rightarrow> option_error + scan" where
  "parse_loop st [] = Inr st"
| "parse_loop st (arg # rest) =
     (if arg = ''-n'' then
        (if seen_n st then Inl (DuplicateOption arg)
         else case rest of [] \<Rightarrow> Inl (MissingArgument arg)
           | x # rest \<Rightarrow> parse_loop (st\<lparr>opts := (opts st)\<lparr>output_name := Some x\<rparr>, seen_n := True\<rparr>) rest)
      else if arg = ''-m'' then
        (if seen_m st then Inl (DuplicateOption arg)
         else parse_loop (st\<lparr>opts := (opts st)\<lparr>modify_scores := True\<rparr>, seen_m := True\<rparr>) rest)
      else if arg = ''-c'' \<or> arg = ''-p'' then
        (if (if arg = ''-c'' then print_scores (opts st) else print_wrong (opts st)) then Inl (DuplicateOption arg)
         else let opts1 = (if arg = ''-c'' then (opts st)\<lparr>print_scores := True\<rparr> else (opts st)\<lparr>print_wrong := True\<rparr>) in
           case add_limited_arguments rest (display_ids opts1) True of Inl e \<Rightarrow> Inl e
           | Inr (ids, out, rest) \<Rightarrow> parse_loop (st\<lparr>opts := opts1\<lparr>display_ids := ids\<rparr>, printed := printed st @ out\<rparr>) rest)
      else if arg = ''-t'' then
        (if seen_t st then Inl (DuplicateOption arg)
         else case add_limited_arguments rest (thread_questions (opts st)) False of Inl e \<Rightarrow> Inl e
           | Inr (qs, out, rest) \<Rightarrow>
               parse_loop (st\<lparr>opts := (opts st)\<lparr>thread_questions := qs, thread_all := (qs = [])\<rparr>, printed := printed st @ out,
                 seen_t := True\<rparr>) rest)
      else if arg = ''-s'' then
        (if seen_s st then Inl (DuplicateOption arg)
         else case rest of
           key # direction # rest \<Rightarrow>
             if key \<noteq> ''stdid'' \<and> key \<noteq> ''score'' then Inl (InvalidKey key)
             else if direction \<noteq> ''1'' \<and> direction \<noteq> ''-1'' then Inl (InvalidDirection direction)
             else parse_loop (st\<lparr>opts := (opts st)\<lparr>sort_key := key, sort_direction := (if direction = ''1'' then 1 else - 1),
               sort_enabled := True\<rparr>, seen_s := True\<rparr>) rest
         | _ \<Rightarrow> Inl (MissingArgument arg))
      else if arg = ''-e'' then
        (if seen_e st then Inl (DuplicateOption arg)
         else case rest of [] \<Rightarrow> Inl (MissingArgument arg)
           | x # rest \<Rightarrow> parse_loop (st\<lparr>opts := (opts st)\<lparr>error_name := Some x, error_enabled := True\<rparr>, seen_e := True\<rparr>) rest)
      else Inl (UnknownOption arg))"
  by pat_completeness auto
termination
  by (relation "measure (length \<circ> snd)") (auto dest: add_limited_shorter)

declare parse_loop.simps(2) [simp del]

definition scan0 :: scan where
  "scan0 = \<lparr>opts = opts0, printed = [], seen_n = False, seen_m = False, seen_t = False, seen_s = False, seen_e = False\<rparr>"

definition parse_options :: "string list \<Rightarrow> option_error + (Options \<times> string)" where
  "parse_options argv =
     (case parse_loop scan0 (drop 3 argv) of Inl e \<Rightarrow> Inl e
      | Inr st \<Rightarrow>
          case output_name (opts st) of
            Some n \<Rightarrow> if \<not> has_suffix n ''.csv'' then Inl (NotCsv n) else Inr (opts st, printed st)
          | None \<Rightarrow> Inr (opts st, printed st))"

text \<open>A command line that asks for given options.\<close>

definition render :: "Options \<Rightarrow> string list" where
  "render w =
     (case output_name w of None \<Rightarrow> [] | Some n \<Rightarrow> [''-n'', n]) @
     (if modify_scores w then [''-m''] else []) @
     (if print_scores w then ''-c'' # display_ids w else []) @
     (if print_wrong w then ''-p'' # (if print_scores w then [] else display_ids w) else []) @
     (if thread_all w \<or> thread_questions w \<noteq> [] then ''-t'' # thread_questions w else []) @
     (if sort_enabled w then [''-s'', sort_key w, if sort_direction w = 1 then ''1'' else ''-1''] else []) @
     (case error_name w of None \<Rightarrow> [] | Some n \<Rightarrow> [''-e'', n])"

definition options_ok :: "Options \<Rightarrow> bool" where
  "options_ok w \<longleftrightarrow>
     length (display_ids w) \<le> 5 \<and> length (thread_questions w) \<le> 5 \<and>
     (\<forall>a \<in> set (display_ids w) \<union> set (thread_questions w). \<not> is_option_name a) \<and>
     (display_ids w \<noteq> [] \<longrightarrow> print_scores w \<or> print_wrong w) \<and>
     (thread_all w \<longrightarrow> thread_questions w = []) \<and>
     (if sort_enabled w then sort_key w \<in> {''stdid'', ''score''} \<and> sort_direction w \<in> {1, - 1}
      else sort_key w = [] \<and> sort_direction w = 0) \<and>
     (error_enabled w \<longleftrightarrow> error_name w \<noteq> None) \<and>
     (\<forall>n. output_name w = Some n \<longrightarrow> has_suffix n ''.csv'')"

definition at_option :: "string list \<Rightarrow> bool" where
  "at_option rest \<longleftrightarrow> rest = [] \<or> is_option_name (hd rest)"

lemma add_limited_stop:
  assumes "at_option rest" "\<forall>a \<in> set args. \<not> is_option_name a" "length args \<le> 5" "\<not> (shared \<and> d \<noteq> [] \<and> args \<noteq> [])"
  shows "add_limited_arguments (args @ rest) d shared = Inr (if shared \<and> d \<noteq> [] then d else args, [], rest)"
proof -
  have "takeWhile (\<lambda>a. \<not> is_option_name a) rest = []" "dropWhile (\<lambda>a. \<not> is_option_name a) rest = rest"
    using assms(1) by (cases rest; auto simp: at_option_def)+
  then show ?thesis
    using assms by (auto simp: add_limited_arguments_def Let_def exceeded_def takeWhile_append2 dropWhile_append2)
qed

lemma option_names [simp]:
  "is_option_name ''-n''" "is_option_name ''-m''" "is_option_name ''-c''" "is_option_name ''-p''" "is_option_name ''-t''"
  "is_option_name ''-s''" "is_option_name ''-e''"
  by (simp_all add: is_option_name_def)

lemma at_option_if [simp]: "at_option rest \<Longrightarrow> is_option_name x \<Longrightarrow> at_option ((if b then x # xs else []) @ rest)"
  by (simp add: at_option_def)

lemma at_option_case [simp]: "is_option_name x \<Longrightarrow> at_option (case y of None \<Rightarrow> [] | Some n \<Rightarrow> [x, n])"
  by (simp add: at_option_def split: option.splits)

text \<open>Each part of the rendered command line sets its fields, which were at their defaults before.\<close>

lemma parse_e:
  "\<not> seen_e st \<Longrightarrow> error_name (opts st) = None \<Longrightarrow> \<not> error_enabled (opts st) \<Longrightarrow>
   parse_loop st (case n of None \<Rightarrow> [] | Some n \<Rightarrow> [''-e'', n]) =
   Inr (st\<lparr>opts := (opts st)\<lparr>error_name := n, error_enabled := (n \<noteq> None)\<rparr>, seen_e := (n \<noteq> None)\<rparr>)"
  by (cases n; cases st; cases "opts st") (simp_all add: parse_loop.simps)

lemma parse_s:
  "\<not> seen_s st \<Longrightarrow> sort_key (opts st) = [] \<Longrightarrow> sort_direction (opts st) = 0 \<Longrightarrow> \<not> sort_enabled (opts st) \<Longrightarrow>
   (if b then key \<in> {''stdid'', ''score''} \<and> dir \<in> {1, - 1} else key = [] \<and> dir = 0) \<Longrightarrow>
   parse_loop st ((if b then [''-s'', key, if dir = 1 then ''1'' else ''-1''] else []) @ rest) =
   parse_loop (st\<lparr>opts := (opts st)\<lparr>sort_key := key, sort_direction := dir, sort_enabled := b\<rparr>, seen_s := b\<rparr>) rest"
  by (cases b; cases st; cases "opts st") (auto simp: parse_loop.simps(2))

lemma parse_t:
  "\<not> seen_t st \<Longrightarrow> thread_questions (opts st) = [] \<Longrightarrow> \<not> thread_all (opts st) \<Longrightarrow> at_option rest \<Longrightarrow>
   \<forall>a \<in> set qs. \<not> is_option_name a \<Longrightarrow> length qs \<le> 5 \<Longrightarrow> (all \<Longrightarrow> qs = []) \<Longrightarrow>
   parse_loop st ((if all \<or> qs \<noteq> [] then ''-t'' # qs else []) @ rest) =
   parse_loop (st\<lparr>opts := (opts st)\<lparr>thread_questions := qs, thread_all := all\<rparr>, seen_t := (all \<or> qs \<noteq> [])\<rparr>) rest"
  using add_limited_stop [of rest qs False "[]"]
  by (cases all; cases "qs = []"; cases st; cases "opts st") (auto simp: parse_loop.simps(2))

lemma parse_p:
  "\<not> print_wrong (opts st) \<Longrightarrow> at_option rest \<Longrightarrow> \<forall>a \<in> set ids. \<not> is_option_name a \<Longrightarrow> length ids \<le> 5 \<Longrightarrow>
   ids = [] \<or> display_ids (opts st) = [] \<Longrightarrow> (\<not> b \<Longrightarrow> ids = []) \<Longrightarrow>
   parse_loop st ((if b then ''-p'' # ids else []) @ rest) =
   parse_loop (st\<lparr>opts := (opts st)\<lparr>print_wrong := b, display_ids := display_ids (opts st) @ ids\<rparr>\<rparr>) rest"
  using add_limited_stop [of rest ids True "display_ids (opts st)"]
  by (cases b; cases st; cases "opts st") (auto simp: parse_loop.simps(2))

lemma parse_c:
  "\<not> print_scores (opts st) \<Longrightarrow> at_option rest \<Longrightarrow> \<forall>a \<in> set ids. \<not> is_option_name a \<Longrightarrow> length ids \<le> 5 \<Longrightarrow>
   display_ids (opts st) = [] \<Longrightarrow>
   parse_loop st ((if b then ''-c'' # ids else []) @ rest) =
   parse_loop (st\<lparr>opts := (opts st)\<lparr>print_scores := b, display_ids := (if b then ids else [])\<rparr>\<rparr>) rest"
  using add_limited_stop [of rest ids True "[]"] by (cases b; cases st; cases "opts st") (auto simp: parse_loop.simps(2))

lemma parse_m:
  "\<not> seen_m st \<Longrightarrow> \<not> modify_scores (opts st) \<Longrightarrow>
   parse_loop st ((if b then [''-m''] else []) @ rest) = parse_loop (st\<lparr>opts := (opts st)\<lparr>modify_scores := b\<rparr>, seen_m := b\<rparr>) rest"
  by (cases b; cases st; cases "opts st") (simp_all add: parse_loop.simps(2))

lemma parse_n:
  "\<not> seen_n st \<Longrightarrow> output_name (opts st) = None \<Longrightarrow>
   parse_loop st ((case n of None \<Rightarrow> [] | Some n \<Rightarrow> [''-n'', n]) @ rest) =
   parse_loop (st\<lparr>opts := (opts st)\<lparr>output_name := n\<rparr>, seen_n := (n \<noteq> None)\<rparr>) rest"
  by (cases n; cases st; cases "opts st") (simp_all add: parse_loop.simps(2))

text \<open>
  C36: for every record of options that the program can act on, the command line that spells it out is parsed to that record
  without a warning; in particular the identifiers, given once, serve both \<^verbatim>\<open>-c\<close> and \<^verbatim>\<open>-p\<close>.
\<close>

theorem parse_options_render:
  assumes "options_ok w"
  shows "parse_options (program # students # answers # render w) = Inr (w, [])"
proof -
  note ok = assms [unfolded options_ok_def]
  define ids where "ids = (if print_scores w then [] else display_ids w)"
  have ids: "\<forall>a \<in> set ids. \<not> is_option_name a" "length ids \<le> 5" "\<not> print_wrong w \<Longrightarrow> ids = []"
    "print_scores w \<Longrightarrow> ids = []" "(if print_scores w then display_ids w else []) @ ids = display_ids w"
    using ok by (auto simp: ids_def)
  have e: "(error_name w \<noteq> None) = error_enabled w" and t: "thread_all w \<Longrightarrow> thread_questions w = []"
    and s: "if sort_enabled w then sort_key w \<in> {''stdid'', ''score''} \<and> sort_direction w \<in> {1, - 1}
      else sort_key w = [] \<and> sort_direction w = 0"
    and l: "length (display_ids w) \<le> 5" "length (thread_questions w) \<le> 5" "\<forall>a \<in> set (display_ids w). \<not> is_option_name a"
      "\<forall>a \<in> set (thread_questions w). \<not> is_option_name a"
    using ok by blast+
  have d: "ids = [] \<or> (if print_scores w then display_ids w else []) = []" by (simp add: ids_def)
  note steps = parse_n parse_m parse_c [OF _ _ l(3,1)] parse_p [OF _ _ ids(1,2) _ ids(3)] parse_t [OF _ _ _ _ l(4,2) t] parse_s [OF _ _ _ _ s] parse_e
  have "\<exists>st. parse_loop scan0 (render w) = Inr st \<and> opts st = w \<and> printed st = []"
    unfolding render_def ids_def [symmetric] scan0_def opts0_def
    by (simp add: steps ids(5) d e [simplified] split del: if_split)
  then show ?thesis
    using ok by (auto simp: parse_options_def split: option.splits)
qed

theorem parse_options_render_witness:
  "parse_options [''ssu_score'', ''S'', ''A'', ''-n'', ''r.csv'', ''-c'', ''s1'', ''-p'', ''-t'', ''-s'', ''score'', ''-1''] =
   Inr (opts0\<lparr>output_name := Some ''r.csv'', print_scores := True, print_wrong := True, display_ids := [''s1''], thread_all := True,
     sort_enabled := True, sort_key := ''score'', sort_direction := - 1\<rparr>, [])"
  using parse_options_render [of "opts0\<lparr>output_name := Some ''r.csv'', print_scores := True, print_wrong := True,
      display_ids := [''s1''], thread_all := True, sort_enabled := True, sort_key := ''score'', sort_direction := - 1\<rparr>"
      "''ssu_score''" "''S''" "''A''"]
  by (simp add: options_ok_def render_def opts0_def is_option_name_def has_suffix_def)

subsection \<open>The score table\<close>

fun find_from :: "'d Question list \<Rightarrow> string \<Rightarrow> nat \<Rightarrow> nat option" where
  "find_from [] n i = None"
| "find_from (q # qs) n i = (if strcmp (qname q) n = 0 \<or> strcmp (stem q) n = 0 then Some i else find_from qs n (Suc i))"

definition find_question :: "'d Question list \<Rightarrow> string \<Rightarrow> nat option" where
  "find_question qs n = find_from qs n 0"


text \<open>
  The parameter \<open>strtod\<close> gives for a text the value, how many characters of it the numeral has and whether \<^verbatim>\<open>errno\<close> has been set.
\<close>

type_synonym 'd strtod = "string \<Rightarrow> 'd double \<times> nat \<times> bool"

definition parse_nonnegative_double :: "'d::{linorder,zero} strtod \<Rightarrow> string \<Rightarrow> 'd double option" where
  "parse_nonnegative_double strtod t =
     (let (v, n, errno) = strtod t; end = dropWhile isspace (drop n t) in
      if errno \<or> n = 0 \<or> end \<noteq> [] \<or> lt v (Num 0) then None else Some v)"





text \<open>A NaN passes the test for a negative number.\<close>

lemma parse_accepts_nan: "strtod ''nan'' = (NaN, 3, False) \<Longrightarrow> parse_nonnegative_double strtod ''nan'' = Some NaN"
  by (simp add: parse_nonnegative_double_def)































subsection \<open>Targets of options\<close>

fun find_student :: "'d Student list \<Rightarrow> string \<Rightarrow> 'd Student option" where
  "find_student [] n = None"
| "find_student (s # ss) n = (if strcmp (sid s) n = 0 then Some s else find_student ss n)"

datatype target_error = NoStudent string | NoProgram string

fun check_students :: "'d Student list \<Rightarrow> string list \<Rightarrow> target_error option" where
  "check_students ss [] = None"
| "check_students ss (n # ns) = (if find_student ss n = None then Some (NoStudent n) else check_students ss ns)"

fun check_programs :: "'q Question list \<Rightarrow> string list \<Rightarrow> target_error option" where
  "check_programs qs [] = None"
| "check_programs qs (n # ns) =
     (case find_question qs n of None \<Rightarrow> Some (NoProgram n)
      | Some i \<Rightarrow> if qtype (qs ! i) \<noteq> QUESTION_PROGRAM then Some (NoProgram n) else check_programs qs ns)"

definition validate_option_targets :: "Options \<Rightarrow> 'd Student list \<Rightarrow> 'q Question list \<Rightarrow> target_error option" where
  "validate_option_targets w ss qs =
     (case check_students ss (display_ids w) of Some e \<Rightarrow> Some e | None \<Rightarrow> check_programs qs (thread_questions w))"

definition selected_for_thread :: "Options \<Rightarrow> 'q Question \<Rightarrow> bool" where
  "selected_for_thread w q =
     (if \<not> thread_all w \<and> thread_questions w = [] then False
      else if thread_all w then qtype q = QUESTION_PROGRAM
      else \<exists>n \<in> set (thread_questions w). strcmp (qname q) n = 0 \<or> strcmp (stem q) n = 0)"

definition selected_for_display :: "Options \<Rightarrow> 'd Student \<Rightarrow> bool" where
  "selected_for_display w s = (if display_ids w = [] then True else \<exists>n \<in> set (display_ids w). strcmp (sid s) n = 0)"

subsection \<open>Grading\<close>

text \<open>
  What the host system contributes to the grade of a program: whether the diagnostics could be kept, the status of the compiler and the
  number of its warnings, how the run ended and what it printed.  The arithmetic of doubles is a parameter.
\<close>

record outcome =
  preserved :: bool
  compile_status :: int
  warnings :: nat
  run_status :: int
  timed_out :: bool
  stdout :: "string option"

record 'd arith =
  zero :: "'d double"
  add :: "'d double \<Rightarrow> 'd double \<Rightarrow> 'd double"
  penalised :: "'d double \<Rightarrow> nat \<Rightarrow> 'd double"

definition grade_program :: "'d arith \<Rightarrow> 'd double Question \<Rightarrow> string option \<Rightarrow> outcome \<Rightarrow> bool \<times> 'd double" where
  "grade_program A q answer r =
     (if \<not> preserved r then (False, zero A)
      else if compile_status r \<noteq> 0 then (False, zero A)
      else if run_status r < 0 \<or> timed_out r \<or> \<not> output_matches (stdout r) answer then (False, zero A)
      else (True, penalised A (score q) (warnings r)))"

text \<open>A submission is missing, the verdict on a blank answer, or the outcome of a program with the output of the model answer.\<close>

datatype submission = Missing | Blank bool | Program outcome "string option"

fun grade_question :: "'d arith \<Rightarrow> 'd double Question \<Rightarrow> submission \<Rightarrow> bool \<times> 'd double" where
  "grade_question A q Missing = (False, zero A)"
| "grade_question A q (Blank correct) = (correct, if correct then score q else zero A)"
| "grade_question A q (Program r answer) = grade_program A q answer r"

definition add_wrong :: "nat \<Rightarrow> 'd Student \<Rightarrow> 'd Student" where
  "add_wrong q s = s\<lparr>wrong := wrong s @ [q]\<rparr>"

fun grade_loop :: "'d arith \<Rightarrow> nat \<Rightarrow> ('d double Question \<times> submission) list \<Rightarrow> 'd Student \<Rightarrow> 'd Student" where
  "grade_loop A index [] s = s"
| "grade_loop A index ((q, sub) # qs) s =
     (let (correct, earned) = grade_question A q sub;
          s = s\<lparr>scores := (scores s)[index := earned], total := add A (total s) earned\<rparr> in
      grade_loop A (Suc index) qs (if \<not> correct then add_wrong index s else s))"

definition grade_students :: "'d arith \<Rightarrow> 'd double Question list \<Rightarrow> ('d Student \<Rightarrow> submission list) \<Rightarrow> 'd Student list \<Rightarrow> 'd Student list" where
  "grade_students A qs submissions ss = map (\<lambda>s. grade_loop A 0 (zip qs (submissions s)) s) ss"

lemma grade_loop_sound:
  assumes "length (scores s) = index + length qs"
  shows "grade_loop A index qs s =
    s\<lparr>scores := take index (scores s) @ map (\<lambda>(q, sub). snd (grade_question A q sub)) qs,
      total := foldl (add A) (total s) (map (\<lambda>(q, sub). snd (grade_question A q sub)) qs),
      wrong := wrong s @ map fst (filter (\<lambda>(i, q, sub). \<not> fst (grade_question A q sub)) (zip [index..<index + length qs] qs))\<rparr>"
  using assms
proof (induction qs arbitrary: index s)
  case (Cons x qs)
  obtain q sub where x [simp]: "x = (q, sub)" by (cases x)
  obtain c e where g: "grade_question A q sub = (c, e)" by (cases "grade_question A q sub")
  have u: "take (Suc index) ((scores s)[index := e]) = take index (scores s) @ [e]"
    using Cons.prems by (simp add: take_Suc_conv_app_nth take_update_cancel)
  have z: "zip [index..<index + length (x # qs)] (x # qs) = (index, x) # zip [Suc index..<Suc index + length qs] qs"
    by (simp add: upt_conv_Cons del: upt_Suc)
  show ?case
    unfolding z using Cons.prems u by (simp add: g Cons.IH add_wrong_def)
qed simp

end
