(* ===== verification/Spec2Isabelle.thy ===== *)
theory Spec2Isabelle
  imports Ext2_Output Xv6_Cache Xv6_CS Xv6_ML Xv6_Paging Xv6_Descriptors Xv6_Processes Xv6_Console Xv6_Malloc Xv6_Shell Score_Tree Score_Grade
begin

text \<open>
  A verification of the C programs of the repository: the ext2 image shell \<^verbatim>\<open>ssu_ext2\<close>, the grading program \<^verbatim>\<open>ssu_score\<close> and the kernels of two xv6
  forks, \<^verbatim>\<open>xv6-continuous-sector-fs\<close> (below: CS) and \<^verbatim>\<open>xv6-lazy-allocation-multilevel-fs\<close> (below: LZ).  The forks share
  most files; a theory names the fork it is translated from, and shared files are modelled once.

  \<^bold>\<open>Conventions.\<close>  C's unsigned integers are words of their width and wrap; signed results are \<open>int\<close>.  A struct is a
  record, an enumeration a datatype.  A pointer into a table is an index, a pointer into kernel memory an address.  In the
  kernel theories \<open>None\<close> is a call of \<^verbatim>\<open>panic\<close>, or an operation that cannot go on before another process acts (a held
  lock, a full log); where the code goes to sleep and that matters, it is a result of its own.  What the code does under one
  spin lock is one operation, and interleaving is interleaving of such operations.  Loops are structural recursion, \<open>function\<close>
  with a termination proof, or, where a loop counter may wrap, \<open>partial_function\<close>, with a proof that it returns in the
  theorems that say so.  The recursion of the tree printer of \<^verbatim>\<open>ssu_ext2\<close> ends by the limit the source
  has, a depth of 4096; no model has fuel of its own.

  \<^bold>\<open>The ext2 shell\<close> (\<^verbatim>\<open>src/ssu_ext2/ssu_ext2.c\<close>).
  \<^item> \<^verbatim>\<open>Ext2_Image\<close>: \<^verbatim>\<open>image_read\<close> and its \<^verbatim>\<open>pread\<close> loop, \<^verbatim>\<open>ext2_open\<close>, \<^verbatim>\<open>ext2_read_inode\<close>, \<^verbatim>\<open>ext2_read_pointer\<close> and
    \<^verbatim>\<open>ext2_data_block\<close>.  Shown: whatever \<^verbatim>\<open>pread\<close> answers, a read gives exactly the requested bytes or fails, and when it
    fails; an image that opens satisfies the invariant \<open>ext2_wf\<close> of the reader; the 64-bit arithmetic of the block map follows
    the pointer tree of plain arithmetic; every block number returned lies inside the image, and reading it fails only if
    \<^verbatim>\<open>pread\<close> does; inode lookup is exact.
  \<^item> \<^verbatim>\<open>Ext2_Directory\<close>: the sorted entry list, the directory parser, path resolution.  Shown: listings are sorted and contain
    valid nodes only; parsing inverts encoding; resolution works component by component.
  \<^item> \<^verbatim>\<open>Ext2_Commands\<close>: labels, the tree printer, \<^verbatim>\<open>print\<close>, the tokenizer and the command dispatch.  Shown: the tokenizer that
    writes into the line it reads equals the pure one, and quoting round trips.
  \<^item> \<^verbatim>\<open>Ext2_Output\<close>: what the commands print.  Shown: the visited bitmap is used inside its bounds (an interpretation of the locale
    \<open>bit_table\<close>); the prefix buffer is two bytes too small for an entry that is not last; \<^verbatim>\<open>print\<close> writes the whole file exactly when every block
    resolves and is delivered, \<^verbatim>\<open>print -n\<close> its first lines; which numerals \<^verbatim>\<open>print -n\<close> accepts.

  \<^bold>\<open>The file systems of the kernels.\<close>
  \<^item> \<^verbatim>\<open>Xv6_Log\<close> (\<^verbatim>\<open>log.c\<close>, both forks): the state is the platter, the buffer cache, the log and the trace of sector writes.
    Shown: a commit interrupted at any write recovers to the old or the new contents; recovery can be interrupted and
    repeated; calls within their reservation cannot overrun the log if the region has room for \<^verbatim>\<open>LOGSIZE\<close> blocks, and can with
    the region \<^verbatim>\<open>mkfs\<close> lays out, which is one block smaller.
  \<^item> \<^verbatim>\<open>Xv6_Cache\<close> (\<^verbatim>\<open>bio.c\<close>, both forks, over \<^verbatim>\<open>memide.c\<close>): the buffers, their list and their sleep locks; \<^verbatim>\<open>brelse\<close> is two
    operations, the unlocking and the section under \<^verbatim>\<open>bcache.lock\<close>.  Shown: under any interleaving of processes the cache implements the device the other theories rest on (\<open>view\<close>), no block is in two buffers, and a buffer counts its users.
  \<^item> \<^verbatim>\<open>Xv6_Blocks\<close> (CS \<^verbatim>\<open>fs.c\<close>, \<^verbatim>\<open>fs.h\<close>): super block, free map, \<^verbatim>\<open>ballocx\<close> and \<^verbatim>\<open>bfree\<close>; the free map is an interpretation of
    \<open>bit_table\<close>.  Shown: the allocator takes the first free data block and zeroes it; freeing inverts it.
  \<^item> \<^verbatim>\<open>Xv6_Inodes\<close> (CS \<^verbatim>\<open>fs.c\<close>): inodes, the inode cache, block maps, \<^verbatim>\<open>readi\<close>, \<^verbatim>\<open>writei\<close>, directories and paths.
  \<^item> \<^verbatim>\<open>Xv6_Files\<close>: the locale \<open>block_map\<close> says what \<^verbatim>\<open>readi\<close> and \<^verbatim>\<open>writei\<close> need from a block map (lookup, append, failure, and when it is
    stuck), and proves once that a write replaces exactly its bytes, that it completes, with all bytes written unless the map is stuck, and that reading
    returns the contents.
  \<^item> \<^verbatim>\<open>Xv6_CS\<close>: the extent map of continuous-sector inodes implements \<open>block_map\<close> (interpretation \<open>cs\<close>).  Shown: \<^verbatim>\<open>csbmap\<close> refines
    lookup and append on the list of blocks; writing and reading back; truncation frees exactly the blocks.
  \<^item> \<^verbatim>\<open>Xv6_ML\<close> (LZ \<^verbatim>\<open>fs.c\<close>): six direct, four single, two double and one triple indirect block.  A node of the tree is named by
    the path of indices to it, and the file is the array of the leaves.  Shown: \<^verbatim>\<open>bmap\<close> grows that array and changes no
    other entry; \<^verbatim>\<open>itrunc\<close> frees exactly the blocks of the tree, and panics when they lie under more than \<^verbatim>\<open>LOGSIZE\<close> map blocks.

  \<^bold>\<open>Memory and processes.\<close>
  \<^item> \<^verbatim>\<open>Xv6_VM\<close> (LZ \<^verbatim>\<open>kalloc.c\<close>, \<^verbatim>\<open>vm.c\<close>, memory calls of \<^verbatim>\<open>sysproc.c\<close>, \<^verbatim>\<open>growproc\<close>, the page fault of \<^verbatim>\<open>trap.c\<close>,
    \<^verbatim>\<open>memmove\<close> and \<^verbatim>\<open>memset\<close>): byte addressed memory that holds page tables, user pages and the links of the free list.
  \<^item> \<^verbatim>\<open>Xv6_Paging\<close>: the free list as a chain in memory (locale \<open>page_stack\<close>, interpretation \<open>km\<close>) and page tables as a flat map
    with an invariant that separates spaces and free pages.  Shown: \<^verbatim>\<open>ssualloc\<close> reserves all its pages or none and takes no user page; a
    fault on a reserved page maps one zeroed page and changes nothing else; shrinking frees exactly the pages of the range;
    giving back all memory with \<^verbatim>\<open>sbrk\<close> frees the pages but reports failure; the allocator's initialisation ends with exactly the pages of
    the range; \<^verbatim>\<open>memmove\<close> copes with overlap.
  \<^item> \<^verbatim>\<open>Xv6_Pipe\<close> (\<^verbatim>\<open>pipe.c\<close>): the ring buffer is a bounded queue (locale \<open>bounded_queue\<close>, interpretation \<open>pq\<close>).  Shown: first in, first
    out across wrap-around of the counters under any interleaving; a killed writer may leave without waking the readers.
  \<^item> \<^verbatim>\<open>Xv6_Syscalls\<close> and \<^verbatim>\<open>Xv6_Descriptors\<close> (CS \<^verbatim>\<open>syscall.c\<close>, \<^verbatim>\<open>file.c\<close>, \<^verbatim>\<open>sysfile.c\<close>, formats of \<^verbatim>\<open>console.c\<close>): arguments from user
    memory, the open file table and the file system calls.  Shown: arguments accepted lie inside the process; the count of an open
    file is the number of its references after any sequence of calls; the name kept by \<^verbatim>\<open>open\<close> is the last path element.
  \<^item> \<^verbatim>\<open>Xv6_Proc\<close> and \<^verbatim>\<open>Xv6_Processes\<close> (CS \<^verbatim>\<open>proc.c\<close>, parts of \<^verbatim>\<open>vm.c\<close> and \<^verbatim>\<open>sysproc.c\<close>): the process table, the scheduler on several
    processors, \<^verbatim>\<open>fork\<close>, \<^verbatim>\<open>exit\<close>, \<^verbatim>\<open>wait\<close>, \<^verbatim>\<open>sleep\<close>, \<^verbatim>\<open>wakeup\<close> and \<^verbatim>\<open>kill\<close>.  The step relation \<open>pstep\<close> mixes their locked sections
    in any order.  Shown: numbers are unique, a process runs on one processor, parents live, and no process sleeps in \<^verbatim>\<open>wait\<close> with
    a child that has exited; \<^verbatim>\<open>kill(0)\<close> marks a free entry and so kills the next process created.
  \<^item> \<^verbatim>\<open>Xv6_Console\<close> (\<^verbatim>\<open>console.c\<close>, both forks): the input ring, filled by interrupts and emptied by reads.  Shown: it refines an editor
    of one line in front of a queue of finished lines.
  \<^item> \<^verbatim>\<open>Xv6_Malloc\<close> (\<^verbatim>\<open>umalloc.c\<close>, both forks): the ring of free blocks of user programs, over \<^verbatim>\<open>sbrk\<close>.  Shown: a program's blocks lie in its heap, are
    big enough and never overlap, and the searches end; a request near 4 GB gets a block without memory.
  \<^item> \<^verbatim>\<open>Xv6_Shell\<close> (\<^verbatim>\<open>sh.c\<close>, both forks): the parser of the shell, over the line that it terminates in place.  Shown: it ends on every line, keeps every word
    whole, and reads the text of every command back.

  \<^bold>\<open>The grading program\<close> (\<^verbatim>\<open>src/ssu_score\<close>).
  \<^item> \<^verbatim>\<open>Score_Blank\<close> (\<^verbatim>\<open>blank.c\<close>): the comparison of the syntax trees of two answers, which changes the second tree.  Shown: without
    relations and equalities it decides a recursive specification; an answer equal to the model answer is accepted if no
    relation is under a commuting operator; one that is may crash it.
  \<^item> \<^verbatim>\<open>Score_Tree\<close> (\<^verbatim>\<open>blank.c\<close>): the parser \<^verbatim>\<open>make_tree\<close>, with its nodes linked in a heap and its faults as values.  Shown: the operands of a commuting operator come to lie
    under one node, so that parsing and comparing accept them in any order; a call that is not closed reads
    behind the tokens.
  \<^item> \<^verbatim>\<open>Score_Grade\<close> (\<^verbatim>\<open>ssu_score.c\<close>): the option parser, the score table, the comparison of output, grading and the merge sort of the
    results, whose laws of the comparison are the locale \<open>student_order\<close>.  Shown: options round trip; the score table does up to the two decimals it is
    printed with, and is stable; output is compared up to case and white space; the sort gives the order of the options, which is stated apart from the comparison.
    Parameters are \<^verbatim>\<open>strtod\<close>, of which it is assumed that it reads decimal numerals to the nearest double (\<open>reads_decimals\<close>), and what compiling
    and running a program yields.

  \<^verbatim>\<open>Prelude\<close> holds the machine integers, byte order, C string order, and the locale \<open>bit_table\<close>.

  \<^bold>\<open>How the parts meet.\<close>  \<open>fsys\<close> extends the device of \<^verbatim>\<open>Xv6_Log\<close> with super block, inode cache and devices; \<open>kern\<close> of
  \<^verbatim>\<open>Xv6_Syscalls\<close> joins it with the open files, the memory of \<^verbatim>\<open>Xv6_VM\<close> and the pipes; \<open>sys\<close> of \<^verbatim>\<open>Xv6_Proc\<close> joins \<open>kern\<close> with the process
  table.  \<^verbatim>\<open>balloc\<close> and \<^verbatim>\<open>bfree\<close> run on \<^verbatim>\<open>log_write\<close>, block maps on \<^verbatim>\<open>balloc\<close>, files on block maps, calls on files, and \<^verbatim>\<open>fork\<close> and \<^verbatim>\<open>exit\<close>
  on open files and address spaces.

  \<^bold>\<open>Not modelled.\<close>  Spin locks and interrupt flags (an operation is what runs under a lock); \<^verbatim>\<open>exec.c\<close>; the screen, keyboard decoding, traps other than page faults, drivers and
  boot code, which are input and output; \<^verbatim>\<open>mkfs.c\<close>, whose layout is the predicate \<open>layout_ok\<close>; user programs other than the allocator and the shell's parser, and tests; of \<^verbatim>\<open>ssu_score\<close> what
  walks directories and drives compilers and processes of the host, and the tokenizer \<^verbatim>\<open>make_tokens\<close>, which reads before the start of its array; \<^verbatim>\<open>ssu_cleanup\<close>, a C++ program.  Failing memory allocation and the answers of
  \<^verbatim>\<open>pread\<close> in the shell are the parameters \<open>can_alloc\<close> and \<open>preads\<close> of an open image; the answers are given for each range that is read.
\<close>

end
